(* ===== verification/Prelude.thy ===== *)
theory Prelude
  imports "HOL-Library.Word" "HOL-Library.Char_ord"
begin

text \<open>
  Shared vocabulary of the development: the outcome of a C operation that may stop
  abnormally, the few functions of the C library the sources call (\<open>string.h\<close>,
  \<open>ctype.h\<close>), blocks of memory as lists, and the generic lemmas on them.

  A C string is the list of its bytes before the terminating zero byte; the zero byte itself
  is written out only where the source stores it in a buffer (the staging buffer, the
  in-memory files).  Characters are read as unsigned bytes in the C locale.
\<close>

section \<open>Outcomes\<close>

text \<open>
  A failed \<open>assert\<close>, a fatal compiler error (\<open>error()\<close> with a number in 100..199 does
  not return), an access outside the block a pointer points to, a null dereference, a
  \<open>longjmp\<close> to a handler of the caller, a loop that does not end, and an operation whose result
  the C standard leaves undefined.
\<close>

datatype fault = AssertFailed | FatalError nat | OutOfBounds | NullDeref | LongJmp nat | NoReturn | Undefined

type_synonym 'a res = "fault + 'a"

definition bindR :: "'a res \<Rightarrow> ('a \<Rightarrow> 'b res) \<Rightarrow> 'b res" where
  "bindR m f = (case m of Inl e \<Rightarrow> Inl e | Inr x \<Rightarrow> f x)"

definition assertR :: "bool \<Rightarrow> 'a res \<Rightarrow> 'a res" where
  "assertR b m = (if b then m else Inl AssertFailed)"

named_theorems res_simps \<open>evaluation of outcomes\<close>
named_theorems cstring_simps \<open>characters and C strings\<close>

lemma bindR_simps [simp, res_simps]:
  "bindR (Inl e) f = Inl e"
  "bindR (Inr x) f = f x"
  by (simp_all add: bindR_def)

lemma assertR_simps [simp, res_simps]:
  "assertR True m = m"
  "assertR False m = Inl AssertFailed"
  by (simp_all add: assertR_def)

lemma bindR_Inr_iff [res_simps]: "bindR m f = Inr y \<longleftrightarrow> (\<exists>x. m = Inr x \<and> f x = Inr y)"
  by (cases m) auto

lemma assertR_Inr_iff [res_simps]: "assertR b m = Inr y \<longleftrightarrow> b \<and> m = Inr y"
  by (cases b) auto

lemma bindR_cong [fundef_cong]:
  "m = m' \<Longrightarrow> (\<And>x. m' = Inr x \<Longrightarrow> f x = g x) \<Longrightarrow> bindR m f = bindR m' g"
  by (cases m') auto

text \<open>What the source can observe of a null pointer: reading through it.\<close>

definition derefR :: "'a option \<Rightarrow> 'a res" where
  "derefR p = (case p of None \<Rightarrow> Inl NullDeref | Some x \<Rightarrow> Inr x)"

lemma derefR_simps [simp, res_simps]: "derefR None = Inl NullDeref" "derefR (Some x) = Inr x"
  by (simp_all add: derefR_def)

lemma derefR_Inr_iff [res_simps]: "derefR p = Inr x \<longleftrightarrow> p = Some x"
  by (cases p) auto

lemma find_in: "find P xs = Some x \<Longrightarrow> x \<in> set xs \<and> P x"
  by (induction xs) (auto split: if_splits)

section \<open>Machine types\<close>

text \<open>The compiler is built with \<open>PAWN_CELL_SIZE\<close> 32 (the default of \<open>amx.h\<close>).\<close>

type_synonym cell = "32 word"

abbreviation cell_bytes :: nat where "cell_bytes \<equiv> 4"

abbreviation NUL :: char where "NUL \<equiv> CHR 0x00"
abbreviation TAB :: char where "TAB \<equiv> CHR 0x09"
abbreviation LF :: char where "LF \<equiv> CHR 0x0A"
abbreviation CR :: char where "CR \<equiv> CHR 0x0D"

text \<open>\<open>size_t\<close> arithmetic of the 32-bit build.\<close>

definition size_t :: "int \<Rightarrow> nat" where
  "size_t i = nat (i mod 2 ^ 32)"

text \<open>Conversion of a \<open>size_t\<close> to the signed \<open>long\<close> of the same width.\<close>

definition to_long :: "nat \<Rightarrow> int" where
  "to_long n = signed_take_bit 31 (int n)"

lemma to_long_id [simp]: "n < 2 ^ 31 \<Longrightarrow> to_long n = int n"
  unfolding to_long_def by (rule signed_take_bit_int_eq_self) auto

lemma size_t_id [simp]: "0 \<le> i \<Longrightarrow> i < 2 ^ 32 \<Longrightarrow> size_t i = nat i"
  by (simp add: size_t_def)

lemma sint_unat: "unat (x :: cell) < 2 ^ 31 \<Longrightarrow> sint x = int (unat x)"
proof -
  define n where "n = unat x"
  assume "unat x < 2 ^ 31"
  then have "n < 2 ^ 31" by (simp add: n_def)
  then have "signed_take_bit 31 (int n) = int n"
    by (intro signed_take_bit_int_eq_self) simp_all
  moreover have "uint x = int n" by (simp add: n_def)
  ultimately show ?thesis by (simp add: sint_uint)
qed

section \<open>Character classes\<close>

definition isdigit :: "char \<Rightarrow> bool" where
  "isdigit c \<longleftrightarrow> CHR ''0'' \<le> c \<and> c \<le> CHR ''9''"

definition isupper :: "char \<Rightarrow> bool" where
  "isupper c \<longleftrightarrow> CHR ''A'' \<le> c \<and> c \<le> CHR ''Z''"

definition islower :: "char \<Rightarrow> bool" where
  "islower c \<longleftrightarrow> CHR ''a'' \<le> c \<and> c \<le> CHR ''z''"

definition isalpha :: "char \<Rightarrow> bool" where
  "isalpha c \<longleftrightarrow> isupper c \<or> islower c"

definition isspace :: "char \<Rightarrow> bool" where
  "isspace c \<longleftrightarrow> c = CHR '' '' \<or> CHR 0x09 \<le> c \<and> c \<le> CHR 0x0D"

definition tolower :: "char \<Rightarrow> char" where
  "tolower c = (if CHR ''A'' \<le> c \<and> c \<le> CHR ''Z'' then char_of (of_char c + 32 :: nat) else c)"

section \<open>C strings\<close>

text \<open>A list of bytes that can be the contents of a C string.\<close>

definition cstring :: "string \<Rightarrow> bool" where
  "cstring s \<longleftrightarrow> NUL \<notin> set s"

lemma cstring_simps' [simp, cstring_simps]:
  "cstring []"
  "cstring (x # xs) \<longleftrightarrow> x \<noteq> NUL \<and> cstring xs"
  "cstring (xs @ ys) \<longleftrightarrow> cstring xs \<and> cstring ys"
  by (auto simp: cstring_def)

lemma cstring_take [intro, simp]: "cstring s \<Longrightarrow> cstring (take n s)"
  by (auto simp: cstring_def dest: in_set_takeD)

lemma cstring_drop [intro, simp]: "cstring s \<Longrightarrow> cstring (drop n s)"
  by (auto simp: cstring_def dest: in_set_dropD)

lemma takeWhile_cstring [simp]: "cstring s \<Longrightarrow> takeWhile (\<lambda>c. c \<noteq> NUL) s = s"
  by (auto simp: cstring_def takeWhile_eq_all_conv)

lemma takeWhile_stop [simp]: "c \<notin> set k \<Longrightarrow> takeWhile (\<lambda>x. x \<noteq> c) (k @ c # s) = k"
  by (induction k) auto

text \<open>The C string that starts at a place in memory.\<close>

definition cstr_of :: "string \<Rightarrow> string" where
  "cstr_of buf = takeWhile (\<lambda>c. c \<noteq> NUL) buf"



text \<open>
  The C standard fixes the sign of the result only, and the sources test only the sign: the
  model returns -1, 0 or 1.  Bytes are compared unsigned; the end of a list is the terminating
  zero byte, which is smaller than every byte of a string.
\<close>

fun strcmp :: "string \<Rightarrow> string \<Rightarrow> int" where
  "strcmp [] [] = 0"
| "strcmp [] (y # ys) = - 1"
| "strcmp (x # xs) [] = 1"
| "strcmp (x # xs) (y # ys) = (if x = y then strcmp xs ys else if x < y then - 1 else 1)"

definition strncmp :: "string \<Rightarrow> string \<Rightarrow> nat \<Rightarrow> int" where
  "strncmp xs ys n = strcmp (take n xs) (take n ys)"

definition stricmp :: "string \<Rightarrow> string \<Rightarrow> int" where
  "stricmp xs ys = strcmp (map tolower xs) (map tolower ys)"

lemma strcmp_0_iff [simp, cstring_simps]: "strcmp a b = 0 \<longleftrightarrow> a = b"
  by (induction a b rule: strcmp.induct) auto

lemma strcmp_self [simp, cstring_simps]: "strcmp a a = 0"
  by simp

lemma strcmp_anti: "strcmp b a = - strcmp a b"
  by (induction a b rule: strcmp.induct) auto

lemma strcmp_range: "strcmp a b \<in> {- 1, 0, 1}"
  by (induction a b rule: strcmp.induct) auto

lemma strcmp_le_trans: "strcmp a b \<le> 0 \<Longrightarrow> strcmp b c \<le> 0 \<Longrightarrow> strcmp a c \<le> 0"
proof (induction a b arbitrary: c rule: strcmp.induct)
  case (4 x xs y ys)
  then show ?case by (cases c) (auto split: if_splits)
next
  case 1
  then show ?case by simp
next
  case (2 y ys)
  then show ?case by (cases c) auto
qed simp

text \<open>
  The names that a sorted table of the compiler is ordered by: lists of bytes under
  \<open>strcmp\<close>, as an instance of the library's linear orders, so that the library's
  \<open>sorted\<close> and its lemmas apply to the tables.
\<close>

datatype cname = CName (chars: string)

instantiation cname :: linorder
begin

definition less_eq_cname :: "cname \<Rightarrow> cname \<Rightarrow> bool" where
  "less_eq_cname a b \<longleftrightarrow> strcmp (chars a) (chars b) \<le> 0"

definition less_cname :: "cname \<Rightarrow> cname \<Rightarrow> bool" where
  "less_cname a b \<longleftrightarrow> strcmp (chars a) (chars b) < 0"

instance
proof
  fix a b c :: cname
  have anti: "strcmp (chars b) (chars a) = - strcmp (chars a) (chars b)"
    by (rule strcmp_anti)
  show "a < b \<longleftrightarrow> a \<le> b \<and> \<not> b \<le> a"
    using anti by (auto simp: less_cname_def less_eq_cname_def)
  show "a \<le> a" by (simp add: less_eq_cname_def)
  show "a \<le> c" if "a \<le> b" "b \<le> c"
    using that strcmp_le_trans by (auto simp: less_eq_cname_def)
  show "a = b" if "a \<le> b" "b \<le> a"
    using that anti by (auto simp: less_eq_cname_def cname.expand)
  show "a \<le> b \<or> b \<le> a"
    using anti by (auto simp: less_eq_cname_def)
qed

end

lemma CName_le_iff: "CName a \<le> CName b \<longleftrightarrow> strcmp a b \<le> 0"
  by (simp add: less_eq_cname_def)

lemma CName_less_iff: "CName a < CName b \<longleftrightarrow> strcmp a b < 0"
  by (simp add: less_cname_def)

lemmas cname_order = CName_le_iff [symmetric] CName_less_iff [symmetric]

text \<open>The first bytes of strings in order are in order.\<close>

lemma strcmp_hd_mono: "strcmp a b \<le> 0 \<Longrightarrow> a \<noteq> [] \<Longrightarrow> b \<noteq> [] \<Longrightarrow> hd a \<le> hd b"
  by (cases a; cases b) (auto split: if_splits)

text \<open>\<open>strchr\<close>, as the offset of the first occurrence.\<close>

fun strchr :: "string \<Rightarrow> char \<Rightarrow> nat option" where
  "strchr [] c = None"
| "strchr (x # xs) c = (if x = c then Some 0 else map_option Suc (strchr xs c))"

lemma strchr_None [cstring_simps]: "strchr s c = None \<longleftrightarrow> c \<notin> set s"
  by (induction s) auto

lemma strchr_Some:
  "strchr s c = Some p \<Longrightarrow> p < length s \<and> take (Suc p) s = takeWhile (\<lambda>x. x \<noteq> c) s @ [c]"
  by (induction s arbitrary: p) auto

lemma strchr_Some_in: "strchr s c = Some p \<Longrightarrow> c \<in> set s"
  by (metis option.distinct(1) strchr_None)

text \<open>Prefixes of strings in order are in order.\<close>

lemma strcmp_take_mono: "strcmp a b \<le> 0 \<Longrightarrow> strcmp (take n a) (take n b) \<le> 0"
proof (induction a b arbitrary: n rule: strcmp.induct)
  case (4 x xs y ys)
  then show ?case by (cases n) (auto split: if_splits)
qed (auto simp: take_Cons' split: if_splits)

lemma strncmp_0_iff: "strncmp a b n = 0 \<longleftrightarrow> take n a = take n b"
  by (simp add: strncmp_def)

text \<open>A byte as the (signed) plain \<open>char\<close> of the C compiler, widened to \<open>int\<close>.\<close>

definition schar :: "char \<Rightarrow> int" where
  "schar c = (let n = of_char c :: int in if n < 128 then n else n - 256)"

lemma schar_inj [simp]: "schar c = schar d \<longleftrightarrow> c = d"
proof
  assume eq: "schar c = schar d"
  define m n where "m = (of_char c :: nat)" and "n = (of_char d :: nat)"
  have lt: "m < 256" "n < 256" by (simp_all add: m_def n_def)
  have "(of_char c :: int) = int m" "(of_char d :: int) = int n"
    by (simp_all only: m_def n_def of_nat_of_char)
  with eq have "(if int m < 128 then int m else int m - 256) = (if int n < 128 then int n else int n - 256)"
    by (simp only: schar_def Let_def)
  then have "m = n" using lt by (simp split: if_splits)
  then show "c = d" by (simp add: m_def n_def)
qed simp

definition ascii :: "char \<Rightarrow> bool" where
  "ascii c \<longleftrightarrow> (of_char c :: nat) < 128"

lemma schar_ascii: "ascii c \<Longrightarrow> schar c = int (of_char c)"
proof -
  assume a: "ascii c"
  have "(of_char c :: int) = int (of_char c)" by (simp only: of_nat_of_char)
  with a show ?thesis by (simp add: schar_def ascii_def Let_def)
qed

lemma schar_diff_less: "ascii c \<Longrightarrow> ascii d \<Longrightarrow> schar c - schar d < 0 \<longleftrightarrow> c < d"
  by (simp add: schar_ascii less_char_def)

lemma schar_diff_0: "ascii c \<Longrightarrow> ascii d \<Longrightarrow> schar c - schar d = 0 \<longleftrightarrow> c = d"
  by (simp add: schar_ascii)

text \<open>\<open>sprintf\<close> of \<open>%x\<close>, and of \<open>%04x\<close> and its kin.\<close>

definition hex_digit :: "nat \<Rightarrow> char" where
  "hex_digit d = (if d < 10 then char_of (48 + d) else char_of (97 + (d - 10)))"

fun hex_digits :: "nat \<Rightarrow> string" where
  "hex_digits n = (if n < 16 then [hex_digit n] else hex_digits (n div 16) @ [hex_digit (n mod 16)])"

declare hex_digits.simps [simp del]

definition pad0 :: "nat \<Rightarrow> string \<Rightarrow> string" where
  "pad0 w s = replicate (w - length s) (CHR ''0'') @ s"

text \<open>The value of a hexadecimal digit.\<close>

definition hex_val :: "char \<Rightarrow> nat option" where
  "hex_val c =
     (if CHR ''0'' \<le> c \<and> c \<le> CHR ''9'' then Some (of_char c - 48)
      else if CHR ''a'' \<le> c \<and> c \<le> CHR ''f'' then Some (of_char c - 87)
      else if CHR ''A'' \<le> c \<and> c \<le> CHR ''F'' then Some (of_char c - 55) else None)"

lemma hex_digit_table:
  "\<forall>d\<in>set [0..<16]. hex_digit d \<in> set ''0123456789abcdef'' \<and> hex_val (hex_digit d) = Some d
     \<and> (isdigit (hex_digit d) \<longleftrightarrow> d < 10)"
  by code_simp

lemma hex_val_digit [simp]: "d < 16 \<Longrightarrow> hex_val (hex_digit d) = Some d"
  using hex_digit_table by simp

lemma hex_digits_nonempty [simp]: "hex_digits n \<noteq> []"
  by (simp add: hex_digits.simps [of n])

lemma hex_digits_chars: "c \<in> set (hex_digits n) \<Longrightarrow> \<exists>d<16. c = hex_digit d"
proof (induction n rule: hex_digits.induct)
  case (1 n)
  show ?case
  proof (cases "n < 16")
    case True
    then show ?thesis using 1 by (auto simp: hex_digits.simps [of n])
  next
    case False
    then have "c \<in> set (hex_digits (n div 16)) \<or> c = hex_digit (n mod 16)"
      using "1.prems" by (auto simp: hex_digits.simps [of n])
    moreover have "n mod 16 < 16" by simp
    ultimately show ?thesis using "1.IH" False by blast
  qed
qed

section \<open>Blocks of memory\<close>

text \<open>
  A block that \<open>malloc\<close> returned is the list of its elements.  What fresh memory contains
  is not determined: it is a parameter \<open>junk\<close> of the operations that allocate.
  \<open>memcpy\<close> and \<open>memmove\<close> into a block stay inside it or fail.
\<close>

definition fresh :: "(nat \<Rightarrow> 'a) \<Rightarrow> nat \<Rightarrow> 'a list" where
  "fresh junk n = map junk [0..<n]"

lemma length_fresh [simp]: "length (fresh junk n) = n"
  by (simp add: fresh_def)

definition blit :: "'a list \<Rightarrow> nat \<Rightarrow> 'a list \<Rightarrow> 'a list res" where
  "blit dst pos src =
     (if pos + length src \<le> length dst
      then Inr (take pos dst @ src @ drop (pos + length src) dst) else Inl OutOfBounds)"

definition peek :: "'a list \<Rightarrow> nat \<Rightarrow> nat \<Rightarrow> 'a list res" where
  "peek blk pos n = (if pos + n \<le> length blk then Inr (take n (drop pos blk)) else Inl OutOfBounds)"

lemma blit_Inr_iff [res_simps]:
  "blit dst pos src = Inr r \<longleftrightarrow> pos + length src \<le> length dst
     \<and> r = take pos dst @ src @ drop (pos + length src) dst"
  by (auto simp: blit_def)

lemma length_blit: "blit dst pos src = Inr r \<Longrightarrow> length r = length dst"
  by (auto simp: blit_Inr_iff)

lemma peek_Inr_iff [res_simps]:
  "peek blk pos n = Inr r \<longleftrightarrow> pos + n \<le> length blk \<and> r = take n (drop pos blk)"
  by (auto simp: peek_def)

text \<open>What was copied is read back; what was not overwritten is unchanged.\<close>

lemma peek_blit_same: "blit dst pos src = Inr r \<Longrightarrow> peek r pos (length src) = Inr src"
  by (auto simp: blit_Inr_iff peek_def)

lemma take_blit: "blit dst pos src = Inr r \<Longrightarrow> take (pos + length src) r = take pos dst @ src"
  by (auto simp: blit_Inr_iff)

end
