(* ===== verification/Memfile.thy ===== *)
theory Memfile
  imports Prelude
begin

text \<open>
  The in-memory files that hold the intermediate assembler text:
  \<open>amx/compiler/libpc300/memfile.c\<close> (the growing block with a file pointer) and
  \<open>scmemfil.c\<close> (the text-file operations of the compiler on top of it).  The outcome of each
  allocation and the contents of fresh memory are parameters of the operations that allocate.
\<close>

section \<open>memfile.c\<close>

record memfile =
  mname :: "string option"
  base :: "char list option"
  offs :: int
  usedoffs :: int
  msize :: nat
  mstatic :: bool

definition memfile_creat ::
  "string \<Rightarrow> nat \<Rightarrow> (nat \<Rightarrow> char) \<Rightarrow> bool \<Rightarrow> bool \<Rightarrow> bool \<Rightarrow> memfile option res" where
  "memfile_creat name init junk ok_base ok_mf ok_name =
     (if \<not> ok_base then Inr None
      else if \<not> ok_mf then Inl NullDeref
      else Inr (Some \<lparr>mname = (if ok_name then Some name else None),
                      base = Some (fresh junk init), offs = 0, usedoffs = 0,
                      msize = init, mstatic = False\<rparr>))"

text \<open>What remains allocated after the call.\<close>

definition memfile_destroy :: "memfile \<Rightarrow> memfile option" where
  "memfile_destroy mf = (if \<not> mstatic mf then None else Some mf)"

definition memfile_seek :: "memfile \<Rightarrow> int \<Rightarrow> memfile" where
  "memfile_seek mf seek = mf\<lparr>offs := seek\<rparr>"

definition memfile_tell :: "memfile \<Rightarrow> int" where
  "memfile_tell mf = offs mf"

text \<open>A block at a possibly negative offset from a pointer.\<close>

definition peek_at :: "char list \<Rightarrow> int \<Rightarrow> nat \<Rightarrow> char list res" where
  "peek_at blk pos n = (if pos < 0 then Inl OutOfBounds else peek blk (nat pos) n)"

definition blit_at :: "char list \<Rightarrow> int \<Rightarrow> char list \<Rightarrow> char list res" where
  "blit_at blk pos src = (if pos < 0 then Inl OutOfBounds else blit blk (nat pos) src)"

text \<open>The bytes copied to the caller's buffer; the C result is their number.\<close>

definition memfile_read :: "memfile \<Rightarrow> nat \<Rightarrow> (char list \<times> memfile) res" where
  "memfile_read mf maxsize =
     (if maxsize = 0 \<or> offs mf \<ge> usedoffs mf then Inr ([], mf)
      else
        let n = (if usedoffs mf - offs mf < to_long maxsize
                 then size_t (usedoffs mf - offs mf) else maxsize) in
        if n = 0 then Inr ([], mf)
        else bindR (derefR (base mf)) (\<lambda>b.
             bindR (peek_at b (offs mf) n) (\<lambda>data.
               Inr (data, mf\<lparr>offs := offs mf + int n\<rparr>))))"

text \<open>
  Growing: a static block is copied into a new one, an allocated block is reallocated.  A
  failed allocation leaves a null \<open>base\<close> behind and makes the write return 0.
\<close>

definition memfile_grow :: "memfile \<Rightarrow> nat \<Rightarrow> (nat \<Rightarrow> char) \<Rightarrow> bool \<Rightarrow> (bool \<times> memfile) res" where
  "memfile_grow mf newsize junk ok =
     (if \<not> ok then Inr (False, mf\<lparr>base := None\<rparr>)
      else if mstatic mf then
        bindR (derefR (base mf)) (\<lambda>old.
        bindR (peek old 0 (msize mf)) (\<lambda>src.
        bindR (blit (fresh junk newsize) 0 src) (\<lambda>b.
          Inr (True, mf\<lparr>base := Some b, mstatic := False, msize := newsize\<rparr>))))
      else
        let old = (case base mf of None \<Rightarrow> [] | Some b \<Rightarrow> b) in
        Inr (True, mf\<lparr>base := Some (take newsize old @ drop (length old) (fresh junk newsize)),
                      mstatic := False, msize := newsize\<rparr>))"

definition memfile_write :: "memfile \<Rightarrow> char list \<Rightarrow> (nat \<Rightarrow> char) \<Rightarrow> bool \<Rightarrow> (bool \<times> memfile) res" where
  "memfile_write mf buffer junk ok =
     (let sz = length buffer in
      bindR (if size_t (offs mf + int sz) > msize mf
             then memfile_grow mf (size_t (int (msize mf + sz) * 2)) junk ok
             else Inr (True, mf)) (\<lambda>(grown, mf1).
        if \<not> grown then Inr (False, mf1)
        else
          bindR (derefR (base mf1)) (\<lambda>b.
          bindR (blit_at b (offs mf1) buffer) (\<lambda>b'.
            let o' = offs mf1 + int sz in
            Inr (True, mf1\<lparr>base := Some b', offs := o',
                           usedoffs := (if o' > usedoffs mf1 then o' else usedoffs mf1)\<rparr>)))))"

section \<open>scmemfil.c\<close>

datatype whence = SEEK_SET | SEEK_CUR | SEEK_END

definition mfcreate :: "string \<Rightarrow> (nat \<Rightarrow> char) \<Rightarrow> bool \<Rightarrow> bool \<Rightarrow> bool \<Rightarrow> memfile option res" where
  "mfcreate filename = memfile_creat filename 4096"

definition mfclose :: "memfile \<Rightarrow> memfile option" where
  "mfclose mf = memfile_destroy mf"

text \<open>
  The bytes that reach the file, and the result.  \<open>fwrite\<close> is asked for one item of
  \<open>usedoffs\<close> bytes and returns the number of items written, 0 for items of no bytes.
\<close>

definition mfdump :: "memfile \<Rightarrow> bool \<Rightarrow> bool \<Rightarrow> (char list option \<times> bool) res" where
  "mfdump mf ok_open ok_write =
     (if \<not> ok_open then Inr (None, False)
      else
        bindR (if usedoffs mf = 0 then Inr [] else
               bindR (derefR (base mf)) (\<lambda>b. peek_at b 0 (size_t (usedoffs mf)))) (\<lambda>data.
          let items = (if ok_write \<and> usedoffs mf \<noteq> 0 then 1 else 0 :: nat) in
          Inr (if ok_write then Some data else None, items = size_t (usedoffs mf))))"

definition mflength :: "memfile \<Rightarrow> int" where
  "mflength mf = usedoffs mf"

definition mfseek :: "memfile \<Rightarrow> int \<Rightarrow> whence \<Rightarrow> (int \<times> memfile) res" where
  "mfseek mf offset wh =
     (if usedoffs mf = 0 then Inr (0, mf)
      else
        let len = mflength mf in
        bindR (case wh of
                 SEEK_SET \<Rightarrow> Inr offset
               | SEEK_CUR \<Rightarrow> Inr (offset + offs mf)
               | SEEK_END \<Rightarrow> assertR (offset \<le> 0) (Inr (offset + len))) (\<lambda>off1.
          let off2 = (if off1 < 0 then 0 else if off1 > len then len else off1) in
          Inr (off2, memfile_seek mf off2)))"

definition mfwrite :: "memfile \<Rightarrow> char list \<Rightarrow> (nat \<Rightarrow> char) \<Rightarrow> bool \<Rightarrow> (nat \<times> memfile) res" where
  "mfwrite mf buffer junk ok =
     bindR (memfile_write mf buffer junk ok) (\<lambda>(done, mf').
       Inr (if done then length buffer else 0, mf'))"

definition mfread :: "memfile \<Rightarrow> nat \<Rightarrow> (char list \<times> memfile) res" where
  "mfread mf sz = memfile_read mf sz"

text \<open>The string left in the caller's buffer, or a null result.\<close>

definition mfgets :: "memfile \<Rightarrow> nat \<Rightarrow> (string option \<times> memfile) res" where
  "mfgets mf sz =
     bindR (mfread mf sz) (\<lambda>(data, mf1).
       let nread = length data in
       if nread = 0 then Inr (None, mf1)
       else
         let (buf, seek0) =
               (if nread < sz then (data, 0) else (take (sz - 1) data, - 1));
             str = cstr_of buf;
             (str', seek) =
               (case strchr str LF of
                  Some p \<Rightarrow> (take (Suc p) str, int p + 1 - int nread)
                | None \<Rightarrow> (str, seek0)) in
         assertR (seek \<le> 0)
           (if seek \<noteq> 0 then bindR (mfseek mf1 seek SEEK_CUR) (\<lambda>(_, mf2). Inr (Some str', mf2))
            else Inr (Some str', mf1)))"

definition mfputs :: "memfile \<Rightarrow> string \<Rightarrow> (nat \<Rightarrow> char) \<Rightarrow> bool \<Rightarrow> (bool \<times> memfile) res" where
  "mfputs mf str junk ok =
     (let len = length str in
      bindR (mfwrite mf str junk ok) (\<lambda>(written, mf'). Inr (written = len, mf')))"

section \<open>The interface of a text file\<close>

text \<open>
  What the writer and the reader of a text file rely on.  A line is the text up to and with
  the first line feed, cut after \<open>n\<close> characters.
\<close>

definition first_line :: "nat \<Rightarrow> string \<Rightarrow> string" where
  "first_line n s = (let t = take n s in
     if LF \<in> set t then takeWhile (\<lambda>c. c \<noteq> LF) t @ [LF] else t)"

lemma first_line_nonempty: "s \<noteq> [] \<Longrightarrow> 0 < n \<Longrightarrow> first_line n s \<noteq> []"
  by (auto simp: first_line_def Let_def)

lemma length_first_line: "length (first_line n s) \<le> length s"
proof -
  have "length (takeWhile (\<lambda>c. c \<noteq> LF) t) < length t" if "LF \<in> set t" for t
    using that by (induction t) auto
  then show ?thesis by (fastforce simp: first_line_def Let_def)
qed

function split_lines :: "nat \<Rightarrow> string \<Rightarrow> string list" where
  "split_lines n s =
     (if s = [] \<or> n = 0 then []
      else first_line n s # split_lines n (drop (length (first_line n s)) s))"
  by pat_completeness auto
termination
  by (relation "measure (\<lambda>(n, s). length s)") (auto simp: first_line_nonempty)

declare split_lines.simps [simp del]

lemma split_lines_Nil [simp]: "split_lines n [] = []"
  by (simp add: split_lines.simps)

lemma split_lines_step:
  "s \<noteq> [] \<Longrightarrow> 0 < n \<Longrightarrow>
   split_lines n s = first_line n s # split_lines n (drop (length (first_line n s)) s)"
  by (simp add: split_lines.simps [of n s])

text \<open>A line as the code generator writes it: its only line feed is the last character.\<close>

definition text_line :: "nat \<Rightarrow> string \<Rightarrow> bool" where
  "text_line n l \<longleftrightarrow> l \<noteq> [] \<and> last l = LF \<and> LF \<notin> set (butlast l) \<and> length l \<le> n \<and> cstring l"

lemma first_line_text_line: "text_line n l \<Longrightarrow> first_line n (l @ s) = l"
proof -
  assume tl: "text_line n l"
  then obtain k where k: "l = k @ [LF]" "LF \<notin> set k" "length k < n"
    by (cases l rule: rev_cases) (auto simp: text_line_def)
  then obtain m where "n = length k + Suc m" by (metis add_Suc_right less_iff_Suc_add)
  then have "take n (l @ s) = k @ LF # take m s" using k by simp
  then show ?thesis using k by (simp add: first_line_def)
qed

lemma split_lines_concat:
  "list_all (text_line n) ls \<Longrightarrow> split_lines n (concat ls) = ls"
proof (induction ls)
  case (Cons l ls)
  then have l: "text_line n l" by simp
  then have ne: "l @ concat ls \<noteq> []" and n: "0 < n"
    by (auto simp: text_line_def) (use length_greater_0_conv in fastforce)
  show ?case using Cons split_lines_step [OF ne n] by (simp add: first_line_text_line [OF l])
qed simp

text \<open>The loop \<open>while (gets(f, line, size) != NULL) ...\<close>, as the list of the lines it sees.\<close>

fun read_lines :: "('f \<Rightarrow> nat \<Rightarrow> (string option \<times> 'f) res) \<Rightarrow> nat \<Rightarrow> nat \<Rightarrow> 'f \<Rightarrow> string list option" where
  "read_lines gets 0 sz f = None"
| "read_lines gets (Suc fuel) sz f =
     (case gets f sz of
        Inl e \<Rightarrow> None
      | Inr (None, f') \<Rightarrow> Some []
      | Inr (Some l, f') \<Rightarrow> map_option (Cons l) (read_lines gets fuel sz f'))"

text \<open>Writing a sequence of strings; a failing write stops it.\<close>

fun write_lines :: "('f \<Rightarrow> string \<Rightarrow> (bool \<times> 'f) res) \<Rightarrow> string list \<Rightarrow> 'f \<Rightarrow> (bool \<times> 'f) res" where
  "write_lines puts [] f = Inr (True, f)"
| "write_lines puts (l # ls) f =
     bindR (puts f l) (\<lambda>(ok, f'). if ok then write_lines puts ls f' else Inr (False, f'))"

locale text_file =
  fixes inv :: "'f \<Rightarrow> bool"
    and content :: "'f \<Rightarrow> string"
    and pos :: "'f \<Rightarrow> nat"
    and limit :: nat
    and puts :: "'f \<Rightarrow> string \<Rightarrow> (bool \<times> 'f) res"
    and gets :: "'f \<Rightarrow> nat \<Rightarrow> (string option \<times> 'f) res"
    and rewind :: "'f \<Rightarrow> 'f res"
  assumes pos_le: "inv f \<Longrightarrow> pos f \<le> length (content f)"
    and puts_end: "inv f \<Longrightarrow> pos f = length (content f) \<Longrightarrow> length (content f) + length s < limit \<Longrightarrow>
      \<exists>f'. puts f s = Inr (True, f') \<and> inv f' \<and> content f' = content f @ s
        \<and> pos f' = length (content f')"
    and gets_eof: "inv f \<Longrightarrow> 2 \<le> sz \<Longrightarrow> sz < 2 ^ 31 \<Longrightarrow> pos f = length (content f) \<Longrightarrow>
      gets f sz = Inr (None, f)"
    and gets_line: "inv f \<Longrightarrow> 2 \<le> sz \<Longrightarrow> sz < 2 ^ 31 \<Longrightarrow> cstring (content f) \<Longrightarrow>
      pos f < length (content f) \<Longrightarrow> l = first_line (sz - 1) (drop (pos f) (content f)) \<Longrightarrow>
      \<exists>f'. gets f sz = Inr (Some l, f') \<and> inv f' \<and> content f' = content f \<and> pos f' = pos f + length l"
    and rewind: "inv f \<Longrightarrow>
      \<exists>f'. rewind f = Inr f' \<and> inv f' \<and> content f' = content f \<and> pos f' = 0"
begin

text \<open>The reading loop terminates and sees exactly the lines of the rest of the file.\<close>

lemma read_lines_split:
  assumes "inv f" "2 \<le> sz" "sz < 2 ^ 31" "cstring (content f)"
    and "length (content f) - pos f < fuel"
  shows "read_lines gets fuel sz f = Some (split_lines (sz - 1) (drop (pos f) (content f)))"
  using assms
proof (induction fuel arbitrary: f)
  case (Suc fuel)
  show ?case
  proof (cases "pos f = length (content f)")
    case True
    with Suc.prems show ?thesis by (simp add: gets_eof)
  next
    case False
    with Suc.prems pos_le have lt: "pos f < length (content f)" by (simp add: le_neq_implies_less)
    define l where "l = first_line (sz - 1) (drop (pos f) (content f))"
    obtain f' where f': "gets f sz = Inr (Some l, f')" "inv f'" "content f' = content f"
      "pos f' = pos f + length l"
      using gets_line [OF Suc.prems(1-4) lt l_def] by blast
    have "l \<noteq> []" using lt Suc.prems(2) by (simp add: l_def first_line_nonempty)
    then have "length (content f') - pos f' < fuel"
      using f' Suc.prems(5) lt by (cases l) auto
    then have "read_lines gets fuel sz f' =
        Some (split_lines (sz - 1) (drop (pos f + length l) (content f)))"
      using Suc.IH [OF f'(2)] Suc.prems f' by simp
    then show ?thesis
      using f'(1) lt Suc.prems(2) split_lines_step [of "drop (pos f) (content f)" "sz - 1"]
      by (simp add: l_def add.commute)
  qed
qed simp

lemma write_lines_content:
  assumes "inv f" "pos f = length (content f)" "length (content f) + length (concat ls) < limit"
  shows "\<exists>f'. write_lines puts ls f = Inr (True, f') \<and> inv f' \<and> content f' = content f @ concat ls
           \<and> pos f' = length (content f')"
  using assms
proof (induction ls arbitrary: f)
  case (Cons l ls)
  obtain f' where f': "puts f l = Inr (True, f')" "inv f'" "content f' = content f @ l"
    "pos f' = length (content f')"
    using puts_end [of f l] Cons.prems by auto
  then show ?case using Cons.IH [of f'] Cons.prems by auto
qed simp

text \<open>What was written line by line is read back line by line.\<close>

lemma write_read_lines:
  assumes "inv f" "content f = []" "list_all (text_line (sz - 1)) ls" "2 \<le> sz" "sz < 2 ^ 31"
    and "length (concat ls) < limit" "length (concat ls) < fuel"
  shows "\<exists>f1 f2. write_lines puts ls f = Inr (True, f1) \<and> content f1 = concat ls \<and> rewind f1 = Inr f2
           \<and> read_lines gets fuel sz f2 = Some ls"
proof -
  have "pos f = length (content f)" using pos_le [OF assms(1)] assms(2) by simp
  then obtain f1 where f1: "write_lines puts ls f = Inr (True, f1)" "inv f1" "content f1 = concat ls"
    using write_lines_content [of f ls] assms by auto
  obtain f2 where f2: "rewind f1 = Inr f2" "inv f2" "content f2 = concat ls" "pos f2 = 0"
    using rewind [OF f1(2)] f1 by auto
  have "cstring (concat ls)" using assms(3) by (induction ls) (auto simp: text_line_def)
  then show ?thesis
    using f1 f2 read_lines_split [of f2 sz fuel] split_lines_concat assms(3-5,7)
    by auto
qed

end

section \<open>The in-memory file is a text file\<close>

text \<open>
  The invariant the operations of \<open>scmemfil.c\<close> keep: the block is as large as recorded,
  the file pointer lies in the used part, and the block never grows beyond four times
  the used size, so that the \<open>size_t\<close> computations do not wrap below 128 MiB.
\<close>

definition mf_inv :: "memfile \<Rightarrow> bool" where
  "mf_inv mf \<longleftrightarrow> (\<exists>b. base mf = Some b \<and> length b = msize mf)
     \<and> 0 \<le> offs mf \<and> offs mf \<le> usedoffs mf \<and> usedoffs mf \<le> int (msize mf)
     \<and> int (msize mf) \<le> max 4096 (4 * usedoffs mf) \<and> usedoffs mf < 2 ^ 27"

definition mf_content :: "memfile \<Rightarrow> string" where
  "mf_content mf = (case base mf of None \<Rightarrow> [] | Some b \<Rightarrow> take (nat (usedoffs mf)) b)"

definition mf_pos :: "memfile \<Rightarrow> nat" where
  "mf_pos mf = nat (offs mf)"

lemma mf_invE:
  assumes "mf_inv mf"
  obtains b where "base mf = Some b" "length b = msize mf" "0 \<le> offs mf" "offs mf \<le> usedoffs mf"
    "usedoffs mf \<le> int (msize mf)" "int (msize mf) \<le> max 4096 (4 * usedoffs mf)"
    "usedoffs mf < 2 ^ 27"
  using assms by (auto simp: mf_inv_def)

lemma mf_content_length: "mf_inv mf \<Longrightarrow> length (mf_content mf) = nat (usedoffs mf)"
  by (erule mf_invE) (simp add: mf_content_def)

lemma mf_inv_creat: "mfcreate name junk True True ok = Inr (Some mf) \<Longrightarrow>
    mf_inv mf \<and> mf_content mf = [] \<and> mf_pos mf = 0"
  by (auto simp: mfcreate_def memfile_creat_def mf_inv_def mf_content_def mf_pos_def)

text \<open>Growing keeps the used part.\<close>

lemma memfile_grow_ok:
  assumes "base mf = Some b" "length b = msize mf" "msize mf \<le> newsize"
  shows "\<exists>b'. memfile_grow mf newsize junk True =
           Inr (True, mf\<lparr>base := Some b', mstatic := False, msize := newsize\<rparr>)
         \<and> length b' = newsize \<and> take (msize mf) b' = b"
  using assms by (auto simp: memfile_grow_def peek_def blit_def Let_def)

lemma memfile_write_append:
  assumes inv: "mf_inv mf" and at_end: "offs mf = usedoffs mf"
    and lim: "length (mf_content mf) + length s < 2 ^ 27"
  shows "\<exists>mf'. memfile_write mf s junk True = Inr (True, mf') \<and> mf_inv mf'
           \<and> mf_content mf' = mf_content mf @ s \<and> offs mf' = usedoffs mf'
           \<and> usedoffs mf' = usedoffs mf + int (length s)"
proof -
  from inv obtain b where b: "base mf = Some b" "length b = msize mf" "0 \<le> offs mf"
    "usedoffs mf \<le> int (msize mf)" "int (msize mf) \<le> max 4096 (4 * usedoffs mf)"
    "usedoffs mf < 2 ^ 27" by (rule mf_invE)
  let ?u = "nat (usedoffs mf)"
  have u: "?u \<le> msize mf" "?u + length s < 2 ^ 27"
    using lim b at_end by (auto simp: mf_content_length [OF inv])
  have sz: "size_t (offs mf + int (length s)) = ?u + length s"
    using u b at_end by (subst size_t_id) auto
  define big where "big = (?u + length s > msize mf)"
  have newsz: "size_t (int (msize mf + length s) * 2) = (msize mf + length s) * 2"
    using u b by (subst size_t_id) (auto simp: nat_mult_distrib max_def split: if_splits)
  obtain mf1 b1 where grow:
    "(if size_t (offs mf + int (length s)) > msize mf
      then memfile_grow mf (size_t (int (msize mf + length s) * 2)) junk True
      else Inr (True, mf)) = Inr (True, mf1)"
    and mf1: "base mf1 = Some b1" "length b1 = msize mf1" "take ?u b1 = take ?u b"
      "offs mf1 = offs mf" "usedoffs mf1 = usedoffs mf" "?u + length s \<le> msize mf1"
      "int (msize mf1) \<le> max 4096 (4 * (usedoffs mf + int (length s)))"
  proof (cases big)
    case True
    obtain b' where g: "memfile_grow mf ((msize mf + length s) * 2) junk True =
        Inr (True, mf\<lparr>base := Some b', mstatic := False, msize := (msize mf + length s) * 2\<rparr>)"
      "length b' = (msize mf + length s) * 2" "take (msize mf) b' = b"
      using memfile_grow_ok [of mf b "(msize mf + length s) * 2" junk] b by auto
    have "take ?u b' = take ?u b" using g(3) u(1) by (metis min.absorb1 take_take)
    moreover have "int ((msize mf + length s) * 2) \<le> 4 * (usedoffs mf + int (length s))"
      using True b(3) at_end by (simp add: big_def)
    then have "int ((msize mf + length s) * 2) \<le> max 4096 (4 * (usedoffs mf + int (length s)))"
      by (rule max.coboundedI2)
    ultimately show thesis using True
      using g sz newsz u b by (intro that [of "mf\<lparr>base := Some b', mstatic := False,
          msize := (msize mf + length s) * 2\<rparr>" b']) (auto simp: big_def)
  next
    case False
    then show thesis using b u sz by (intro that [of mf b]) (auto simp: big_def)
  qed
  define mf2 where "mf2 = mf1\<lparr>base := Some (take ?u b1 @ s @ drop (?u + length s) b1),
     offs := offs mf + int (length s), usedoffs := usedoffs mf + int (length s)\<rparr>"
  have "memfile_write mf s junk True = Inr (True, mf2)"
    using grow mf1 at_end b(3) by (simp add: memfile_write_def Let_def blit_at_def blit_def mf2_def)
  moreover have "mf_inv mf2"
    using mf1 b at_end u by (auto simp: mf_inv_def mf2_def)
  moreover have "mf_content mf2 = mf_content mf @ s"
    using mf1 b at_end u by (simp add: mf_content_def mf2_def nat_add_distrib)
  ultimately show ?thesis using at_end by (auto simp: mf2_def)
qed

lemma mfputs_end:
  assumes "mf_inv mf" "mf_pos mf = length (mf_content mf)"
    and "length (mf_content mf) + length s < 2 ^ 27"
  shows "\<exists>mf'. mfputs mf s junk True = Inr (True, mf') \<and> mf_inv mf'
           \<and> mf_content mf' = mf_content mf @ s \<and> mf_pos mf' = length (mf_content mf')"
proof -
  have "offs mf = usedoffs mf"
    using assms(1,2) by (auto simp: mf_content_length mf_pos_def mf_inv_def)
  then obtain mf' where "memfile_write mf s junk True = Inr (True, mf')" "mf_inv mf'"
    "mf_content mf' = mf_content mf @ s" "offs mf' = usedoffs mf'"
    using memfile_write_append [OF assms(1) _ assms(3)] by blast
  then show ?thesis
    using mf_content_length [of mf'] by (auto simp: mfputs_def mfwrite_def Let_def mf_pos_def)
qed

lemma mfread_ok:
  assumes inv: "mf_inv mf" and sz: "0 < sz" "sz < 2 ^ 31"
  defines "rest \<equiv> drop (mf_pos mf) (mf_content mf)"
  shows "mfread mf sz = Inr (take sz rest, mf\<lparr>offs := offs mf + int (length (take sz rest))\<rparr>)"
proof -
  from inv obtain b where b: "base mf = Some b" "length b = msize mf" "0 \<le> offs mf"
    "offs mf \<le> usedoffs mf" "usedoffs mf \<le> int (msize mf)" "usedoffs mf < 2 ^ 27" by (rule mf_invE)
  have len: "length rest = nat (usedoffs mf - offs mf)"
    using b by (simp add: rest_def mf_content_length [OF inv] mf_pos_def nat_diff_distrib)
  show ?thesis
  proof (cases "offs mf = usedoffs mf")
    case True
    then have "rest = []" using len by simp
    then show ?thesis using True by (simp add: mfread_def memfile_read_def)
  next
    case False
    define n where "n = min sz (nat (usedoffs mf - offs mf))"
    have n: "(if usedoffs mf - offs mf < to_long sz then size_t (usedoffs mf - offs mf) else sz) = n"
      using b sz False by (auto simp: min_def n_def)
    have n0: "n \<noteq> 0" using b sz False by (auto simp: n_def)
    have "nat (offs mf) + n \<le> length b" using b False unfolding n_def by linarith
    moreover have "take n (drop (nat (offs mf)) b) = take sz rest"
      using b by (simp add: rest_def mf_content_def mf_pos_def drop_take nat_diff_distrib n_def
          take_take [symmetric] del: take_take)
    ultimately have "peek_at b (offs mf) n = Inr (take sz rest)"
      using b by (simp add: peek_at_def peek_def)
    moreover have "length (take sz rest) = n" using len by (simp add: n_def)
    ultimately show ?thesis
      using n n0 b sz False unfolding mfread_def memfile_read_def by (simp add: Let_def)
  qed
qed

lemma mf_seek_within:
  "mf_inv mf \<Longrightarrow> 0 \<le> p \<Longrightarrow> p \<le> usedoffs mf \<Longrightarrow> mf_inv (mf\<lparr>offs := p\<rparr>)
    \<and> mf_content (mf\<lparr>offs := p\<rparr>) = mf_content mf"
  by (auto simp: mf_inv_def mf_content_def)

text \<open>\<open>mfseek\<close> clamps every target to the file.\<close>

lemma mfseek_clamps:
  assumes "mf_inv mf" "wh = SEEK_END \<longrightarrow> off \<le> 0"
  shows "\<exists>mf'. mfseek mf off wh = Inr (offs mf', mf') \<and> mf_inv mf' \<and> mf_content mf' = mf_content mf
           \<and> offs mf' = max 0 (min (usedoffs mf)
               (case wh of SEEK_SET \<Rightarrow> off | SEEK_CUR \<Rightarrow> off + offs mf | SEEK_END \<Rightarrow> off + usedoffs mf))"
proof (cases "usedoffs mf = 0")
  case True
  then have "offs mf = 0" using assms(1) by (auto simp: mf_inv_def)
  with True assms show ?thesis by (auto simp: mfseek_def split: whence.splits)
next
  case False
  let ?t = "case wh of SEEK_SET \<Rightarrow> off | SEEK_CUR \<Rightarrow> off + offs mf | SEEK_END \<Rightarrow> off + usedoffs mf"
  let ?p = "max 0 (min (usedoffs mf) ?t)"
  have "mfseek mf off wh = Inr (?p, mf\<lparr>offs := ?p\<rparr>)"
    using False assms by (cases wh) (auto simp: mfseek_def Let_def memfile_seek_def mflength_def
        mf_inv_def)
  moreover have "mf_inv (mf\<lparr>offs := ?p\<rparr>) \<and> mf_content (mf\<lparr>offs := ?p\<rparr>) = mf_content mf"
    using assms(1) by (intro mf_seek_within) (auto simp: mf_inv_def)
  ultimately show ?thesis by auto
qed

lemma strchr_takeWhile:
  "strchr s c = Some p \<Longrightarrow> take (Suc p) s = takeWhile (\<lambda>x. x \<noteq> c) s @ [c] \<and> c \<in> set s"
  using strchr_Some strchr_Some_in by blast

lemma mfgets_line:
  assumes inv: "mf_inv mf" and sz: "2 \<le> sz" "sz < 2 ^ 31" and cs: "cstring (mf_content mf)"
    and lt: "mf_pos mf < length (mf_content mf)"
    and l: "l = first_line (sz - 1) (drop (mf_pos mf) (mf_content mf))"
  shows "\<exists>mf'. mfgets mf sz = Inr (Some l, mf') \<and> mf_inv mf' \<and> mf_content mf' = mf_content mf
           \<and> mf_pos mf' = mf_pos mf + length l"
proof -
  define rest where "rest = drop (mf_pos mf) (mf_content mf)"
  define data where "data = take sz rest"
  define str where "str = take (sz - 1) rest"
  have pos: "0 \<le> offs mf" "offs mf \<le> usedoffs mf" using inv by (auto simp: mf_inv_def)
  have rest: "rest \<noteq> []" "cstring rest" "int (length rest) = usedoffs mf - offs mf"
    using lt cs pos by (auto simp: rest_def mf_pos_def mf_content_length [OF inv])
  have rd: "mfread mf sz = Inr (data, mf\<lparr>offs := offs mf + int (length data)\<rparr>)"
    using mfread_ok [OF inv] sz by (simp add: data_def rest_def)
  define seek0 :: int where "seek0 = (if length data < sz then 0 else - 1)"
  have buf: "cstr_of (if length data < sz then data else take (sz - 1) data) = str"
    using rest(2) by (auto simp: data_def str_def cstr_of_def min_def)
  have s0: "seek0 = int (length str) - int (length data)"
    using sz by (auto simp: seek0_def data_def str_def)
  define seek where
    "seek = (case strchr str LF of Some p \<Rightarrow> int p + 1 - int (length data) | None \<Rightarrow> seek0)"
  have lstr: "(case strchr str LF of Some p \<Rightarrow> take (Suc p) str | None \<Rightarrow> str) = l"
    unfolding l first_line_def Let_def rest_def [symmetric] str_def [symmetric]
    by (auto simp: strchr_None dest!: strchr_takeWhile split: option.split)
  have len: "int (length data) + seek = int (length l) \<and> seek \<le> 0"
  proof (cases "strchr str LF")
    case None
    then have "str = l" "seek = seek0" using lstr by (simp_all add: seek_def)
    moreover have "seek0 \<le> 0" by (simp add: seek0_def)
    ultimately show ?thesis using s0 by simp
  next
    case (Some p)
    then have "p < length str" and "l = take (Suc p) str" using strchr_Some lstr by auto
    moreover have "length str \<le> length data" by (simp add: str_def data_def)
    ultimately show ?thesis using Some by (simp add: seek_def)
  qed
  define mf1 where "mf1 = mf\<lparr>offs := offs mf + int (length data)\<rparr>"
  have dle: "int (length data) \<le> usedoffs mf - offs mf" using rest(3) by (auto simp: data_def)
  have mf1: "mf_inv mf1" "mf_content mf1 = mf_content mf" "usedoffs mf1 = usedoffs mf"
    using mf_seek_within [OF inv, of "offs mf + int (length data)"] pos dle by (auto simp: mf1_def)
  have gets: "mfgets mf sz =
      (if seek \<noteq> 0 then bindR (mfseek mf1 seek SEEK_CUR) (\<lambda>(_, mf2). Inr (Some l, mf2))
       else Inr (Some l, mf1))"
  proof -
    have "data \<noteq> []" using rest(1) sz by (simp add: data_def)
    then show ?thesis
      using len buf lstr unfolding mfgets_def rd
      by (cases "strchr str LF") (auto simp: mf1_def seek_def seek0_def Let_def split: if_splits)
  qed
  show ?thesis
  proof (cases "seek = 0")
    case True
    then show ?thesis using gets mf1 len pos by (auto simp: mf1_def mf_pos_def nat_add_distrib)
  next
    case False
    obtain mf2 where "mfseek mf1 seek SEEK_CUR = Inr (offs mf2, mf2)" "mf_inv mf2"
      "mf_content mf2 = mf_content mf1" "offs mf2 = max 0 (min (usedoffs mf1) (seek + offs mf1))"
      using mfseek_clamps [OF mf1(1), of SEEK_CUR seek] by auto
    moreover have "seek + offs mf1 = offs mf + int (length l)" using len by (simp add: mf1_def)
    ultimately show ?thesis
      using False gets mf1 pos dle len by (auto simp: mf_pos_def nat_add_distrib)
  qed
qed

interpretation mf: text_file mf_inv mf_content mf_pos "2 ^ 27" "\<lambda>mf s. mfputs mf s junk True" mfgets
    "\<lambda>mf. bindR (mfseek mf 0 SEEK_SET) (\<lambda>(_, mf'). Inr mf')"
  for junk
proof
  fix f :: memfile and s sz l
  assume inv: "mf_inv f"
  show "mf_pos f \<le> length (mf_content f)"
    using inv by (auto simp: mf_content_length mf_pos_def mf_inv_def)
  show "\<exists>f'. bindR (mfseek f 0 SEEK_SET) (\<lambda>(_, mf'). Inr mf') = Inr f' \<and> mf_inv f'
      \<and> mf_content f' = mf_content f \<and> mf_pos f' = 0"
    using mfseek_clamps [OF inv, of SEEK_SET 0] inv by (auto simp: mf_pos_def mf_inv_def)
  show "mfgets f sz = Inr (None, f)" if "2 \<le> sz" "sz < 2 ^ 31" "mf_pos f = length (mf_content f)"
    using mfread_ok [OF inv, of sz] that by (simp add: mfgets_def)
  show "\<exists>f'. mfputs f s junk True = Inr (True, f') \<and> mf_inv f' \<and> mf_content f' = mf_content f @ s
      \<and> mf_pos f' = length (mf_content f')"
    if "mf_pos f = length (mf_content f)" "length (mf_content f) + length s < 2 ^ 27"
    using mfputs_end [OF inv] that by blast
  show "\<exists>f'. mfgets f sz = Inr (Some l, f') \<and> mf_inv f' \<and> mf_content f' = mf_content f
      \<and> mf_pos f' = mf_pos f + length l"
    if "2 \<le> sz" "sz < 2 ^ 31" "cstring (mf_content f)" "mf_pos f < length (mf_content f)"
      "l = first_line (sz - 1) (drop (mf_pos f) (mf_content f))"
    using mfgets_line [OF inv] that by blast
qed

section \<open>Properties\<close>

text \<open>C24: The assembler text that the compiler writes line by line into the in-memory file
  is exactly what it reads back: after writing any lines that fit the reader's buffer (each ends
  in its only line feed), seeking to the start and reading until \<open>mfgets\<close> returns null, the
  lines are the lines written, and the loop terminates.\<close>

theorem mem_file_roundtrip:
  assumes "mfcreate name junk True True ok = Inr (Some mf)"
    and "list_all (text_line (sz - 1)) ls" "2 \<le> sz" "sz < 2 ^ 31" "length (concat ls) < 2 ^ 27"
    and "length (concat ls) < fuel"
  shows "\<exists>mf1 mf2. write_lines (\<lambda>mf s. mfputs mf s junk True) ls mf = Inr (True, mf1)
           \<and> bindR (mfseek mf1 0 SEEK_SET) (\<lambda>(_, mf'). Inr mf') = Inr mf2
           \<and> read_lines mfgets fuel sz mf2 = Some ls"
  using mf.write_read_lines [of mf sz ls fuel junk] mf_inv_creat [OF assms(1)] assms by blast

theorem mem_file_roundtrip_witness:
  "\<exists>mf mf1 mf2. mfcreate ''a.asm'' (\<lambda>_. CHR ''?'') True True True = Inr (Some mf)
     \<and> write_lines (\<lambda>mf s. mfputs mf s (\<lambda>_. CHR ''?'') True)
         [''halt 0'' @ [LF], ''proc'' @ [LF]] mf = Inr (True, mf1)
     \<and> bindR (mfseek mf1 0 SEEK_SET) (\<lambda>(_, mf'). Inr mf') = Inr mf2
     \<and> read_lines mfgets 13 256 mf2 = Some [''halt 0'' @ [LF], ''proc'' @ [LF]]"
proof -
  let ?ls = "[''halt 0'' @ [LF], ''proc'' @ [LF]]"
  obtain mf where mf: "mfcreate ''a.asm'' (\<lambda>_. CHR ''?'') True True True = Inr (Some mf)"
    by (simp add: mfcreate_def memfile_creat_def)
  have "list_all (text_line (256 - 1)) ?ls" "length (concat ?ls) < 2 ^ 27" "length (concat ?ls) < 13"
    by (simp_all add: text_line_def)
  then show ?thesis
    using mem_file_roundtrip [OF mf, of 256 ?ls 13] mf
    by (simp del: write_lines.simps read_lines.simps)
qed

text \<open>One call of \<open>mfgets\<close> on any file without zero bytes returns the next line, cut
  after \<open>size - 1\<close> characters, moves the file pointer just behind it and changes nothing
  else; at the end of the file it returns null and leaves the file as it is.\<close>

lemma mfgets_spec:
  assumes "mf_inv mf" "2 \<le> sz" "sz < 2 ^ 31" "cstring (mf_content mf)"
  shows "\<exists>mf'. mf_inv mf' \<and> mf_content mf' = mf_content mf \<and>
    mfgets mf sz = Inr (if mf_pos mf = length (mf_content mf) then (None, mf)
      else (Some (first_line (sz - 1) (drop (mf_pos mf) (mf_content mf))), mf')) \<and>
    mf_pos mf' = mf_pos mf + length (first_line (sz - 1) (drop (mf_pos mf) (mf_content mf)))"
proof (cases "mf_pos mf = length (mf_content mf)")
  case True
  then show ?thesis
    using mf.gets_eof [OF assms(1-3) True] assms(1) by (auto simp: first_line_def)
next
  case False
  then have "mf_pos mf < length (mf_content mf)" using mf.pos_le [OF assms(1)] by simp
  then show ?thesis using mf.gets_line [OF assms(1-4) _ refl] False by auto
qed

lemma mfgets_spec_witness:
  "let mf = \<lparr>mname = None, base = Some (''ab'' @ [LF] @ ''cd''), offs = 1, usedoffs = 5,
             msize = 5, mstatic = False\<rparr>
   in \<exists>mf'. mfgets mf 10 = Inr (Some (''b'' @ [LF]), mf') \<and> mf_pos mf' = 3"
proof -
  let ?mf = "\<lparr>mname = None, base = Some (''ab'' @ [LF] @ ''cd''), offs = 1, usedoffs = 5,
             msize = 5, mstatic = False\<rparr>"
  have "mf_inv ?mf" by (simp add: mf_inv_def)
  then show ?thesis
    using mfgets_spec [of ?mf 10] by (auto simp: mf_content_def mf_pos_def first_line_def)
qed

text \<open>C40: \<open>mfdump\<close> tests the number of items \<open>fwrite\<close> wrote (at most 1) against the number
  of bytes: although every byte reached the file, it reports failure for each file of two or more
  bytes.\<close>

theorem mfdump_result_wrong:
  assumes "mf_inv mf" "2 \<le> length (mf_content mf)"
  shows "mfdump mf True True = Inr (Some (mf_content mf), False)"
proof -
  from assms(1) obtain b where "base mf = Some b" "length b = msize mf" "0 \<le> offs mf"
    "offs mf \<le> usedoffs mf" "usedoffs mf \<le> int (msize mf)" "usedoffs mf < 2 ^ 27" by (rule mf_invE)
  then show ?thesis
    using assms by (auto simp: mfdump_def mf_content_length peek_at_def peek_def mf_content_def)
qed

theorem mfdump_result_wrong_witness:
  "mfdump \<lparr>mname = None, base = Some ''ab'', offs = 0, usedoffs = 2, msize = 2, mstatic = False\<rparr>
     True True = Inr (Some ''ab'', False)"
  using mfdump_result_wrong [of "\<lparr>mname = None, base = Some ''ab'', offs = 0, usedoffs = 2,
    msize = 2, mstatic = False\<rparr>"]
  by (simp add: mf_inv_def mf_content_def)

end
