(* ===== verification/Lists.thy ===== *)
theory Lists
  imports Prelude
begin

text \<open>
  The lists of the compiler, \<open>amx/compiler/libpc300/sclist.c\<close>: pairs of strings (name aliases
  and \<open>#define\<close> text substitutions with their quick index), lists of strings (include paths,
  source and input files, documentation, automatic listing, debug strings) and the queue of
  value pairs.

  A linked list with a root node is the list of its nodes.  The nodes of a pair list carry the
  address \<open>malloc\<close> gave them, because \<open>substindex\<close> holds pointers into the list.
\<close>

section \<open>Nodes\<close>

text \<open>A pointer field that is null, points to a string, or was never initialised.\<close>

datatype docptr = DocNull | DocStr string | DocWild

record stringpair =
  sp_addr :: nat
  sp_first :: string
  sp_second :: string
  matchlength :: nat
  sp_deprecated :: bool
  documentation :: docptr

datatype status = statIDLE | statFIRST | statWRITE | statSKIP

definition sNAMEMAX :: nat where "sNAMEMAX = 63"

text \<open>\<open>duplicatestring\<close> does not test the result of \<open>malloc\<close>.\<close>

definition duplicatestring :: "string \<Rightarrow> bool \<Rightarrow> string res" where
  "duplicatestring sourcestring ok = (if ok then Inr sourcestring else Inl NullDeref)"

section \<open>Pair lists\<close>

text \<open>The position of a new node: before the first node that is not smaller.\<close>

fun link_stringpair :: "stringpair \<Rightarrow> stringpair list \<Rightarrow> stringpair list" where
  "link_stringpair cur [] = [cur]"
| "link_stringpair cur (p # ps) =
     (if strcmp (sp_first p) (sp_first cur) < 0 then p # link_stringpair cur ps else cur # p # ps)"

text \<open>
  \<open>node\<close> is the result of \<open>malloc\<close> (an address or null) with the uninitialised contents of
  the two fields the function does not set.
\<close>

definition insert_stringpair ::
  "stringpair list \<Rightarrow> string \<Rightarrow> string \<Rightarrow> nat \<Rightarrow> (nat \<times> bool \<times> docptr) option \<Rightarrow> bool \<Rightarrow> bool
    \<Rightarrow> (stringpair option \<times> stringpair list) res" where
  "insert_stringpair root first second len node ok1 ok2 =
     (case node of
        None \<Rightarrow> Inr (None, root)
      | Some (a, flags, doc) \<Rightarrow>
          bindR (duplicatestring first ok1) (\<lambda>f.
          bindR (duplicatestring second ok2) (\<lambda>s.
            let cur = \<lparr>sp_addr = a, sp_first = f, sp_second = s, matchlength = len,
                       sp_deprecated = flags, documentation = doc\<rparr> in
            Inr (Some cur, link_stringpair cur root))))"

definition delete_stringpairtable :: "stringpair list \<Rightarrow> stringpair list" where
  "delete_stringpairtable root = []"

text \<open>The first byte of a C string as a plain \<open>char\<close>.\<close>

definition first_char :: "string \<Rightarrow> int" where
  "first_char s = (case s of [] \<Rightarrow> 0 | c # _ \<Rightarrow> schar c)"

fun find_stringpair :: "stringpair list \<Rightarrow> string \<Rightarrow> nat \<Rightarrow> stringpair option" where
  "find_stringpair [] first len = None"
| "find_stringpair (cur # rest) first len =
     (let result = first_char (sp_first cur) - first_char first in
      if result = 0 \<and> len = matchlength cur then
        let result' = strncmp (sp_first cur) first len in
        if result' = 0 then Some cur
        else if result' \<le> 0 then find_stringpair rest first len else None
      else if result \<le> 0 then find_stringpair rest first len else None)"

text \<open>Unlinks the node at an address.\<close>

fun delete_stringpair :: "stringpair list \<Rightarrow> nat \<Rightarrow> bool \<times> stringpair list" where
  "delete_stringpair [] item = (False, [])"
| "delete_stringpair (p # ps) item =
     (if sp_addr p = item then (True, ps)
      else let (b, ps') = delete_stringpair ps item in (b, p # ps'))"

section \<open>String lists\<close>

definition insert_string :: "string list \<Rightarrow> string \<Rightarrow> bool \<Rightarrow> bool \<Rightarrow> string list res" where
  "insert_string root str ok_node ok_str =
     (if \<not> ok_node then Inl (FatalError 103)
      else bindR (duplicatestring str ok_str) (\<lambda>s. Inr (root @ [s])))"

fun get_string :: "string list \<Rightarrow> int \<Rightarrow> string option" where
  "get_string [] index = None"
| "get_string (s # root) index = (if index > 0 then get_string root (index - 1) else Some s)"

fun delete_string :: "string list \<Rightarrow> int \<Rightarrow> bool \<times> string list" where
  "delete_string [] index = (False, [])"
| "delete_string (s # root) index =
     (if index > 0 then let (b, r) = delete_string root (index - 1) in (b, s # r)
      else (True, root))"

definition delete_stringtable :: "string list \<Rightarrow> string list" where
  "delete_stringtable root = []"

section \<open>The lists of the compiler\<close>

record sclists =
  alias_tab :: "stringpair list"
  includepaths :: "string list"
  substpair :: "stringpair list"
  substindex :: "char \<Rightarrow> nat option"
  sourcefiles :: "string list"
  inputfiles :: "string list"
  docstrings :: "string list"
  autolist :: "string list"
  heaplist :: "(int \<times> int) list"
  dbgstrings :: "string list"
  pc_deprecate :: "string option"

subsection \<open>Aliases\<close>

definition insert_alias ::
  "sclists \<Rightarrow> string \<Rightarrow> string \<Rightarrow> (nat \<times> bool \<times> docptr) option \<Rightarrow> bool \<Rightarrow> bool \<Rightarrow> sclists res" where
  "insert_alias st name alias node ok1 ok2 =
     assertR (length name \<le> sNAMEMAX \<and> length alias \<le> sNAMEMAX)
       (bindR (insert_stringpair (alias_tab st) name alias (length name) node ok1 ok2) (\<lambda>(cur, tab).
          if cur = None then Inl (FatalError 103) else Inr (st\<lparr>alias_tab := tab\<rparr>)))"

definition lookup_alias :: "sclists \<Rightarrow> string \<Rightarrow> string option res" where
  "lookup_alias st name =
     assertR (length name > 0)
       (case find_stringpair (alias_tab st) name (length name) of
          None \<Rightarrow> Inr None
        | Some cur \<Rightarrow> assertR (length (sp_second cur) \<le> sNAMEMAX) (Inr (Some (sp_second cur))))"

definition delete_aliastable :: "sclists \<Rightarrow> sclists" where
  "delete_aliastable st = st\<lparr>alias_tab := delete_stringpairtable (alias_tab st)\<rparr>"

subsection \<open>Include paths\<close>

definition insert_path :: "sclists \<Rightarrow> string \<Rightarrow> bool \<Rightarrow> bool \<Rightarrow> sclists res" where
  "insert_path st path ok1 ok2 =
     bindR (insert_string (includepaths st) path ok1 ok2) (\<lambda>l. Inr (st\<lparr>includepaths := l\<rparr>))"

definition get_path :: "sclists \<Rightarrow> int \<Rightarrow> string option" where
  "get_path st index = get_string (includepaths st) index"

definition delete_pathtable :: "sclists \<Rightarrow> sclists" where
  "delete_pathtable st = st\<lparr>includepaths := delete_stringtable (includepaths st)\<rparr>"

subsection \<open>Text substitutions\<close>

definition subst_char :: "char \<Rightarrow> bool" where
  "subst_char c \<longleftrightarrow> CHR ''A'' \<le> c \<and> c \<le> CHR ''Z'' \<or> CHR ''a'' \<le> c \<and> c \<le> CHR ''z''
     \<or> c = CHR ''_'' \<or> c = CHR ''@''"

text \<open>The address of the first node whose text begins with the character.\<close>

fun first_with :: "stringpair list \<Rightarrow> char \<Rightarrow> nat option" where
  "first_with [] c = None"
| "first_with (p # ps) c = (if first_char (sp_first p) = schar c then Some (sp_addr p) else first_with ps c)"

definition adjustindex :: "sclists \<Rightarrow> char \<Rightarrow> sclists res" where
  "adjustindex st c = assertR (subst_char c)
     (Inr (st\<lparr>substindex := (substindex st)(c := first_with (substpair st) c)\<rparr>))"

text \<open>Storing to the fields of one node.\<close>

definition update_node :: "nat \<Rightarrow> (stringpair \<Rightarrow> stringpair) \<Rightarrow> stringpair list \<Rightarrow> stringpair list" where
  "update_node a f ps = map (\<lambda>p. if sp_addr p = a then f p else p) ps"

text \<open>The fault \<open>OutOfBounds\<close> stands for \<open>free\<close> of a pointer that was never set.\<close>

definition insert_subst ::
  "status \<Rightarrow> sclists \<Rightarrow> string \<Rightarrow> string \<Rightarrow> nat \<Rightarrow> (nat \<times> bool \<times> docptr) option \<Rightarrow> bool \<Rightarrow> bool
    \<Rightarrow> sclists res" where
  "insert_subst sc_status st pattern substitution prefixlen node ok1 ok2 =
     bindR (insert_stringpair (substpair st) pattern substitution prefixlen node ok1 ok2) (\<lambda>(cur, tab).
       case cur of
         None \<Rightarrow> Inl (FatalError 103)
       | Some cur \<Rightarrow>
           bindR (case pattern of [] \<Rightarrow> Inl AssertFailed
                  | c # _ \<Rightarrow> adjustindex (st\<lparr>substpair := tab\<rparr>) c) (\<lambda>st1.
             case pc_deprecate st1 of
               Some msg \<Rightarrow>
                 if sc_status = statWRITE then
                   if documentation cur = DocWild then Inl OutOfBounds
                   else Inr (st1\<lparr>substpair := update_node (sp_addr cur)
                               (\<lambda>p. p\<lparr>sp_deprecated := True, documentation := DocStr msg\<rparr>) tab,
                             pc_deprecate := None\<rparr>)
                 else Inr (st1\<lparr>substpair := update_node (sp_addr cur)
                               (\<lambda>p. p\<lparr>sp_deprecated := True\<rparr>) tab,
                             pc_deprecate := None\<rparr>)
             | None \<Rightarrow>
                 Inr (st1\<lparr>substpair := update_node (sp_addr cur)
                               (\<lambda>p. p\<lparr>sp_deprecated := False, documentation := DocNull\<rparr>) tab\<rparr>)))"

text \<open>The list from the node at an address on.\<close>

definition list_from :: "stringpair list \<Rightarrow> nat \<Rightarrow> stringpair list" where
  "list_from ps a = dropWhile (\<lambda>p. sp_addr p \<noteq> a) ps"

text \<open>The name shown in the warning on a deprecated macro.\<close>

definition macro_name :: "string \<Rightarrow> string" where
  "macro_name first =
     (let macro = take 127 first in
      case strchr macro (CHR ''('') of
        None \<Rightarrow> macro
      | Some rem \<Rightarrow> (case strchr macro (CHR ''%'') of
          None \<Rightarrow> macro
        | Some p \<Rightarrow> if p > rem then take rem macro else macro))"

text \<open>
  The node found and the arguments of warning 233, if it is given.  Reading an uninitialised
  documentation pointer is a fault.
\<close>

definition subst_lookup :: "sclists \<Rightarrow> string \<Rightarrow> nat \<Rightarrow> stringpair option" where
  "subst_lookup st name len =
     (case name of [] \<Rightarrow> None
      | c # _ \<Rightarrow> (case substindex st c of
          None \<Rightarrow> None
        | Some a \<Rightarrow> find_stringpair (list_from (substpair st) a) name len))"

definition find_subst ::
  "sclists \<Rightarrow> string \<Rightarrow> nat \<Rightarrow> (stringpair option \<times> (string \<times> string) option) res" where
  "find_subst st name len =
     assertR (len > 0 \<and> name \<noteq> [] \<and> subst_char (hd name))
       (case subst_lookup st name len of
          None \<Rightarrow> Inr (None, None)
        | Some item \<Rightarrow>
            if sp_deprecated item then
              (case documentation item of
                 DocWild \<Rightarrow> Inl OutOfBounds
               | DocNull \<Rightarrow> Inr (Some item, Some (macro_name (sp_first item), ''''))
               | DocStr msg \<Rightarrow> Inr (Some item, Some (macro_name (sp_first item), msg)))
            else Inr (Some item, None))"

definition delete_subst :: "sclists \<Rightarrow> string \<Rightarrow> nat \<Rightarrow> (bool \<times> sclists) res" where
  "delete_subst st name len =
     assertR (len > 0 \<and> name \<noteq> [] \<and> subst_char (hd name))
       (case subst_lookup st name len of
          None \<Rightarrow> Inr (False, st)
        | Some item \<Rightarrow>
            bindR (adjustindex (st\<lparr>substpair := snd (delete_stringpair (substpair st) (sp_addr item))\<rparr>)
                     (hd name)) (\<lambda>st'. Inr (True, st')))"

definition delete_substtable :: "sclists \<Rightarrow> sclists" where
  "delete_substtable st =
     st\<lparr>substpair := delete_stringpairtable (substpair st), substindex := (\<lambda>_. None)\<rparr>"

subsection \<open>Source files, input files, documentation, automatic listing\<close>

definition insert_sourcefile :: "sclists \<Rightarrow> string \<Rightarrow> bool \<Rightarrow> bool \<Rightarrow> sclists res" where
  "insert_sourcefile st str ok1 ok2 =
     bindR (insert_string (sourcefiles st) str ok1 ok2) (\<lambda>l. Inr (st\<lparr>sourcefiles := l\<rparr>))"

definition get_sourcefile :: "sclists \<Rightarrow> int \<Rightarrow> string option" where
  "get_sourcefile st index = get_string (sourcefiles st) index"

definition delete_sourcefiletable :: "sclists \<Rightarrow> sclists" where
  "delete_sourcefiletable st = st\<lparr>sourcefiles := delete_stringtable (sourcefiles st)\<rparr>"

text \<open>The first pass does not record input files.\<close>

definition insert_inputfile :: "status \<Rightarrow> sclists \<Rightarrow> string \<Rightarrow> bool \<Rightarrow> bool \<Rightarrow> sclists res" where
  "insert_inputfile sc_status st str ok1 ok2 =
     (if sc_status \<noteq> statFIRST
      then bindR (insert_string (inputfiles st) str ok1 ok2) (\<lambda>l. Inr (st\<lparr>inputfiles := l\<rparr>))
      else Inr st)"

definition get_inputfile :: "sclists \<Rightarrow> int \<Rightarrow> string option" where
  "get_inputfile st index = get_string (inputfiles st) index"

definition delete_inputfiletable :: "sclists \<Rightarrow> sclists" where
  "delete_inputfiletable st = st\<lparr>inputfiles := delete_stringtable (inputfiles st)\<rparr>"

definition insert_docstring :: "sclists \<Rightarrow> string \<Rightarrow> bool \<Rightarrow> bool \<Rightarrow> sclists res" where
  "insert_docstring st str ok1 ok2 =
     bindR (insert_string (docstrings st) str ok1 ok2) (\<lambda>l. Inr (st\<lparr>docstrings := l\<rparr>))"

definition get_docstring :: "sclists \<Rightarrow> int \<Rightarrow> string option" where
  "get_docstring st index = get_string (docstrings st) index"

definition delete_docstring :: "sclists \<Rightarrow> int \<Rightarrow> sclists" where
  "delete_docstring st index = st\<lparr>docstrings := snd (delete_string (docstrings st) index)\<rparr>"

definition delete_docstringtable :: "sclists \<Rightarrow> sclists" where
  "delete_docstringtable st = st\<lparr>docstrings := delete_stringtable (docstrings st)\<rparr>"

definition insert_autolist :: "sclists \<Rightarrow> string \<Rightarrow> bool \<Rightarrow> bool \<Rightarrow> sclists res" where
  "insert_autolist st str ok1 ok2 =
     bindR (insert_string (autolist st) str ok1 ok2) (\<lambda>l. Inr (st\<lparr>autolist := l\<rparr>))"

definition get_autolist :: "sclists \<Rightarrow> int \<Rightarrow> string option" where
  "get_autolist st index = get_string (autolist st) index"

definition delete_autolisttable :: "sclists \<Rightarrow> sclists" where
  "delete_autolisttable st = st\<lparr>autolist := delete_stringtable (autolist st)\<rparr>"

subsection \<open>The queue of heap adjustments\<close>

definition push_heaplist :: "sclists \<Rightarrow> int \<Rightarrow> int \<Rightarrow> bool \<Rightarrow> sclists res" where
  "push_heaplist st first second ok =
     (if \<not> ok then Inl (FatalError 103)
      else Inr (st\<lparr>heaplist := heaplist st @ [(first, second)]\<rparr>))"

definition popfront_heaplist :: "sclists \<Rightarrow> (int \<times> int) option \<times> sclists" where
  "popfront_heaplist st =
     (case heaplist st of
        [] \<Rightarrow> (None, st)
      | front # rest \<Rightarrow> (Some front, st\<lparr>heaplist := rest\<rparr>))"

definition delete_heaplisttable :: "sclists \<Rightarrow> sclists" where
  "delete_heaplisttable st = st\<lparr>heaplist := []\<rparr>"

subsection \<open>Debug strings\<close>

text \<open>Bit 1 of the debug options asks for symbolic information.\<close>

definition sSYMBOLIC :: nat where "sSYMBOLIC = 2"

definition insert_dbgfile ::
  "status \<Rightarrow> nat \<Rightarrow> cell \<Rightarrow> sclists \<Rightarrow> string \<Rightarrow> bool \<Rightarrow> bool \<Rightarrow> sclists res" where
  "insert_dbgfile sc_status sc_debug code_idx st filename ok1 ok2 =
     (if sc_status = statWRITE \<and> and sc_debug sSYMBOLIC \<noteq> 0 then
        bindR (insert_string (dbgstrings st)
                 (''F:'' @ pad0 8 (hex_digits (unat code_idx)) @ '' '' @ filename) ok1 ok2)
          (\<lambda>l. Inr (st\<lparr>dbgstrings := l\<rparr>))
      else Inr st)"

text \<open>\<open>%x\<close> prints the bits of the \<open>int\<close> as an unsigned number.\<close>

definition insert_dbgline ::
  "status \<Rightarrow> nat \<Rightarrow> cell \<Rightarrow> sclists \<Rightarrow> int \<Rightarrow> bool \<Rightarrow> bool \<Rightarrow> sclists res" where
  "insert_dbgline sc_status sc_debug code_idx st linenr ok1 ok2 =
     (if sc_status = statWRITE \<and> and sc_debug sSYMBOLIC \<noteq> 0 then
        let linenr' = (if linenr > 0 then linenr - 1 else linenr) in
        bindR (insert_string (dbgstrings st)
                 (''L:'' @ pad0 8 (hex_digits (unat code_idx)) @ '' ''
                   @ pad0 4 (hex_digits (size_t linenr'))) ok1 ok2)
          (\<lambda>l. Inr (st\<lparr>dbgstrings := l\<rparr>))
      else Inr st)"

definition get_dbgstring :: "sclists \<Rightarrow> int \<Rightarrow> string option" where
  "get_dbgstring st index = get_string (dbgstrings st) index"

definition delete_dbgstringtable :: "sclists \<Rightarrow> sclists" where
  "delete_dbgstringtable st = st\<lparr>dbgstrings := delete_stringtable (dbgstrings st)\<rparr>"

section \<open>Lists of strings as sequences\<close>

lemma get_string_nth: "get_string root i =
    (if nat i < length root then Some (root ! nat i) else None)"
proof (induction root i rule: get_string.induct)
  case (2 s root i)
  then show ?case by (cases "i > 0") (auto simp: nth_Cons' nat_diff_distrib)
qed simp

lemma delete_string_eq: "delete_string root i =
    (nat i < length root, take (nat i) root @ drop (Suc (nat i)) root)"
proof (induction root i rule: delete_string.induct)
  case (2 s root i)
  show ?case
  proof (cases "i > 0")
    case True
    then have "nat i = Suc (nat (i - 1))" by simp
    with 2 True show ?thesis by simp
  qed simp
qed simp

text \<open>
  The contract of the string tables: an insertion appends, a lookup reads by position.
\<close>

locale string_table =
  fixes tbl :: "'s \<Rightarrow> string list"
    and ins :: "'s \<Rightarrow> string \<Rightarrow> 's res"
    and get :: "'s \<Rightarrow> int \<Rightarrow> string option"
    and clear :: "'s \<Rightarrow> 's"
  assumes tbl_ins: "\<exists>st'. ins st x = Inr st' \<and> tbl st' = tbl st @ [x]"
    and get_tbl: "get st i = (if nat i < length (tbl st) then Some (tbl st ! nat i) else None)"
    and tbl_clear: "tbl (clear st) = []"
begin

fun ins_all :: "string list \<Rightarrow> 's \<Rightarrow> 's res" where
  "ins_all [] st = Inr st"
| "ins_all (x # xs) st = bindR (ins st x) (ins_all xs)"

lemma tbl_ins_all: "\<exists>st'. ins_all xs st = Inr st' \<and> tbl st' = tbl st @ xs"
proof (induction xs arbitrary: st)
  case (Cons x xs)
  obtain st1 where "ins st x = Inr st1" "tbl st1 = tbl st @ [x]" using tbl_ins by blast
  then show ?case using Cons.IH [of st1] by auto
qed simp

text \<open>After clearing and inserting, the entries are read back in order, then null.\<close>

lemma get_ins_all:
  "\<exists>st'. ins_all xs (clear st) = Inr st'
     \<and> (\<forall>i. get st' i = (if nat i < length xs then Some (xs ! nat i) else None))"
  using tbl_ins_all [of xs "clear st"] by (auto simp: get_tbl tbl_clear)

end

lemmas string_table_defs = insert_string_def duplicatestring_def get_string_nth
  insert_path_def get_path_def delete_pathtable_def
  insert_sourcefile_def get_sourcefile_def delete_sourcefiletable_def
  insert_inputfile_def get_inputfile_def delete_inputfiletable_def
  insert_docstring_def get_docstring_def delete_docstringtable_def
  insert_autolist_def get_autolist_def delete_autolisttable_def delete_stringtable_def

interpretation paths: string_table includepaths "\<lambda>st x. insert_path st x True True" get_path
    delete_pathtable
  by unfold_locales (simp_all add: string_table_defs)

interpretation sources: string_table sourcefiles "\<lambda>st x. insert_sourcefile st x True True"
    get_sourcefile delete_sourcefiletable
  by unfold_locales (simp_all add: string_table_defs)

interpretation inputs: string_table inputfiles
    "\<lambda>st x. insert_inputfile statWRITE st x True True" get_inputfile delete_inputfiletable
  by unfold_locales (simp_all add: string_table_defs)

interpretation docs: string_table docstrings "\<lambda>st x. insert_docstring st x True True"
    get_docstring delete_docstringtable
  by unfold_locales (simp_all add: string_table_defs)

interpretation autos: string_table autolist "\<lambda>st x. insert_autolist st x True True"
    get_autolist delete_autolisttable
  by unfold_locales (simp_all add: string_table_defs)

text \<open>The contract of a queue: what is taken out is what was put in, in that order.\<close>

locale fifo =
  fixes seq :: "'s \<Rightarrow> 'a list"
    and push :: "'s \<Rightarrow> 'a \<Rightarrow> 's"
    and pop :: "'s \<Rightarrow> 'a option \<times> 's"
  assumes seq_push: "seq (push st x) = seq st @ [x]"
    and pop_empty: "seq st = [] \<Longrightarrow> pop st = (None, st)"
    and pop_front: "seq st = x # xs \<Longrightarrow> \<exists>st'. pop st = (Some x, st') \<and> seq st' = xs"
begin

fun pop_n :: "nat \<Rightarrow> 's \<Rightarrow> 'a option list" where
  "pop_n 0 st = []"
| "pop_n (Suc n) st = (case pop st of (x, st') \<Rightarrow> x # pop_n n st')"

lemma seq_foldl_push: "seq (foldl push st xs) = seq st @ xs"
  by (induction xs arbitrary: st) (simp_all add: seq_push)

lemma pop_n_seq: "pop_n (length (seq st) + k) st = map Some (seq st) @ replicate k None"
proof (induction "seq st" arbitrary: st)
  case Nil
  then show ?case by (induction k) (simp_all add: pop_empty flip: Nil)
next
  case (Cons x xs)
  then obtain st' where "pop st = (Some x, st')" "seq st' = xs" by (metis pop_front)
  with Cons show ?case by (metis add_Suc append_Cons case_prod_conv length_Cons list.simps(9) pop_n.simps(2))
qed

end

interpretation heap: fifo heaplist
    "\<lambda>st x. case push_heaplist st (fst x) (snd x) True of Inr st' \<Rightarrow> st' | Inl _ \<Rightarrow> st"
    popfront_heaplist
  by unfold_locales (simp_all add: push_heaplist_def popfront_heaplist_def)

section \<open>Pair lists as sorted tables\<close>

text \<open>
  A node the compiler puts into a pair list: its text begins with an ASCII letter, underscore
  or at sign, and the part that is compared is a non-empty prefix of it.
\<close>

definition pair_ok :: "stringpair \<Rightarrow> bool" where
  "pair_ok p \<longleftrightarrow> sp_first p \<noteq> [] \<and> ascii (hd (sp_first p))
     \<and> 0 < matchlength p \<and> matchlength p \<le> length (sp_first p)"

definition pairs_sorted :: "stringpair list \<Rightarrow> bool" where
  "pairs_sorted ps \<longleftrightarrow> sorted (map (\<lambda>p. CName (sp_first p)) ps) \<and> list_all pair_ok ps"

text \<open>What a lookup means: the first node whose compared prefix is the given text.\<close>

definition pair_match :: "string \<Rightarrow> nat \<Rightarrow> stringpair \<Rightarrow> bool" where
  "pair_match name len p \<longleftrightarrow> matchlength p = len \<and> take len (sp_first p) = take len name"

lemma ascii_le: "c \<le> d \<Longrightarrow> ascii d \<Longrightarrow> ascii c"
  by (simp add: ascii_def less_eq_char_def)

lemma subst_char_ascii:
  assumes "subst_char c"
  shows "ascii c"
proof -
  have "ascii (CHR ''z'')" "ascii (CHR ''Z'')" "ascii (CHR ''_'')" "ascii (CHR ''@'')"
    by (simp_all add: ascii_def)
  then show ?thesis using assms(1) [unfolded subst_char_def] ascii_le by blast
qed

lemma pairs_sorted_Cons [simp]: "pairs_sorted (p # ps) \<longleftrightarrow>
    pair_ok p \<and> (\<forall>q\<in>set ps. strcmp (sp_first p) (sp_first q) \<le> 0) \<and> pairs_sorted ps"
  by (auto simp: pairs_sorted_def CName_le_iff)

lemma pairs_sorted_Nil [simp]: "pairs_sorted []"
  by (simp add: pairs_sorted_def)

lemma set_link_stringpair [simp]: "set (link_stringpair cur ps) = insert cur (set ps)"
  by (induction ps) auto

lemma pairs_sorted_link:
  "pairs_sorted ps \<Longrightarrow> pair_ok cur \<Longrightarrow> pairs_sorted (link_stringpair cur ps)"
proof (induction ps)
  case (Cons p ps)
  show ?case
  proof (cases "strcmp (sp_first p) (sp_first cur) < 0")
    case False
    then have "strcmp (sp_first cur) (sp_first p) \<le> 0"
      using strcmp_anti [of "sp_first cur" "sp_first p"] by simp
    then show ?thesis using False Cons.prems by (auto intro: strcmp_le_trans)
  qed (use Cons in auto)
qed simp

lemma first_char_hd: "s \<noteq> [] \<Longrightarrow> first_char s = schar (hd s)"
  by (cases s) (simp_all add: first_char_def)

lemma pair_match_hd:
  "pair_match name len p \<Longrightarrow> pair_ok p \<Longrightarrow> name \<noteq> [] \<Longrightarrow> hd (sp_first p) = hd name"
  by (metis hd_take pair_match_def pair_ok_def)

text \<open>The early exits of the search miss nothing in a sorted table.\<close>

lemma find_stringpair_eq:
  assumes "pairs_sorted ps" "name \<noteq> []" "ascii (hd name)" "0 < len"
  shows "find_stringpair ps name len = find (pair_match name len) ps"
  using assms(1)
proof (induction ps)
  case (Cons p ps)
  let ?r = "first_char (sp_first p) - first_char name"
  have p: "pair_ok p" and IH: "find_stringpair ps name len = find (pair_match name len) ps"
    using Cons by auto
  have r: "?r = schar (hd (sp_first p)) - schar (hd name)"
    using p assms(2) by (simp add: first_char_hd pair_ok_def)
  have a: "ascii (hd (sp_first p))" using p by (simp add: pair_ok_def)
  have none: "find (pair_match name len) ps = None" if "\<And>q. q \<in> set ps \<Longrightarrow> \<not> pair_match name len q"
    using that by (simp add: find_None_iff)
  consider "?r < 0" | "?r = 0" | "?r > 0" by linarith
  then show ?case
  proof cases
    case 1
    then have "hd (sp_first p) \<noteq> hd name" using r by auto
    then have "\<not> pair_match name len p" using pair_match_hd p assms(2) by blast
    then show ?thesis using 1 IH by (simp add: Let_def)
  next
    case 2
    show ?thesis
    proof (cases "len = matchlength p")
      case False
      then have "\<not> pair_match name len p" by (simp add: pair_match_def)
      then show ?thesis using 2 IH False by (simp add: Let_def)
    next
      case True
      let ?c = "strncmp (sp_first p) name len"
      have m: "pair_match name len p \<longleftrightarrow> take len (sp_first p) = take len name"
        using True by (simp add: pair_match_def)
      have "find (pair_match name len) ps = None" if "?c > 0"
      proof (rule none)
        fix q assume "q \<in> set ps"
        then have "strcmp (take len (sp_first p)) (take len (sp_first q)) \<le> 0"
          using Cons.prems by (intro strcmp_take_mono) auto
        with \<open>?c > 0\<close> show "\<not> pair_match name len q"
          by (auto simp: pair_match_def strncmp_def)
      qed
      then show ?thesis
        using 2 True IH m by (auto simp: Let_def strncmp_0_iff)
    qed
  next
    case 3
    then have lt: "hd name < hd (sp_first p)"
      using r a assms(3) schar_diff_less [of "hd name" "hd (sp_first p)"] by simp
    have "\<not> pair_match name len q" if q: "q \<in> set (p # ps)" for q
    proof
      assume m: "pair_match name len q"
      have ok: "pair_ok q" using q Cons.prems by (auto simp: pairs_sorted_def list_all_iff)
      have "strcmp (sp_first p) (sp_first q) \<le> 0" using q Cons.prems by auto
      then have "hd (sp_first p) \<le> hd (sp_first q)"
        using strcmp_hd_mono p ok by (simp add: pair_ok_def)
      then show False using lt pair_match_hd [OF m ok assms(2)] by simp
    qed
    then show ?thesis using 3 none by (simp add: Let_def)
  qed
qed simp

section \<open>Aliases as a map\<close>

text \<open>The alias table: sorted, and every node is compared in full.\<close>

definition alias_inv :: "sclists \<Rightarrow> bool" where
  "alias_inv st \<longleftrightarrow> pairs_sorted (alias_tab st)
     \<and> list_all (\<lambda>p. matchlength p = length (sp_first p) \<and> length (sp_second p) \<le> sNAMEMAX)
         (alias_tab st)"

lemma find_link_same:
  assumes "\<And>q. q \<in> set ps \<Longrightarrow> P q \<Longrightarrow> \<not> strcmp (sp_first q) (sp_first cur) < 0" "P cur"
  shows "find P (link_stringpair cur ps) = Some cur"
  using assms by (induction ps) auto

lemma find_link_other: "\<not> P cur \<Longrightarrow> find P (link_stringpair cur ps) = find P ps"
  by (induction ps) auto

lemma pair_match_exact: "matchlength p = length (sp_first p) \<Longrightarrow>
    pair_match name (length name) p \<longleftrightarrow> sp_first p = name"
  by (auto simp: pair_match_def)

lemma lookup_alias_find:
  assumes "alias_inv st" "name \<noteq> []" "ascii (hd name)"
  shows "lookup_alias st name
    = Inr (map_option sp_second (find (\<lambda>p. sp_first p = name) (alias_tab st)))"
proof -
  have ps: "pairs_sorted (alias_tab st)"
    and all: "\<forall>p\<in>set (alias_tab st). matchlength p = length (sp_first p) \<and> length (sp_second p) \<le> sNAMEMAX"
    using assms(1) by (auto simp: alias_inv_def list_all_iff)
  have "find (pair_match name (length name)) (alias_tab st) = find (\<lambda>p. sp_first p = name) (alias_tab st)"
    using all by (intro find_cong) (auto simp: pair_match_exact)
  then have "find_stringpair (alias_tab st) name (length name) = find (\<lambda>p. sp_first p = name) (alias_tab st)"
    using find_stringpair_eq [OF ps assms(2,3), of "length name"] assms(2) by simp
  then show ?thesis
    using all assms(2) find_in [of "\<lambda>p. sp_first p = name" "alias_tab st"]
    by (cases "find (\<lambda>p. sp_first p = name) (alias_tab st)") (auto simp: lookup_alias_def)
qed

text \<open>
  C27: The alias table is a map in which the newest insertion wins: after \<open>insert_alias\<close> of a
  name that starts with an ASCII character, with memory available, \<open>lookup_alias\<close> finds the
  new alias under that name and the old answer under every other, and the table keeps its
  order, whatever the new node's memory contained.
\<close>

theorem lookup_after_insert_alias:
  assumes "alias_inv st" "name \<noteq> []" "ascii (hd name)"
    and "length name \<le> sNAMEMAX" "length alias \<le> sNAMEMAX"
  shows "\<exists>st'. insert_alias st name alias (Some node) True True = Inr st'
    \<and> alias_inv st'
    \<and> lookup_alias st' name = Inr (Some alias)
    \<and> (\<forall>other. other \<noteq> [] \<and> ascii (hd other) \<and> other \<noteq> name \<longrightarrow>
         lookup_alias st' other = lookup_alias st other)"
proof -
  obtain a flags doc where node: "node = (a, flags, doc)" by (cases node) auto
  let ?cur = "\<lparr>sp_addr = a, sp_first = name, sp_second = alias, matchlength = length name,
               sp_deprecated = flags, documentation = doc\<rparr>"
  let ?st = "st\<lparr>alias_tab := link_stringpair ?cur (alias_tab st)\<rparr>"
  have ins: "insert_alias st name alias (Some node) True True = Inr ?st"
    using assms(4,5) by (simp add: insert_alias_def insert_stringpair_def duplicatestring_def node Let_def)
  have inv: "alias_inv ?st"
    using assms pairs_sorted_link [of "alias_tab st" ?cur]
    by (auto simp: alias_inv_def list_all_iff pair_ok_def)
  have "lookup_alias ?st name = Inr (Some alias)"
    using lookup_alias_find [OF inv assms(2,3)] find_link_same [of "alias_tab st" "\<lambda>p. sp_first p = name" ?cur]
    by simp
  moreover have "lookup_alias ?st other = lookup_alias st other"
    if "other \<noteq> []" "ascii (hd other)" "other \<noteq> name" for other
    using that lookup_alias_find [OF inv, of other] lookup_alias_find [OF assms(1), of other]
      find_link_other [of "\<lambda>p. sp_first p = other" ?cur]
    by simp
  ultimately show ?thesis using ins inv by blast
qed

definition sclists_empty :: sclists where
  "sclists_empty = \<lparr>alias_tab = [], includepaths = [], substpair = [], substindex = (\<lambda>_. None),
     sourcefiles = [], inputfiles = [], docstrings = [], autolist = [], heaplist = [],
     dbgstrings = [], pc_deprecate = None\<rparr>"

lemma lookup_after_insert_alias_witness:
  "\<exists>st'. insert_alias sclists_empty ''add'' ''_add'' (Some (7, True, DocWild)) True True = Inr st'
    \<and> lookup_alias st' ''add'' = Inr (Some ''_add'')"
  using lookup_after_insert_alias [of sclists_empty "''add''" "''_add''" "(7, True, DocWild)"]
  by (auto simp: alias_inv_def sclists_empty_def ascii_def sNAMEMAX_def)

section \<open>Text substitutions and their index\<close>

text \<open>
  The table of substitutions: sorted, no two nodes at one address, and the index points at the
  first node of each initial letter.
\<close>

definition subst_inv :: "sclists \<Rightarrow> bool" where
  "subst_inv st \<longleftrightarrow> pairs_sorted (substpair st) \<and> distinct (map sp_addr (substpair st))
     \<and> (\<forall>c. subst_char c \<longrightarrow> substindex st c = first_with (substpair st) c)"

lemma first_with_None: "list_all pair_ok ps \<Longrightarrow>
    first_with ps c = None \<longleftrightarrow> (\<forall>p\<in>set ps. hd (sp_first p) \<noteq> c)"
  by (induction ps) (auto simp: first_char_hd pair_ok_def schar_inj)

lemma first_with_Some:
  assumes "list_all pair_ok ps" "first_with ps c = Some a" "distinct (map sp_addr ps)"
  shows "list_from ps a = dropWhile (\<lambda>p. hd (sp_first p) \<noteq> c) ps"
  using assms
proof (induction ps)
  case (Cons p ps)
  show ?case
  proof (cases "hd (sp_first p) = c")
    case True
    then show ?thesis using Cons.prems by (simp add: list_from_def first_char_hd pair_ok_def)
  next
    case False
    then have f: "first_with ps c = Some a"
      using Cons.prems by (auto simp: first_char_hd pair_ok_def schar_inj)
    moreover have "a \<in> sp_addr ` set ps"
      using f by (induction ps) (auto split: if_splits)
    ultimately show ?thesis using Cons False by (auto simp: list_from_def)
  qed
qed simp

lemma find_dropWhile:
  "(\<And>x. P x \<Longrightarrow> x \<in> set xs \<Longrightarrow> \<not> Q x) \<Longrightarrow> find P (dropWhile Q xs) = find P xs"
  by (induction xs) auto

lemma pairs_sorted_dropWhile: "pairs_sorted ps \<Longrightarrow> pairs_sorted (dropWhile Q ps)"
  by (induction ps) auto

text \<open>Starting at the index changes nothing: the search is the search of the whole table.\<close>

lemma subst_lookup_find:
  assumes "subst_inv st" "name \<noteq> []" "subst_char (hd name)" "0 < len"
  shows "subst_lookup st name len = find (pair_match name len) (substpair st)"
proof -
  let ?ps = "substpair st" and ?c = "hd name"
  have ps: "pairs_sorted ?ps" and d: "distinct (map sp_addr ?ps)"
    and i: "substindex st ?c = first_with ?ps ?c"
    using assms(1,3) by (auto simp: subst_inv_def)
  have ok: "list_all pair_ok ?ps" using ps by (simp add: pairs_sorted_def)
  have hd: "hd (sp_first p) = ?c" if "pair_match name len p" "p \<in> set ?ps" for p
    using that ok assms(2) pair_match_hd by (auto simp: list_all_iff)
  obtain r where name: "name = ?c # r" using assms(2) by (cases name) auto
  show ?thesis
  proof (cases "first_with ?ps ?c")
    case None
    then have "find (pair_match name len) ?ps = None"
      using hd first_with_None [OF ok] by (auto simp: find_None_iff)
    then show ?thesis using None i by (auto simp: subst_lookup_def split: list.split)
  next
    case (Some a)
    have eq: "list_from ?ps a = dropWhile (\<lambda>p. hd (sp_first p) \<noteq> ?c) ?ps"
      using first_with_Some [OF ok Some d] .
    have "find_stringpair (list_from ?ps a) name len = find (pair_match name len) (list_from ?ps a)"
      using find_stringpair_eq [of "list_from ?ps a" name len] ps eq assms subst_char_ascii
      by (simp add: pairs_sorted_dropWhile)
    also have "\<dots> = find (pair_match name len) ?ps"
      unfolding eq by (rule find_dropWhile) (use hd in auto)
    finally show ?thesis using Some i assms(2) by (auto simp: subst_lookup_def split: list.split)
  qed
qed

text \<open>
  C19: In a well-formed substitution table \<open>find_subst\<close> returns the first node of the
  whole table whose compared prefix is the given text, although it starts at the quick index and
  leaves the list early; the warning is given exactly when that node is deprecated.
\<close>

theorem find_subst_first_match:
  assumes "subst_inv st" "name \<noteq> []" "subst_char (hd name)" "0 < len"
    and "\<forall>p\<in>set (substpair st). sp_deprecated p \<longrightarrow> documentation p \<noteq> DocWild"
  shows "\<exists>warning. find_subst st name len = Inr (find (pair_match name len) (substpair st), warning)
    \<and> (warning \<noteq> None \<longleftrightarrow>
         (\<exists>p. find (pair_match name len) (substpair st) = Some p \<and> sp_deprecated p))"
proof -
  have eq: "subst_lookup st name len = find (pair_match name len) (substpair st)"
    using assms(1-4) by (rule subst_lookup_find)
  show ?thesis
  proof (cases "find (pair_match name len) (substpair st)")
    case None
    then show ?thesis using assms(2-4) eq by (simp add: find_subst_def)
  next
    case (Some p)
    then have "p \<in> set (substpair st)" using find_in by fast
    then have "sp_deprecated p \<longrightarrow> documentation p \<noteq> DocWild" using assms(5) by blast
    then show ?thesis using Some assms(2-4) eq
      by (cases "documentation p") (simp_all add: find_subst_def)
  qed
qed

lemma first_with_link: "schar d \<noteq> first_char (sp_first cur) \<Longrightarrow>
    first_with (link_stringpair cur ps) d = first_with ps d"
  by (induction ps) auto

lemma first_with_update [simp]:
  "(\<And>p. sp_first (f p) = sp_first p \<and> sp_addr (f p) = sp_addr p) \<Longrightarrow>
    first_with (update_node a f ps) d = first_with ps d"
  by (induction ps) (auto simp: update_node_def)

lemma pairs_sorted_update [simp]:
  "(\<And>p. sp_first (f p) = sp_first p \<and> matchlength (f p) = matchlength p) \<Longrightarrow>
    pairs_sorted (update_node a f ps) \<longleftrightarrow> pairs_sorted ps"
proof -
  assume f: "\<And>p. sp_first (f p) = sp_first p \<and> matchlength (f p) = matchlength p"
  have first: "sp_first (if sp_addr p = a then f p else p) = sp_first p" for p using f by simp
  have "pair_ok (if sp_addr p = a then f p else p) = pair_ok p" for p using f by (simp add: pair_ok_def)
  with first show ?thesis by (simp add: pairs_sorted_def update_node_def comp_def list.pred_map)
qed

lemma addr_update [simp]:
  "(\<And>p. sp_addr (f p) = sp_addr p) \<Longrightarrow> map sp_addr (update_node a f ps) = map sp_addr ps"
  by (auto simp: update_node_def)

lemma set_map_link: "distinct (map sp_addr (link_stringpair cur ps)) \<longleftrightarrow>
    sp_addr cur \<notin> sp_addr ` set ps \<and> distinct (map sp_addr ps)"
  by (induction ps) auto

text \<open>
  C25: \<open>insert_subst\<close> keeps the substitution table well formed: for a pattern that starts
  with a letter, an underscore or an at sign, a prefix length inside the pattern and a node at an
  unused address, and without a pending \<open>#pragma deprecated\<close>, it succeeds, the table stays
  sorted, the index stays exact, and the nodes are the old ones and the new one, which is not
  deprecated, whatever the fresh memory contained.
\<close>

theorem insert_subst_inv:
  assumes "subst_inv st" "pattern \<noteq> []" "subst_char (hd pattern)"
    and "0 < prefixlen" "prefixlen \<le> length pattern"
    and "a \<notin> sp_addr ` set (substpair st)" "pc_deprecate st = None"
  shows "\<exists>st'. insert_subst status st pattern substitution prefixlen (Some (a, flags, doc)) True True
      = Inr st'
    \<and> subst_inv st'
    \<and> set (substpair st') = insert \<lparr>sp_addr = a, sp_first = pattern, sp_second = substitution,
         matchlength = prefixlen, sp_deprecated = False, documentation = DocNull\<rparr> (set (substpair st))"
proof -
  let ?cur = "\<lparr>sp_addr = a, sp_first = pattern, sp_second = substitution,
     matchlength = prefixlen, sp_deprecated = flags, documentation = doc\<rparr>"
  let ?f = "\<lambda>p. p\<lparr>sp_deprecated := False, documentation := DocNull\<rparr>"
  let ?tab = "link_stringpair ?cur (substpair st)"
  let ?st = "st\<lparr>substpair := update_node a ?f ?tab,
     substindex := (substindex st)(hd pattern := first_with ?tab (hd pattern))\<rparr>"
  have ins: "insert_subst status st pattern substitution prefixlen (Some (a, flags, doc)) True True = Inr ?st"
    using assms(2,3,7)
    by (cases pattern) (auto simp: insert_subst_def insert_stringpair_def duplicatestring_def
        adjustindex_def Let_def)
  have ok: "pair_ok ?cur"
    using assms(2-5) subst_char_ascii by (simp add: pair_ok_def)
  have "subst_inv ?st"
    using assms(1,6) pairs_sorted_link [OF _ ok] first_with_link [of _ ?cur] assms(2)
    by (auto simp: subst_inv_def set_map_link first_char_hd)
  moreover have "?f p = p" if "p \<in> set (substpair st)" "sp_addr p = a" for p
    using that assms(6) by blast
  then have "set (update_node a ?f ?tab) = insert (?f ?cur) (set (substpair st))"
    using assms(6) by (auto simp: update_node_def image_iff)
  ultimately show ?thesis using ins by (intro exI [of _ ?st]) simp
qed

lemma insert_subst_inv_witness:
  "\<exists>st'. insert_subst statWRITE sclists_empty ''MAX(%1)'' ''(%1)'' 3 (Some (9, True, DocWild)) True True
      = Inr st' \<and> subst_inv st'"
proof -
  have "subst_inv sclists_empty" "subst_char (hd ''MAX(%1)'')" "''MAX(%1)'' \<noteq> []"
    "(0::nat) < 3" "3 \<le> length ''MAX(%1)''" "9 \<notin> sp_addr ` set (substpair sclists_empty)"
    "pc_deprecate sclists_empty = None"
    by (simp_all add: subst_inv_def sclists_empty_def subst_char_def)
  from insert_subst_inv [OF this(1,3,2,4,5,6,7), of statWRITE "''(%1)''" True DocWild]
  show ?thesis by blast
qed

text \<open>A well-formed table with two macros of one name prefix.\<close>

definition subst_example :: sclists where
  "subst_example = sclists_empty\<lparr>
     substpair := [\<lparr>sp_addr = 2, sp_first = ''a(%1)'', sp_second = ''1'', matchlength = 1,
                    sp_deprecated = True, documentation = DocStr ''old''\<rparr>,
                   \<lparr>sp_addr = 1, sp_first = ''ab'', sp_second = ''2'', matchlength = 2,
                    sp_deprecated = False, documentation = DocNull\<rparr>],
     substindex := (\<lambda>_. None)(CHR ''a'' := Some 2)\<rparr>"

lemma subst_example_inv: "subst_inv subst_example"
proof -
  have "schar c = 97 \<longleftrightarrow> c = CHR ''a''" for c
    using schar_inj [of c "CHR ''a''"] by (simp add: schar_def)
  then show ?thesis
    by (auto simp: subst_inv_def subst_example_def sclists_empty_def pair_ok_def ascii_def
        first_char_def schar_def)
qed

lemma find_subst_first_match_witness:
  "\<exists>p. find_subst subst_example ''ab'' 2 = Inr (Some p, None) \<and> sp_second p = ''2''"
proof -
  have "\<exists>w. find_subst subst_example ''ab'' 2
      = Inr (find (pair_match ''ab'' 2) (substpair subst_example), w)
    \<and> (w \<noteq> None \<longleftrightarrow> (\<exists>p. find (pair_match ''ab'' 2) (substpair subst_example) = Some p \<and> sp_deprecated p))"
    by (rule find_subst_first_match [OF subst_example_inv])
       (simp_all add: subst_char_def subst_example_def sclists_empty_def)
  then obtain w where "find_subst subst_example ''ab'' 2
      = Inr (find (pair_match ''ab'' 2) (substpair subst_example), w)"
    "w \<noteq> None \<longleftrightarrow> (\<exists>p. find (pair_match ''ab'' 2) (substpair subst_example) = Some p \<and> sp_deprecated p)"
    by blast
  then show ?thesis by (cases w) (simp_all add: subst_example_def sclists_empty_def pair_match_def)
qed

lemma first_with_remove:
  "list_all pair_ok ps \<Longrightarrow> p \<in> set ps \<Longrightarrow> hd (sp_first p) \<noteq> d \<Longrightarrow> distinct (map sp_addr ps) \<Longrightarrow>
    first_with (snd (delete_stringpair ps (sp_addr p))) d = first_with ps d"
  by (induction ps) (auto simp: first_char_hd pair_ok_def split: prod.split)

lemma delete_stringpair_in:
  "distinct (map sp_addr ps) \<Longrightarrow> p \<in> set ps \<Longrightarrow>
    set (snd (delete_stringpair ps (sp_addr p))) = set ps - {p}"
proof (induction ps)
  case (Cons q ps)
  then show ?case by (cases "sp_addr q = sp_addr p") (auto split: prod.split)
qed simp

lemma delete_stringpair_subset: "set (snd (delete_stringpair ps a)) \<subseteq> set ps"
  by (induction ps) (auto split: prod.split)

lemma pairs_sorted_delete: "pairs_sorted ps \<Longrightarrow> pairs_sorted (snd (delete_stringpair ps a))"
proof (induction ps)
  case (Cons p ps)
  then show ?case using delete_stringpair_subset [of ps a] by (auto split: prod.split)
qed simp

lemma distinct_delete:
  "distinct (map sp_addr ps) \<Longrightarrow> distinct (map sp_addr (snd (delete_stringpair ps a)))"
proof (induction ps)
  case (Cons p ps)
  then show ?case using delete_stringpair_subset [of ps a] by (auto split: prod.split)
qed simp

text \<open>
  C26: \<open>delete_subst\<close> (\<open>#undef\<close>) removes exactly the node that \<open>find_subst\<close> would
  find, reports whether there was one, and keeps the table sorted and the index exact.
\<close>

theorem delete_subst_inv:
  assumes "subst_inv st" "name \<noteq> []" "subst_char (hd name)" "0 < len"
  shows "\<exists>st' found. delete_subst st name len = Inr (found, st') \<and> subst_inv st'
    \<and> (case find (pair_match name len) (substpair st) of
         None \<Rightarrow> \<not> found \<and> st' = st
       | Some p \<Rightarrow> found \<and> set (substpair st') = set (substpair st) - {p})"
proof -
  have eq: "subst_lookup st name len = find (pair_match name len) (substpair st)"
    using assms by (rule subst_lookup_find)
  show ?thesis
  proof (cases "find (pair_match name len) (substpair st)")
    case None
    then have "delete_subst st name len = Inr (False, st)"
      using assms(2-4) eq by (simp add: delete_subst_def)
    then show ?thesis using None assms(1) by auto
  next
    case (Some p)
    let ?ps = "snd (delete_stringpair (substpair st) (sp_addr p))"
    let ?st = "st\<lparr>substpair := ?ps, substindex := (substindex st)(hd name := first_with ?ps (hd name))\<rparr>"
    have p: "p \<in> set (substpair st)" "pair_match name len p" using find_in Some by fast+
    have ok: "list_all pair_ok (substpair st)" and d: "distinct (map sp_addr (substpair st))"
      using assms(1) by (auto simp: subst_inv_def pairs_sorted_def)
    have hd: "hd (sp_first p) = hd name"
      using p ok assms(2) pair_match_hd by (auto simp: list_all_iff)
    have "delete_subst st name len = Inr (True, ?st)"
      using Some assms(2-4) eq by (simp add: delete_subst_def adjustindex_def)
    moreover have "subst_inv ?st"
      using assms(1) first_with_remove [OF ok p(1) _ d] hd
      by (auto simp: subst_inv_def pairs_sorted_delete distinct_delete)
    moreover have "set ?ps = set (substpair st) - {p}" using delete_stringpair_in d p(1) by blast
    ultimately show ?thesis using Some by (intro exI [of _ ?st] exI [of _ True]) simp
  qed
qed

lemma delete_subst_inv_witness:
  "\<exists>st'. delete_subst subst_example ''a'' 1 = Inr (True, st') \<and> subst_inv st'
    \<and> map sp_second (substpair st') = [''2'']"
proof -
  have "\<exists>st' found. delete_subst subst_example ''a'' 1 = Inr (found, st') \<and> subst_inv st'
    \<and> (case find (pair_match ''a'' 1) (substpair subst_example) of
         None \<Rightarrow> \<not> found \<and> st' = subst_example
       | Some p \<Rightarrow> found \<and> set (substpair st') = set (substpair subst_example) - {p})"
    by (rule delete_subst_inv [OF subst_example_inv]) (simp_all add: subst_char_def)
  moreover have "delete_subst subst_example ''a'' 1 = Inr (True,
      subst_example\<lparr>substpair := tl (substpair subst_example),
                    substindex := (substindex subst_example)(CHR ''a'' := Some 1)\<rparr>)"
    by (simp add: delete_subst_def subst_example_def sclists_empty_def subst_char_def subst_lookup_def
        list_from_def first_char_def schar_def strncmp_def adjustindex_def)
  ultimately show ?thesis by (auto simp: subst_example_def sclists_empty_def)
qed

section \<open>The simple tables\<close>

text \<open>
  The include path table is a sequence: after \<open>delete_pathtable\<close> and any number of
  \<open>insert_path\<close> calls, \<open>get_path\<close> returns the paths in the order of insertion, and
  null past the end, which is how the include search loop of the compiler stops.
\<close>

lemma path_table_readback:
  "\<exists>st'. paths.ins_all ps (delete_pathtable st) = Inr st'
     \<and> (\<forall>i. get_path st' i = (if nat i < length ps then Some (ps ! nat i) else None))"
  by (rule paths.get_ins_all)

text \<open>
  The list of heap adjustments is a queue: the pairs pushed while the code is first
  generated are popped, when it is written, in the same order, and then the list is empty.
\<close>

lemma heaplist_fifo:
  "heap.pop_n (length xs + k)
     (foldl (\<lambda>st x. case push_heaplist st (fst x) (snd x) True of Inr st' \<Rightarrow> st' | Inl _ \<Rightarrow> st)
        (delete_heaplisttable st) xs)
   = map Some xs @ replicate k None"
  using heap.pop_n_seq [of "foldl (\<lambda>st x. case push_heaplist st (fst x) (snd x) True of Inr st' \<Rightarrow> st' | Inl _ \<Rightarrow> st)
        (delete_heaplisttable st) xs" k]
  by (simp add: heap.seq_foldl_push delete_heaplisttable_def)

text \<open>
  A macro that follows \<open>#pragma deprecated\<close> is not inserted safely: in the pass that
  writes code, \<open>insert_subst\<close> frees the documentation pointer of the new node before anything
  has stored to it, so that with fresh memory that is not null by luck the call goes wrong, for
  every table, pattern and message.
\<close>

lemma insert_subst_deprecated_faults:
  assumes "pattern \<noteq> []" "subst_char (hd pattern)" "pc_deprecate st = Some msg"
  shows "insert_subst statWRITE st pattern substitution prefixlen (Some (a, flags, DocWild)) True True
    = Inl OutOfBounds"
  using assms by (cases pattern)
    (simp_all add: insert_subst_def insert_stringpair_def duplicatestring_def adjustindex_def Let_def)

lemma insert_subst_deprecated_faults_witness:
  "insert_subst statWRITE (sclists_empty\<lparr>pc_deprecate := Some ''old''\<rparr>) ''MAX'' ''1'' 3
     (Some (1, False, DocWild)) True True = Inl OutOfBounds"
  by (rule insert_subst_deprecated_faults [of _ _ "''old''"])
     (simp_all add: subst_char_def sclists_empty_def)

end
