(* ===== verification/Constvals.thy ===== *)
theory Constvals
  imports Prelude
begin

text \<open>
  The lists of named constants of the compiler (\<open>constvalue\<close> in \<open>sc.h\<close>, the operations at
  the end of \<open>sc1.c\<close>): tag names, library names, automata, states, enumeration fields, case
  tables and the state-specific function addresses are all such lists.  A list with a root
  node is the list of its nodes.
\<close>

record constvalue =
  cv_name :: string
  cv_value :: cell
  cv_index :: int

definition cv_NAMEMAX :: nat where "cv_NAMEMAX = 63"

text \<open>Storing an \<open>int\<close> to a \<open>short\<close>.\<close>

definition to_short :: "int \<Rightarrow> int" where
  "to_short i = signed_take_bit 15 i"

definition SHRT_MAX :: int where "SHRT_MAX = 32767"

lemma to_short_id [simp]: "0 \<le> i \<Longrightarrow> i \<le> SHRT_MAX \<Longrightarrow> to_short i = i"
  unfolding to_short_def SHRT_MAX_def by (rule signed_take_bit_int_eq_self) auto

text \<open>
  \<open>insert_constval\<close> puts the node between two nodes: at a position of the list.  A null name
  leaves the zeroed field; \<open>ok\<close> is the outcome of \<open>malloc\<close>.
\<close>

definition insert_constval ::
  "constvalue list \<Rightarrow> nat \<Rightarrow> string option \<Rightarrow> cell \<Rightarrow> int \<Rightarrow> bool \<Rightarrow> (constvalue \<times> constvalue list) res" where
  "insert_constval table pos name val index ok =
     (if \<not> ok then Inl (FatalError 103)
      else assertR (case name of None \<Rightarrow> True | Some s \<Rightarrow> length s \<le> cv_NAMEMAX)
        (let cur = \<lparr>cv_name = (case name of None \<Rightarrow> '''' | Some s \<Rightarrow> s), cv_value = val, cv_index = index\<rparr>
         in Inr (cur, take pos table @ cur # drop pos table)))"

definition append_constval ::
  "constvalue list \<Rightarrow> string \<Rightarrow> cell \<Rightarrow> int \<Rightarrow> bool \<Rightarrow> (constvalue \<times> constvalue list) res" where
  "append_constval table name val index ok =
     insert_constval table (length table) (Some name) val index ok"

fun find_constval :: "constvalue list \<Rightarrow> string \<Rightarrow> int \<Rightarrow> constvalue option" where
  "find_constval [] name index = None"
| "find_constval (ptr # rest) name index =
     (if strcmp name (cv_name ptr) = 0 \<and> cv_index ptr = index then Some ptr
      else find_constval rest name index)"

fun find_constval_byval :: "constvalue list \<Rightarrow> cell \<Rightarrow> constvalue option" where
  "find_constval_byval [] val = None"
| "find_constval_byval (ptr # rest) val =
     (if cv_value ptr = val then Some ptr else find_constval_byval rest val)"

definition delete_consttable :: "constvalue list \<Rightarrow> constvalue list" where
  "delete_consttable table = []"

lemma append_constval_eq: "length name \<le> cv_NAMEMAX \<Longrightarrow>
    append_constval table name val index True
    = Inr (\<lparr>cv_name = name, cv_value = val, cv_index = index\<rparr>,
           table @ [\<lparr>cv_name = name, cv_value = val, cv_index = index\<rparr>])"
  by (simp add: append_constval_def insert_constval_def Let_def)

section \<open>Tags\<close>

text \<open>
  A tag is a 32-bit number: the sequence number of the tag name, with \<open>FIXEDTAG\<close> set for a
  strong tag (a name that starts with a capital) and \<open>PUBLICTAG\<close> for a tag that the compiled
  file must list.
\<close>

unbundle bit_operations_syntax

definition PUBLICTAG :: cell where "PUBLICTAG = 0x80000000"
definition FIXEDTAG :: cell where "FIXEDTAG = 0x40000000"
definition TAGMASK :: cell where "TAGMASK = NOT PUBLICTAG"

text \<open>
  The loop of \<open>pc_addtag\<close>: either the tag of a known name or the highest sequence number so
  far (compared as a signed \<open>int\<close>).
\<close>

fun pc_addtag_loop :: "constvalue list \<Rightarrow> string \<Rightarrow> cell \<Rightarrow> cell + cell" where
  "pc_addtag_loop [] name lst = Inr lst"
| "pc_addtag_loop (ptr # rest) name lst =
     (let tag = cv_value ptr AND TAGMASK in
      if strcmp name (cv_name ptr) = 0 then Inl tag
      else let tag' = tag AND NOT FIXEDTAG in
        pc_addtag_loop rest name (if lst <s tag' then tag' else lst))"

text \<open>\<open>pc_addtag\<close> with a name (the caller passes none when a label may follow in the input).\<close>

definition pc_addtag :: "constvalue list \<Rightarrow> string \<Rightarrow> bool \<Rightarrow> (cell \<times> constvalue list) res" where
  "pc_addtag tagname_tab name ok =
     assertR (strchr name (CHR '':'') = None)
       (case pc_addtag_loop tagname_tab name 0 of
          Inl tag \<Rightarrow> Inr (tag, tagname_tab)
        | Inr lst \<Rightarrow>
            let tag = (if name \<noteq> [] \<and> isupper (hd name) then (lst + 1) OR FIXEDTAG else lst + 1) in
            bindR (append_constval tagname_tab name tag 0 ok) (\<lambda>(cur, tab). Inr (tag, tab)))"

definition find_tag_byval :: "constvalue list \<Rightarrow> cell \<Rightarrow> constvalue option" where
  "find_tag_byval tagname_tab tag =
     (case find_constval_byval tagname_tab (tag AND NOT PUBLICTAG) of
        None \<Rightarrow> find_constval_byval tagname_tab (tag OR PUBLICTAG)
      | Some p \<Rightarrow> Some p)"

section \<open>Tag numbers are stable and distinct\<close>

text \<open>The sequence number of a tag: the number without the two flag bits.\<close>

definition tag_seq :: "constvalue \<Rightarrow> cell" where
  "tag_seq p = (cv_value p AND TAGMASK) AND NOT FIXEDTAG"

definition tag_inv :: "constvalue list \<Rightarrow> bool" where
  "tag_inv tab \<longleftrightarrow> distinct (map cv_name tab) \<and> distinct (map tag_seq tab)
     \<and> list_all (\<lambda>p. unat (tag_seq p) \<le> length tab) tab"

lemma tag_mask: "(x AND TAGMASK) AND NOT FIXEDTAG = take_bit 30 x"
proof -
  have "TAGMASK AND NOT FIXEDTAG = (mask 30 :: cell)"
    by (simp add: TAGMASK_def PUBLICTAG_def FIXEDTAG_def mask_eq_exp_minus_1)
  then show ?thesis by (simp add: and.assoc take_bit_eq_mask)
qed

lemma tag_seq_take: "tag_seq p = take_bit 30 (cv_value p)"
  by (simp add: tag_seq_def tag_mask)

lemma unat_take_bit_30: "unat (take_bit 30 (x :: cell)) < 2 ^ 30"
  using take_bit_nat_less_exp [of 30 "unat x"] by (simp add: unsigned_take_bit_eq)

lemma take_bit_30_small: "unat x < 2 ^ 30 \<Longrightarrow> take_bit 30 (x :: cell) = x"
  by (simp add: word_unat_eq_iff unsigned_take_bit_eq take_bit_nat_eq_self)

lemma take_bit_30_or: "unat x < 2 ^ 30 \<Longrightarrow> take_bit 30 (x OR FIXEDTAG) = (x :: cell)"
proof -
  assume "unat x < 2 ^ 30"
  moreover have "take_bit 30 FIXEDTAG = 0" by (simp add: FIXEDTAG_def)
  ultimately show ?thesis by (simp add: take_bit_30_small)
qed

lemma tagmask_small: "unat x < 2 ^ 30 \<Longrightarrow> x AND TAGMASK = x \<and> (x OR FIXEDTAG) AND TAGMASK = x OR FIXEDTAG"
proof -
  assume "unat x < 2 ^ 30"
  then have "take_bit 31 x = x"
    by (simp add: word_unat_eq_iff unsigned_take_bit_eq take_bit_nat_eq_self)
  moreover have "TAGMASK = mask 31" by (simp add: TAGMASK_def PUBLICTAG_def mask_eq_exp_minus_1)
  ultimately have "x AND TAGMASK = x" by (simp add: take_bit_eq_mask)
  moreover have "FIXEDTAG AND TAGMASK = FIXEDTAG"
    by (simp add: FIXEDTAG_def TAGMASK_def PUBLICTAG_def)
  ultimately show ?thesis by (simp add: word_ao_dist)
qed

lemma sless_30: "unat x < 2 ^ 30 \<Longrightarrow> unat y < 2 ^ 30 \<Longrightarrow> (x :: cell) <s y \<longleftrightarrow> x < y"
  using sint_unat [of x] sint_unat [of y] by (simp add: word_sless_alt word_less_def)

lemma pc_addtag_loop_Inl:
  "pc_addtag_loop tab name lst = Inl t \<longleftrightarrow>
     (\<exists>p. find (\<lambda>p. cv_name p = name) tab = Some p \<and> t = cv_value p AND TAGMASK)"
  by (induction tab arbitrary: lst) (auto simp: Let_def)

text \<open>Without the name in the table, the loop finds the largest sequence number.\<close>

lemma pc_addtag_loop_Inr:
  "name \<notin> cv_name ` set tab \<Longrightarrow> unat lst < 2 ^ 30 \<Longrightarrow>
    \<exists>m. pc_addtag_loop tab name lst = Inr m \<and> lst \<le> m \<and> (\<forall>p\<in>set tab. tag_seq p \<le> m)
      \<and> (m = lst \<or> (\<exists>p\<in>set tab. m = tag_seq p))"
proof (induction tab arbitrary: lst)
  case (Cons p tab)
  let ?t = "(cv_value p AND TAGMASK) AND NOT FIXEDTAG"
  have t: "?t = tag_seq p" by (simp add: tag_seq_def)
  have lt: "unat (tag_seq p) < 2 ^ 30" using unat_take_bit_30 by (simp add: tag_seq_take)
  define l where "l = (if lst <s ?t then ?t else lst)"
  have l: "l = max lst (tag_seq p)"
    using sless_30 [OF Cons.prems(2) lt] by (auto simp: l_def t max_def)
  have "unat l < 2 ^ 30" using lt Cons.prems(2) by (simp add: l max_def)
  moreover have "name \<notin> cv_name ` set tab" using Cons.prems by simp
  ultimately obtain m where m: "pc_addtag_loop tab name l = Inr m" "l \<le> m"
    "\<forall>p\<in>set tab. tag_seq p \<le> m" "m = l \<or> (\<exists>p\<in>set tab. m = tag_seq p)"
    using Cons.IH by blast
  have "pc_addtag_loop (p # tab) name lst = Inr m"
    using m(1) Cons.prems(1) by (auto simp: Let_def l_def)
  then show ?case using m l by (auto simp: max_def split: if_splits)
qed simp

lemma pc_addtag_known: "pc_addtag tab name True = Inr (t, tab) \<longleftrightarrow>
    CHR '':'' \<notin> set name
    \<and> (\<exists>p. find (\<lambda>p. cv_name p = name) tab = Some p \<and> t = cv_value p AND TAGMASK)"
proof (cases "pc_addtag_loop tab name 0")
  case (Inl a)
  then show ?thesis using pc_addtag_loop_Inl [of tab name 0 a]
    by (auto simp: pc_addtag_def strchr_None assertR_def)
next
  case (Inr m)
  then have "\<not> (\<exists>p. find (\<lambda>p. cv_name p = name) tab = Some p)"
    using pc_addtag_loop_Inl [of tab name 0] by (metis Inr_not_Inl)
  then show ?thesis using Inr
    by (auto simp: pc_addtag_def assertR_def append_constval_def insert_constval_def Let_def)
qed

lemma find_constname_append:
  "find (\<lambda>p. cv_name p = n) (tab @ [q]) =
    (case find (\<lambda>p. cv_name p = n) tab of
       None \<Rightarrow> (if cv_name q = n then Some q else None) | Some p \<Rightarrow> Some p)"
  by (induction tab) auto

lemma find_constname_None: "find (\<lambda>p. cv_name p = n) tab = None \<longleftrightarrow> n \<notin> cv_name ` set tab"
  by (auto simp: find_None_iff)

text \<open>A new tag: one more than every sequence number in use.\<close>

lemma pc_addtag_new:
  assumes "tag_inv tab" "CHR '':'' \<notin> set name" "length name \<le> cv_NAMEMAX" "length tab < 2 ^ 30 - 1"
    and new: "name \<notin> cv_name ` set tab"
  shows "\<exists>v. pc_addtag tab name True = Inr (v AND TAGMASK, tab @ [\<lparr>cv_name = name, cv_value = v, cv_index = 0\<rparr>])
    \<and> tag_inv (tab @ [\<lparr>cv_name = name, cv_value = v, cv_index = 0\<rparr>])"
proof -
  obtain m where m: "pc_addtag_loop tab name 0 = Inr m" "\<forall>p\<in>set tab. tag_seq p \<le> m"
    "m = 0 \<or> (\<exists>p\<in>set tab. m = tag_seq p)"
    using pc_addtag_loop_Inr [OF new, of 0] by auto
  have le: "unat m \<le> length tab" using m(3) assms(1) by (auto simp: tag_inv_def list_all_iff)
  then have Suc: "unat (m + 1) = Suc (unat m)" using assms(4) by (simp add: unat_word_ariths)
  then have lt: "unat (m + 1) < 2 ^ 30" using le assms(4) by simp
  define v where "v = (if name \<noteq> [] \<and> isupper (hd name) then (m + 1) OR FIXEDTAG else m + 1)"
  let ?q = "\<lparr>cv_name = name, cv_value = v, cv_index = 0\<rparr>"
  have seq: "tag_seq ?q = m + 1"
    using take_bit_30_or [OF lt] take_bit_30_small [OF lt] by (simp add: tag_seq_take v_def)
  have "v AND TAGMASK = v"
    using tagmask_small [OF lt] by (simp add: v_def)
  then have "pc_addtag tab name True = Inr (v AND TAGMASK, tab @ [?q])"
    using assms(2,3) m(1) by (simp add: pc_addtag_def strchr_None append_constval_eq Let_def v_def)
  moreover have "m + 1 \<noteq> tag_seq p" if "p \<in> set tab" for p
    using that m(2) Suc by (metis Suc_n_not_le_n word_le_nat_alt)
  then have "tag_inv (tab @ [?q])"
    using assms(1) new seq Suc le by (fastforce simp: tag_inv_def list_all_iff)
  ultimately show ?thesis by blast
qed

text \<open>
  C22: Tag numbers identify tag names: in a table with fewer than $2^{30} - 1$ entries
  \<open>pc_addtag\<close> of a name without a colon succeeds and keeps the table well formed, the same
  name gets the same number again without another entry, every name that was known keeps its
  number, and a different name never has the same sequence number.
\<close>

theorem pc_addtag_stable:
  assumes "tag_inv tab" "CHR '':'' \<notin> set name" "length name \<le> cv_NAMEMAX" "length tab < 2 ^ 30 - 1"
  shows "\<exists>tag tab'. pc_addtag tab name True = Inr (tag, tab') \<and> tag_inv tab'
    \<and> pc_addtag tab' name True = Inr (tag, tab')
    \<and> (\<forall>other t. pc_addtag tab other True = Inr (t, tab) \<longrightarrow> pc_addtag tab' other True = Inr (t, tab'))
    \<and> (\<forall>other t. pc_addtag tab' other True = Inr (t, tab') \<and> other \<noteq> name \<longrightarrow>
         t AND NOT FIXEDTAG \<noteq> tag AND NOT FIXEDTAG)"
proof -
  obtain tag tab' where add: "pc_addtag tab name True = Inr (tag, tab')" "tag_inv tab'"
    and known: "pc_addtag tab' name True = Inr (tag, tab')"
    and keep: "\<forall>other t. pc_addtag tab other True = Inr (t, tab) \<longrightarrow> pc_addtag tab' other True = Inr (t, tab')"
  proof (cases "name \<in> cv_name ` set tab")
    case True
    then obtain p where "find (\<lambda>p. cv_name p = name) tab = Some p"
      by (metis find_constname_None not_None_eq)
    then have "pc_addtag tab name True = Inr (cv_value p AND TAGMASK, tab)"
      using assms(2) by (simp add: pc_addtag_known)
    then show ?thesis using assms(1) by (intro that) auto
  next
    case False
    from pc_addtag_new [OF assms False] obtain v where v:
      "pc_addtag tab name True = Inr (v AND TAGMASK, tab @ [\<lparr>cv_name = name, cv_value = v, cv_index = 0\<rparr>])"
      "tag_inv (tab @ [\<lparr>cv_name = name, cv_value = v, cv_index = 0\<rparr>])" by blast
    have "find (\<lambda>p. cv_name p = name) tab = None" using False by (simp add: find_constname_None)
    then show ?thesis using v assms(2)
      by (intro that [of "v AND TAGMASK" "tab @ [\<lparr>cv_name = name, cv_value = v, cv_index = 0\<rparr>]"])
         (auto simp: pc_addtag_known find_constname_append)
  qed
  have "t AND NOT FIXEDTAG \<noteq> tag AND NOT FIXEDTAG"
    if o: "pc_addtag tab' other True = Inr (t, tab')" "other \<noteq> name" for other t
  proof -
    obtain p q where pq: "find (\<lambda>p. cv_name p = other) tab' = Some p" "t = cv_value p AND TAGMASK"
      "find (\<lambda>p. cv_name p = name) tab' = Some q" "tag = cv_value q AND TAGMASK"
      using o(1) known by (auto simp: pc_addtag_known)
    then have in': "p \<in> set tab'" "q \<in> set tab'" "cv_name p = other" "cv_name q = name"
      by (auto simp: find_Some_iff)
    then have "tag_seq p \<noteq> tag_seq q"
      using add(2) o(2) by (metis distinct_map inj_onD tag_inv_def)
    then show ?thesis using pq by (simp add: tag_seq_def)
  qed
  then show ?thesis using add known keep by blast
qed

text \<open>The table the compiler starts with.\<close>

definition tagname_tab0 :: "constvalue list" where
  "tagname_tab0 = [\<lparr>cv_name = ''_'', cv_value = 0, cv_index = 0\<rparr>, \<lparr>cv_name = ''bool'', cv_value = 1, cv_index = 0\<rparr>]"

lemma pc_addtag_stable_witness:
  "\<exists>tab'. pc_addtag tagname_tab0 ''Float'' True = Inr (0x40000002, tab')
     \<and> pc_addtag tab' ''Float'' True = Inr (0x40000002, tab')"
proof -
  have "tag_inv tagname_tab0"
    by (simp add: tag_inv_def tagname_tab0_def tag_seq_take)
  from pc_addtag_stable [OF this, of "''Float''"] obtain tag tab' where
    t: "pc_addtag tagname_tab0 ''Float'' True = Inr (tag, tab')" "pc_addtag tab' ''Float'' True = Inr (tag, tab')"
    by (auto simp: cv_NAMEMAX_def tagname_tab0_def)
  moreover have "tag = 0x40000002"
    using t(1) by (simp add: pc_addtag_def tagname_tab0_def TAGMASK_def PUBLICTAG_def FIXEDTAG_def
        isupper_def append_constval_eq cv_NAMEMAX_def strchr_None word_sless_alt Let_def)
  ultimately show ?thesis by blast
qed

end
