(* ===== verification/Opnames.thy ===== *)
theory Opnames
  imports Constvals
begin

text \<open>
  The names of user-defined operators (\<open>sc1.c\<close>).  A user-defined operator is a function whose
  name is made of the operator and the hexadecimal tag numbers of its operands;
  \<open>operator_symname\<close> builds the name and \<open>parse_funcname\<close> takes it apart for messages and for
  the documentation.
\<close>

section \<open>Reading hexadecimal numbers\<close>

text \<open>The value of the leading hexadecimal digits and the rest of the text.\<close>

fun hex_scan :: "nat \<Rightarrow> string \<Rightarrow> nat \<times> string" where
  "hex_scan acc [] = (acc, [])"
| "hex_scan acc (c # s) =
     (case hex_val c of None \<Rightarrow> (acc, c # s) | Some d \<Rightarrow> hex_scan (acc * 16 + d) s)"

text \<open>
  \<open>strtol\<close> with base 16: white space, a sign, an optional \<open>0x\<close>, digits; without digits the
  end pointer is the start of the text.  The result saturates at the limits of a 32-bit
  \<open>long\<close>.
\<close>

definition strtol16 :: "string \<Rightarrow> int \<times> string" where
  "strtol16 s =
     (let s1 = dropWhile isspace s;
          neg = (s1 \<noteq> [] \<and> hd s1 = CHR ''-'');
          s2 = (if s1 \<noteq> [] \<and> hd s1 \<in> {CHR ''+'', CHR ''-''} then tl s1 else s1);
          s3 = (if take 2 s2 \<in> {''0x'', ''0X''} \<and> 2 < length s2 \<and> hex_val (s2 ! 2) \<noteq> None
                then drop 2 s2 else s2) in
      if s3 = [] \<or> hex_val (hd s3) = None then (0, s)
      else let (n, rest) = hex_scan 0 s3 in
        ((if neg then max (- (2 ^ 31)) (- int n) else min (2 ^ 31 - 1) (int n)), rest))"

section \<open>Names\<close>

definition tag2str :: "cell \<Rightarrow> string res" where
  "tag2str tag =
     (let tag = tag AND TAGMASK in
      assertR (0 \<le> sint tag)
        (let dest = CHR ''0'' # hex_digits (unat tag) in
         Inr (if isdigit (dest ! 1) then tl dest else dest)))"

definition operator_symname :: "string \<Rightarrow> cell \<Rightarrow> cell \<Rightarrow> int \<Rightarrow> cell \<Rightarrow> string res" where
  "operator_symname opername tag1 tag2 numtags resulttag =
     assertR (1 \<le> numtags \<and> numtags \<le> 2)
       (let opertok = (case opername of [c] \<Rightarrow> c | _ \<Rightarrow> NUL) in
        if opertok = CHR ''='' then
          bindR (tag2str resulttag) (\<lambda>r. bindR (tag2str tag1) (\<lambda>t. Inr (r @ opername @ t)))
        else if numtags = 1 \<or> opertok = CHR ''~'' then
          bindR (tag2str tag1) (\<lambda>t. Inr (opername @ t))
        else bindR (tag2str tag1) (\<lambda>t1. bindR (tag2str tag2) (\<lambda>t2. Inr (t1 @ opername @ t2))))"

text \<open>
  The copy loop of \<open>parse_funcname\<close> stops at a digit only: without one it runs past the end of
  the string.
\<close>

definition parse_funcname :: "string \<Rightarrow> (bool \<times> int \<times> int \<times> string) res" where
  "parse_funcname fname =
     (let (tag1, unary, ptr) =
        (if fname \<noteq> [] \<and> hd fname = CHR ''-'' then (0, True, fname)
         else let (t, p) = strtol16 fname in (t, p = fname, p)) in
      assertR (unary \<longrightarrow> tag1 = 0) (assertR (ptr \<noteq> [])
        (if \<not> list_ex isdigit ptr then Inl OutOfBounds
         else let opname = takeWhile (\<lambda>c. \<not> isdigit c) ptr;
                  tag2 = fst (strtol16 (dropWhile (\<lambda>c. \<not> isdigit c) ptr)) in
           Inr (unary, tag1, tag2, opname))))"

definition funcdisplayname :: "constvalue list \<Rightarrow> string \<Rightarrow> string res" where
  "funcdisplayname tagname_tab funcname =
     (if funcname = [] \<or> isalpha (hd funcname) \<or> hd funcname = CHR ''_'' \<or> hd funcname = CHR ''@''
      then Inr funcname
      else bindR (parse_funcname funcname) (\<lambda>(unary, tag1, tag2, opname).
        case find_tag_byval tagname_tab (word_of_int tag2) of
          None \<Rightarrow> Inl AssertFailed
        | Some tagsym1 \<Rightarrow>
            if unary then Inr (''operator'' @ opname @ ''('' @ cv_name tagsym1 @ '':)'')
            else (case find_tag_byval tagname_tab (word_of_int tag1) of
                None \<Rightarrow> Inl AssertFailed
              | Some tagsym0 \<Rightarrow>
                  if opname = ''='' then
                    Inr (cv_name tagsym0 @ '':operator'' @ opname @ ''('' @ cv_name tagsym1 @ '':)'')
                  else
                    Inr (''operator'' @ opname @ ''('' @ cv_name tagsym0 @ '':,'' @ cv_name tagsym1 @ '':)''))))"

section \<open>Names and their parts\<close>

lemma hex_scan_digits: "hex_scan acc (hex_digits n @ r) = hex_scan (acc * 16 ^ length (hex_digits n) + n) r"
proof (induction n arbitrary: acc r rule: hex_digits.induct)
  case (1 n)
  show ?case
  proof (cases "n < 16")
    case True
    then show ?thesis by (simp add: hex_digits.simps [of n])
  next
    case False
    then show ?thesis using 1 [of acc "hex_digit (n mod 16) # r"]
      by (simp add: hex_digits.simps [of n] algebra_simps)
  qed
qed

text \<open>The text of a tag: hexadecimal digits, the first of them a decimal digit.\<close>

definition tag_text :: "cell \<Rightarrow> string" where
  "tag_text tag =
     (let h = hex_digits (unat (tag AND TAGMASK)) in if isdigit (hd h) then h else CHR ''0'' # h)"

lemma unat_tagmask: "unat (tag AND TAGMASK) < 2 ^ 31"
proof -
  have "TAGMASK = mask 31" by (simp add: TAGMASK_def PUBLICTAG_def mask_eq_exp_minus_1)
  then have "tag AND TAGMASK = take_bit 31 tag" by (simp add: take_bit_eq_mask)
  then show ?thesis
    using take_bit_nat_less_exp [of 31 "unat tag"] by (simp add: unsigned_take_bit_eq)
qed

lemma tag2str_text: "tag2str tag = Inr (tag_text tag)"
proof -
  have "0 \<le> sint (tag AND TAGMASK)" using sint_unat [OF unat_tagmask] by simp
  then show ?thesis
    by (cases "hex_digits (unat (tag AND TAGMASK))")
       (auto simp: tag2str_def tag_text_def Let_def)
qed

lemma tag_text_hd: "tag_text tag \<noteq> [] \<and> isdigit (hd (tag_text tag))"
  by (auto simp: tag_text_def Let_def isdigit_def)

lemma tag_text_scan: "hex_scan 0 (tag_text tag @ r) = hex_scan (unat (tag AND TAGMASK)) r"
  using hex_scan_digits [of 0 "unat (tag AND TAGMASK)" r]
  by (simp add: tag_text_def Let_def hex_val_def)

lemma tag_text_chars: "c \<in> set (tag_text tag) \<Longrightarrow> hex_val c \<noteq> None"
  using hex_digits_chars [of c "unat (tag AND TAGMASK)"]
  by (auto simp: tag_text_def Let_def hex_val_def [of "CHR ''0''"] split: if_splits)

lemma isdigit_hex_val: "isdigit c \<Longrightarrow> hex_val c \<noteq> None \<and> \<not> isspace c \<and> c \<notin> {CHR ''+'', CHR ''-''}"
  by (auto simp: isdigit_def hex_val_def isspace_def less_eq_char_def)

text \<open>What may follow a number: the end, or a character that cannot continue it.\<close>

definition number_end :: "string \<Rightarrow> bool" where
  "number_end r \<longleftrightarrow> r = [] \<or> hex_val (hd r) = None \<and> hd r \<notin> {CHR ''x'', CHR ''X''}"

lemma strtol16_digit:
  assumes "isdigit d" "take 2 (d # t) \<notin> {''0x'', ''0X''}" "hex_scan 0 (d # t) = (n, r)" "n < 2 ^ 31"
  shows "strtol16 (d # t) = (int n, r)"
proof -
  have d: "hex_val d \<noteq> None" "\<not> isspace d" "d \<noteq> CHR ''+''" "d \<noteq> CHR ''-''"
    using isdigit_hex_val [OF assms(1)] by auto
  have "min (2 ^ 31 - 1) (int n) = int n" using assms(4) by simp
  then show ?thesis using d assms(2,3) by (auto simp: strtol16_def Let_def simp del: hex_scan.simps)
qed

lemma strtol16_tag: "number_end r \<Longrightarrow> strtol16 (tag_text tag @ r) = (int (unat (tag AND TAGMASK)), r)"
proof -
  assume r: "number_end r"
  obtain d s where s: "tag_text tag = d # s" and d: "isdigit d"
    using tag_text_hd [of tag] by (cases "tag_text tag") auto
  have x: "hex_val (CHR ''x'') = None" "hex_val (CHR ''X'') = None" by code_simp+
  have nx: "take 2 (d # s @ r) \<notin> {''0x'', ''0X''}"
  proof (cases s)
    case Nil
    then show ?thesis using r by (cases r) (auto simp: number_end_def)
  next
    case (Cons e s')
    then have "hex_val e \<noteq> None" using tag_text_chars [of e tag] s by simp
    then show ?thesis using Cons x by auto
  qed
  have sc: "hex_scan 0 (d # s @ r) = (unat (tag AND TAGMASK), r)"
    using tag_text_scan [of tag r] s r by (cases r) (auto simp: number_end_def)
  show ?thesis using strtol16_digit [OF d nx sc unat_tagmask] s by simp
qed

section \<open>Round trip\<close>

definition unary_ops :: "string list" where
  "unary_ops = [''!'', ''-'', ''++'', ''--'']"

definition binary_ops :: "string list" where
  "binary_ops = [''+'', ''-'', ''*'', ''/'', ''%'', ''>'', ''<'', ''=='', ''!='', ''<='', ''>='']"

definition op_ok :: "string \<Rightarrow> bool" where
  "op_ok op \<longleftrightarrow> list_all (\<lambda>c. \<not> isdigit c) op
     \<and> (case op of [] \<Rightarrow> False
        | c # _ \<Rightarrow> \<not> isspace c \<and> hex_val c = None \<and> c \<noteq> CHR ''x'' \<and> c \<noteq> CHR ''X'')"

lemma ops_ok: "op \<in> set (unary_ops @ binary_ops @ [''='', ''~'']) \<Longrightarrow> op_ok op"
proof -
  have "list_all op_ok (unary_ops @ binary_ops @ [''='', ''~''])" by code_simp
  then show "op \<in> set (unary_ops @ binary_ops @ [''='', ''~'']) \<Longrightarrow> op_ok op"
    by (metis list_all_iff)
qed

lemma ops_no_digit: "op \<in> set (unary_ops @ binary_ops @ [''='', ''~'']) \<Longrightarrow>
    \<exists>c s. op = c # s \<and> \<not> isspace c \<and> list_all (\<lambda>c. \<not> isdigit c) (c # s) \<and> number_end op"
  using ops_ok [of op] by (auto simp: op_ok_def number_end_def split: list.splits)

lemma strtol16_op: "c \<in> {CHR ''!'', CHR ''~''} \<Longrightarrow> strtol16 (c # t) = (0, c # t)"
  "strtol16 (CHR ''+'' # CHR ''+'' # t) = (0, CHR ''+'' # CHR ''+'' # t)"
proof -
  have h: "hex_val (CHR ''!'') = None" "hex_val (CHR ''~'') = None" "hex_val (CHR ''+'') = None"
    "\<not> isspace (CHR ''!'')" "\<not> isspace (CHR ''~'')" "\<not> isspace (CHR ''+'')"
    by code_simp+
  show "c \<in> {CHR ''!'', CHR ''~''} \<Longrightarrow> strtol16 (c # t) = (0, c # t)"
    using h by (auto simp: strtol16_def Let_def numeral_2_eq_2)
  show "strtol16 (CHR ''+'' # CHR ''+'' # t) = (0, CHR ''+'' # CHR ''+'' # t)"
    using h by (simp add: strtol16_def Let_def numeral_2_eq_2)
qed

lemma tag_text_split:
  assumes "list_all (\<lambda>c. \<not> isdigit c) op"
  shows "takeWhile (\<lambda>c. \<not> isdigit c) (op @ tag_text tag) = op"
    and "dropWhile (\<lambda>c. \<not> isdigit c) (op @ tag_text tag) = tag_text tag"
    and "list_ex isdigit (op @ tag_text tag)"
proof -
  obtain d s where "tag_text tag = d # s" "isdigit d"
    using tag_text_hd [of tag] by (cases "tag_text tag") auto
  with assms show "takeWhile (\<lambda>c. \<not> isdigit c) (op @ tag_text tag) = op"
    "dropWhile (\<lambda>c. \<not> isdigit c) (op @ tag_text tag) = tag_text tag"
    "list_ex isdigit (op @ tag_text tag)"
    by (induction op) auto
qed

lemma parse_binary:
  assumes "op \<in> set (binary_ops @ [''=''])"
  shows "parse_funcname (tag_text t1 @ op @ tag_text t2)
    = Inr (False, int (unat (t1 AND TAGMASK)), int (unat (t2 AND TAGMASK)), op)"
proof -
  obtain c s where op: "op = c # s" "list_all (\<lambda>c. \<not> isdigit c) op" "number_end op"
    using ops_no_digit [of op] assms by auto
  obtain d u where d: "tag_text t1 = d # u" "isdigit d"
    using tag_text_hd [of t1] by (cases "tag_text t1") auto
  then have "d \<noteq> CHR ''-''" using isdigit_hex_val by blast
  moreover have "strtol16 (tag_text t1 @ op @ tag_text t2) = (int (unat (t1 AND TAGMASK)), op @ tag_text t2)"
    using op by (intro strtol16_tag) (simp add: number_end_def)
  moreover have "strtol16 (tag_text t2) = (int (unat (t2 AND TAGMASK)), [])"
    using strtol16_tag [of "[]" t2] by (simp add: number_end_def)
  ultimately show ?thesis
    using d op(1) tag_text_split [OF op(2), of t2] by (simp add: parse_funcname_def)
qed

lemma parse_unary:
  assumes "op \<in> set (unary_ops @ [''~''])"
  shows "parse_funcname (op @ tag_text t) = Inr (True, 0, int (unat (t AND TAGMASK)), op)"
proof -
  obtain c s where op: "op = c # s" "list_all (\<lambda>c. \<not> isdigit c) op" "number_end op" "\<not> isspace c"
    using ops_no_digit [of op] assms by auto
  have "strtol16 (op @ tag_text t) = (0, op @ tag_text t)" if "c \<noteq> CHR ''-''"
    using assms that op(1) strtol16_op(1) [of c] strtol16_op(2) by (auto simp: unary_ops_def)
  moreover have "strtol16 (tag_text t) = (int (unat (t AND TAGMASK)), [])"
    using strtol16_tag [of "[]" t] by (simp add: number_end_def)
  ultimately show ?thesis
    using op(1) tag_text_split [OF op(2), of t] by (cases "c = CHR ''-''") (simp_all add: parse_funcname_def)
qed

text \<open>
  C23: The name of a user-defined operator determines the operator and its operand tags:
  for every operator the compiler accepts and every tag, \<open>parse_funcname\<close> applied to the name
  that \<open>operator_symname\<close> builds gives back the operator and the tag numbers without their
  public flag: the two operands of a binary operator, the result and the operand of an
  assignment, the operand alone of a unary operator or \<open>~\<close>.
\<close>

theorem operator_name_roundtrip:
  assumes "n = 1 \<and> op \<in> set (''='' # unary_ops) \<or> n = 2 \<and> op \<in> set (''~'' # binary_ops)"
  shows "\<exists>name. operator_symname op tag1 tag2 n resulttag = Inr name
    \<and> parse_funcname name = Inr
        (if op = ''='' then (False, int (unat (resulttag AND TAGMASK)), int (unat (tag1 AND TAGMASK)), op)
         else if n = 1 \<or> op = ''~'' then (True, 0, int (unat (tag1 AND TAGMASK)), op)
         else (False, int (unat (tag1 AND TAGMASK)), int (unat (tag2 AND TAGMASK)), op))"
proof -
  have "operator_symname op tag1 tag2 n resulttag = Inr
      (if op = ''='' then tag_text resulttag @ op @ tag_text tag1
       else if n = 1 \<or> op = ''~'' then op @ tag_text tag1
       else tag_text tag1 @ op @ tag_text tag2)"
    using assms
    by (auto simp: operator_symname_def tag2str_text Let_def binary_ops_def unary_ops_def)
  then show ?thesis
    using assms parse_binary [of op] parse_unary [of op] by auto
qed

lemma operator_name_roundtrip_witness:
  "\<exists>name. operator_symname ''+'' 0x40000002 0xC0000003 2 0 = Inr name
     \<and> parse_funcname name = Inr (False, 0x40000002, 0x40000003, ''+'')"
proof -
  from operator_name_roundtrip [of 2 "''+''" "0x40000002" "0xC0000003" 0]
  show ?thesis by (simp add: binary_ops_def TAGMASK_def PUBLICTAG_def)
qed

end
