(* ===== verification/Symhash.thy ===== *)
theory Symhash
  imports Constvals
begin

text \<open>
  Symbols (\<open>symbol\<close> in \<open>sc.h\<close>) and the hash table of the global symbols
  (\<open>amx/compiler/libpc300/sp_symhash.c\<close>).

  Symbols are shared and updated through pointers, so they live in a store: a partial map from
  addresses to symbols; \<open>parent\<close>, the referrers and the entries of the hash table are
  addresses.  A chain of hash entries is the list of the symbols its entries point to.
\<close>

section \<open>Symbols\<close>

datatype ident = iLABEL | iVARIABLE | iREFERENCE | iARRAY | iREFARRAY | iARRAYCELL | iARRAYCHAR
  | iEXPRESSION | iCONSTEXPR | iFUNCTN | iREFFUNC | iVARARGS

datatype vclass = sGLOBAL | sLOCAL | sSTATIC

text \<open>Of an argument: the fields that the release of a symbol reads.\<close>

record arginfo =
  arg_name :: string
  arg_ident :: ident
  arg_hasdefault :: nat
  arg_tags :: "cell list option"

text \<open>The union \<open>dim\<close>: not set, an argument list, an enumeration list, or array bounds.\<close>

datatype symdim = DimUnset | DimArgs "arginfo list option" | DimEnum "constvalue list option"
  | DimArray cell int

record symbol =
  sym_parent :: "nat option"
  sym_name :: string
  sym_hash :: cell
  sym_addr :: cell
  sym_codeaddr :: cell
  sym_vclass :: vclass
  sym_ident :: ident
  sym_usage :: "16 word"
  sym_flags :: nat
  sym_compound :: int
  sym_tag :: cell
  sym_fieldtag :: int
  sym_x :: int
  sym_dim :: symdim
  sym_states :: "constvalue list option"
  sym_fnumber :: int
  sym_lnumber :: int
  sym_refer :: "nat option list"
  sym_documentation :: "string option"

type_synonym store = "nat \<Rightarrow> symbol option"

definition deref :: "store \<Rightarrow> nat \<Rightarrow> symbol res" where
  "deref mem a = (case mem a of None \<Rightarrow> Inl OutOfBounds | Some s \<Rightarrow> Inr s)"

section \<open>The hash of a name\<close>

definition byte :: "char \<Rightarrow> cell" where
  "byte c = word_of_nat (of_char c)"

definition get16bits :: "string \<Rightarrow> cell" where
  "get16bits d = push_bit 8 (byte (d ! 1)) + byte (d ! 0)"

text \<open>The main loop: four bytes a turn; the rest of the bytes is left.\<close>

fun hash_loop :: "nat \<Rightarrow> cell \<Rightarrow> string \<Rightarrow> cell \<times> string" where
  "hash_loop 0 hash data = (hash, data)"
| "hash_loop (Suc len) hash data =
     (let hash = hash + get16bits data;
          tmp = push_bit 11 (get16bits (drop 2 data)) XOR hash;
          hash = push_bit 16 hash XOR tmp;
          hash = hash + drop_bit 11 hash
      in hash_loop len hash (drop 4 data))"

definition hash_tail :: "nat \<Rightarrow> cell \<Rightarrow> string \<Rightarrow> cell" where
  "hash_tail rem hash data =
     (if rem = 3 then
        let hash = hash + get16bits data;
            hash = hash XOR push_bit 16 hash;
            hash = hash XOR push_bit 18 (byte (data ! 2)) in hash + drop_bit 11 hash
      else if rem = 2 then
        let hash = hash + get16bits data;
            hash = hash XOR push_bit 11 hash in hash + drop_bit 17 hash
      else if rem = 1 then
        let hash = hash + byte (data ! 0);
            hash = hash XOR push_bit 10 hash in hash + drop_bit 1 hash
      else hash)"

definition hash_final :: "cell \<Rightarrow> cell" where
  "hash_final hash =
     (let hash = hash XOR push_bit 3 hash;
          hash = hash + drop_bit 5 hash;
          hash = hash XOR push_bit 4 hash;
          hash = hash + drop_bit 17 hash;
          hash = hash XOR push_bit 25 hash
      in hash + drop_bit 6 hash)"

definition NameHash :: "string \<Rightarrow> cell" where
  "NameHash str =
     (let len = length str in
      if len = 0 then 0
      else let (hash, data) = hash_loop (len div 4) (word_of_nat len) str
           in hash_final (hash_tail (len mod 4) hash data))"

section \<open>The table\<close>

record hashtable =
  nbuckets :: cell
  nused :: cell
  bucketmask :: cell
  buckets :: "nat list list"

definition NewHashTable :: "bool \<Rightarrow> bool \<Rightarrow> hashtable option" where
  "NewHashTable ok1 ok2 =
     (if ok1 \<and> ok2
      then Some \<lparr>nbuckets = 32, nused = 0, bucketmask = 31, buckets = replicate 32 []\<rparr> else None)"

text \<open>Every entry is released: none is left.\<close>

definition DestroyHashTable :: "hashtable option \<Rightarrow> hashtable option" where
  "DestroyHashTable ht = None"

definition bucket_of :: "hashtable \<Rightarrow> cell \<Rightarrow> nat" where
  "bucket_of ht hash = unat (hash AND bucketmask ht)"

definition chain_of :: "hashtable \<Rightarrow> cell \<Rightarrow> nat list res" where
  "chain_of ht hash =
     (if bucket_of ht hash < length (buckets ht) then Inr (buckets ht ! bucket_of ht hash) else Inl OutOfBounds)"

definition visible :: "symbol \<Rightarrow> string \<Rightarrow> int \<Rightarrow> bool" where
  "visible sy name fnumber \<longleftrightarrow>
     (sym_parent sy = None \<or> sym_ident sy = iCONSTEXPR)
     \<and> (sym_fnumber sy < 0 \<or> sym_fnumber sy = fnumber) \<and> strcmp (sym_name sy) name = 0"

fun find_tagged_loop ::
  "store \<Rightarrow> nat list \<Rightarrow> string \<Rightarrow> int \<Rightarrow> int \<Rightarrow> nat option \<Rightarrow> int \<Rightarrow> (nat option \<times> int) res" where
  "find_tagged_loop mem [] name fnumber count firstmatch cmptag =
     Inr (firstmatch, if firstmatch \<noteq> None then count else cmptag)"
| "find_tagged_loop mem (a # he) name fnumber count firstmatch cmptag =
     bindR (deref mem a) (\<lambda>sy.
       if visible sy name fnumber then
         let firstmatch = (if firstmatch = None then Some a else firstmatch);
             count = (if cmptag = 0 then count + 1 else count) in
         if word_of_int cmptag = sym_tag sy then Inr (Some a, 1)
         else find_tagged_loop mem he name fnumber count firstmatch cmptag
       else find_tagged_loop mem he name fnumber count firstmatch cmptag)"

definition FindTaggedInHashTable ::
  "store \<Rightarrow> hashtable \<Rightarrow> string \<Rightarrow> int \<Rightarrow> int \<Rightarrow> (nat option \<times> int) res" where
  "FindTaggedInHashTable mem ht name fnumber cmptag =
     bindR (chain_of ht (NameHash name)) (\<lambda>he. find_tagged_loop mem he name fnumber 0 None cmptag)"

fun find_loop :: "store \<Rightarrow> nat list \<Rightarrow> string \<Rightarrow> int \<Rightarrow> nat option res" where
  "find_loop mem [] name fnumber = Inr None"
| "find_loop mem (a # he) name fnumber =
     bindR (deref mem a) (\<lambda>sy.
       if visible sy name fnumber then Inr (Some a) else find_loop mem he name fnumber)"

definition FindInHashTable :: "store \<Rightarrow> hashtable \<Rightarrow> string \<Rightarrow> int \<Rightarrow> nat option res" where
  "FindInHashTable mem ht name fnumber =
     bindR (chain_of ht (NameHash name)) (\<lambda>he. find_loop mem he name fnumber)"

text \<open>Every entry is moved to the front of its new chain.\<close>

fun rehash :: "store \<Rightarrow> cell \<Rightarrow> nat list \<Rightarrow> nat list list \<Rightarrow> nat list list res" where
  "rehash mem xmask [] xb = Inr xb"
| "rehash mem xmask (a # as) xb =
     bindR (deref mem a) (\<lambda>sy.
       let b = unat (sym_hash sy AND xmask) in
       if b < length xb then rehash mem xmask as (xb[b := a # xb ! b]) else Inl OutOfBounds)"

definition ResizeHashTable :: "store \<Rightarrow> hashtable \<Rightarrow> bool \<Rightarrow> hashtable res" where
  "ResizeHashTable mem ht ok =
     (let xnbuckets = nbuckets ht * 2; xbucketmask = xnbuckets - 1 in
      if \<not> ok then Inr ht
      else bindR (rehash mem xbucketmask (concat (take (unat (nbuckets ht)) (buckets ht)))
                   (replicate (unat xnbuckets) []))
             (\<lambda>xbuckets. Inr (ht\<lparr>buckets := xbuckets, nbuckets := xnbuckets, bucketmask := xbucketmask\<rparr>)))"

definition AddToHashTable :: "store \<Rightarrow> hashtable \<Rightarrow> nat \<Rightarrow> bool \<Rightarrow> bool \<Rightarrow> hashtable res" where
  "AddToHashTable mem ht a ok1 ok2 =
     bindR (deref mem a) (\<lambda>sy.
     bindR (chain_of ht (sym_hash sy)) (\<lambda>chain.
       assertR (a \<notin> set chain)
         (if \<not> ok1 then Inl (FatalError 163)
          else
            let b = bucket_of ht (sym_hash sy);
                ht1 = ht\<lparr>buckets := (buckets ht)[b := chain @ [a]], nused := nused ht + 1\<rparr> in
            if nused ht1 > nbuckets ht1 \<and> nbuckets ht1 \<le> 0x3FFFFFFF
            then ResizeHashTable mem ht1 ok2 else Inr ht1)))"

definition RemoveFromHashTable :: "store \<Rightarrow> hashtable \<Rightarrow> nat \<Rightarrow> hashtable res" where
  "RemoveFromHashTable mem ht a =
     bindR (deref mem a) (\<lambda>sy.
     bindR (chain_of ht (sym_hash sy)) (\<lambda>chain.
       if a \<in> set chain
       then Inr (ht\<lparr>buckets := (buckets ht)[bucket_of ht (sym_hash sy) := remove1 a chain],
                    nused := nused ht - 1\<rparr>)
       else Inl AssertFailed))"

section \<open>The invariant\<close>

text \<open>
  The number of buckets is a power of two, the mask selects a bucket, every chain holds live
  symbols of its bucket without repetition, and the count is the number of entries.
\<close>

definition ht_syms :: "hashtable \<Rightarrow> nat set" where
  "ht_syms ht = set (concat (buckets ht))"

definition in_place :: "store \<Rightarrow> cell \<Rightarrow> nat list list \<Rightarrow> bool" where
  "in_place mem m bs \<longleftrightarrow> (\<forall>b<length bs. distinct (bs ! b)
     \<and> (\<forall>a\<in>set (bs ! b). \<exists>sy. mem a = Some sy \<and> unat (sym_hash sy AND m) = b))"

definition ht_shape :: "cell \<Rightarrow> cell \<Rightarrow> nat \<Rightarrow> bool" where
  "ht_shape n m len \<longleftrightarrow> m = n - 1 \<and> len = unat n \<and> (\<exists>k<32. n = 2 ^ k)"

definition ht_inv :: "store \<Rightarrow> hashtable \<Rightarrow> bool" where
  "ht_inv mem ht \<longleftrightarrow> ht_shape (nbuckets ht) (bucketmask ht) (length (buckets ht))
     \<and> in_place mem (bucketmask ht) (buckets ht)
     \<and> unat (nused ht) = length (concat (buckets ht))"

lemma shape_mask: "ht_shape n m len \<Longrightarrow> unat (h AND m) < len"
proof -
  assume "ht_shape n m len"
  then obtain k where k: "k < 32" "n = 2 ^ k" "m = n - 1" "len = unat n" by (auto simp: ht_shape_def)
  then have "m = mask k" by (simp add: mask_eq_exp_minus_1)
  then have "h AND m = take_bit k h" by (simp add: take_bit_eq_mask)
  then have "unat (h AND m) < 2 ^ k"
    using take_bit_nat_less_exp [of k "unat h"] by (simp add: unsigned_take_bit_eq)
  moreover have "unat (word_of_nat (2 ^ k) :: cell) = 2 ^ k"
    using k(1) power_strict_increasing [of k 32 "2 :: nat"]
    by (subst unsigned_of_nat) (simp add: take_bit_nat_eq_self)
  ultimately show ?thesis using k by simp
qed

lemma chain_of_inv: "ht_inv mem ht \<Longrightarrow>
    bucket_of ht h < length (buckets ht) \<and> chain_of ht h = Inr (buckets ht ! bucket_of ht h)"
  using shape_mask by (auto simp: ht_inv_def bucket_of_def chain_of_def)

lemma chain_live: "ht_inv mem ht \<Longrightarrow> b < length (buckets ht) \<Longrightarrow> a \<in> set (buckets ht ! b) \<Longrightarrow>
    \<exists>sy. mem a = Some sy \<and> bucket_of ht (sym_hash sy) = b"
  by (auto simp: ht_inv_def in_place_def bucket_of_def)

lemma ht_syms_nth: "ht_syms ht = (\<Union>b<length (buckets ht). set (buckets ht ! b))"
  by (auto simp: ht_syms_def in_set_conv_nth [of _ "buckets ht"] intro: bexI [OF _ nth_mem])

text \<open>A symbol of the table is in the chain of its own hash.\<close>

lemma in_chain_iff: "ht_inv mem ht \<Longrightarrow> mem a = Some sy \<Longrightarrow>
    a \<in> ht_syms ht \<longleftrightarrow> a \<in> set (buckets ht ! bucket_of ht (sym_hash sy))"
  using chain_live chain_of_inv by (fastforce simp: ht_syms_nth)

lemma length_concat_update:
  "b < length bs \<Longrightarrow> length (concat (bs[b := c])) + length (bs ! b) = length (concat bs) + length c"
proof (induction bs arbitrary: b)
  case (Cons x bs)
  then show ?case by (cases b) auto
qed simp

lemma set_concat_update:
  "b < length bs \<Longrightarrow> set c = insert a (set (bs ! b)) \<Longrightarrow>
    set (concat (bs[b := c])) = insert a (set (concat bs))"
proof (induction bs arbitrary: b)
  case (Cons x bs)
  then show ?case by (cases b) auto
qed simp

lemma in_place_update:
  "in_place mem m bs \<Longrightarrow> b < length bs \<Longrightarrow> distinct c \<Longrightarrow>
    (\<And>x. x \<in> set c \<Longrightarrow> \<exists>sy. mem x = Some sy \<and> unat (sym_hash sy AND m) = b) \<Longrightarrow>
    in_place mem m (bs[b := c])"
  by (auto simp: in_place_def nth_list_update)

text \<open>Moving all entries to a table of another size.\<close>

lemma rehash_ok:
  assumes "ht_shape n m (length xb)" "in_place mem m xb"
    and "distinct as" "set as \<inter> set (concat xb) = {}" "\<forall>a\<in>set as. mem a \<noteq> None"
  shows "\<exists>xb'. rehash mem m as xb = Inr xb' \<and> length xb' = length xb \<and> in_place mem m xb'
    \<and> set (concat xb') = set as \<union> set (concat xb)
    \<and> length (concat xb') = length as + length (concat xb)"
  using assms
proof (induction as arbitrary: xb)
  case (Cons a as)
  obtain sy where sy: "mem a = Some sy" using Cons.prems(5) by auto
  let ?b = "unat (sym_hash sy AND m)"
  let ?c = "a # xb ! ?b"
  have b: "?b < length xb" using shape_mask Cons.prems(1) by blast
  have "a \<notin> set (xb ! ?b)" using Cons.prems(4) b nth_mem [OF b] by auto
  then have 1: "in_place mem m (xb[?b := ?c])"
    using Cons.prems(2) b sy by (intro in_place_update) (auto simp: in_place_def)
  have 2: "set (concat (xb[?b := ?c])) = insert a (set (concat xb))"
    using b by (intro set_concat_update) auto
  have 3: "length (concat (xb[?b := ?c])) = Suc (length (concat xb))"
    using length_concat_update [OF b, of ?c] by simp
  have 4: "set as \<inter> set (concat (xb[?b := ?c])) = {}"
    unfolding 2 using Cons.prems(3,4) by auto
  have "\<exists>xb'. rehash mem m as (xb[?b := ?c]) = Inr xb' \<and> length xb' = length (xb[?b := ?c])
    \<and> in_place mem m xb' \<and> set (concat xb') = set as \<union> set (concat (xb[?b := ?c]))
    \<and> length (concat xb') = length as + length (concat (xb[?b := ?c]))"
    using Cons.prems 1 4 by (intro Cons.IH) simp_all
  then show ?case using b sy unfolding 2 3 by (auto simp: deref_def Let_def)
qed simp

lemma distinct_concat_index:
  "\<forall>b<length bs. distinct (bs ! b) \<and> (\<forall>a\<in>set (bs ! b). f a = b + k) \<Longrightarrow> distinct (concat bs)"
proof (induction bs arbitrary: k)
  case (Cons x bs)
  have hd: "distinct x" "\<forall>a\<in>set x. f a = k" using Cons.prems [rule_format, of 0] by auto
  have tl: "\<forall>b<length bs. distinct (bs ! b) \<and> (\<forall>a\<in>set (bs ! b). f a = b + Suc k)"
    using Cons.prems [rule_format, of "Suc b" for b] by simp
  then have "distinct (concat bs)" by (rule Cons.IH)
  moreover have "f a \<noteq> k" if a: "a \<in> set (concat bs)" for a
  proof -
    obtain b where "b < length bs" "a \<in> set (bs ! b)" using a by (auto simp: in_set_conv_nth [of _ bs])
    then show ?thesis using tl by auto
  qed
  ultimately show ?case using hd by auto
qed simp

lemma distinct_concat_buckets: "in_place mem m bs \<Longrightarrow> distinct (concat bs)"
  by (rule distinct_concat_index [of bs "\<lambda>a. unat (sym_hash (the (mem a)) AND m)" 0])
     (force simp: in_place_def)

section \<open>The operations keep the invariant\<close>

lemma in_place_replicate [simp]: "in_place mem m (replicate n [])"
  by (simp add: in_place_def)

lemma NewHashTable_inv: "NewHashTable True True = Some ht \<Longrightarrow> ht_inv mem ht \<and> ht_syms ht = {}"
  by (auto simp: NewHashTable_def ht_inv_def ht_shape_def ht_syms_def intro: exI [of _ 5])

lemma pow2_double:
  assumes "k < 32" "(2 ^ k :: cell) \<le> 0x3FFFFFFF"
  shows "k < 30" "unat ((2 ^ k :: cell) * 2) = 2 ^ Suc k"
proof -
  have "(2 ^ k :: cell) = word_of_nat (2 ^ k)" by simp
  moreover have "unat (word_of_nat (2 ^ j) :: cell) = 2 ^ j" if "j < 32" for j
    using that power_strict_increasing [of j 32 "2 :: nat"]
    by (subst unsigned_of_nat) (simp add: take_bit_nat_eq_self)
  ultimately have u: "unat (2 ^ j :: cell) = 2 ^ j" if "j < 32" for j using that by simp
  have "(2 :: nat) ^ k \<le> 0x3FFFFFFF" using assms u [of k] by (simp add: word_le_nat_alt)
  then have "\<not> (2 :: nat) ^ 30 \<le> 2 ^ k" by simp
  then show "k < 30" by (meson not_less power_increasing one_le_numeral)
  then show "unat ((2 ^ k :: cell) * 2) = 2 ^ Suc k" using u [of "Suc k"] by (simp add: mult.commute)
qed

lemma ResizeHashTable_inv:
  assumes "ht_inv mem ht" "nbuckets ht \<le> 0x3FFFFFFF"
  shows "\<exists>ht'. ResizeHashTable mem ht ok = Inr ht' \<and> ht_inv mem ht' \<and> ht_syms ht' = ht_syms ht"
proof (cases ok)
  case True
  let ?n = "nbuckets ht * 2"
  obtain k where k: "k < 32" "nbuckets ht = 2 ^ k" and len: "length (buckets ht) = unat (nbuckets ht)"
    using assms(1) by (auto simp: ht_inv_def ht_shape_def)
  have sh: "ht_shape ?n (?n - 1) (length (replicate (unat ?n) ([] :: nat list)))"
    using pow2_double(1) [of k] k assms(2) by (auto simp: ht_shape_def intro!: exI [of _ "Suc k"])
  have ip: "in_place mem (bucketmask ht) (buckets ht)" using assms(1) by (simp add: ht_inv_def)
  have live: "\<forall>a\<in>set (concat (buckets ht)). mem a \<noteq> None"
    using ip by (fastforce simp: in_place_def in_set_conv_nth [of _ "buckets ht"])
  obtain xb where xb: "rehash mem (?n - 1) (concat (buckets ht)) (replicate (unat ?n) []) = Inr xb"
    "length xb = unat ?n" "in_place mem (?n - 1) xb" "set (concat xb) = set (concat (buckets ht))"
    "length (concat xb) = length (concat (buckets ht))"
    using rehash_ok [OF sh in_place_replicate distinct_concat_buckets [OF ip] _ live] by auto
  then have "ResizeHashTable mem ht ok
      = Inr (ht\<lparr>buckets := xb, nbuckets := ?n, bucketmask := ?n - 1\<rparr>)"
    using True len by (simp add: ResizeHashTable_def Let_def)
  moreover have "ht_inv mem (ht\<lparr>buckets := xb, nbuckets := ?n, bucketmask := ?n - 1\<rparr>)"
    using assms(1) xb sh by (simp add: ht_inv_def)
  ultimately show ?thesis using xb(4) by (simp add: ht_syms_def)
qed (use assms in \<open>simp add: ResizeHashTable_def Let_def\<close>)

lemma AddToHashTable_inv:
  assumes "ht_inv mem ht" "mem a = Some sy" "a \<notin> ht_syms ht" "unat (nused ht) < 2 ^ 32 - 1"
  shows "\<exists>ht'. AddToHashTable mem ht a True ok = Inr ht' \<and> ht_inv mem ht' \<and> ht_syms ht' = insert a (ht_syms ht)"
proof -
  let ?b = "bucket_of ht (sym_hash sy)"
  let ?chain = "buckets ht ! ?b"
  let ?ht = "ht\<lparr>buckets := (buckets ht)[?b := ?chain @ [a]], nused := nused ht + 1\<rparr>"
  have b: "?b < length (buckets ht)" and ch: "chain_of ht (sym_hash sy) = Inr ?chain"
    using chain_of_inv assms(1) by auto
  have new: "a \<notin> set ?chain" using in_chain_iff assms(1-3) by blast
  have ip: "in_place mem (bucketmask ht) (buckets ht)" using assms(1) by (simp add: ht_inv_def)
  have "in_place mem (bucketmask ht) (buckets ?ht)"
    using in_place_update [OF ip b, of "?chain @ [a]"] ip b new assms(2)
    by (auto simp: in_place_def bucket_of_def)
  moreover have "unat (nused ht + 1) = Suc (unat (nused ht))"
    using assms(4) by (simp add: unat_word_ariths)
  moreover have "length (concat (buckets ?ht)) = Suc (length (concat (buckets ht)))"
    using length_concat_update [OF b, of "?chain @ [a]"] by simp
  ultimately have inv: "ht_inv mem ?ht" using assms(1) by (simp add: ht_inv_def)
  have syms: "ht_syms ?ht = insert a (ht_syms ht)"
    using set_concat_update [OF b, of "?chain @ [a]" a] by (simp add: ht_syms_def)
  have add: "AddToHashTable mem ht a True ok =
      (if nused ?ht > nbuckets ?ht \<and> nbuckets ?ht \<le> 0x3FFFFFFF then ResizeHashTable mem ?ht ok else Inr ?ht)"
    using assms(2) ch new by (simp add: AddToHashTable_def deref_def Let_def)
  show ?thesis
  proof (cases "nused ?ht > nbuckets ?ht \<and> nbuckets ?ht \<le> 0x3FFFFFFF")
    case True
    then show ?thesis using add ResizeHashTable_inv [OF inv, of ok] syms by auto
  next
    case False
    then have "AddToHashTable mem ht a True ok = Inr ?ht" using add by argo
    then show ?thesis using inv syms by blast
  qed
qed

lemma RemoveFromHashTable_inv:
  assumes "ht_inv mem ht" "a \<in> ht_syms ht"
  shows "\<exists>ht'. RemoveFromHashTable mem ht a = Inr ht' \<and> ht_inv mem ht' \<and> ht_syms ht' = ht_syms ht - {a}"
proof -
  have ip: "in_place mem (bucketmask ht) (buckets ht)" using assms(1) by (simp add: ht_inv_def)
  obtain sy where sy: "mem a = Some sy"
    using assms chain_live by (fastforce simp: ht_syms_nth)
  let ?b = "bucket_of ht (sym_hash sy)"
  let ?chain = "buckets ht ! ?b"
  let ?ht = "ht\<lparr>buckets := (buckets ht)[?b := remove1 a ?chain], nused := nused ht - 1\<rparr>"
  have b: "?b < length (buckets ht)" and ch: "chain_of ht (sym_hash sy) = Inr ?chain"
    using chain_of_inv assms(1) by auto
  have mem: "a \<in> set ?chain" using in_chain_iff assms sy by blast
  have d: "distinct ?chain" using ip b by (simp add: in_place_def)
  have rm: "RemoveFromHashTable mem ht a = Inr ?ht"
    using sy ch mem by (simp add: RemoveFromHashTable_def deref_def)
  have "in_place mem (bucketmask ht) (buckets ?ht)"
    using in_place_update [OF ip b, of "remove1 a ?chain"] ip b d by (auto simp: in_place_def)
  moreover have len: "Suc (length (concat (buckets ?ht))) = length (concat (buckets ht))"
  proof -
    have "length ?chain = Suc (length (remove1 a ?chain))"
      using mem length_pos_if_in_set [OF mem] by (simp add: length_remove1 del: length_greater_0_conv)
    then show ?thesis using length_concat_update [OF b, of "remove1 a ?chain"] by simp
  qed
  moreover have "unat (nused ht) = length (concat (buckets ht))" using assms(1) by (simp add: ht_inv_def)
  then have "unat (nused ht - 1) = length (concat (buckets ?ht))"
    using len by (simp add: unat_sub_if' unat_1)
  ultimately have inv: "ht_inv mem ?ht" using assms(1) by (simp add: ht_inv_def)
  have "ht_syms ht = insert a (ht_syms ?ht)"
    using set_concat_update [of ?b "buckets ?ht" "?chain" a] b mem d
    by (simp add: ht_syms_def insert_absorb)
  moreover have "a \<notin> ht_syms ?ht"
  proof -
    have "distinct (concat (buckets ht))" using distinct_concat_buckets [OF ip] .
    have "a \<notin> set (remove1 a ?chain)" using d by simp
    then show ?thesis using in_chain_iff [OF inv sy] b by (simp add: bucket_of_def)
  qed
  ultimately show ?thesis using rm inv by auto
qed

section \<open>The contract of a symbol set\<close>

text \<open>
  What the symbol table relies on: a set of symbols that are added, removed and looked up by
  name.  \<open>wf\<close> is the invariant of the provider, \<open>good\<close> says that the symbols are the ones the
  lookup can see under a name.
\<close>

locale symbol_set =
  fixes wf :: "'t \<Rightarrow> bool"
    and members :: "'t \<Rightarrow> nat set"
    and add :: "'t \<Rightarrow> nat \<Rightarrow> 't res"
    and remove :: "'t \<Rightarrow> nat \<Rightarrow> 't res"
    and lookup :: "'t \<Rightarrow> 'n \<Rightarrow> nat option res"
    and addable :: "'t \<Rightarrow> nat \<Rightarrow> bool"
    and sees :: "'n \<Rightarrow> nat \<Rightarrow> bool"
  assumes add_ok: "wf t \<Longrightarrow> addable t a \<Longrightarrow> a \<notin> members t \<Longrightarrow>
      \<exists>t'. add t a = Inr t' \<and> wf t' \<and> members t' = insert a (members t)"
    and remove_ok: "wf t \<Longrightarrow> a \<in> members t \<Longrightarrow>
      \<exists>t'. remove t a = Inr t' \<and> wf t' \<and> members t' = members t - {a}"
    and lookup_None: "wf t \<Longrightarrow> lookup t n = Inr None \<longleftrightarrow> (\<forall>a\<in>members t. \<not> sees n a)"
    and lookup_Some: "wf t \<Longrightarrow> lookup t n = Inr (Some a) \<Longrightarrow> a \<in> members t \<and> sees n a"
    and lookup_total: "wf t \<Longrightarrow> \<exists>r. lookup t n = Inr r"
begin

lemma lookup_unique:
  assumes "wf t" "a \<in> members t" "sees n a" "\<And>b. b \<in> members t \<Longrightarrow> sees n b \<Longrightarrow> b = a"
  shows "lookup t n = Inr (Some a)"
  using assms lookup_None [of t n] lookup_Some [of t n] lookup_total [of t n]
  by (metis not_None_eq)

text \<open>A name that was not there is found after its symbol is added, and gone after removal.\<close>

lemma add_lookup_remove:
  assumes "wf t" "addable t a" "a \<notin> members t" "sees n a" "lookup t n = Inr None"
  shows "\<exists>t1 t2. add t a = Inr t1 \<and> lookup t1 n = Inr (Some a)
    \<and> remove t1 a = Inr t2 \<and> members t2 = members t \<and> lookup t2 n = Inr None"
proof -
  obtain t1 where t1: "add t a = Inr t1" "wf t1" "members t1 = insert a (members t)"
    using add_ok assms by blast
  have "lookup t1 n = Inr (Some a)"
    using assms t1 lookup_None [of t n] by (intro lookup_unique) auto
  moreover obtain t2 where t2: "remove t1 a = Inr t2" "wf t2" "members t2 = members t1 - {a}"
    using remove_ok [of t1 a] t1 by auto
  moreover have "members t2 = members t" using t1 t2 assms(3) by auto
  ultimately show ?thesis using t1 assms lookup_None [of t n] lookup_None [of t2 n] by auto
qed

end

text \<open>The symbols of the table carry the hash of their name.\<close>

definition names_hashed :: "store \<Rightarrow> hashtable \<Rightarrow> bool" where
  "names_hashed mem ht \<longleftrightarrow>
     (\<forall>a\<in>ht_syms ht. \<forall>sy. mem a = Some sy \<longrightarrow> sym_hash sy = NameHash (sym_name sy))"

lemma names_hashed_insert: "names_hashed mem t \<Longrightarrow> ht_syms t' = insert a (ht_syms t) \<Longrightarrow>
    mem a = Some sy \<Longrightarrow> sym_hash sy = NameHash (sym_name sy) \<Longrightarrow> names_hashed mem t'"
  by (auto simp: names_hashed_def)

lemma names_hashed_diff: "names_hashed mem t \<Longrightarrow> ht_syms t' = ht_syms t - A \<Longrightarrow> names_hashed mem t'"
  by (auto simp: names_hashed_def)

definition sees_name :: "store \<Rightarrow> string \<times> int \<Rightarrow> nat \<Rightarrow> bool" where
  "sees_name mem n a \<longleftrightarrow> (\<exists>sy. mem a = Some sy \<and> visible sy (fst n) (snd n))"

lemma find_loop_live:
  "\<forall>a\<in>set he. mem a \<noteq> None \<Longrightarrow>
    find_loop mem he name fnumber = Inr (find (\<lambda>a. visible (the (mem a)) name fnumber) he)"
  by (induction he) (auto simp: deref_def)

lemma FindInHashTable_find:
  assumes "ht_inv mem ht" "names_hashed mem ht"
  shows "\<exists>r. FindInHashTable mem ht name fnumber = Inr r
    \<and> (r = None \<longleftrightarrow> (\<forall>a\<in>ht_syms ht. \<not> sees_name mem (name, fnumber) a))
    \<and> (\<forall>a. r = Some a \<longrightarrow> a \<in> ht_syms ht \<and> sees_name mem (name, fnumber) a)"
proof -
  let ?b = "bucket_of ht (NameHash name)"
  let ?he = "buckets ht ! ?b"
  let ?P = "\<lambda>a. visible (the (mem a)) name fnumber"
  have b: "?b < length (buckets ht)" and ch: "chain_of ht (NameHash name) = Inr ?he"
    using chain_of_inv assms(1) by auto
  have live: "mem a \<noteq> None" if "a \<in> ht_syms ht" for a
    using that chain_live [OF assms(1)] by (auto simp: ht_syms_nth)
  have sub: "set ?he \<subseteq> ht_syms ht" using b by (auto simp: ht_syms_nth)
  have all: "a \<in> set ?he" if a: "a \<in> ht_syms ht" "sees_name mem (name, fnumber) a" for a
  proof -
    obtain sy where sy: "mem a = Some sy" "visible sy name fnumber"
      using a(2) by (auto simp: sees_name_def)
    then have "sym_hash sy = NameHash name"
      using that(1) assms(2) by (auto simp: names_hashed_def visible_def)
    then show ?thesis using in_chain_iff [OF assms(1) sy(1)] that(1) by simp
  qed
  have see: "sees_name mem (name, fnumber) a \<longleftrightarrow> ?P a" if "a \<in> ht_syms ht" for a
    using live [OF that] by (auto simp: sees_name_def)
  have f: "FindInHashTable mem ht name fnumber = Inr (find ?P ?he)"
    using ch live sub by (simp add: FindInHashTable_def find_loop_live subset_iff)
  have none: "find ?P ?he = None \<longleftrightarrow> (\<forall>a\<in>ht_syms ht. \<not> sees_name mem (name, fnumber) a)"
  proof
    assume "find ?P ?he = None"
    then have "\<forall>a\<in>set ?he. \<not> ?P a" by (auto simp: find_None_iff)
    then show "\<forall>a\<in>ht_syms ht. \<not> sees_name mem (name, fnumber) a" using all see by blast
  next
    assume "\<forall>a\<in>ht_syms ht. \<not> sees_name mem (name, fnumber) a"
    then have "\<forall>a\<in>set ?he. \<not> ?P a" using see sub by blast
    then show "find ?P ?he = None" by (auto simp: find_None_iff)
  qed
  have some: "a \<in> ht_syms ht \<and> sees_name mem (name, fnumber) a" if "find ?P ?he = Some a" for a
  proof -
    have "a \<in> set ?he" "?P a" using find_in [OF that] by auto
    then show ?thesis using see sub by blast
  qed
  show ?thesis
  proof (intro exI conjI allI impI)
    show "FindInHashTable mem ht name fnumber = Inr (find ?P ?he)" by (rule f)
    show "find ?P ?he = None \<longleftrightarrow> (\<forall>a\<in>ht_syms ht. \<not> sees_name mem (name, fnumber) a)" by (rule none)
  qed (use some in blast)+
qed

interpretation globals: symbol_set "\<lambda>ht. ht_inv mem ht \<and> names_hashed mem ht" ht_syms
    "\<lambda>ht a. AddToHashTable mem ht a True ok" "RemoveFromHashTable mem"
    "\<lambda>ht n. FindInHashTable mem ht (fst n) (snd n)"
    "\<lambda>ht a. unat (nused ht) < 2 ^ 32 - 1
       \<and> (\<exists>sy. mem a = Some sy \<and> sym_hash sy = NameHash (sym_name sy))"
    "sees_name mem"
  for mem ok
proof
  fix t a n
  assume wf: "ht_inv mem t \<and> names_hashed mem t"
  show "\<exists>t'. AddToHashTable mem t a True ok = Inr t' \<and> (ht_inv mem t' \<and> names_hashed mem t')
      \<and> ht_syms t' = insert a (ht_syms t)"
    if a: "unat (nused t) < 2 ^ 32 - 1 \<and> (\<exists>sy. mem a = Some sy \<and> sym_hash sy = NameHash (sym_name sy))"
      "a \<notin> ht_syms t"
  proof -
    obtain sy where sy: "mem a = Some sy" "sym_hash sy = NameHash (sym_name sy)" using a by auto
    then show ?thesis
      using AddToHashTable_inv [of mem t a sy ok] wf a names_hashed_insert by blast
  qed
  show "\<exists>t'. RemoveFromHashTable mem t a = Inr t' \<and> (ht_inv mem t' \<and> names_hashed mem t')
      \<and> ht_syms t' = ht_syms t - {a}" if "a \<in> ht_syms t"
    using RemoveFromHashTable_inv [of mem t a] wf that names_hashed_diff by blast
  show "FindInHashTable mem t (fst n) (snd n) = Inr None \<longleftrightarrow> (\<forall>a\<in>ht_syms t. \<not> sees_name mem n a)"
    using FindInHashTable_find [of mem t "fst n" "snd n"] wf by auto
  show "a \<in> ht_syms t \<and> sees_name mem n a" if "FindInHashTable mem t (fst n) (snd n) = Inr (Some a)"
    using FindInHashTable_find [of mem t "fst n" "snd n"] wf that by auto
  show "\<exists>r. FindInHashTable mem t (fst n) (snd n) = Inr r"
    using FindInHashTable_find [of mem t "fst n" "snd n"] wf by auto
qed

section \<open>What the table promises\<close>

text \<open>
  C20: The hash table is a faithful index of the global symbols: \<open>FindInHashTable\<close> never
  faults, answers null exactly when no symbol of the table is visible under the name in the file,
  and otherwise answers a symbol of the table that is.
\<close>

theorem symhash_lookup_correct:
  assumes "ht_inv mem ht" "names_hashed mem ht"
  shows "\<exists>r. FindInHashTable mem ht name fnumber = Inr r
    \<and> (r = None \<longleftrightarrow> (\<forall>a\<in>ht_syms ht. \<not> sees_name mem (name, fnumber) a))
    \<and> (\<forall>a. r = Some a \<longrightarrow> a \<in> ht_syms ht \<and> sees_name mem (name, fnumber) a)"
  using assms by (rule FindInHashTable_find)

text \<open>
  C21: Adding and removing undo each other for every lookup: a symbol whose name was not
  visible is found under its name once \<open>AddToHashTable\<close> has added it, also when the table grows
  and whether or not \<open>calloc\<close> has the memory for it, and \<open>RemoveFromHashTable\<close> leaves exactly
  the symbols there were before.
\<close>

theorem symhash_add_find_remove:
  assumes "ht_inv mem ht" "names_hashed mem ht" "unat (nused ht) < 2 ^ 32 - 1" "a \<notin> ht_syms ht"
    and "mem a = Some sy" "sym_hash sy = NameHash (sym_name sy)" "visible sy name fnumber"
    and "FindInHashTable mem ht name fnumber = Inr None"
  shows "\<exists>ht1 ht2. AddToHashTable mem ht a True ok = Inr ht1
    \<and> FindInHashTable mem ht1 name fnumber = Inr (Some a)
    \<and> RemoveFromHashTable mem ht1 a = Inr ht2 \<and> ht_syms ht2 = ht_syms ht
    \<and> FindInHashTable mem ht2 name fnumber = Inr None"
proof -
  have "sees_name mem (name, fnumber) a" using assms(5,7) by (simp add: sees_name_def)
  with globals.add_lookup_remove [of mem ht a "(name, fnumber)" ok] assms show ?thesis by simp
qed

definition sample_symbol :: "string \<Rightarrow> symbol" where
  "sample_symbol name = \<lparr>sym_parent = None, sym_name = name, sym_hash = NameHash name, sym_addr = 0,
     sym_codeaddr = 0, sym_vclass = sGLOBAL, sym_ident = iVARIABLE, sym_usage = 0, sym_flags = 0,
     sym_compound = 0, sym_tag = 0, sym_fieldtag = 0, sym_x = 0, sym_dim = DimUnset, sym_states = None,
     sym_fnumber = -1, sym_lnumber = 1, sym_refer = [None], sym_documentation = None\<rparr>"

definition empty_hash :: hashtable where
  "empty_hash = \<lparr>nbuckets = 32, nused = 0, bucketmask = 31, buckets = replicate 32 []\<rparr>"

lemma empty_hash_inv: "ht_inv mem empty_hash" "ht_syms empty_hash = {}" "names_hashed mem empty_hash"
  using NewHashTable_inv [of empty_hash]
  by (auto simp: NewHashTable_def empty_hash_def names_hashed_def ht_syms_def)

lemma symhash_add_find_remove_witness:
  "\<exists>ht1. AddToHashTable [7 \<mapsto> sample_symbol ''count''] empty_hash 7 True True = Inr ht1
    \<and> FindInHashTable [7 \<mapsto> sample_symbol ''count''] ht1 ''count'' 0 = Inr (Some 7)"
proof -
  let ?m = "[7 \<mapsto> sample_symbol ''count'']"
  have none: "FindInHashTable ?m empty_hash ''count'' 0 = Inr None"
    using FindInHashTable_find [OF empty_hash_inv(1,3), of ?m "''count''" 0]
    by (auto simp: empty_hash_inv(2))
  have "visible (sample_symbol ''count'') ''count'' 0"
    by (simp add: sample_symbol_def visible_def)
  moreover have "sym_hash (sample_symbol ''count'') = NameHash (sym_name (sample_symbol ''count''))"
    by (simp add: sample_symbol_def)
  moreover have "unat (nused empty_hash) < 2 ^ 32 - 1" by (simp add: empty_hash_def)
  ultimately show ?thesis
    using symhash_add_find_remove [of ?m empty_hash 7 "sample_symbol ''count''" "''count''" 0 True]
      empty_hash_inv(1,3) [of ?m] empty_hash_inv(2) none by auto
qed

definition one_hash :: hashtable where
  "one_hash = \<lparr>nbuckets = 1, nused = 1, bucketmask = 0, buckets = [[7]]\<rparr>"

lemma one_hash_inv: "ht_inv [7 \<mapsto> sample_symbol ''count''] one_hash"
    "names_hashed [7 \<mapsto> sample_symbol ''count''] one_hash"
  by (auto simp: one_hash_def ht_inv_def ht_shape_def in_place_def names_hashed_def ht_syms_def
      sample_symbol_def intro: exI [of _ 0])

lemma symhash_lookup_correct_witness:
  "FindInHashTable [7 \<mapsto> sample_symbol ''count''] one_hash ''count'' 0 = Inr (Some 7)"
proof -
  let ?m = "[7 \<mapsto> sample_symbol ''count'']"
  have "sees_name ?m (''count'', 0) 7"
    by (simp add: sees_name_def visible_def sample_symbol_def)
  moreover have "ht_syms one_hash = {7}" by (simp add: one_hash_def ht_syms_def)
  ultimately show ?thesis
    using symhash_lookup_correct [OF one_hash_inv, of "''count''" 0] by auto
qed

lemma rehash_chain:
  "rehash mem m as xb = Inr xb' \<Longrightarrow> b < length xb \<Longrightarrow>
    xb' ! b = rev (filter (\<lambda>a. unat (sym_hash (the (mem a)) AND m) = b) as) @ xb ! b"
proof (induction as arbitrary: xb)
  case (Cons a as)
  obtain sy where sy: "mem a = Some sy"
    using Cons.prems(1) by (cases "mem a") (auto simp: deref_def)
  let ?b = "unat (sym_hash sy AND m)"
  have r: "?b < length xb" "rehash mem m as (xb[?b := a # xb ! ?b]) = Inr xb'"
    using Cons.prems(1) sy by (auto simp: deref_def Let_def split: if_splits)
  then show ?case using Cons.IH [OF r(2)] Cons.prems(2) sy by (auto simp: nth_list_update)
qed simp

lemma filter_concat_bucket:
  "i < length bs \<Longrightarrow> (\<And>b x. b < length bs \<Longrightarrow> x \<in> set (bs ! b) \<Longrightarrow> P x \<Longrightarrow> b = i) \<Longrightarrow>
    filter P (concat bs) = filter P (bs ! i)"
proof (induction bs arbitrary: i)
  case (Cons c bs)
  have tl: "Suc b = i" if "b < length bs" "x \<in> set (bs ! b)" "P x" for b x
    using Cons.prems(2) [of "Suc b" x] that by simp
  show ?case
  proof (cases i)
    case 0
    have "filter P (concat bs) = []"
      using tl 0 by (fastforce simp: filter_empty_conv in_set_conv_nth [of _ bs])
    then show ?thesis using 0 by simp
  next
    case (Suc j)
    have "filter P c = []" using Cons.prems(2) [of 0] Suc by (auto simp: filter_empty_conv)
    moreover have "filter P (concat bs) = filter P (bs ! j)"
      using tl Suc Cons.prems(1) by (intro Cons.IH) auto
    ultimately show ?thesis using Suc by simp
  qed
qed simp

lemma mask_halves:
  assumes "ht_shape n m len" "n \<le> 0x3FFFFFFF" "h AND (n * 2 - 1) = h' AND (n * 2 - 1)"
  shows "h AND m = h' AND m"
proof -
  obtain k where k: "k < 32" "n = 2 ^ k" "m = n - 1" using assms(1) by (auto simp: ht_shape_def)
  have "m = mask k" "n * 2 - 1 = mask (Suc k)"
    using k by (simp_all add: mask_eq_exp_minus_1 mult.commute)
  then have "take_bit (Suc k) h = take_bit (Suc k) h'"
    using assms(3) by (simp only: take_bit_eq_mask)
  then have "take_bit k (take_bit (Suc k) h) = take_bit k (take_bit (Suc k) h')" by simp
  then show ?thesis using \<open>m = mask k\<close> by (simp add: take_bit_eq_mask [symmetric])
qed

text \<open>
  C31: When the table grows, the order inside every chain is reversed: of two symbols that are
  visible under one name, the one that was added first is found before the resize and the
  other one after it.
\<close>

theorem resize_changes_winner:
  assumes "ht_inv mem ht" "nbuckets ht \<le> 0x3FFFFFFF"
    and "buckets ht ! bucket_of ht (NameHash name) = [a, b]" "a \<noteq> b"
    and "mem a = Some sa" "mem b = Some sb" "sym_hash sa = NameHash name" "sym_hash sb = NameHash name"
    and "visible sa name fnumber" "visible sb name fnumber"
  shows "FindInHashTable mem ht name fnumber = Inr (Some a)
    \<and> (\<exists>ht'. ResizeHashTable mem ht True = Inr ht' \<and> FindInHashTable mem ht' name fnumber = Inr (Some b))"
proof
  let ?h = "NameHash name" and ?n = "nbuckets ht * 2"
  let ?i = "bucket_of ht ?h" and ?j = "unat (?h AND (?n - 1))"
  let ?P = "\<lambda>x. unat (sym_hash (the (mem x)) AND (?n - 1)) = ?j"
  show "FindInHashTable mem ht name fnumber = Inr (Some a)"
    using chain_of_inv [OF assms(1), of ?h] assms(3,5,9)
    by (simp add: FindInHashTable_def deref_def)
  have sh: "ht_shape (nbuckets ht) (bucketmask ht) (length (buckets ht))"
    and ip: "in_place mem (bucketmask ht) (buckets ht)" using assms(1) by (simp_all add: ht_inv_def)
  obtain ht' where ht': "ResizeHashTable mem ht True = Inr ht'" "ht_inv mem ht'"
    using ResizeHashTable_inv [OF assms(1,2)] by blast
  then have r: "rehash mem (?n - 1) (concat (buckets ht)) (replicate (unat ?n) []) = Inr (buckets ht')"
    and m: "bucketmask ht' = ?n - 1" and n: "nbuckets ht' = ?n"
    using sh by (auto simp: ResizeHashTable_def Let_def bindR_Inr_iff ht_shape_def)
  have j: "bucket_of ht' ?h = ?j" by (simp add: bucket_of_def m)
  have len: "length (buckets ht') = unat ?n" using ht'(2) n by (auto simp: ht_inv_def ht_shape_def)
  have lt: "?j < unat ?n" using chain_of_inv [OF ht'(2), of ?h] len by (simp add: j)
  have "filter ?P (concat (buckets ht)) = filter ?P (buckets ht ! ?i)"
  proof (rule filter_concat_bucket)
    show "?i < length (buckets ht)" using chain_of_inv [OF assms(1)] by blast
    fix b x assume b: "b < length (buckets ht)" "x \<in> set (buckets ht ! b)" "?P x"
    then obtain sx where sx: "mem x = Some sx" "bucket_of ht (sym_hash sx) = b"
      using chain_live [OF assms(1)] by blast
    then have "sym_hash sx AND (?n - 1) = ?h AND (?n - 1)" using b(3) by (simp add: word_unat_eq_iff)
    then have "sym_hash sx AND bucketmask ht = ?h AND bucketmask ht"
      by (rule mask_halves [OF sh assms(2)])
    then show "b = ?i" using sx(2) by (simp add: bucket_of_def)
  qed
  also have "\<dots> = [a, b]" using assms(3,5-8) by simp
  finally have "buckets ht' ! ?j = [b, a]"
    using rehash_chain [OF r, of ?j] lt by simp
  then have "FindInHashTable mem ht' name fnumber = Inr (Some b)"
    using chain_of_inv [OF ht'(2), of ?h] assms(6,10) j
    by (simp add: FindInHashTable_def deref_def)
  then show "\<exists>ht'. ResizeHashTable mem ht True = Inr ht' \<and> FindInHashTable mem ht' name fnumber = Inr (Some b)"
    using ht'(1) by blast
qed

lemma resize_changes_winner_witness:
  "\<exists>ht'. ResizeHashTable [7 \<mapsto> sample_symbol ''count'', 8 \<mapsto> sample_symbol ''count'']
      \<lparr>nbuckets = 1, nused = 2, bucketmask = 0, buckets = [[7, 8]]\<rparr> True = Inr ht'
    \<and> FindInHashTable [7 \<mapsto> sample_symbol ''count'', 8 \<mapsto> sample_symbol ''count''] ht' ''count'' 0
      = Inr (Some 8)"
proof -
  let ?m = "[7 \<mapsto> sample_symbol ''count'', 8 \<mapsto> sample_symbol ''count'']"
  let ?ht = "\<lparr>nbuckets = 1, nused = 2, bucketmask = 0, buckets = [[7, 8]]\<rparr>"
  have "ht_inv ?m ?ht"
    by (auto simp: ht_inv_def ht_shape_def in_place_def intro: exI [of _ 0])
  from resize_changes_winner [OF this, of "''count''" 7 8 "sample_symbol ''count''" "sample_symbol ''count''" 0]
  show ?thesis by (simp add: bucket_of_def sample_symbol_def visible_def)
qed

end
