(* ===== verification/Numbers.thy ===== *)
theory Numbers
  imports Prelude
begin

text \<open>
  Numbers as text: \<open>itoh\<close> writes the hexadecimal numbers of the assembler file and
  \<open>hex2long\<close>, \<open>getparam\<close> (\<open>sc6.c\<close>) read them back; \<open>btoi\<close>, \<open>dtoi\<close>, \<open>htoi\<close> and
  \<open>number\<close> (\<open>sc2.c\<close>) read the integer literals of the source language.  Numbers are cells and
  wrap around at 32 bits.
\<close>

unbundle bit_operations_syntax

section \<open>Characters\<close>

definition ishex :: "char \<Rightarrow> bool" where
  "ishex c \<longleftrightarrow> (CHR ''0'' \<le> c \<and> c \<le> CHR ''9'') \<or> (CHR ''a'' \<le> c \<and> c \<le> CHR ''f'')
     \<or> (CHR ''A'' \<le> c \<and> c \<le> CHR ''F'')"

definition alpha :: "char \<Rightarrow> bool" where
  "alpha c \<longleftrightarrow> isalpha c \<or> c = CHR ''_'' \<or> c = CHR ''@''"

definition alphanum :: "char \<Rightarrow> bool" where
  "alphanum c \<longleftrightarrow> alpha c \<or> isdigit c"

text \<open>The character a pointer points to; at the end of a string it is the zero byte.\<close>

definition char_at :: "string \<Rightarrow> nat \<Rightarrow> char" where
  "char_at s n = (if n < length s then s ! n else NUL)"

lemma char_at_simps [simp]:
  "char_at [] n = NUL"
  "char_at (c # s) 0 = c"
  "char_at (c # s) (Suc n) = char_at s n"
  by (simp_all add: char_at_def)

lemma char_at_numeral [simp]: "char_at (c # s) (numeral k) = char_at s (pred_numeral k)"
  by (simp add: numeral_eq_Suc)

section \<open>Writing\<close>

fun itoh_nibbles :: "nat \<Rightarrow> cell \<Rightarrow> nat list" where
  "itoh_nibbles 0 val = []"
| "itoh_nibbles (Suc i) val = unat (val AND 0xF) # itoh_nibbles i (drop_bit 4 val)"

text \<open>The search for the highest non-zero nibble.\<close>

fun itoh_top :: "nat list \<Rightarrow> nat \<Rightarrow> nat" where
  "itoh_top nibble i = (if nibble ! i = 0 \<and> i > 0 then itoh_top nibble (i - 1) else i)"

declare itoh_top.simps [simp del]

definition itoh :: "cell \<Rightarrow> string" where
  "itoh val =
     (let nibble = itoh_nibbles 8 val; i = itoh_top nibble 7 in
      map (\<lambda>n. if n \<ge> 10 then char_of (of_char (CHR ''a'') + (n - 10)) else char_of (of_char (CHR ''0'') + n))
        (rev (take (Suc i) nibble)))"

section \<open>Reading in the assembler\<close>

text \<open>The digit loop of \<open>hex2long\<close>.\<close>

fun hex2long_loop :: "cell \<Rightarrow> string \<Rightarrow> cell \<times> string" where
  "hex2long_loop result [] = (result, [])"
| "hex2long_loop result (c # s) =
     (case hex_val c of
        None \<Rightarrow> (result, c # s)
      | Some digit \<Rightarrow> hex2long_loop (push_bit 4 result OR word_of_nat digit) s)"

definition blank :: "char \<Rightarrow> bool" where
  "blank c \<longleftrightarrow> c = CHR '' '' \<or> c = TAB"

definition hex2long :: "string \<Rightarrow> (cell \<times> string) res" where
  "hex2long s =
     (let s1 = dropWhile blank s;
          negate = (char_at s1 0 = CHR ''-'');
          s2 = (if negate then tl s1 else s1) in
      assertR (ishex (char_at s2 0))
        (let (result, n) = hex2long_loop 0 s2 in
         Inr (if negate then NOT result + 1 else result, n)))"

lemma hex2long_loop_length: "length (snd (hex2long_loop r s)) \<le> length s"
  by (induction r s rule: hex2long_loop.induct) (auto split: option.splits)

lemma hex2long_length: "hex2long s = Inr (v, n) \<Longrightarrow> length n \<le> length s"
proof -
  assume a: "hex2long s = Inr (v, n)"
  define s1 where "s1 = dropWhile blank s"
  define s2 where "s2 = (if char_at s1 0 = CHR ''-'' then tl s1 else s1)"
  have "n = snd (hex2long_loop 0 s2)"
    using a by (auto simp: hex2long_def s1_def [symmetric] s2_def [symmetric] Let_def assertR_Inr_iff
        split: prod.splits)
  moreover have "length s2 \<le> length s"
    using length_dropWhile_le [of blank s] by (auto simp: s2_def s1_def)
  ultimately show ?thesis using hex2long_loop_length [of 0 s2] by simp
qed

text \<open>A parameter of an instruction: a sum of hexadecimal numbers.\<close>

function getparam_loop :: "cell \<Rightarrow> string \<Rightarrow> (cell \<times> string) res" where
  "getparam_loop result s =
     (case hex2long s of
        Inl e \<Rightarrow> Inl e
      | Inr (v, n) \<Rightarrow>
          if char_at n 0 = CHR ''+'' then getparam_loop (result + v) (tl n) else Inr (result + v, n))"
  by pat_completeness auto

termination
proof (relation "measure (\<lambda>(r, s). length s)", goal_cases)
  case (2 result s x v n)
  then have "length n \<le> length s" using hex2long_length [of s v n] by simp
  moreover have "n \<noteq> []" using 2 by auto
  ultimately show ?case by (cases n) auto
qed simp

declare getparam_loop.simps [simp del]

definition getparam :: "string \<Rightarrow> (cell \<times> string) res" where
  "getparam s = getparam_loop 0 s"

section \<open>Integer literals of the source language\<close>

text \<open>The value and the number of characters used; 0 characters if it is no such number.\<close>

fun btoi_loop :: "cell \<Rightarrow> string \<Rightarrow> cell \<times> string" where
  "btoi_loop val [] = (val, [])"
| "btoi_loop val (c # s) =
     (if c = CHR ''0'' \<or> c = CHR ''1'' then btoi_loop (push_bit 1 val OR word_of_nat (of_char c - 48)) s
      else if c = CHR ''_'' then btoi_loop val s else (val, c # s))"

definition btoi :: "string \<Rightarrow> nat \<times> cell" where
  "btoi curptr =
     (if char_at curptr 0 = CHR ''0'' \<and> char_at curptr 1 = CHR ''b'' then
        let (val, ptr) = btoi_loop 0 (drop 2 curptr) in
        (if alphanum (char_at ptr 0) then 0 else length curptr - length ptr, val)
      else (0, 0))"

fun dtoi_loop :: "cell \<Rightarrow> string \<Rightarrow> cell \<times> string" where
  "dtoi_loop val [] = (val, [])"
| "dtoi_loop val (c # s) =
     (if isdigit c then dtoi_loop (val * 10 + word_of_nat (of_char c - 48)) s
      else if c = CHR ''_'' then dtoi_loop val s else (val, c # s))"

definition dtoi :: "string \<Rightarrow> nat \<times> cell" where
  "dtoi curptr =
     (if \<not> isdigit (char_at curptr 0) then (0, 0)
      else let (val, ptr) = dtoi_loop 0 curptr in
        (if alphanum (char_at ptr 0) then 0
         else if char_at ptr 0 = CHR ''.'' \<and> isdigit (char_at ptr 1) then 0
         else length curptr - length ptr, val))"

fun htoi_loop :: "cell \<Rightarrow> string \<Rightarrow> cell \<times> string" where
  "htoi_loop val [] = (val, [])"
| "htoi_loop val (c # s) =
     (if ishex c then
        htoi_loop (push_bit 4 val + (if isdigit c then word_of_nat (of_char c - 48)
                     else word_of_nat (of_char (tolower c) - 97 + 10))) s
      else if c = CHR ''_'' then htoi_loop val s else (val, c # s))"

definition htoi :: "string \<Rightarrow> nat \<times> cell" where
  "htoi curptr =
     (if \<not> isdigit (char_at curptr 0) then (0, 0)
      else if char_at curptr 0 = CHR ''0'' \<and> char_at curptr 1 = CHR ''x'' then
        let (val, ptr) = htoi_loop 0 (drop 2 curptr) in
        (if alphanum (char_at ptr 0) then 0 else length curptr - length ptr, val)
      else (0, 0))"

text \<open>\<open>val\<close> is the argument that stays unchanged when the text is no number.\<close>

definition number :: "cell \<Rightarrow> string \<Rightarrow> nat \<times> cell" where
  "number val curptr =
     (let (i, v) = btoi curptr in if i \<noteq> 0 then (i, v)
      else let (i, v) = htoi curptr in if i \<noteq> 0 then (i, v)
      else let (i, v) = dtoi curptr in if i \<noteq> 0 then (i, v)
      else (0, val))"

section \<open>What \<open>itoh\<close> writes\<close>

lemma unat_drop_bit: "unat (drop_bit n (val :: cell)) = unat val div 2 ^ n"
proof -
  have "take_bit 32 (unat val) = unat val"
    using unsigned_less [of val, where ?'a = nat] by (intro take_bit_nat_eq_self) simp
  then have "unat (drop_bit n val) = drop_bit n (unat val)" by (simp add: unsigned_drop_bit_eq)
  then show ?thesis using drop_bit_eq_div [of n "unat val"] by (rule trans)
qed

lemma unat_take_bit: "unat (take_bit n (val :: cell)) = unat val mod 2 ^ n"
proof -
  have "unat (take_bit n val) = take_bit n (unat val)" by (rule unsigned_take_bit_eq)
  then show ?thesis using take_bit_eq_mod [of n "unat val"] by (rule trans)
qed

lemma and_15: "unat (val AND 0xF) = unat (val :: cell) mod 16"
proof -
  have "val AND 0xF = take_bit 4 val" by (simp only: take_bit_eq_mask mask_eq_exp_minus_1) simp
  then show ?thesis using unat_take_bit [of 4 val] by simp
qed

fun nibbles :: "nat \<Rightarrow> nat \<Rightarrow> nat list" where
  "nibbles 0 v = []"
| "nibbles (Suc i) v = v mod 16 # nibbles i (v div 16)"

lemma itoh_nibbles_eq: "itoh_nibbles k val = nibbles k (unat val)"
  by (induction k arbitrary: val) (simp_all add: and_15 unat_drop_bit)


text \<open>The nibbles of a number, without leading zeros and highest first, are its digits.\<close>

lemma itoh_top_0 [simp]: "itoh_top ns 0 = 0"
  by (subst itoh_top.simps) simp

lemma itoh_top_Suc: "itoh_top ns (Suc i) = (if ns ! Suc i = 0 then itoh_top ns i else Suc i)"
  by (subst itoh_top.simps) simp

lemma itoh_top_Cons:
  "i < length ns \<Longrightarrow> itoh_top (n # ns) (Suc i) =
    (if \<forall>j\<le>i. ns ! j = 0 then 0 else Suc (itoh_top ns i))"
proof (induction i)
  case 0
  then show ?case by (simp add: itoh_top_Suc)
next
  case (Suc i)
  show ?case
  proof (cases "ns ! Suc i = 0")
    case True
    then show ?thesis using Suc by (auto simp: itoh_top_Suc le_Suc_eq)
  next
    case False
    then show ?thesis by (auto simp: itoh_top_Suc)
  qed
qed

lemma length_nibbles [simp]: "length (nibbles k v) = k"
  by (induction k arbitrary: v) auto

lemma nibbles_zero_iff: "v < 16 ^ k \<Longrightarrow> (\<forall>j<k. nibbles k v ! j = 0) \<longleftrightarrow> v = 0"
proof (induction k arbitrary: v)
  case (Suc k)
  then have "v div 16 < 16 ^ k" by (simp add: less_mult_imp_div_less mult.commute)
  then have "(\<forall>j<k. nibbles k (v div 16) ! j = 0) \<longleftrightarrow> v div 16 = 0" by (rule Suc.IH)
  then have "(\<forall>j<Suc k. nibbles (Suc k) v ! j = 0) \<longleftrightarrow> v mod 16 = 0 \<and> v div 16 = 0"
    by (auto simp: less_Suc_eq_0_disj)
  then show ?case by (metis div_mult_mod_eq mult_0 add_0 div_0 mod_0)
qed simp

lemma nibbles_digits:
  "v < 16 ^ Suc k \<Longrightarrow>
    map hex_digit (rev (take (Suc (itoh_top (nibbles (Suc k) v) k)) (nibbles (Suc k) v))) = hex_digits v"
proof (induction k arbitrary: v)
  case 0
  then show ?case by (simp add: hex_digits.simps [of v])
next
  case (Suc k)
  have lt: "v div 16 < 16 ^ Suc k" using Suc.prems by (simp add: less_mult_imp_div_less mult.commute)
  have z: "(\<forall>j\<le>k. nibbles (Suc k) (v div 16) ! j = 0) \<longleftrightarrow> v < 16"
    using nibbles_zero_iff [OF lt] by (auto simp: less_Suc_eq_le)
  have top: "itoh_top (nibbles (Suc (Suc k)) v) (Suc k) =
      (if v < 16 then 0 else Suc (itoh_top (nibbles (Suc k) (v div 16)) k))"
    using itoh_top_Cons [of k "nibbles (Suc k) (v div 16)" "v mod 16"] z by simp
  show ?case
  proof (cases "v < 16")
    case True
    then show ?thesis by (simp add: top hex_digits.simps [of v] del: nibbles.simps(2)) simp
  next
    case False
    have "map hex_digit (rev (take (Suc (itoh_top (nibbles (Suc k) (v div 16)) k)) (nibbles (Suc k) (v div 16))))
        = hex_digits (v div 16)"
      by (rule Suc.IH [OF lt])
    then show ?thesis using False top hex_digits.simps [of v] by simp
  qed
qed

lemma itoh_digits: "itoh val = hex_digits (unat val)"
proof -
  have "hex_digit = (\<lambda>n. if n \<ge> 10 then char_of (of_char (CHR ''a'') + (n - 10) :: nat) else char_of (of_char (CHR ''0'') + n :: nat))"
    by (auto simp: hex_digit_def)
  moreover have "unat val < 16 ^ Suc 7" using unsigned_less [of val, where ?'a = nat] by simp
  ultimately show ?thesis
    using nibbles_digits [of "unat val" 7] by (simp add: itoh_def itoh_nibbles_eq Let_def del: nibbles.simps)
qed

section \<open>Reading back\<close>

lemma shift_or_digit: "d < 16 \<Longrightarrow> push_bit 4 r OR word_of_nat d = (r * 16 + word_of_nat d :: cell)"
proof -
  assume "d < 16"
  have "take_bit 4 (word_of_nat d :: cell) = word_of_nat (take_bit 4 d)" by (rule take_bit_of_nat)
  also have "take_bit 4 d = d" using \<open>d < 16\<close> by (simp add: take_bit_nat_eq_self)
  finally have "\<not> bit (word_of_nat d :: cell) n" if "\<not> n < 4" for n
    using that by (metis bit_take_bit_iff)
  then have "\<not> bit (push_bit 4 r) n \<or> \<not> bit (word_of_nat d :: cell) n" for n
    by (cases "n < 4") (simp_all add: bit_push_bit_iff)
  then have "push_bit 4 r + word_of_nat d = (push_bit 4 r OR word_of_nat d :: cell)"
    by (intro disjunctive_add) blast
  then show ?thesis by (simp add: push_bit_eq_mult)
qed

lemma hex2long_loop_digits:
  "hex2long_loop r (hex_digits n @ t) = hex2long_loop (r * 16 ^ length (hex_digits n) + word_of_nat n) t"
proof (induction n arbitrary: r t rule: hex_digits.induct)
  case (1 n)
  show ?case
  proof (cases "n < 16")
    case True
    then show ?thesis by (simp add: hex_digits.simps [of n] shift_or_digit)
  next
    case False
    have "word_of_nat n = (word_of_nat (n div 16) * 16 + word_of_nat (n mod 16) :: cell)"
      by (metis div_mult_mod_eq of_nat_add of_nat_mult of_nat_numeral)
    then show ?thesis
      using False 1 [of r "hex_digit (n mod 16) # t"]
      by (simp add: hex_digits.simps [of n] shift_or_digit algebra_simps)
  qed
qed

lemma hex_val_ishex: "hex_val c \<noteq> None \<longleftrightarrow> ishex c"
  by (simp add: hex_val_def ishex_def)

lemma hex_digits_hd: "ishex (hd (hex_digits n)) \<and> \<not> blank (hd (hex_digits n)) \<and> hd (hex_digits n) \<noteq> CHR ''-''"
proof -
  have "hd (hex_digits n) \<in> set (hex_digits n)" by simp
  then obtain d where "d < 16" "hd (hex_digits n) = hex_digit d" using hex_digits_chars by blast
  then have "hex_val (hd (hex_digits n)) \<noteq> None" by simp
  moreover have "hex_val (CHR '' '') = None" "hex_val TAB = None" "hex_val (CHR ''-'') = None" by code_simp+
  ultimately show ?thesis unfolding blank_def hex_val_ishex [symmetric] by auto
qed

lemma char_at_append: "s \<noteq> [] \<Longrightarrow> char_at (s @ t) 0 = hd s"
  by (cases s) auto

lemma ishex_NUL [simp]: "\<not> ishex NUL"
  by code_simp

lemma hex2long_digits:
  assumes "\<not> ishex (char_at t 0)"
  shows "hex2long (hex_digits n @ t) = Inr (word_of_nat n, t)"
proof -
  let ?h = "hex_digits n"
  have h: "ishex (hd ?h)" "\<not> blank (hd ?h)" "hd ?h \<noteq> CHR ''-''" using hex_digits_hd by blast+
  have "dropWhile blank (?h @ t) = ?h @ t" using h(2) by (cases ?h) auto
  moreover have "hex2long_loop r t = (r, t)" for r
    using assms by (cases t) (auto simp: hex_val_ishex [symmetric])
  ultimately show ?thesis
    using h by (simp add: hex2long_def char_at_append hex2long_loop_digits Let_def)
qed

lemma hex2long_itoh: "\<not> ishex (char_at t 0) \<Longrightarrow> hex2long (itoh v @ t) = Inr (v, t)"
  using hex2long_digits [of t "unat v"] by (simp add: itoh_digits)

lemma hex2long_blank: "blank c \<Longrightarrow> hex2long (c # s) = hex2long s"
  by (simp add: hex2long_def)

lemma getparam_itoh: "\<not> ishex (char_at t 0) \<Longrightarrow> char_at t 0 \<noteq> CHR ''+'' \<Longrightarrow>
    getparam (itoh v @ t) = Inr (v, t)"
  by (simp add: getparam_def getparam_loop.simps hex2long_itoh)

text \<open>
  C29: The assembler reads back every number the code generator writes: \<open>hex2long\<close> applied to
  the text of \<open>itoh\<close>, in front of anything that is not a hexadecimal digit, gives the cell and
  the rest of the line; with a minus sign it gives the two's complement; and \<open>getparam\<close> adds up
  numbers joined by plus signs, modulo the cell size.
\<close>

theorem itoh_hex2long_roundtrip:
  assumes "\<not> ishex (char_at t 0)"
  shows "hex2long (itoh v @ t) = Inr (v, t)
    \<and> hex2long (CHR ''-'' # itoh v @ t) = Inr (- v, t)
    \<and> (char_at t 0 \<noteq> CHR ''+'' \<longrightarrow> getparam (itoh u @ CHR ''+'' # itoh v @ t) = Inr (u + v, t))"
proof (intro conjI impI)
  show p: "hex2long (itoh v @ t) = Inr (v, t)" using assms by (rule hex2long_itoh)
  let ?h = "itoh v"
  have h: "\<not> blank (CHR ''-'')" "ishex (hd ?h)"
    using hex_digits_hd by (auto simp: itoh_digits blank_def)
  have "dropWhile blank (?h @ t) = ?h @ t" "?h \<noteq> []" "hd ?h \<noteq> CHR ''-''"
    using hex_digits_hd [of "unat v"] by (cases ?h; simp add: itoh_digits)+
  then have "hex2long_loop 0 (?h @ t) = (v, t)"
    using p h(2) by (simp add: hex2long_def char_at_append Let_def split: prod.splits)
  then show "hex2long (CHR ''-'' # itoh v @ t) = Inr (- v, t)"
    using h \<open>?h \<noteq> []\<close>
    by (simp add: hex2long_def char_at_append Let_def minus_eq_not_plus_1)
  have "\<not> ishex (CHR ''+'')" by code_simp
  then show "getparam (itoh u @ CHR ''+'' # itoh v @ t) = Inr (u + v, t)"
    if "char_at t 0 \<noteq> CHR ''+''"
    using that p hex2long_itoh [of "CHR ''+'' # itoh v @ t" u]
    by (simp add: getparam_def getparam_loop.simps)
qed

lemma itoh_hex2long_roundtrip_witness:
  "hex2long (itoh 0xCAFE @ '' ;'') = Inr (0xCAFE, '' ;'')"
proof -
  have "\<not> ishex (char_at '' ;'' 0)" by code_simp
  then show ?thesis using itoh_hex2long_roundtrip [of "'' ;''" "0xCAFE" 0] by blast
qed

section \<open>Literals\<close>

text \<open>The decimal and binary digits of a number, as a program text has them.\<close>

function digits_base :: "nat \<Rightarrow> nat \<Rightarrow> string" where
  "digits_base b n = (if n < b \<or> b < 2 then [char_of (48 + n mod b)]
     else digits_base b (n div b) @ [char_of (48 + n mod b)])"
  by pat_completeness auto

termination by (relation "measure snd") auto

declare digits_base.simps [simp del]

lemma digit_table: "\<forall>d\<in>set [0..<10]. isdigit (char_of (48 + d)) \<and> (of_char (char_of (48 + d :: nat)) :: nat) = 48 + d"
  by code_simp

lemma dtoi_loop_digits:
  "dtoi_loop r (digits_base 10 n @ t) = dtoi_loop (r * 10 ^ length (digits_base 10 n) + word_of_nat n) t"
proof (induction n arbitrary: r t rule: less_induct)
  case (less n)
  show ?case
  proof (cases "n < 10")
    case True
    then show ?thesis using digit_table by (simp add: digits_base.simps [of 10 n])
  next
    case False
    have m: "n mod 10 < 10" by simp
    have "word_of_nat n = (word_of_nat (n div 10) * 10 + word_of_nat (n mod 10) :: cell)"
      by (metis div_mult_mod_eq of_nat_add of_nat_mult of_nat_numeral)
    then show ?thesis
      using False less [of "n div 10" r "char_of (48 + n mod 10) # t"] digit_table m
      by (simp add: digits_base.simps [of 10 n] algebra_simps)
  qed
qed

lemma btoi_loop_digits:
  "btoi_loop r (digits_base 2 n @ t) = btoi_loop (r * 2 ^ length (digits_base 2 n) + word_of_nat n) t"
proof (induction n arbitrary: r t rule: less_induct)
  case (less n)
  have or1: "push_bit 1 x OR 1 = x * 2 + (1 :: cell)" for x
  proof -
    have "\<not> bit (push_bit 1 x) n \<or> \<not> bit (1 :: cell) n" for n
      by (cases n) (simp_all only: bit_1_iff bit_push_bit_iff, simp_all)
    then have "push_bit 1 x + 1 = (push_bit 1 x OR 1 :: cell)" by (intro disjunctive_add) blast
    then show ?thesis by (simp add: push_bit_eq_mult)
  qed
  have step: "btoi_loop x (char_of (48 + d) # u) = btoi_loop (x * 2 + word_of_nat d) u" if "d < 2" for x d u
  proof -
    have "d = 0 \<or> d = 1" using that by auto
    moreover have "(char_of (48 :: nat)) = CHR ''0''" "char_of (49 :: nat) = CHR ''1''" by code_simp+
    ultimately show ?thesis using or1 by (auto simp: push_bit_eq_mult)
  qed
  show ?case
  proof (cases "n < 2")
    case True
    then show ?thesis using step [OF True] by (simp add: digits_base.simps [of 2 n])
  next
    case False
    have m: "n mod 2 < 2" by simp
    have w: "word_of_nat n = (word_of_nat (n div 2) * 2 + word_of_nat (n mod 2) :: cell)"
      by (metis div_mult_mod_eq of_nat_add of_nat_mult of_nat_numeral)
    have "btoi_loop r (digits_base 2 n @ t) = btoi_loop r (digits_base 2 (n div 2) @ char_of (48 + n mod 2) # t)"
      using False by (simp add: digits_base.simps [of 2 n])
    also have "\<dots> = btoi_loop (r * 2 ^ length (digits_base 2 (n div 2)) + word_of_nat (n div 2)) (char_of (48 + n mod 2) # t)"
      using False by (intro less) simp
    also have "\<dots> = btoi_loop ((r * 2 ^ length (digits_base 2 (n div 2)) + word_of_nat (n div 2)) * 2 + word_of_nat (n mod 2)) t"
      by (rule step [OF m])
    finally show ?thesis
      using False w by (simp add: digits_base.simps [of 2 n] algebra_simps)
  qed
qed

lemma htoi_loop_digits:
  "htoi_loop r (hex_digits n @ t) = htoi_loop (r * 16 ^ length (hex_digits n) + word_of_nat n) t"
proof (induction n arbitrary: r t rule: hex_digits.induct)
  case (1 n)
  have tab: "\<forall>d\<in>set [0..<16]. ishex (hex_digit d)
     \<and> (if isdigit (hex_digit d) then of_char (hex_digit d) - 48
        else of_char (tolower (hex_digit d)) - 97 + 10) = d"
    by code_simp
  then have step: "htoi_loop r (hex_digit d # s) = htoi_loop (r * 16 + word_of_nat d) s" if "d < 16" for d r s
  proof -
    have d: "ishex (hex_digit d)"
      "(if isdigit (hex_digit d) then of_char (hex_digit d) - 48
        else of_char (tolower (hex_digit d)) - 97 + 10) = d"
      using tab that by auto
    then show ?thesis
      by (cases "isdigit (hex_digit d)") (simp_all add: push_bit_eq_mult del: of_nat_add)
  qed
  show ?case
  proof (cases "n < 16")
    case True
    then show ?thesis by (simp add: hex_digits.simps [of n] step del: htoi_loop.simps)
  next
    case False
    have "word_of_nat n = (word_of_nat (n div 16) * 16 + word_of_nat (n mod 16) :: cell)"
      by (metis div_mult_mod_eq of_nat_add of_nat_mult of_nat_numeral)
    then show ?thesis
      using False 1 [of r "hex_digit (n mod 16) # t"] by (simp add: hex_digits.simps [of n] step algebra_simps del: htoi_loop.simps)
  qed
qed

text \<open>What ends a literal: a character that is not alphanumeric and no decimal fraction.\<close>

definition literal_end :: "string \<Rightarrow> bool" where
  "literal_end t \<longleftrightarrow> \<not> alphanum (char_at t 0)
     \<and> \<not> (char_at t 0 = CHR ''.'' \<and> isdigit (char_at t 1))"

lemma alphanum_chars:
  "isdigit c \<Longrightarrow> alphanum c" "ishex c \<Longrightarrow> alphanum c" "c = CHR ''_'' \<Longrightarrow> alphanum c"
  by (auto simp: alphanum_def alpha_def ishex_def isdigit_def isalpha_def isupper_def islower_def
      elim: order_trans intro: order_trans)

lemma loops_stop:
  "\<not> alphanum (char_at t 0) \<Longrightarrow> btoi_loop v t = (v, t) \<and> dtoi_loop v t = (v, t) \<and> htoi_loop v t = (v, t)"
proof -
  assume a: "\<not> alphanum (char_at t 0)"
  have "alphanum (CHR ''0'')" "alphanum (CHR ''1'')" by code_simp+
  with a show ?thesis using alphanum_chars by (cases t) auto
qed

text \<open>
  C30: The scanner reads the literals of the language as the numbers they stand for, modulo
  the cell size, and uses up exactly their characters: a decimal number, a hexadecimal number
  after \<open>0x\<close> and a binary number after \<open>0b\<close>, in front of anything that ends a literal.
\<close>

theorem number_reads_literals:
  assumes "literal_end t"
  shows "number old (digits_base 10 n @ t) = (length (digits_base 10 n), word_of_nat n)
    \<and> number old (''0x'' @ hex_digits n @ t) = (2 + length (hex_digits n), word_of_nat n)
    \<and> number old (''0b'' @ digits_base 2 n @ t) = (2 + length (digits_base 2 n), word_of_nat n)"
proof -
  have t: "\<not> alphanum (char_at t 0)" using assms by (simp add: literal_end_def)
  have ne: "digits_base b k \<noteq> []" for b k by (simp add: digits_base.simps [of b k])
  have b: "btoi_loop 0 (digits_base 2 n @ t) = (word_of_nat n, t)"
    and h: "htoi_loop 0 (hex_digits n @ t) = (word_of_nat n, t)"
    and d: "dtoi_loop 0 (digits_base 10 n @ t) = (word_of_nat n, t)"
    using loops_stop [OF t] by (simp_all add: btoi_loop_digits htoi_loop_digits dtoi_loop_digits)
  have dig: "\<forall>c\<in>set (digits_base 10 m). isdigit c" for m
  proof (induction m rule: less_induct)
    case (less m)
    have "isdigit (char_of (48 + m mod 10))" using digit_table by simp
    moreover have "\<forall>c\<in>set (digits_base 10 (m div 10)). isdigit c" if "\<not> m < 10"
      using that by (intro less) simp
    ultimately show ?case by (cases "m < 10") (simp_all add: digits_base.simps [of 10 m])
  qed
  obtain c u where cu: "digits_base 10 n = c # u" "isdigit c" "\<forall>x\<in>set u. isdigit x"
    using ne [of 10 n] dig [of n] by (cases "digits_base 10 n") auto
  have bx': "\<not> isdigit (CHR ''b'')" "\<not> isdigit (CHR ''x'')" "alphanum (CHR ''b'')" "alphanum (CHR ''x'')"
    by code_simp+
  have nob: "char_at (u @ t) 0 \<noteq> CHR ''b'' \<and> char_at (u @ t) 0 \<noteq> CHR ''x''"
    using cu(3) t bx' by (cases u) auto
  have bx: "isdigit (CHR ''0'')" by code_simp
  have "number old (''0b'' @ digits_base 2 n @ t) = (2 + length (digits_base 2 n), word_of_nat n)"
    using b t by (simp add: number_def btoi_def)
  moreover have "number old (''0x'' @ hex_digits n @ t) = (2 + length (hex_digits n), word_of_nat n)"
    using h t bx by (simp add: number_def btoi_def htoi_def)
  moreover have "number old (digits_base 10 n @ t) = (length (digits_base 10 n), word_of_nat n)"
    using d t nob cu assms
    by (simp add: number_def btoi_def htoi_def dtoi_def literal_end_def del: dtoi_loop.simps)
  ultimately show ?thesis by blast
qed

lemma number_reads_literals_witness:
  "number 0 ''4294967298;'' = (10, 2)"
proof -
  have "literal_end '';''" by code_simp
  moreover have "digits_base 10 4294967298 = ''4294967298''"
    by (simp add: digits_base.simps) code_simp
  moreover have "(word_of_nat 4294967298 :: cell) = 2" by simp
  ultimately show ?thesis using number_reads_literals [of "'';''" 0 4294967298] by simp
qed

end
