(* ===== verification/Binfile.thy ===== *)
theory Binfile
  imports Prelude
begin

text \<open>
  The output file of the compiler (\<open>pc_resetbin\<close>, \<open>pc_writebin\<close>, \<open>pc_lengthbin\<close> of
  \<open>libpawnc.c\<close>) and the encoding of cells in it (\<open>write_encoded\<close> of \<open>sc6.c\<close>): either the four
  bytes of the cell, lowest first, or the compact encoding in groups of seven bits, which
  \<open>expand\<close> of the abstract machine (\<open>amxmodx/amx.cpp\<close>) undoes.

  A binary file is its bytes, the file position and the number of bytes the disk has room for.
\<close>

unbundle bit_operations_syntax

type_synonym byte = "8 word"

record binfile =
  bin_data :: "byte list"
  bin_pos :: nat
  bin_room :: nat

text \<open>Writing at a position: a gap is filled with zeros, old bytes are overwritten.\<close>

definition put_bytes :: "byte list \<Rightarrow> nat \<Rightarrow> byte list \<Rightarrow> byte list" where
  "put_bytes data pos bs =
     take pos (data @ replicate (pos - length data) 0) @ bs @ drop (pos + length bs) data"

definition pc_resetbin :: "binfile \<Rightarrow> nat \<Rightarrow> binfile" where
  "pc_resetbin f offset = f\<lparr>bin_pos := offset\<rparr>"

definition pc_writebin :: "binfile \<Rightarrow> byte list \<Rightarrow> bool \<times> binfile" where
  "pc_writebin f bs =
     (let written = take (bin_room f - bin_pos f) bs in
      (length written = length bs,
       if written = [] then f
       else f\<lparr>bin_data := put_bytes (bin_data f) (bin_pos f) written,
              bin_pos := bin_pos f + length written\<rparr>))"

definition pc_lengthbin :: "binfile \<Rightarrow> nat" where
  "pc_lengthbin f = bin_pos f"

section \<open>Encoding a cell\<close>

text \<open>The four bytes of a cell on a little-endian machine, on which \<open>aligncell\<close> does nothing.\<close>

definition cell_le :: "cell \<Rightarrow> byte list" where
  "cell_le c = map (\<lambda>i. ucast (drop_bit (8 * i) c)) [0..<4]"

definition ENC_MAX :: nat where "ENC_MAX = 5"
definition ENC_MASK :: byte where "ENC_MASK = 0x0F"

text \<open>The groups of seven bits, lowest first.\<close>

fun enc_groups :: "nat \<Rightarrow> cell \<Rightarrow> byte list" where
  "enc_groups 0 p = []"
| "enc_groups (Suc n) p = ucast (p AND 0x7F) # enc_groups n (drop_bit 7 p)"

text \<open>The two loops that drop leading groups that only repeat the sign.\<close>

fun skip_zeros :: "byte list \<Rightarrow> nat \<Rightarrow> nat" where
  "skip_zeros t index =
     (if index > 1 \<and> t ! (index - 1) = 0 \<and> t ! (index - 2) AND 0x40 = 0
      then skip_zeros t (index - 1) else index)"

fun skip_ones :: "byte list \<Rightarrow> nat \<Rightarrow> nat" where
  "skip_ones t index =
     (if index > 1 \<and> t ! (index - 1) = 0x7F \<and> t ! (index - 2) AND 0x40 \<noteq> 0
      then skip_ones t (index - 1) else index)"

declare skip_zeros.simps [simp del] skip_ones.simps [simp del]

definition enc_length :: "byte list \<Rightarrow> nat" where
  "enc_length t =
     (let index = skip_zeros t ENC_MAX;
          index = (if index = ENC_MAX \<and> t ! (index - 1) = ENC_MASK \<and> t ! (index - 2) AND 0x40 \<noteq> 0
                   then index - 1 else index)
      in skip_ones t index)"

text \<open>The bytes in the order they are written: the high group first, a continuation bit on all but the last.\<close>

definition encode_cell :: "cell \<Rightarrow> byte list" where
  "encode_cell c =
     (let t = enc_groups ENC_MAX c in
      rev (map (\<lambda>i. if i = 0 then t ! i else t ! i OR 0x80) [0..<enc_length t]))"

section \<open>Writing cells\<close>

definition AMX_COMPACTMARGIN :: int where "AMX_COMPACTMARGIN = 64"

record asmout =
  fbin :: binfile
  sc_compress :: bool
  writeerror :: bool
  bytes_in :: int
  bytes_out :: int

definition put_out :: "asmout \<Rightarrow> byte list \<Rightarrow> asmout" where
  "put_out st bs =
     (let (ok, f) = pc_writebin (fbin st) bs in
      st\<lparr>fbin := f, writeerror := (writeerror st \<or> \<not> ok)\<rparr>)"

fun put_codes :: "asmout \<Rightarrow> byte list \<Rightarrow> asmout" where
  "put_codes st [] = st"
| "put_codes st (code # cs) =
     put_codes ((put_out st [code])\<lparr>bytes_out := bytes_out st + 1\<rparr>) cs"

text \<open>The jump target of \<open>compact_err\<close> restarts the assembly without compaction.\<close>

definition compact_err :: nat where "compact_err = 1"

fun write_encoded :: "asmout \<Rightarrow> cell list \<Rightarrow> asmout res" where
  "write_encoded st [] = Inr st"
| "write_encoded st (c # cs) =
     (if sc_compress st then
        let st1 = put_codes st (encode_cell c);
            st2 = st1\<lparr>bytes_in := bytes_in st1 + 4\<rparr> in
        if bytes_out st2 - bytes_in st2 \<ge> AMX_COMPACTMARGIN - 2 then Inl (LongJmp compact_err)
        else write_encoded st2 cs
      else assertR (pc_lengthbin (fbin st) mod cell_bytes = 0)
             (write_encoded (put_out st (cell_le c)) cs))"

section \<open>The decoder of the abstract machine\<close>

text \<open>
  One cell of the loop of \<open>expand\<close>: the bytes are taken from the last one backwards, and the
  sign of the first one is extended.  The result is the cell and the bytes before it.
\<close>

function sign_expand :: "nat \<Rightarrow> cell \<Rightarrow> cell" where
  "sign_expand shift c = (if shift < 32 then sign_expand (shift + 8) (c OR push_bit shift 0xFF) else c)"
  by pat_completeness auto

termination by (relation "measure (\<lambda>(shift, c). 32 - shift)") auto

declare sign_expand.simps [simp del]

fun expand_one :: "byte list \<Rightarrow> nat \<Rightarrow> cell \<Rightarrow> (cell \<times> byte list) res" where
  "expand_one [] shift c = Inl OutOfBounds"
| "expand_one (code # before) shift c =
     assertR (shift < 32) (assertR (shift > 0 \<or> code AND 0x80 = 0)
       (let c = c OR push_bit shift (ucast (code AND 0x7F)); shift = shift + 7 in
        if before \<noteq> [] \<and> hd before AND 0x80 \<noteq> 0 then expand_one before shift c
        else Inr (if code AND 0x40 \<noteq> 0 then sign_expand shift c else c, before)))"

lemma expand_one_length: "expand_one bs shift c = Inr (d, r) \<Longrightarrow> length r < length bs"
  by (induction bs shift c rule: expand_one.induct)
     (fastforce simp: Let_def assertR_Inr_iff split: if_splits)+

text \<open>
  The whole code.  The cells are found from the last one to the first one and stored from the end of
  the block backwards, over the code that has been read; a cell whose place still holds unread code waits in
  the ring \<open>spare\<close>, here the queue of its entries, which has \<open>AMX_COMPACTMARGIN\<close> places.  \<open>flush_spare\<close>
  stores the waiting cells whose places have become free.
\<close>

fun flush_spare :: "(int \<times> cell) list \<Rightarrow> nat \<Rightarrow> byte list \<Rightarrow> ((int \<times> cell) list \<times> byte list) res" where
  "flush_spare [] codesize code = Inr ([], code)"
| "flush_spare ((memloc, c) # spare) codesize code =
     (if memloc > int codesize then bindR (blit code (nat memloc) (cell_le c)) (flush_spare spare codesize)
      else Inr ((memloc, c) # spare, code))"

function expand_loop :: "nat \<Rightarrow> int \<Rightarrow> (int \<times> cell) list \<Rightarrow> byte list \<Rightarrow> byte list res" where
  "expand_loop codesize memsize spare code =
     (if codesize = 0 then assertR (memsize = 0) (Inr code)
      else if codesize > length code then Inl OutOfBounds
      else (case expand_one (rev (take codesize code)) 0 0 of
              Inl e \<Rightarrow> Inl e
            | Inr (c, before) \<Rightarrow>
                let codesize = length before; memsize = memsize - 4 in
                (case flush_spare spare codesize code of
                   Inl e \<Rightarrow> Inl e
                 | Inr (spare, code) \<Rightarrow>
                     if memsize < 0 then Inl AssertFailed
                     else if memsize > int codesize \<or> memsize = int codesize \<and> memsize = 0 then
                       (case blit code (nat memsize) (cell_le c) of
                          Inl e \<Rightarrow> Inl e
                        | Inr code \<Rightarrow> expand_loop codesize memsize spare code)
                     else if int (length spare) < AMX_COMPACTMARGIN then expand_loop codesize memsize (spare @ [(memsize, c)]) code
                     else Inl AssertFailed)))"
  by pat_completeness auto

termination
proof (relation "measure (\<lambda>(codesize, memsize, spare, code). codesize)", goal_cases)
  case (2 codesize memsize spare code x c before)
  then show ?case using expand_one_length [of "rev (take codesize code)" 0 0 c before] by simp
next
  case (3 codesize memsize spare code x c before)
  then show ?case using expand_one_length [of "rev (take codesize code)" 0 0 c before] by simp
qed simp

declare expand_loop.simps [simp del]

definition expand :: "byte list \<Rightarrow> nat \<Rightarrow> int \<Rightarrow> byte list res" where
  "expand code codesize memsize = assertR (memsize mod 4 = 0) (expand_loop codesize memsize [] code)"

text \<open>The cells that compact code stands for, without regard to where they are stored.\<close>

function decode_loop :: "byte list \<Rightarrow> cell list \<Rightarrow> cell list res" where
  "decode_loop bs cells =
     (if bs = [] then Inr cells
      else (case expand_one bs 0 0 of
              Inl e \<Rightarrow> Inl e
            | Inr (c, before) \<Rightarrow> decode_loop before (c # cells)))"
  by pat_completeness auto

termination
proof (relation "measure (\<lambda>(bs, cells). length bs)", goal_cases)
  case (2 bs cells x c before)
  then show ?case using expand_one_length [of bs 0 0 c before] by simp
qed simp

declare decode_loop.simps [simp del]

definition decode_code :: "byte list \<Rightarrow> cell list res" where
  "decode_code code = decode_loop (rev code) []"

section \<open>Decoding is the inverse of encoding\<close>

lemma and_64: "(b :: byte) AND 0x40 = 0 \<longleftrightarrow> \<not> bit b 6"
  using and_exp_eq_0_iff_not_bit [of b 6] by simp

lemma and_128: "(b :: byte) AND 0x80 = 0 \<longleftrightarrow> \<not> bit b 7"
  using and_exp_eq_0_iff_not_bit [of b 7] by simp

lemma bit_128: "bit (0x80 :: byte) n \<longleftrightarrow> n = 7"
proof -
  have "(0x80 :: byte) = 2 ^ 7" by simp
  then show ?thesis by (simp only: bit_exp_iff) auto
qed

lemma bit_255: "bit (0xFF :: cell) n \<longleftrightarrow> n < 8"
proof -
  have "(0xFF :: cell) = mask 8" by (simp add: mask_eq_exp_minus_1)
  then show ?thesis by (simp only: bit_mask_iff) auto
qed

lemma enc_groups_nth: "i < n \<Longrightarrow> enc_groups n p ! i = ucast (drop_bit (7 * i) p AND 0x7F)"
proof (induction n arbitrary: i p)
  case (Suc n)
  then show ?case by (cases i) (simp_all add: add.commute)
qed simp

lemma length_enc_groups [simp]: "length (enc_groups n p) = n"
  by (induction n arbitrary: p) auto

lemma and_127: "x AND 0x7F = take_bit 7 (x :: cell)" "y AND 0x7F = take_bit 7 (y :: byte)"
  by (simp_all only: take_bit_eq_mask mask_eq_exp_minus_1, simp_all)

lemma group_bit: "i < 5 \<Longrightarrow> bit (enc_groups 5 p ! i) s \<longleftrightarrow> s < 7 \<and> bit p (7 * i + s)"
  by (auto simp: enc_groups_nth and_127(1) bit_ucast_iff bit_take_bit_iff bit_drop_bit_eq
      dest: bit_imp_le_length)

text \<open>From bit $7k - 1$ on, all bits of the cell are equal: $k$ groups determine it.\<close>

definition sign_from :: "cell \<Rightarrow> nat \<Rightarrow> bool" where
  "sign_from c k \<longleftrightarrow> 1 \<le> k \<and> k \<le> 5 \<and> (k < 5 \<longrightarrow> (\<forall>n. 7 * k - 1 \<le> n \<and> n < 32 \<longrightarrow> bit c n = bit c (7 * k - 1)))"

lemma sign_from_step:
  assumes "sign_from c k" "1 < k"
    and "\<And>s. s < 7 \<Longrightarrow> 7 * (k - 1) + s < 32 \<Longrightarrow> bit c (7 * (k - 1) + s) = b"
    and "bit c (7 * (k - 1) - 1) = b"
  shows "sign_from c (k - 1)"
proof -
  have "bit c n = bit c (7 * (k - 1) - 1)" if n: "7 * (k - 1) - 1 \<le> n" "n < 32" for n
  proof -
    have "n < 7 * (k - 1) \<or> 7 * (k - 1) \<le> n \<and> n < 7 * k \<or> 7 * k \<le> n" by linarith
    then consider "n < 7 * (k - 1)" | "7 * (k - 1) \<le> n" "n < 7 * k" | "7 * k \<le> n" by blast
    then show ?thesis
    proof cases
      case 1
      then have "n = 7 * (k - 1) - 1" using n by simp
      then show ?thesis by simp
    next
      case 2
      define s where "s = n - 7 * (k - 1)"
      have "n = 7 * (k - 1) + s" "s < 7" using 2 assms(2) by (auto simp: s_def)
      then show ?thesis using assms(3) [of s] assms(4) n by simp
    next
      case 3
      then have k: "k < 5" using n(2) by linarith
      have "7 * k - 1 \<le> n" using 3 by linarith
      then have "bit c n = bit c (7 * k - 1)" using assms(1) k n(2) unfolding sign_from_def by blast
      moreover have "7 * k - 1 = 7 * (k - 1) + 6" using assms(2) by simp
      ultimately show ?thesis using assms(3) [of 6] assms(4) k by simp
    qed
  qed
  moreover have "1 \<le> k - 1" "k - 1 \<le> 5" using assms(1,2) by (auto simp: sign_from_def)
  ultimately show ?thesis unfolding sign_from_def by blast
qed

lemma group_eq_const:
  assumes "i < 5"
  shows "enc_groups 5 c ! i = 0 \<Longrightarrow> s < 7 \<Longrightarrow> \<not> bit c (7 * i + s)"
    and "enc_groups 5 c ! i = 0x7F \<Longrightarrow> s < 7 \<Longrightarrow> bit c (7 * i + s)"
    and "enc_groups 5 c ! i = 0x0F \<Longrightarrow> s < 4 \<Longrightarrow> bit c (7 * i + s)"
proof -
  have m: "(0x7F :: byte) = mask 7" "(0x0F :: byte) = mask 4" by (simp_all add: mask_eq_exp_minus_1)
  show "\<not> bit c (7 * i + s)" if "enc_groups 5 c ! i = 0" "s < 7"
    using group_bit [OF assms, of c s] that by simp
  show "bit c (7 * i + s)" if "enc_groups 5 c ! i = 0x7F" "s < 7"
    using group_bit [OF assms, of c s] that unfolding m by (simp add: bit_mask_iff)
  show "bit c (7 * i + s)" if "enc_groups 5 c ! i = 0x0F" "s < 4"
    using group_bit [OF assms, of c s] that unfolding m by (simp add: bit_mask_iff)
qed

lemma sign_bit: "1 < k \<Longrightarrow> k \<le> 5 \<Longrightarrow>
    enc_groups 5 c ! (k - 2) AND 0x40 = 0 \<longleftrightarrow> \<not> bit c (7 * (k - 1) - 1)"
proof -
  assume k: "1 < k" "k \<le> 5"
  then have "7 * (k - 2) + 6 = 7 * (k - 1) - 1" by simp
  then show ?thesis using group_bit [of "k - 2" c 6] k by (simp add: and_64)
qed

lemma skip_zeros_sign: "sign_from c k \<Longrightarrow> sign_from c (skip_zeros (enc_groups 5 c) k)"
proof (induction k)
  case (Suc k)
  let ?t = "enc_groups 5 c"
  show ?case
  proof (cases "Suc k > 1 \<and> ?t ! (Suc k - 1) = 0 \<and> ?t ! (Suc k - 2) AND 0x40 = 0")
    case True
    have k: "Suc k \<le> 5" using Suc.prems by (simp add: sign_from_def)
    have "sign_from c (Suc k - 1)"
      using Suc.prems True k sign_bit [of "Suc k" c] group_eq_const(1) [of k c]
      by (intro sign_from_step [of c "Suc k" False]) auto
    then show ?thesis using Suc.IH True by (subst skip_zeros.simps) simp
  next
    case False
    then show ?thesis using Suc.prems by (subst skip_zeros.simps) auto
  qed
qed (simp add: sign_from_def)

lemma top_group: "enc_groups 5 c ! 4 \<noteq> 0x7F"
proof
  assume "enc_groups 5 c ! 4 = 0x7F"
  then have "bit c (7 * 4 + 6)" using group_eq_const(2) [of 4 c 6] by simp
  then show False using bit_imp_le_length [of c 34] by simp
qed

lemma skip_ones_sign: "sign_from c k \<Longrightarrow> sign_from c (skip_ones (enc_groups 5 c) k)"
proof (induction k)
  case (Suc k)
  let ?t = "enc_groups 5 c"
  show ?case
  proof (cases "Suc k > 1 \<and> ?t ! (Suc k - 1) = 0x7F \<and> ?t ! (Suc k - 2) AND 0x40 \<noteq> 0")
    case True
    have k: "Suc k \<le> 5" using Suc.prems by (simp add: sign_from_def)
    have "sign_from c (Suc k - 1)"
      using Suc.prems True k sign_bit [of "Suc k" c] group_eq_const(2) [of k c]
      by (intro sign_from_step [of c "Suc k" True]) auto
    then show ?thesis using Suc.IH True by (subst skip_ones.simps) simp
  next
    case False
    then show ?thesis using Suc.prems by (subst skip_ones.simps) auto
  qed
qed (simp add: sign_from_def)

lemma enc_length_sign: "sign_from c (enc_length (enc_groups 5 c))"
proof -
  let ?t = "enc_groups 5 c"
  define i where "i = skip_zeros ?t 5"
  have i: "sign_from c i" unfolding i_def by (rule skip_zeros_sign) (simp add: sign_from_def)
  define j where "j = (if i = 5 \<and> ?t ! (i - 1) = ENC_MASK \<and> ?t ! (i - 2) AND 0x40 \<noteq> 0 then i - 1 else i)"
  have "sign_from c j"
  proof (cases "i = 5 \<and> ?t ! (i - 1) = ENC_MASK \<and> ?t ! (i - 2) AND 0x40 \<noteq> 0")
    case True
    then have "sign_from c (i - 1)"
      using i sign_bit [of 5 c] group_eq_const(3) [of 4 c]
      by (intro sign_from_step [of c i True]) (auto simp: ENC_MASK_def)
    moreover have "j = i - 1" using True unfolding j_def by (rule if_P)
    ultimately show ?thesis by (simp only:)
  next
    case False
    then have "j = i" unfolding j_def by (rule if_not_P)
    then show ?thesis using i by (simp only:)
  qed
  then have "sign_from c (skip_ones ?t j)" by (rule skip_ones_sign)
  then show ?thesis unfolding enc_length_def ENC_MAX_def Let_def i_def [symmetric] j_def .
qed

lemma sign_expand_eq: "sign_expand shift c = c OR push_bit shift (- 1)"
proof (induction shift c rule: sign_expand.induct)
  case (1 shift c)
  have ones: "push_bit shift 0xFF OR push_bit (shift + 8) (- 1) = push_bit shift (- 1 :: cell)"
    by (intro bit_word_eqI) (auto simp: bit_or_iff bit_push_bit_iff bit_255 bit_not_iff bit_mask_iff
        simp del: bit_numeral_word_iff)
  show ?case
  proof (cases "shift < 32")
    case True
    then have "sign_expand shift c = (c OR push_bit shift 0xFF) OR push_bit (shift + 8) (- 1)"
      using 1 by (subst sign_expand.simps) simp
    also have "\<dots> = c OR push_bit shift (- 1)" using ones by (simp only: or.assoc)
    finally show ?thesis .
  next
    case False
    then have "push_bit shift (- 1 :: cell) = 0"
      by (intro bit_word_eqI) (simp add: bit_push_bit_iff bit_not_iff bit_mask_iff)
    then show ?thesis using False by (subst sign_expand.simps) simp
  qed
qed

lemma take_bit_step:
  "i < 5 \<Longrightarrow> take_bit 7 y = enc_groups 5 c ! i \<Longrightarrow>
    take_bit (7 * i) c OR push_bit (7 * i) (ucast (take_bit 7 y)) = take_bit (7 * i + 7) c"
  by (intro bit_word_eqI)
     (auto simp: bit_or_iff bit_push_bit_iff bit_ucast_iff bit_take_bit_iff group_bit)

text \<open>Reading the groups from number $j$ on gives the cell.\<close>

lemma expand_groups:
  assumes "sign_from c k" "j < k" "r = [] \<or> \<not> bit (hd r) 7"
  shows "expand_one (map (\<lambda>i. if i = 0 then enc_groups 5 c ! i else enc_groups 5 c ! i OR 0x80) [j..<k] @ r)
      (7 * j) (take_bit (7 * j) c) = Inr (c, r)"
  using assms(2)
proof (induction "k - j" arbitrary: j)
  case (Suc m)
  let ?t = "enc_groups 5 c"
  let ?f = "\<lambda>i. if i = 0 then ?t ! i else ?t ! i OR 0x80"
  have k: "k \<le> 5" using assms(1) by (simp add: sign_from_def)
  have j: "j < 5" using Suc k by simp
  have low: "take_bit 7 (?f i) = ?t ! i" if "i < 5" for i
    using that by (intro bit_word_eqI) (auto simp: bit_take_bit_iff bit_or_iff bit_128 group_bit
        simp del: bit_numeral_word_iff)
  have b6: "bit (?f i) 6 \<longleftrightarrow> bit (?t ! i) 6" for i
    by (simp add: bit_or_iff bit_128 del: bit_numeral_word_iff)
  have b7: "bit (?f i) 7 \<longleftrightarrow> i \<noteq> 0" if "i < 5" for i
    using that group_bit [of i c 7] by (auto simp: bit_or_iff bit_128 simp del: bit_numeral_word_iff)
  have up: "[j..<k] = j # [Suc j..<k]" using Suc.prems by (rule upt_conv_Cons)
  let ?c = "take_bit (7 * j) c OR push_bit (7 * j) (ucast (?f j AND 0x7F))"
  have c: "?c = take_bit (7 * j + 7) c"
    unfolding and_127(2) by (rule take_bit_step) (use j low in auto)
  have first: "7 * j > 0 \<or> ?f j AND 0x80 = 0"
    using b7 [of 0] by (auto simp: and_128)
  have sh: "7 * j < 32" using j by simp
  show ?case
  proof (cases "Suc j < k")
    case True
    then have "hd (map ?f [Suc j..<k] @ r) = ?f (Suc j)" "map ?f [Suc j..<k] @ r \<noteq> []"
      by (simp_all add: upt_conv_Cons)
    moreover have "?f (Suc j) AND 0x80 \<noteq> 0" using b7 [of "Suc j"] True k by (simp only: and_128) simp
    ultimately have "expand_one (map ?f [j..<k] @ r) (7 * j) (take_bit (7 * j) c)
        = expand_one (map ?f [Suc j..<k] @ r) (7 * j + 7) (take_bit (7 * j + 7) c)"
      unfolding up list.map append_Cons expand_one.simps Let_def c
      using sh first by (simp only: assertR_simps if_True simp_thms)
    also have "\<dots> = Inr (c, r)"
      using Suc.hyps(1) [of "Suc j"] Suc.hyps(2) True by (simp add: algebra_simps)
    finally show ?thesis .
  next
    case False
    then have kj: "k = Suc j" using Suc.prems by simp
    have stop: "\<not> (r \<noteq> [] \<and> hd r AND 0x80 \<noteq> 0)" using assms(3) by (auto simp: and_128)
    have "[Suc j..<k] = []" using kj by simp
    then have up': "map ?f [j..<k] @ r = ?f j # r" unfolding up by simp
    have e: "expand_one (map ?f [j..<k] @ r) (7 * j) (take_bit (7 * j) c)
        = Inr (if ?f j AND 0x40 \<noteq> 0 then sign_expand (7 * j + 7) (take_bit (7 * j + 7) c)
               else take_bit (7 * j + 7) c, r)"
      unfolding up' expand_one.simps Let_def c
      using sh first stop by (simp only: assertR_simps if_False simp_thms)
    have s6: "?f j AND 0x40 \<noteq> 0 \<longleftrightarrow> bit c (7 * j + 6)"
      unfolding and_64 b6 using group_bit [OF j, of c 6] by simp
    have "bit c n = bit c (7 * j + 6)" if n: "7 * j + 7 \<le> n" "n < 32" for n
    proof -
      have eq: "7 * k - 1 = 7 * j + 6" using kj by simp
      have "k < 5" "7 * j + 6 \<le> n" using kj n by linarith+
      then show ?thesis using assms(1) n(2) unfolding sign_from_def eq by blast
    qed
    then have hi: "\<not> n < 7 * j + 7 \<Longrightarrow> n < 32 \<Longrightarrow> bit c n \<longleftrightarrow> bit c (7 * j + 6)" for n
      by (meson not_le)
    have "(if ?f j AND 0x40 \<noteq> 0 then sign_expand (7 * j + 7) (take_bit (7 * j + 7) c)
               else take_bit (7 * j + 7) c) = c"
      unfolding s6 sign_expand_eq
    proof (rule bit_word_eqI)
      fix n assume "n < LENGTH(32)"
      then have n: "n < 32" by simp
      show "bit (if bit c (7 * j + 6) then take_bit (7 * j + 7) c OR push_bit (7 * j + 7) (- 1)
              else take_bit (7 * j + 7) c) n = bit c n"
        using hi [of n] n
        by (cases "n < 7 * j + 7") (auto simp: bit_or_iff bit_take_bit_iff bit_not_iff bit_mask_iff)
    qed
    with e show ?thesis by simp
  qed
qed simp

lemma expand_encode_cell:
  assumes "r = [] \<or> \<not> bit (hd r) 7"
  shows "expand_one (rev (encode_cell c) @ r) 0 0 = Inr (c, r)"
proof -
  let ?k = "enc_length (enc_groups 5 c)"
  have "0 < ?k" using enc_length_sign [of c] by (simp add: sign_from_def)
  from expand_groups [OF enc_length_sign this assms]
  show ?thesis by (simp add: encode_cell_def ENC_MAX_def Let_def)
qed

text \<open>The byte of a cell that is written last ends it: it has no continuation bit.\<close>

lemma encode_cell_last: "encode_cell c \<noteq> [] \<and> \<not> bit (last (encode_cell c)) 7"
proof -
  let ?k = "enc_length (enc_groups 5 c)"
  have "0 < ?k" using enc_length_sign [of c] by (simp add: sign_from_def)
  then have "[0..<?k] = 0 # [Suc 0..<?k]" by (rule upt_conv_Cons)
  then show ?thesis using group_bit [of 0 c 7]
    by (simp add: encode_cell_def ENC_MAX_def Let_def last_rev)
qed

text \<open>The last cell of a sequence is found, and what is left is the code of the others.\<close>

abbreviation encode_cells :: "cell list \<Rightarrow> byte list" where
  "encode_cells cs \<equiv> concat (map encode_cell cs)"

lemma expand_last_cell: "expand_one (rev (encode_cells (cs @ [c]))) 0 0 = Inr (c, rev (encode_cells cs))"
proof -
  let ?r = "rev (encode_cells cs)"
  have "?r = [] \<or> \<not> bit (hd ?r) 7"
  proof (cases cs rule: rev_cases)
    case (snoc ds d)
    then show ?thesis using encode_cell_last [of d] by (simp add: hd_append hd_rev)
  qed simp
  then show ?thesis using expand_encode_cell by simp
qed

lemma decode_loop_encoded: "decode_loop (rev (encode_cells cs)) acc = Inr (cs @ acc)"
proof (induction cs arbitrary: acc rule: rev_induct)
  case Nil
  then show ?case by (simp add: decode_loop.simps)
next
  case (snoc c cs)
  then show ?case using snoc [of "c # acc"] encode_cell_last [of c] expand_last_cell [of cs c]
    by (subst decode_loop.simps) simp
qed

section \<open>Expanding in place\<close>

lemma length_cell_le [simp]: "length (cell_le c) = 4"
  by (simp add: cell_le_def)

abbreviation cells_bytes :: "cell list \<Rightarrow> byte list" where
  "cells_bytes cs \<equiv> concat (map cell_le cs)"

lemma length_cells_bytes [simp]: "length (cells_bytes cs) = 4 * length cs"
  by (induction cs) auto

text \<open>
  The cells of \<open>cs\<close> from number \<open>h\<close> on are at their places, the bytes behind all cells are as
  they were, and the cells with numbers from \<open>j\<close> up to \<open>h\<close> wait.
\<close>

definition placed :: "cell list \<Rightarrow> byte list \<Rightarrow> nat \<Rightarrow> byte list \<Rightarrow> bool" where
  "placed cs m0 h m \<longleftrightarrow> length m = length m0 \<and> drop (4 * h) m = cells_bytes (drop h cs) @ drop (4 * length cs) m0"

definition waiting :: "cell list \<Rightarrow> nat \<Rightarrow> nat \<Rightarrow> (int \<times> cell) list" where
  "waiting cs j h = map (\<lambda>k. (4 * int k, cs ! k)) (rev [j..<h])"

lemma place_cell:
  assumes "placed cs m0 (Suc k) m" "k < length cs" "4 * length cs \<le> length m0" "P \<le> 4 * k"
  shows "\<exists>m'. blit m (4 * k) (cell_le (cs ! k)) = Inr m' \<and> placed cs m0 k m' \<and> take P m' = take P m"
proof -
  have room: "4 * k + 4 \<le> length m" using assms(1-3) by (simp add: placed_def)
  let ?m = "take (4 * k) m @ cell_le (cs ! k) @ drop (4 * k + 4) m"
  have "drop (4 * k + 4) m = cells_bytes (drop (Suc k) cs) @ drop (4 * length cs) m0" using assms(1) by (simp add: placed_def add.commute)
  then have "drop (4 * k) ?m = cells_bytes (drop k cs) @ drop (4 * length cs) m0"
    using room Cons_nth_drop_Suc [OF assms(2), symmetric] by simp
  moreover have "length ?m = length m0" using room assms(1) by (simp add: placed_def)
  ultimately have "placed cs m0 k ?m" unfolding placed_def by blast
  moreover have "take P ?m = take P m" using assms(4) room by (simp add: min_absorb1)
  ultimately show ?thesis using room by (simp add: blit_def)
qed

lemma flush_waiting:
  assumes "4 * length cs \<le> length m0" "j \<le> h" "h \<le> length cs" "placed cs m0 h m"
  shows "\<exists>h' m'. flush_spare (waiting cs j h) P m = Inr (waiting cs j h', m') \<and> placed cs m0 h' m' \<and> take P m' = take P m
    \<and> j \<le> h' \<and> h' \<le> h \<and> (h' = j \<or> 4 * (h' - 1) \<le> P)"
  using assms(2-4)
proof (induction "h - j" arbitrary: h m)
  case 0
  then have "h = j" by simp
  then show ?case using 0 by (intro exI [of _ h] exI [of _ m]) (simp add: waiting_def)
next
  case (Suc n)
  then obtain k where k: "h = Suc k" "j \<le> k" by (cases h) auto
  have w: "waiting cs j h = (4 * int k, cs ! k) # waiting cs j k" using k by (simp add: waiting_def)
  show ?case
  proof (cases "P < 4 * k")
    case True
    obtain m1 where m1: "blit m (4 * k) (cell_le (cs ! k)) = Inr m1" "placed cs m0 k m1" "take P m1 = take P m"
      using place_cell [of cs m0 k m P] Suc.prems k(1) assms(1) True by auto
    obtain h' m' where h': "flush_spare (waiting cs j k) P m1 = Inr (waiting cs j h', m')" "placed cs m0 h' m'" "take P m' = take P m1"
        "j \<le> h'" "h' \<le> k" "h' = j \<or> 4 * (h' - 1) \<le> P"
    proof -
      have "n = k - j" "k \<le> length cs" using Suc.hyps(2) Suc.prems(2) k by simp_all
      then show thesis using that Suc.hyps(1) [of k m1] m1(2) k(2) by blast
    qed
    have "flush_spare (waiting cs j h) P m = Inr (waiting cs j h', m')" using w m1(1) h'(1) True by (simp add: nat_mult_distrib)
    then show ?thesis using h' m1(3) k(1) by (intro exI [of _ h'] exI [of _ m']) simp
  next
    case False
    then have "flush_spare (waiting cs j h) P m = Inr (waiting cs j h, m)" using w by simp
    then show ?thesis using Suc.prems False k by (intro exI [of _ h] exI [of _ m]) simp
  qed
qed

text \<open>No part of the code is so much longer than its cells that the ring overflows.\<close>

definition within_margin :: "cell list \<Rightarrow> bool" where
  "within_margin cs \<longleftrightarrow> (\<forall>k \<le> length cs. length (encode_cells (take k cs)) \<le> 4 * k + 61)"

lemma expand_loop_places:
  assumes "within_margin cs" "4 * length cs \<le> length m0"
  shows "j \<le> h \<Longrightarrow> h \<le> length cs \<Longrightarrow> h = j \<or> 0 < j \<and> 4 * (h - 1) \<le> length (encode_cells (take j cs)) \<Longrightarrow>
    placed cs m0 h m \<Longrightarrow> take (length (encode_cells (take j cs))) m = encode_cells (take j cs) \<Longrightarrow>
    expand_loop (length (encode_cells (take j cs))) (4 * int j) (waiting cs j h) m = Inr (cells_bytes cs @ drop (4 * length cs) m0)"
proof (induction j arbitrary: h m)
  case 0
  then show ?case by (simp add: expand_loop.simps [of 0] waiting_def placed_def)
next
  case (Suc j)
  let ?E = "encode_cells (take (Suc j) cs)" and ?D = "encode_cells (take j cs)" and ?c = "cs ! j"
  let ?P = "length ?D"
  have j: "j < length cs" using Suc.prems(1,2) by simp
  have t: "take (Suc j) cs = take j cs @ [?c]" using j by (simp add: take_Suc_conv_app_nth)
  have E: "?E = ?D @ encode_cell ?c" unfolding t by simp
  have pos: "0 < length ?E" using encode_cell_last [of ?c] unfolding E by simp
  have len: "length ?E \<le> length m" using Suc.prems(5) by (metis length_take min.cobounded1)
  have one: "expand_one (rev (take (length ?E) m)) 0 0 = Inr (?c, rev ?D)"
    unfolding Suc.prems(5) using expand_last_cell [of "take j cs" ?c] by (simp only: t)
  obtain h' m' where f: "flush_spare (waiting cs (Suc j) h) ?P m = Inr (waiting cs (Suc j) h', m')" "placed cs m0 h' m'"
      "take ?P m' = take ?P m" "Suc j \<le> h'" "h' \<le> h" "h' = Suc j \<or> 4 * (h' - 1) \<le> ?P"
    using flush_waiting [OF assms(2) Suc.prems(1,2,4)] by blast
  have "take ?P m = take ?P (take (length ?E) m)" unfolding E by simp
  also have "\<dots> = take ?P ?E" by (simp only: Suc.prems(5))
  also have "\<dots> = ?D" unfolding E by simp
  finally have D: "take ?P m' = ?D" using f(3) by simp
  have unfold: "expand_loop (length ?E) (4 * int (Suc j)) (waiting cs (Suc j) h) m =
      (if 4 * j > ?P \<or> 4 * j = ?P \<and> j = 0 then (case blit m' (4 * j) (cell_le ?c) of Inl e \<Rightarrow> Inl e
          | Inr m \<Rightarrow> expand_loop ?P (4 * int j) (waiting cs (Suc j) h') m)
       else if int (length (waiting cs (Suc j) h')) < AMX_COMPACTMARGIN
         then expand_loop ?P (4 * int j) (waiting cs (Suc j) h' @ [(4 * int j, ?c)]) m' else Inl AssertFailed)"
  proof -
    have n: "length ?E \<noteq> 0" "\<not> length m < length ?E" using pos len by linarith+
    have i: "4 * int (Suc j) - 4 = 4 * int j" "\<not> 4 * int j < 0" "nat (4 * int j) = 4 * j"
        "(int ?P < 4 * int j \<or> 4 * int j = int ?P \<and> 4 * int j = 0) = (?P < 4 * j \<or> 4 * j = ?P \<and> j = 0)"
      by (auto simp: nat_mult_distrib)
    show ?thesis
      by (subst expand_loop.simps) (simp only: n one f(1) i Let_def length_rev sum.case prod.case if_False)
  qed
  show ?case
  proof (cases "4 * j > ?P \<or> 4 * j = ?P \<and> j = 0")
    case True
    then have h': "h' = Suc j" using f(4,6) by auto
    obtain m1 where m1: "blit m' (4 * j) (cell_le ?c) = Inr m1" "placed cs m0 j m1" "take ?P m1 = take ?P m'"
      using place_cell [OF f(2) [unfolded h'] j assms(2), of ?P] True by auto
    have "waiting cs (Suc j) h' = waiting cs j j" unfolding h' by (simp add: waiting_def)
    then show ?thesis using Suc.IH [of j m1] unfold True m1 D j by auto
  next
    case False
    have "?P \<le> 4 * j + 61" using assms(1) j by (simp add: within_margin_def)
    then have "int (length (waiting cs (Suc j) h')) < AMX_COMPACTMARGIN"
      using f(4,6) by (auto simp: waiting_def AMX_COMPACTMARGIN_def)
    moreover have "waiting cs (Suc j) h' @ [(4 * int j, ?c)] = waiting cs j h'" using f(4) by (simp add: waiting_def upt_conv_Cons)
    moreover have "0 < j \<and> 4 * (h' - 1) \<le> ?P" using False f(4,6) by (cases j) auto
    ultimately show ?thesis using Suc.IH [of h' m'] unfold False f D Suc.prems(2) by auto
  qed
qed

lemma expand_in_place:
  assumes "within_margin cs" "4 * length cs \<le> length m" "take (length (encode_cells cs)) m = encode_cells cs"
  shows "expand m (length (encode_cells cs)) (4 * int (length cs)) = Inr (cells_bytes cs @ drop (4 * length cs) m)"
  using expand_loop_places [OF assms(1,2), of "length cs" "length cs" m] assms(3)
  by (simp add: expand_def placed_def waiting_def)

text \<open>The compiler gives up compacting before the margin is exceeded.\<close>

lemma put_codes_counts:
  "bytes_out (put_codes st bs) = bytes_out st + int (length bs) \<and> bytes_in (put_codes st bs) = bytes_in st
    \<and> sc_compress (put_codes st bs) = sc_compress st"
  by (induction bs arbitrary: st) (auto simp: put_out_def split: prod.splits)

lemma write_encoded_margin:
  "write_encoded st cs = Inr st' \<Longrightarrow> sc_compress st \<Longrightarrow> 0 < k \<Longrightarrow> k \<le> length cs \<Longrightarrow>
    bytes_out st + int (length (encode_cells (take k cs))) - (bytes_in st + 4 * int k) \<le> 61"
proof (induction cs arbitrary: st k)
  case (Cons c cs)
  let ?s = "(put_codes st (encode_cell c))\<lparr>bytes_in := bytes_in (put_codes st (encode_cell c)) + 4\<rparr>"
  note n = put_codes_counts [of st "encode_cell c"]
  have w: "write_encoded ?s cs = Inr st'" "bytes_out ?s - bytes_in ?s \<le> 61"
    using Cons.prems(1,2) by (auto simp: Let_def AMX_COMPACTMARGIN_def split: if_splits)
  obtain i where i: "k = Suc i" using Cons.prems(3) by (cases k) auto
  show ?case
  proof (cases "i = 0")
    case False
    then show ?thesis using Cons.IH [OF w(1), of i] n Cons.prems(2,4) unfolding i by simp
  qed (use w(2) n i in simp)
qed simp

lemma written_within_margin: "write_encoded st cs = Inr st' \<Longrightarrow> sc_compress st \<Longrightarrow> bytes_out st = bytes_in st \<Longrightarrow> within_margin cs"
  unfolding within_margin_def
proof (intro allI impI)
  fix k assume a: "write_encoded st cs = Inr st'" "sc_compress st" "bytes_out st = bytes_in st" "k \<le> length cs"
  show "length (encode_cells (take k cs)) \<le> 4 * k + 61" using write_encoded_margin [OF a(1,2), of k] a(3,4) by (cases "k = 0") auto
qed

text \<open>
  C14: Compact encoding is lossless: whatever cells \<open>write_encoded\<close> accepted in compact form, the expansion of the
  loader, in place in a block that has the code at its start and room for the cells, ends without failing one
  of its assertions, leaves the bytes of exactly these cells, and does not touch what is behind
  them.  Cells that would overflow the ring of waiting cells are those that \<open>write_encoded\<close> refuses.
\<close>

theorem compact_code_roundtrip:
  assumes "write_encoded st cs = Inr st'" "sc_compress st" "bytes_out st = bytes_in st"
    "4 * length cs \<le> length m" "take (length (encode_cells cs)) m = encode_cells cs"
  shows "expand m (length (encode_cells cs)) (4 * int (length cs)) = Inr (cells_bytes cs @ drop (4 * length cs) m)"
  using expand_in_place [OF written_within_margin [OF assms(1-3)] assms(4,5)] .

theorem compact_code_roundtrip_witness:
  "expand [0x84, 0x80, 0x80, 0x80, 0x00, 0x05, 0xAA, 0xAA, 0x77] 6 8 = Inr [0, 0, 0, 0x40, 5, 0, 0, 0, 0x77]"
proof -
  let ?st = "\<lparr>fbin = \<lparr>bin_data = [], bin_pos = 0, bin_room = 100\<rparr>, sc_compress = True, writeerror = False, bytes_in = 0, bytes_out = 0\<rparr>"
  let ?m = "[0x84, 0x80, 0x80, 0x80, 0x00, 0x05, 0xAA, 0xAA, 0x77] :: byte list"
  have "case write_encoded ?st [0x40000000, 5] of Inl e \<Rightarrow> False | Inr r \<Rightarrow> True" by code_simp
  then obtain st' where w: "write_encoded ?st [0x40000000, 5] = Inr st'" by (auto split: sum.splits)
  have e: "encode_cells [0x40000000, 5] = [0x84, 0x80, 0x80, 0x80, 0x00, 0x05]" by code_simp
  have c: "cells_bytes [0x40000000, 5] = [0, 0, 0, 0x40, 5, 0, 0, 0]" by code_simp
  have l: "length [0x84, 0x80, 0x80, 0x80, 0x00, 0x05 :: byte] = 6" "4 * int (length [0x40000000, 5 :: cell]) = 8" by simp_all
  show ?thesis using compact_code_roundtrip [OF w, of ?m] unfolding e c l by simp
qed

section \<open>What is written\<close>

text \<open>At the end of the file, with room for the bytes, writing appends.\<close>

lemma pc_writebin_append:
  "bin_pos f = length (bin_data f) \<Longrightarrow> bin_pos f + length bs \<le> bin_room f \<Longrightarrow>
    pc_writebin f bs = (True, f\<lparr>bin_data := bin_data f @ bs, bin_pos := bin_pos f + length bs\<rparr>)"
  by (cases f) (auto simp: pc_writebin_def put_bytes_def Let_def)

lemma put_codes_append:
  "bin_pos (fbin st) = length (bin_data (fbin st)) \<Longrightarrow>
   bin_pos (fbin st) + length bs \<le> bin_room (fbin st) \<Longrightarrow>
    put_codes st bs = st\<lparr>fbin := (fbin st)\<lparr>bin_data := bin_data (fbin st) @ bs,
        bin_pos := bin_pos (fbin st) + length bs\<rparr>,
      bytes_out := bytes_out st + int (length bs)\<rparr>"
proof (induction bs arbitrary: st)
  case Nil
  then show ?case by simp
next
  case (Cons b bs)
  then show ?case by (simp add: put_out_def pc_writebin_append)
qed

end
