(* ===== verification/Opcodes.thy ===== *)
theory Opcodes
  imports Numbers
begin

text \<open>
  The instructions the assembler knows: \<open>opcodelist\<close> and the binary search \<open>findopcode\<close> of
  \<open>amx/compiler/libpc300/sc6.c\<close>.  Entry 0 of the table stands for an unknown instruction.
\<close>

section \<open>Instructions\<close>

datatype segment = SegNone | InCseg | InDseg

datatype opcode_proc = Noop | Parm0 | Parm1 | Do_dump | Do_call | Do_jump | Do_switch | Do_case

type_synonym opcode = "nat \<times> string option \<times> segment \<times> opcode_proc"

definition op_code :: "opcode \<Rightarrow> cell" where "op_code e = word_of_nat (fst e)"
definition op_name :: "opcode \<Rightarrow> string option" where "op_name e = fst (snd e)"
definition op_segment :: "opcode \<Rightarrow> segment" where "op_segment e = fst (snd (snd e))"
definition op_func :: "opcode \<Rightarrow> opcode_proc" where "op_func e = snd (snd (snd e))"

definition opcodelist :: "opcode list" where
  "opcodelist = [
    (0, None, SegNone, Noop),
    (78, Some ''add'', InCseg, Parm0),
    (87, Some ''add.c'', InCseg, Parm1),
    (14, Some ''addr.alt'', InCseg, Parm1),
    (13, Some ''addr.pri'', InCseg, Parm1),
    (30, Some ''align.alt'', InCseg, Parm1),
    (29, Some ''align.pri'', InCseg, Parm1),
    (81, Some ''and'', InCseg, Parm0),
    (121, Some ''bounds'', InCseg, Parm1),
    (137, Some ''break'', InCseg, Parm0),
    (49, Some ''call'', InCseg, Do_call),
    (50, Some ''call.pri'', InCseg, Parm0),
    (0, Some ''case'', InCseg, Do_case),
    (130, Some ''casetbl'', InCseg, Parm0),
    (118, Some ''cmps'', InCseg, Parm1),
    (0, Some ''code'', SegNone, Noop),
    (12, Some ''const.alt'', InCseg, Parm1),
    (11, Some ''const.pri'', InCseg, Parm1),
    (0, Some ''data'', SegNone, Noop),
    (114, Some ''dec'', InCseg, Parm1),
    (113, Some ''dec.alt'', InCseg, Parm0),
    (116, Some ''dec.i'', InCseg, Parm0),
    (112, Some ''dec.pri'', InCseg, Parm0),
    (115, Some ''dec.s'', InCseg, Parm1),
    (0, Some ''dump'', InDseg, Do_dump),
    (95, Some ''eq'', InCseg, Parm0),
    (106, Some ''eq.c.alt'', InCseg, Parm1),
    (105, Some ''eq.c.pri'', InCseg, Parm1),
    (119, Some ''fill'', InCseg, Parm1),
    (100, Some ''geq'', InCseg, Parm0),
    (99, Some ''grtr'', InCseg, Parm0),
    (120, Some ''halt'', InCseg, Parm1),
    (45, Some ''heap'', InCseg, Parm1),
    (27, Some ''idxaddr'', InCseg, Parm0),
    (28, Some ''idxaddr.b'', InCseg, Parm1),
    (109, Some ''inc'', InCseg, Parm1),
    (108, Some ''inc.alt'', InCseg, Parm0),
    (111, Some ''inc.i'', InCseg, Parm0),
    (107, Some ''inc.pri'', InCseg, Parm0),
    (110, Some ''inc.s'', InCseg, Parm1),
    (86, Some ''invert'', InCseg, Parm0),
    (55, Some ''jeq'', InCseg, Do_jump),
    (60, Some ''jgeq'', InCseg, Do_jump),
    (59, Some ''jgrtr'', InCseg, Do_jump),
    (58, Some ''jleq'', InCseg, Do_jump),
    (57, Some ''jless'', InCseg, Do_jump),
    (56, Some ''jneq'', InCseg, Do_jump),
    (54, Some ''jnz'', InCseg, Do_jump),
    (52, Some ''jrel'', InCseg, Parm1),
    (64, Some ''jsgeq'', InCseg, Do_jump),
    (63, Some ''jsgrtr'', InCseg, Do_jump),
    (62, Some ''jsleq'', InCseg, Do_jump),
    (61, Some ''jsless'', InCseg, Do_jump),
    (51, Some ''jump'', InCseg, Do_jump),
    (128, Some ''jump.pri'', InCseg, Parm0),
    (53, Some ''jzer'', InCseg, Do_jump),
    (31, Some ''lctrl'', InCseg, Parm1),
    (98, Some ''leq'', InCseg, Parm0),
    (97, Some ''less'', InCseg, Parm0),
    (25, Some ''lidx'', InCseg, Parm0),
    (26, Some ''lidx.b'', InCseg, Parm1),
    (2, Some ''load.alt'', InCseg, Parm1),
    (9, Some ''load.i'', InCseg, Parm0),
    (1, Some ''load.pri'', InCseg, Parm1),
    (4, Some ''load.s.alt'', InCseg, Parm1),
    (3, Some ''load.s.pri'', InCseg, Parm1),
    (10, Some ''lodb.i'', InCseg, Parm1),
    (6, Some ''lref.alt'', InCseg, Parm1),
    (5, Some ''lref.pri'', InCseg, Parm1),
    (8, Some ''lref.s.alt'', InCseg, Parm1),
    (7, Some ''lref.s.pri'', InCseg, Parm1),
    (34, Some ''move.alt'', InCseg, Parm0),
    (33, Some ''move.pri'', InCseg, Parm0),
    (117, Some ''movs'', InCseg, Parm1),
    (85, Some ''neg'', InCseg, Parm0),
    (96, Some ''neq'', InCseg, Parm0),
    (134, Some ''nop'', InCseg, Parm0),
    (84, Some ''not'', InCseg, Parm0),
    (82, Some ''or'', InCseg, Parm0),
    (43, Some ''pop.alt'', InCseg, Parm0),
    (42, Some ''pop.pri'', InCseg, Parm0),
    (46, Some ''proc'', InCseg, Parm0),
    (40, Some ''push'', InCseg, Parm1),
    (37, Some ''push.alt'', InCseg, Parm0),
    (39, Some ''push.c'', InCseg, Parm1),
    (36, Some ''push.pri'', InCseg, Parm0),
    (38, Some ''push.r'', InCseg, Parm1),
    (41, Some ''push.s'', InCseg, Parm1),
    (133, Some ''pushaddr'', InCseg, Parm1),
    (47, Some ''ret'', InCseg, Parm0),
    (48, Some ''retn'', InCseg, Parm0),
    (32, Some ''sctrl'', InCseg, Parm1),
    (73, Some ''sdiv'', InCseg, Parm0),
    (74, Some ''sdiv.alt'', InCseg, Parm0),
    (104, Some ''sgeq'', InCseg, Parm0),
    (103, Some ''sgrtr'', InCseg, Parm0),
    (65, Some ''shl'', InCseg, Parm0),
    (69, Some ''shl.c.alt'', InCseg, Parm1),
    (68, Some ''shl.c.pri'', InCseg, Parm1),
    (66, Some ''shr'', InCseg, Parm0),
    (71, Some ''shr.c.alt'', InCseg, Parm1),
    (70, Some ''shr.c.pri'', InCseg, Parm1),
    (94, Some ''sign.alt'', InCseg, Parm0),
    (93, Some ''sign.pri'', InCseg, Parm0),
    (102, Some ''sleq'', InCseg, Parm0),
    (101, Some ''sless'', InCseg, Parm0),
    (72, Some ''smul'', InCseg, Parm0),
    (88, Some ''smul.c'', InCseg, Parm1),
    (20, Some ''sref.alt'', InCseg, Parm1),
    (19, Some ''sref.pri'', InCseg, Parm1),
    (22, Some ''sref.s.alt'', InCseg, Parm1),
    (21, Some ''sref.s.pri'', InCseg, Parm1),
    (67, Some ''sshr'', InCseg, Parm0),
    (44, Some ''stack'', InCseg, Parm1),
    (0, Some ''stksize'', SegNone, Noop),
    (16, Some ''stor.alt'', InCseg, Parm1),
    (23, Some ''stor.i'', InCseg, Parm0),
    (15, Some ''stor.pri'', InCseg, Parm1),
    (18, Some ''stor.s.alt'', InCseg, Parm1),
    (17, Some ''stor.s.pri'', InCseg, Parm1),
    (24, Some ''strb.i'', InCseg, Parm1),
    (79, Some ''sub'', InCseg, Parm0),
    (80, Some ''sub.alt'', InCseg, Parm0),
    (132, Some ''swap.alt'', InCseg, Parm0),
    (131, Some ''swap.pri'', InCseg, Parm0),
    (129, Some ''switch'', InCseg, Do_switch),
    (123, Some ''sysreq.c'', InCseg, Parm1),
    (135, Some ''sysreq.d'', InCseg, Parm1),
    (122, Some ''sysreq.pri'', InCseg, Parm0),
    (76, Some ''udiv'', InCseg, Parm0),
    (77, Some ''udiv.alt'', InCseg, Parm0),
    (75, Some ''umul'', InCseg, Parm0),
    (35, Some ''xchg'', InCseg, Parm0),
    (83, Some ''xor'', InCseg, Parm0),
    (91, Some ''zero'', InCseg, Parm1),
    (90, Some ''zero.alt'', InCseg, Parm0),
    (89, Some ''zero.pri'', InCseg, Parm0),
    (92, Some ''zero.s'', InCseg, Parm1)]"

definition MAX_INSTR_LEN :: nat where "MAX_INSTR_LEN = 30"

text \<open>The binary search; a null name is a failed assertion.\<close>

function findopcode_search :: "string \<Rightarrow> nat \<Rightarrow> nat \<Rightarrow> nat res" where
  "findopcode_search str low high =
     (if low < high then
        let mid = (low + high) div 2 in
        case op_name (opcodelist ! mid) of
          None \<Rightarrow> Inl AssertFailed
        | Some name \<Rightarrow>
            if stricmp str name > 0 then findopcode_search str (mid + 1) high
            else findopcode_search str low mid
      else assertR (low = high) (Inr low))"
  by pat_completeness auto

termination by (relation "measure (\<lambda>(str, low, high). high - low)") auto

declare findopcode_search.simps [simp del]

definition findopcode :: "string \<Rightarrow> nat \<Rightarrow> nat res" where
  "findopcode instr maxlen =
     (if maxlen \<ge> MAX_INSTR_LEN then Inr 0
      else let str = take maxlen instr in
        bindR (findopcode_search str 1 (length opcodelist - 1)) (\<lambda>low.
          case op_name (opcodelist ! low) of
            None \<Rightarrow> Inl NullDeref
          | Some name \<Rightarrow> Inr (if stricmp str name = 0 then low else 0)))"

section \<open>The search finds every instruction\<close>

text \<open>The names of the table in the order of the search, without the reserved entry.\<close>

definition opcode_key :: "nat \<Rightarrow> cname" where
  "opcode_key i = CName (map tolower (case op_name (opcodelist ! i) of None \<Rightarrow> [] | Some n \<Rightarrow> n))"

fun ascending :: "cname list \<Rightarrow> bool" where
  "ascending (a # b # xs) \<longleftrightarrow> strcmp (chars a) (chars b) < 0 \<and> ascending (b # xs)"
| "ascending _ \<longleftrightarrow> True"

lemma ascending_sorted: "ascending xs \<Longrightarrow> sorted_wrt (<) xs"
proof (induction xs rule: ascending.induct)
  case (1 a b xs)
  then have s: "sorted_wrt (<) (b # xs)" by simp
  have ab: "a < b" using "1.prems" by (simp add: less_cname_def)
  with s have "\<forall>y\<in>set xs. a < y" by (auto intro: less_trans)
  with s ab show ?case by simp
qed auto

lemma opcode_names: "list_all (\<lambda>e. op_name e \<noteq> None) (tl opcodelist) \<and> length opcodelist = 138"
  by code_simp

lemma opcode_keys_ascending:
  "ascending (map (\<lambda>e. CName (map tolower (case op_name e of None \<Rightarrow> [] | Some n \<Rightarrow> n))) (tl opcodelist))"
  by code_simp

lemma opcode_key_less: "1 \<le> i \<Longrightarrow> i < j \<Longrightarrow> j < 138 \<Longrightarrow> opcode_key i < opcode_key j"
proof -
  assume ij: "1 \<le> i" "i < j" "j < 138"
  let ?ks = "map (\<lambda>e. CName (map tolower (case op_name e of None \<Rightarrow> [] | Some n \<Rightarrow> n))) (tl opcodelist)"
  have len: "length opcodelist = 138" using opcode_names by simp
  have k: "opcode_key m = ?ks ! (m - 1)" if m: "1 \<le> m" "m < 138" for m
  proof -
    obtain m' where "m = Suc m'" using m by (cases m) auto
    then show ?thesis using m len by (simp add: opcode_key_def nth_tl)
  qed
  have "?ks ! (i - 1) < ?ks ! (j - 1)"
    using ij len by (intro sorted_wrt_nth_less [OF ascending_sorted [OF opcode_keys_ascending]]) auto
  then show ?thesis using k ij by simp
qed

lemma opcode_name_Some: "1 \<le> i \<Longrightarrow> i < 138 \<Longrightarrow> \<exists>n. op_name (opcodelist ! i) = Some n"
proof -
  assume i: "1 \<le> i" "i < 138"
  have "tl opcodelist ! (i - 1) \<in> set (tl opcodelist)"
    using opcode_names i by (intro nth_mem) simp
  then have "op_name (tl opcodelist ! (i - 1)) \<noteq> None" using opcode_names by (auto simp: list_all_iff)
  moreover have "tl opcodelist ! (i - 1) = opcodelist ! i" using i opcode_names by (simp add: nth_tl)
  ultimately show ?thesis by auto
qed

lemma stricmp_key: "op_name (opcodelist ! i) = Some n \<Longrightarrow>
    (stricmp s n > 0 \<longleftrightarrow> opcode_key i < CName (map tolower s))
    \<and> (stricmp s n = 0 \<longleftrightarrow> opcode_key i = CName (map tolower s))"
  using strcmp_anti [of "map tolower s" "map tolower n"]
  by (auto simp: opcode_key_def stricmp_def less_cname_def)

text \<open>The search ends at the first entry that is not smaller than the name.\<close>

lemma findopcode_search_spec:
  "low \<le> high \<Longrightarrow> 1 \<le> low \<Longrightarrow> high < 138 \<Longrightarrow>
    (\<forall>i. 1 \<le> i \<and> i < low \<longrightarrow> opcode_key i < CName (map tolower str)) \<Longrightarrow>
    (\<forall>i. high < i \<and> i < 138 \<longrightarrow> \<not> opcode_key i < CName (map tolower str) \<and> opcode_key i \<noteq> CName (map tolower str)) \<Longrightarrow>
    \<exists>r. findopcode_search str low high = Inr r \<and> 1 \<le> r \<and> r < 138
      \<and> (\<forall>i. 1 \<le> i \<and> i < 138 \<and> opcode_key i = CName (map tolower str) \<longrightarrow> i = r)"
proof (induction str low high rule: findopcode_search.induct)
  case (1 str low high)
  let ?k = "CName (map tolower str)"
  show ?case
  proof (cases "low < high")
    case False
    then have "low = high" using "1.prems"(1) by simp
    have u: "\<forall>i. 1 \<le> i \<and> i < 138 \<and> opcode_key i = ?k \<longrightarrow> i = low"
    proof (intro allI impI)
      fix i assume i: "1 \<le> i \<and> i < 138 \<and> opcode_key i = ?k"
      have "\<not> i < low" using "1.prems"(4) i by (metis less_irrefl)
      moreover have "\<not> high < i" using "1.prems"(5) i by blast
      ultimately show "i = low" using \<open>low = high\<close> by simp
    qed
    have fs: "findopcode_search str low high = Inr low"
      using \<open>low = high\<close> by (subst findopcode_search.simps) simp
    have "1 \<le> low" "low < 138" using "1.prems"(1-3) by simp_all
    then show ?thesis using fs u by blast
  next
    case True
    define mid where "mid = (low + high) div 2"
    have m: "low \<le> mid" "mid < high" using True by (auto simp: mid_def)
    obtain n where n: "op_name (opcodelist ! mid) = Some n"
      using opcode_name_Some [of mid] m "1.prems" by auto
    show ?thesis
    proof (cases "stricmp str n > 0")
      case True': True
      then have lt: "opcode_key mid < ?k" using stricmp_key [OF n] by blast
      have "opcode_key i < ?k" if "1 \<le> i" "i < mid + 1" for i
        using that lt opcode_key_less [of i mid] m "1.prems"(3) by (cases "i = mid") auto
      then have "\<exists>r. findopcode_search str (mid + 1) high = Inr r \<and> 1 \<le> r \<and> r < 138
          \<and> (\<forall>i. 1 \<le> i \<and> i < 138 \<and> opcode_key i = ?k \<longrightarrow> i = r)"
        using True True' n mid_def m "1.prems" by (intro "1.IH"(1)) auto
      then show ?thesis using True True' n by (subst findopcode_search.simps) (simp add: mid_def Let_def)
    next
      case False
      then have ge: "\<not> opcode_key mid < ?k" using stricmp_key [OF n] by blast
      have "\<not> opcode_key i < ?k \<and> opcode_key i \<noteq> ?k" if "mid < i" "i < 138" for i
        using that ge opcode_key_less [of mid i] m "1.prems"(2) by (metis le_trans less_trans)
      then have "\<exists>r. findopcode_search str low mid = Inr r \<and> 1 \<le> r \<and> r < 138
          \<and> (\<forall>i. 1 \<le> i \<and> i < 138 \<and> opcode_key i = ?k \<longrightarrow> i = r)"
        using True False n mid_def m "1.prems" by (intro "1.IH"(2)) auto
      then show ?thesis using True False n by (subst findopcode_search.simps) (simp add: mid_def Let_def)
    qed
  qed
qed

text \<open>An entry of the table has the name, without regard to case.\<close>

definition op_matches :: "string \<Rightarrow> nat \<Rightarrow> bool" where
  "op_matches instr j \<longleftrightarrow> 1 \<le> j \<and> j < length opcodelist
     \<and> (case op_name (opcodelist ! j) of None \<Rightarrow> False | Some n \<Rightarrow> stricmp instr n = 0)"

lemma op_matches_key: "op_matches instr j \<longleftrightarrow> 1 \<le> j \<and> j < 138 \<and> opcode_key j = CName (map tolower instr)"
proof -
  have len: "length opcodelist = 138" using opcode_names by simp
  show ?thesis
  proof (cases "1 \<le> j \<and> j < 138")
    case True
    then obtain n where n: "op_name (opcodelist ! j) = Some n" using opcode_name_Some by blast
    then show ?thesis using stricmp_key [OF n, of instr] True len by (simp add: op_matches_def)
  qed (auto simp: op_matches_def len)
qed

text \<open>
  C28: The binary search for an instruction name never fails and never misses: a name of
  fewer than 30 characters gets the number of the one table entry that equals it without regard
  to case, and 0 when there is none.
\<close>

theorem findopcode_correct:
  assumes "length instr < MAX_INSTR_LEN"
  shows "\<exists>i. findopcode instr (length instr) = Inr i
    \<and> (if i = 0 then \<forall>j. \<not> op_matches instr j else \<forall>j. op_matches instr j \<longleftrightarrow> j = i)"
proof -
  have len: "length opcodelist = 138" using opcode_names by simp
  have "\<forall>i :: nat. 137 < i \<and> i < 138 \<longrightarrow> \<not> opcode_key i < CName (map tolower instr)
      \<and> opcode_key i \<noteq> CName (map tolower instr)" by auto
  then have "\<exists>r. findopcode_search instr 1 137 = Inr r \<and> 1 \<le> r \<and> r < 138
    \<and> (\<forall>i. 1 \<le> i \<and> i < 138 \<and> opcode_key i = CName (map tolower instr) \<longrightarrow> i = r)"
    by (intro findopcode_search_spec) auto
  then obtain r where r: "findopcode_search instr 1 137 = Inr r" "1 \<le> r" "r < 138"
    "\<And>j. op_matches instr j \<Longrightarrow> j = r"
    unfolding op_matches_key by blast
  obtain n where n: "op_name (opcodelist ! r) = Some n" using opcode_name_Some r by blast
  have f: "findopcode instr (length instr) = Inr (if stricmp instr n = 0 then r else 0)"
    using assms r(1) n len by (simp add: findopcode_def)
  have m: "op_matches instr r \<longleftrightarrow> stricmp instr n = 0" using r(2,3) n len by (simp add: op_matches_def)
  show ?thesis
  proof (cases "stricmp instr n = 0")
    case True
    then have "findopcode instr (length instr) = Inr r" using f by simp
    moreover have "\<forall>j. op_matches instr j \<longleftrightarrow> j = r" using m True r(4) by blast
    ultimately have "findopcode instr (length instr) = Inr r" "\<forall>j. op_matches instr j \<longleftrightarrow> j = r"
      by blast+
    then show ?thesis using r(2) by (intro exI [of _ r]) simp
  next
    case False
    then have "findopcode instr (length instr) = Inr 0" using f by simp
    moreover have "\<forall>j. \<not> op_matches instr j" using m False r(4) by blast
    ultimately have "findopcode instr (length instr) = Inr 0" "\<forall>j. \<not> op_matches instr j"
      by blast+
    then show ?thesis by (intro exI [of _ 0]) simp
  qed
qed

lemma findopcode_correct_witness:
  "\<exists>i. findopcode ''Push.PRI'' 8 = Inr i \<and> (i = 0 \<longrightarrow> \<not> op_matches ''Push.PRI'' 83)"
proof -
  have "length ''Push.PRI'' < MAX_INSTR_LEN" by (simp add: MAX_INSTR_LEN_def)
  moreover have "length ''Push.PRI'' = 8" by simp
  ultimately show ?thesis using findopcode_correct [of "''Push.PRI''"] by metis
qed

end
