(* ===== verification/Asm.thy ===== *)
theory Asm
  imports Symhash Opcodes Binfile Memfile
begin

text \<open>
  The assembler of the compiler (\<open>amx/compiler/libpc300/sc6.c\<close>): the handler of
  each kind of instruction and the passes over the assembler
  file that place the labels and write the code and data sections.

  A line is what \<open>pc_readasm\<close> returns: at most 255 characters up to a line feed.  A handler
  gets no file in the pass that only counts.
\<close>

section \<open>Lines\<close>

definition skipwhitespace :: "string \<Rightarrow> string" where
  "skipwhitespace str = dropWhile isspace str"

text \<open>The comment is cut off; the line keeps a line feed.\<close>

definition stripcomment :: "string \<Rightarrow> string" where
  "stripcomment str = (case strchr str (CHR '';'') of None \<Rightarrow> str | Some p \<Rightarrow> take p str @ [LF])"

section \<open>Handlers\<close>

text \<open>
  What a handler reads: the number of labels, the label table, and the lookup of a global
  function by name (\<open>findglb\<close>).
\<close>

record asmenv =
  sc_labnum :: int
  lbltab :: "cell list option"
  glb :: "string \<Rightarrow> symbol option"

definition write_opt :: "asmout option \<Rightarrow> cell list \<Rightarrow> asmout option res" where
  "write_opt out cs =
     (case out of None \<Rightarrow> Inr None | Some st \<Rightarrow> bindR (write_encoded st cs) (\<lambda>st'. Inr (Some st')))"

text \<open>The number of a label, and its address when the code is written.\<close>

definition label_index :: "asmenv \<Rightarrow> string \<Rightarrow> int res" where
  "label_index env s =
     bindR (hex2long s) (\<lambda>(v, _). let i = sint v in assertR (0 \<le> i \<and> i < sc_labnum env) (Inr i))"

definition label_addr :: "asmenv \<Rightarrow> asmout option \<Rightarrow> int \<Rightarrow> cell res" where
  "label_addr env out i =
     (case out of
        None \<Rightarrow> Inr 0
      | Some _ \<Rightarrow> (case lbltab env of
          None \<Rightarrow> Inl AssertFailed
        | Some l \<Rightarrow> if nat i < length l then Inr (l ! nat i) else Inl OutOfBounds))"

definition parm0 :: "asmout option \<Rightarrow> string \<Rightarrow> cell \<Rightarrow> (cell \<times> asmout option) res" where
  "parm0 out params opcode = bindR (write_opt out [opcode]) (\<lambda>o1. Inr (4, o1))"

definition parm1 :: "asmout option \<Rightarrow> string \<Rightarrow> cell \<Rightarrow> (cell \<times> asmout option) res" where
  "parm1 out params opcode =
     bindR (getparam params) (\<lambda>(p, _).
     bindR (write_opt out [opcode]) (\<lambda>o1.
     bindR (write_opt o1 [p]) (\<lambda>o2. Inr (8, o2))))"

definition do_call :: "asmenv \<Rightarrow> asmout option \<Rightarrow> string \<Rightarrow> cell \<Rightarrow> (cell \<times> asmout option) res" where
  "do_call env out params opcode =
     (let name = takeWhile (\<lambda>c. \<not> isspace c) params in
      assertR (length name < length params) (assertR (length name \<le> 63)
        (bindR (if char_at name 0 = CHR ''l'' \<and> char_at name 1 = CHR ''.'' then
                  bindR (label_index env (drop 2 name)) (label_addr env out)
                else (case glb env name of
                    None \<Rightarrow> Inl AssertFailed
                  | Some sy \<Rightarrow>
                      assertR (sym_ident sy = iFUNCTN \<or> sym_ident sy = iREFFUNC)
                        (assertR (sym_vclass sy = sGLOBAL) (Inr (sym_addr sy))))) (\<lambda>p.
         bindR (write_opt out [opcode]) (\<lambda>o1.
         bindR (write_opt o1 [p]) (\<lambda>o2. Inr (8, o2)))))))"

definition do_jump :: "asmenv \<Rightarrow> asmout option \<Rightarrow> string \<Rightarrow> cell \<Rightarrow> (cell \<times> asmout option) res" where
  "do_jump env out params opcode =
     bindR (label_index env params) (\<lambda>i.
     bindR (label_addr env out i) (\<lambda>p.
     bindR (write_opt out [opcode]) (\<lambda>o1.
     bindR (write_opt o1 [p]) (\<lambda>o2. Inr (8, o2)))))"

definition do_switch :: "asmenv \<Rightarrow> asmout option \<Rightarrow> string \<Rightarrow> cell \<Rightarrow> (cell \<times> asmout option) res" where
  "do_switch env out params opcode =
     bindR (label_index env params) (\<lambda>i.
     bindR (label_addr env out i) (\<lambda>p.
     bindR (write_opt out [opcode]) (\<lambda>o1.
     bindR (write_opt o1 [p]) (\<lambda>o2. Inr (8, o2)))))"

definition do_case :: "asmenv \<Rightarrow> asmout option \<Rightarrow> string \<Rightarrow> cell \<Rightarrow> (cell \<times> asmout option) res" where
  "do_case env out params opcode =
     bindR (hex2long params) (\<lambda>(v, rest).
     bindR (label_index env rest) (\<lambda>i.
     bindR (label_addr env out i) (\<lambda>p.
     bindR (write_opt out [v]) (\<lambda>o1.
     bindR (write_opt o1 [p]) (\<lambda>o2. Inr (8, o2))))))"

text \<open>The numbers of a \<open>dump\<close> line; every number has a digit, so the rest gets shorter.\<close>

lemma hex2long_loop_less: "s \<noteq> [] \<Longrightarrow> hex_val (hd s) \<noteq> None \<Longrightarrow> length (snd (hex2long_loop r s)) < length s"
  using hex2long_loop_length by (cases s) (auto simp: less_Suc_eq_le split: option.split)

lemma hex2long_less: "hex2long s = Inr (v, n) \<Longrightarrow> length n < length s"
proof -
  assume a: "hex2long s = Inr (v, n)"
  define s1 where "s1 = dropWhile blank s"
  define s2 where "s2 = (if char_at s1 0 = CHR ''-'' then tl s1 else s1)"
  have n: "n = snd (hex2long_loop 0 s2)" and h: "ishex (char_at s2 0)"
    using a by (auto simp: hex2long_def s1_def [symmetric] s2_def [symmetric] Let_def assertR_Inr_iff
        split: prod.splits)
  have "s2 \<noteq> []" using h by auto
  then have "hex_val (hd s2) \<noteq> None" using h unfolding hex_val_ishex by (cases s2) simp_all
  moreover have "length s2 \<le> length s"
    using length_dropWhile_le [of blank s] by (auto simp: s2_def s1_def)
  ultimately show ?thesis using hex2long_loop_less [OF \<open>s2 \<noteq> []\<close>, of 0] n by simp
qed

lemma getparam_loop_less: "getparam_loop r s = Inr (v, n) \<Longrightarrow> length n < length s"
proof (induction r s rule: getparam_loop.induct)
  case (1 r s)
  show ?case
  proof (cases "hex2long s")
    case (Inl e)
    then show ?thesis using "1.prems" by (simp add: getparam_loop.simps [of r s])
  next
    case (Inr x)
    obtain w m where x: "x = (w, m)" by (cases x)
    have m: "length m < length s" using hex2long_less Inr x by simp
    show ?thesis
    proof (cases "char_at m 0 = CHR ''+''")
      case True
      then have "length n < length (tl m)"
        using "1.IH" [OF Inr x [symmetric] True] "1.prems" Inr x by (simp add: getparam_loop.simps [of r s])
      then show ?thesis using m by simp
    next
      case False
      then show ?thesis using "1.prems" Inr x m by (simp add: getparam_loop.simps [of r s])
    qed
  qed
qed

lemma getparam_less: "getparam s = Inr (v, n) \<Longrightarrow> length n < length s"
  unfolding getparam_def by (rule getparam_loop_less)

function do_dump_loop :: "asmout option \<Rightarrow> nat \<Rightarrow> string \<Rightarrow> (nat \<times> asmout option) res" where
  "do_dump_loop out num params =
     (if params = [] then Inr (num, out)
      else (case getparam params of
          Inl e \<Rightarrow> Inl e
        | Inr (p, rest) \<Rightarrow>
            (case write_opt out [p] of
               Inl e \<Rightarrow> Inl e
             | Inr o1 \<Rightarrow> do_dump_loop o1 (num + 1) (dropWhile isspace rest))))"
  by pat_completeness auto

termination
proof (relation "measure (\<lambda>(out, num, params). length params)", goal_cases)
  case (2 out num params x p rest o1)
  then have "length rest < length params" using getparam_less [of params p rest] by simp
  then show ?case using length_dropWhile_le [of isspace rest] by simp
qed simp

declare do_dump_loop.simps [simp del]

definition do_dump :: "asmout option \<Rightarrow> string \<Rightarrow> cell \<Rightarrow> (cell \<times> asmout option) res" where
  "do_dump out params opcode =
     bindR (do_dump_loop out 0 params) (\<lambda>(num, o1). Inr (word_of_nat (num * 4), o1))"

definition run_op ::
  "asmenv \<Rightarrow> opcode_proc \<Rightarrow> asmout option \<Rightarrow> string \<Rightarrow> cell \<Rightarrow> (cell \<times> asmout option) res" where
  "run_op env f out params opcode =
     (case f of
        Noop \<Rightarrow> Inr (0, out)
      | Parm0 \<Rightarrow> parm0 out params opcode
      | Parm1 \<Rightarrow> parm1 out params opcode
      | Do_dump \<Rightarrow> do_dump out params opcode
      | Do_call \<Rightarrow> do_call env out params opcode
      | Do_jump \<Rightarrow> do_jump env out params opcode
      | Do_switch \<Rightarrow> do_switch env out params opcode
      | Do_case \<Rightarrow> do_case env out params opcode)"

section \<open>The passes\<close>

text \<open>A line is empty, a label, or an instruction with its parameters.\<close>

datatype asmline = EmptyLine | LabelLine string | InstrLine string string

definition parse_line :: "string \<Rightarrow> asmline" where
  "parse_line line =
     (let instr = skipwhitespace (stripcomment line) in
      if instr = [] then EmptyLine
      else if tolower (hd instr) = CHR ''l'' \<and> char_at instr 1 = CHR ''.'' then LabelLine (drop 2 instr)
      else InstrLine (takeWhile (\<lambda>c. \<not> isspace c) instr) (dropWhile (\<lambda>c. \<not> isspace c) instr))"

text \<open>The first pass: the state is the label table and the code index.\<close>

definition first_pass_line :: "asmenv \<Rightarrow> string \<Rightarrow> cell list \<times> cell \<Rightarrow> (cell list \<times> cell) res" where
  "first_pass_line env line st =
     (case parse_line line of
        EmptyLine \<Rightarrow> Inr st
      | LabelLine s \<Rightarrow>
          bindR (label_index env s) (\<lambda>i.
            if nat i < length (fst st) then Inr ((fst st)[nat i := snd st], snd st) else Inl OutOfBounds)
      | InstrLine instr params \<Rightarrow>
          bindR (findopcode instr (length instr)) (\<lambda>i.
            let e = opcodelist ! i in
            if op_name e = None then Inl (FatalError 104)
            else if op_segment e = InCseg then
              bindR (run_op env (op_func e) None (skipwhitespace params) (op_code e))
                (\<lambda>(n, _). Inr (fst st, snd st + n))
            else Inr st))"

fun first_pass :: "asmenv \<Rightarrow> string list \<Rightarrow> cell list \<times> cell \<Rightarrow> (cell list \<times> cell) res" where
  "first_pass env [] st = Inr st"
| "first_pass env (line # lines) st = bindR (first_pass_line env line st) (first_pass env lines)"

text \<open>The second pass over the file, once for the code and once for the data.\<close>

definition second_pass_line :: "asmenv \<Rightarrow> segment \<Rightarrow> string \<Rightarrow> asmout \<Rightarrow> asmout res" where
  "second_pass_line env pass line st =
     (case parse_line line of
        EmptyLine \<Rightarrow> Inr st
      | LabelLine s \<Rightarrow> Inr st
      | InstrLine instr params \<Rightarrow>
          bindR (findopcode instr (length instr)) (\<lambda>i.
            let e = opcodelist ! i in
            assertR (op_name e \<noteq> None)
              (if op_segment e = pass then
                 bindR (run_op env (op_func e) (Some st) (skipwhitespace params) (op_code e))
                   (\<lambda>(n, out). case out of None \<Rightarrow> Inr st | Some st' \<Rightarrow> Inr st')
               else Inr st)))"

fun second_pass :: "asmenv \<Rightarrow> segment \<Rightarrow> string list \<Rightarrow> asmout \<Rightarrow> asmout res" where
  "second_pass env pass [] st = Inr st"
| "second_pass env pass (line # lines) st =
     bindR (second_pass_line env pass line st) (second_pass env pass lines)"

section \<open>The cells an instruction stands for\<close>

text \<open>
  The contract of the handlers: the cells of an instruction, without a file.  The address of a
  label is 0 in the pass that only counts.
\<close>

definition label_cell :: "asmenv \<Rightarrow> bool \<Rightarrow> int \<Rightarrow> cell res" where
  "label_cell env writing i =
     (if \<not> writing then Inr 0
      else case lbltab env of
          None \<Rightarrow> Inl AssertFailed
        | Some l \<Rightarrow> if nat i < length l then Inr (l ! nat i) else Inl OutOfBounds)"

function dump_cells :: "string \<Rightarrow> cell list res" where
  "dump_cells params =
     (if params = [] then Inr []
      else (case getparam params of
          Inl e \<Rightarrow> Inl e
        | Inr (p, rest) \<Rightarrow> bindR (dump_cells (dropWhile isspace rest)) (\<lambda>ps. Inr (p # ps))))"
  by pat_completeness auto

termination
proof (relation "measure length", goal_cases)
  case (2 params x p rest)
  then have "length rest < length params" using getparam_less [of params p rest] by simp
  then show ?case using length_dropWhile_le [of isspace rest] by simp
qed simp

declare dump_cells.simps [simp del]

definition call_name :: "string \<Rightarrow> string" where
  "call_name params = takeWhile (\<lambda>c. \<not> isspace c) params"

fun op_cells :: "asmenv \<Rightarrow> bool \<Rightarrow> opcode_proc \<Rightarrow> string \<Rightarrow> cell \<Rightarrow> cell list res" where
  "op_cells env w Noop params opcode = Inr []"
| "op_cells env w Parm0 params opcode = Inr [opcode]"
| "op_cells env w Parm1 params opcode = bindR (getparam params) (\<lambda>(p, _). Inr [opcode, p])"
| "op_cells env w Do_dump params opcode = dump_cells params"
| "op_cells env w Do_call params opcode =
     (let name = call_name params in
      bindR (if char_at name 0 = CHR ''l'' \<and> char_at name 1 = CHR ''.'' then
               bindR (label_index env (drop 2 name)) (label_cell env w)
             else (case glb env name of None \<Rightarrow> Inl AssertFailed | Some sy \<Rightarrow> Inr (sym_addr sy)))
        (\<lambda>p. Inr [opcode, p]))"
| "op_cells env w Do_jump params opcode =
     bindR (label_index env params) (\<lambda>i. bindR (label_cell env w i) (\<lambda>p. Inr [opcode, p]))"
| "op_cells env w Do_switch params opcode =
     bindR (label_index env params) (\<lambda>i. bindR (label_cell env w i) (\<lambda>p. Inr [opcode, p]))"
| "op_cells env w Do_case params opcode =
     bindR (hex2long params) (\<lambda>(v, rest).
     bindR (label_index env rest) (\<lambda>i. bindR (label_cell env w i) (\<lambda>p. Inr [v, p])))"

lemma label_addr_cell: "label_addr env out = label_cell env (out \<noteq> None)"
  by (rule ext) (auto simp: label_addr_def label_cell_def split: option.split)

lemma op_cells_length:
  assumes "op_cells env False f params opcode = Inr cs" and "op_cells (env\<lparr>lbltab := t\<rparr>) True f params opcode = Inr cs'"
  shows "length cs = length cs'"
proof -
  have d: "label_index (env\<lparr>lbltab := t\<rparr>) s = label_index env s" for s by (simp add: label_index_def)
  show ?thesis using assms by (cases f) (auto simp: bindR_Inr_iff Let_def d)
qed

lemma write_encoded_append:
  "write_encoded st (a @ b) = bindR (write_encoded st a) (\<lambda>st'. write_encoded st' b)"
  by (induction a arbitrary: st) (auto simp: Let_def assertR_def)

lemma write_opt_None: "write_opt None cs = Inr out \<longleftrightarrow> out = None"
  by (auto simp: write_opt_def)

lemma write_opt_Some: "write_opt (Some st) cs = Inr out \<longleftrightarrow> (\<exists>st'. write_encoded st cs = Inr st' \<and> out = Some st')"
  by (auto simp: write_opt_def bindR_Inr_iff)

text \<open>Writing two lists one after the other is writing both.\<close>

lemma write_opt_append:
  "write_opt o1 a = Inr o2 \<Longrightarrow> write_opt o2 b = Inr o3 \<Longrightarrow> write_opt o1 (a @ b) = Inr o3"
  by (cases o1) (auto simp: write_opt_None write_opt_Some write_encoded_append bindR_Inr_iff)

lemmas write_opt_two = write_opt_append [of _ "[a]" _ "[b]" for a b, simplified]

lemma write_opt_option: "write_opt o1 a = Inr o2 \<Longrightarrow> (o2 = None) = (o1 = None)"
  by (cases o1) (auto simp: write_opt_None write_opt_Some)

lemma do_dump_cells:
  "do_dump_loop out num params = Inr (m, o1) \<Longrightarrow>
    \<exists>cs. dump_cells params = Inr cs \<and> m = num + length cs \<and> write_opt out cs = Inr o1"
proof (induction out num params rule: do_dump_loop.induct)
  case (1 out num params)
  show ?case
  proof (cases "params = []")
    case True
    then show ?thesis using "1.prems"
      by (cases out) (auto simp: do_dump_loop.simps [of _ num "[]"] dump_cells.simps [of "[]"] write_opt_def)
  next
    case False
    obtain p rest where g: "getparam params = Inr (p, rest)"
      using "1.prems" False by (cases "getparam params") (auto simp: do_dump_loop.simps [of out num params])
    obtain o' where w: "write_opt out [p] = Inr o'"
      using "1.prems" False g by (cases "write_opt out [p]") (auto simp: do_dump_loop.simps [of out num params])
    obtain cs where "dump_cells (dropWhile isspace rest) = Inr cs" "m = num + 1 + length cs" "write_opt o' cs = Inr o1"
      using "1.IH" [OF False g refl w] "1.prems" False g w by (auto simp: do_dump_loop.simps [of out num params])
    then show ?thesis
      using False g write_opt_append [OF w, of cs o1] by (simp add: dump_cells.simps [of params])
  qed
qed

text \<open>A handler that succeeds has written the cells of its instruction and reports their size.\<close>

lemma run_op_cells:
  assumes "run_op env f out params opcode = Inr (n, o1)"
  shows "\<exists>cs. op_cells env (out \<noteq> None) f params opcode = Inr cs
    \<and> n = word_of_nat (4 * length cs) \<and> write_opt out cs = Inr o1"
proof (cases f)
  case Noop
  then show ?thesis using assms by (cases out) (auto simp: run_op_def write_opt_def)
next
  case Do_dump
  then show ?thesis using assms do_dump_cells [of out 0 params]
    by (fastforce simp: run_op_def do_dump_def bindR_Inr_iff)
qed (use assms in \<open>auto simp: run_op_def parm0_def parm1_def do_call_def do_jump_def do_switch_def do_case_def
        bindR_Inr_iff assertR_Inr_iff call_name_def Let_def label_addr_cell
        intro: write_opt_two split: option.splits if_splits\<close>)

section \<open>The cells of a file\<close>

definition line_cells :: "asmenv \<Rightarrow> bool \<Rightarrow> segment \<Rightarrow> string \<Rightarrow> cell list res" where
  "line_cells env w pass line =
     (case parse_line line of
        InstrLine instr params \<Rightarrow>
          bindR (findopcode instr (length instr)) (\<lambda>i.
            if op_segment (opcodelist ! i) = pass
            then op_cells env w (op_func (opcodelist ! i)) (skipwhitespace params) (op_code (opcodelist ! i))
            else Inr [])
      | _ \<Rightarrow> Inr [])"

fun file_cells :: "asmenv \<Rightarrow> bool \<Rightarrow> segment \<Rightarrow> string list \<Rightarrow> cell list res" where
  "file_cells env w pass [] = Inr []"
| "file_cells env w pass (line # lines) =
     bindR (line_cells env w pass line) (\<lambda>a. bindR (file_cells env w pass lines) (\<lambda>b. Inr (a @ b)))"

lemma file_cells_append:
  "file_cells env w pass (xs @ ys) =
     bindR (file_cells env w pass xs) (\<lambda>a. bindR (file_cells env w pass ys) (\<lambda>b. Inr (a @ b)))"
proof (induction xs)
  case Nil
  then show ?case by (cases "file_cells env w pass ys") simp_all
next
  case (Cons x xs)
  then show ?case
    by (cases "line_cells env w pass x"; cases "file_cells env w pass xs"; cases "file_cells env w pass ys") simp_all
qed

lemma line_cells_length:
  assumes "line_cells env False pass line = Inr cs" and "line_cells (env\<lparr>lbltab := t\<rparr>) True pass line = Inr cs'"
  shows "length cs = length cs'"
  using assms op_cells_length [of env _ _ _ cs t cs']
  by (auto simp: line_cells_def bindR_Inr_iff split: asmline.splits if_splits)

lemma file_cells_length:
  "file_cells env False pass lines = Inr cs \<Longrightarrow> file_cells (env\<lparr>lbltab := t\<rparr>) True pass lines = Inr cs' \<Longrightarrow>
    length cs = length cs'"
proof (induction lines arbitrary: cs cs')
  case (Cons l lines)
  obtain a b a' b' where "line_cells env False pass l = Inr a" "file_cells env False pass lines = Inr b" "cs = a @ b"
      "line_cells (env\<lparr>lbltab := t\<rparr>) True pass l = Inr a'"
      "file_cells (env\<lparr>lbltab := t\<rparr>) True pass lines = Inr b'" "cs' = a' @ b'"
    using Cons.prems by (auto simp: bindR_Inr_iff)
  then show ?case using Cons.IH [of b b'] line_cells_length [of env pass l a t a'] by simp
qed simp

lemma second_pass_line_cells:
  assumes "second_pass_line env pass line st = Inr st'"
  shows "\<exists>cs. line_cells env True pass line = Inr cs \<and> write_encoded st cs = Inr st'"
proof (cases "parse_line line")
  case (InstrLine instr params)
  then obtain i where i: "findopcode instr (length instr) = Inr i"
    using assms by (auto simp: second_pass_line_def bindR_Inr_iff)
  show ?thesis
  proof (cases "op_segment (opcodelist ! i) = pass")
    case True
    then obtain n out where r: "run_op env (op_func (opcodelist ! i)) (Some st) (skipwhitespace params) (op_code (opcodelist ! i)) = Inr (n, out)"
      and o: "st' = (case out of None \<Rightarrow> st | Some st' \<Rightarrow> st')"
      using assms InstrLine i unfolding second_pass_line_def
      by (auto simp: bindR_Inr_iff assertR_Inr_iff Let_def split: prod.splits) (auto split: option.splits)
    obtain cs where c: "op_cells env True (op_func (opcodelist ! i)) (skipwhitespace params) (op_code (opcodelist ! i)) = Inr cs"
      "write_opt (Some st) cs = Inr out" using run_op_cells [OF r] by auto
    then have "write_encoded st cs = Inr st'" using o by (auto simp: write_opt_Some)
    then show ?thesis using c(1) InstrLine i True by (simp add: line_cells_def)
  next
    case False
    then show ?thesis using assms InstrLine i
      by (auto simp: second_pass_line_def line_cells_def bindR_Inr_iff assertR_Inr_iff Let_def)
  qed
qed (use assms in \<open>auto simp: second_pass_line_def line_cells_def\<close>)

lemma second_pass_cells:
  "second_pass env pass lines st = Inr st' \<Longrightarrow>
    \<exists>cs. file_cells env True pass lines = Inr cs \<and> write_encoded st cs = Inr st'"
proof (induction lines arbitrary: st)
  case (Cons l lines)
  obtain s1 where s1: "second_pass_line env pass l st = Inr s1" "second_pass env pass lines s1 = Inr st'"
    using Cons.prems by (auto simp: bindR_Inr_iff)
  obtain a where "line_cells env True pass l = Inr a" "write_encoded st a = Inr s1"
    using second_pass_line_cells [OF s1(1)] by blast
  moreover obtain b where "file_cells env True pass lines = Inr b" "write_encoded s1 b = Inr st'"
    using Cons.IH [OF s1(2)] by blast
  ultimately show ?case by (simp add: write_encoded_append)
qed simp

lemma first_pass_line_cells:
  assumes "first_pass_line env line (tab, n) = Inr (tab', n')"
  shows "\<exists>cs. line_cells env False InCseg line = Inr cs \<and> n' = n + word_of_nat (4 * length cs)
    \<and> (case parse_line line of
         LabelLine s \<Rightarrow> (\<exists>i. label_index env s = Inr i \<and> nat i < length tab \<and> tab' = tab[nat i := n])
       | _ \<Rightarrow> tab' = tab)"
proof (cases "parse_line line")
  case (InstrLine instr params)
  then obtain i where i: "findopcode instr (length instr) = Inr i"
    using assms by (auto simp: first_pass_line_def bindR_Inr_iff)
  have nm: "op_name (opcodelist ! i) \<noteq> None" using assms InstrLine i by (auto simp: first_pass_line_def Let_def split: if_splits)
  show ?thesis
  proof (cases "op_segment (opcodelist ! i) = InCseg")
    case True
    then obtain m out where r: "run_op env (op_func (opcodelist ! i)) None (skipwhitespace params) (op_code (opcodelist ! i)) = Inr (m, out)"
      and o: "tab' = tab" "n' = n + m"
      using assms InstrLine i nm by (auto simp: first_pass_line_def bindR_Inr_iff Let_def)
    show ?thesis using run_op_cells [OF r] o InstrLine i True by (auto simp: line_cells_def)
  next
    case False
    then show ?thesis using assms InstrLine i nm
      by (auto simp: first_pass_line_def line_cells_def Let_def)
  qed
qed (use assms in \<open>auto simp: first_pass_line_def line_cells_def bindR_Inr_iff split: if_splits\<close>)

lemma first_pass_cells:
  "first_pass env lines (tab, n) = Inr (tab', n') \<Longrightarrow>
    length tab' = length tab \<and>
    (\<exists>cs. file_cells env False InCseg lines = Inr cs \<and> n' = n + word_of_nat (4 * length cs))"
proof (induction lines arbitrary: tab n)
  case (Cons l lines)
  obtain t1 n1 where s: "first_pass_line env l (tab, n) = Inr (t1, n1)" "first_pass env lines (t1, n1) = Inr (tab', n')"
    using Cons.prems by (auto simp: bindR_Inr_iff)
  obtain a where "line_cells env False InCseg l = Inr a" "n1 = n + word_of_nat (4 * length a)" "length t1 = length tab"
    using first_pass_line_cells [OF s(1)] by (auto split: asmline.splits)
  moreover obtain b where "file_cells env False InCseg lines = Inr b" "n' = n1 + word_of_nat (4 * length b)"
    "length tab' = length t1" using Cons.IH [OF s(2)] by blast
  ultimately show ?case by (simp add: algebra_simps)
qed simp

section \<open>The bytes of a section\<close>

definition code_bytes :: "bool \<Rightarrow> cell list \<Rightarrow> byte list" where
  "code_bytes compress cs = concat (map (if compress then encode_cell else cell_le) cs)"

definition at_end :: "asmout \<Rightarrow> bool" where
  "at_end st \<longleftrightarrow> bin_pos (fbin st) = length (bin_data (fbin st))"

lemma put_codes_mono: "writeerror s \<Longrightarrow> writeerror (put_codes s bs)"
  by (induction bs arbitrary: s) (auto simp: put_out_def split: prod.splits)

lemma put_out_ok:
  assumes "\<not> writeerror (put_out st bs)" "at_end st"
  shows "bin_data (fbin (put_out st bs)) = bin_data (fbin st) @ bs" "at_end (put_out st bs)"
    "sc_compress (put_out st bs) = sc_compress st" "\<not> writeerror st"
proof -
  have "fst (pc_writebin (fbin st) bs)" using assms(1) by (auto simp: put_out_def split: prod.splits)
  then have "length bs \<le> bin_room (fbin st) - bin_pos (fbin st)"
    by (auto simp: pc_writebin_def Let_def min_def split: if_splits)
  then have "bs = [] \<or> bin_pos (fbin st) + length bs \<le> bin_room (fbin st)"
    by (cases bs) simp_all
  then have w: "pc_writebin (fbin st) bs = (True, (fbin st)\<lparr>bin_data := bin_data (fbin st) @ bs,
      bin_pos := bin_pos (fbin st) + length bs\<rparr>)"
  proof
    assume "bs = []"
    then show ?thesis using assms(2) by (cases "fbin st") (simp add: at_end_def pc_writebin_def Let_def)
  next
    assume "bin_pos (fbin st) + length bs \<le> bin_room (fbin st)"
    then show ?thesis using assms(2) pc_writebin_append [of "fbin st" bs] by (simp add: at_end_def)
  qed
  show "bin_data (fbin (put_out st bs)) = bin_data (fbin st) @ bs" "at_end (put_out st bs)"
    "sc_compress (put_out st bs) = sc_compress st" "\<not> writeerror st"
    using assms by (auto simp: put_out_def w at_end_def)
qed

lemma put_codes_ok:
  "\<not> writeerror (put_codes st bs) \<Longrightarrow> at_end st \<Longrightarrow>
    bin_data (fbin (put_codes st bs)) = bin_data (fbin st) @ bs \<and> at_end (put_codes st bs)
    \<and> sc_compress (put_codes st bs) = sc_compress st \<and> \<not> writeerror st"
proof (induction bs arbitrary: st)
  case (Cons b bs)
  let ?s = "(put_out st [b])\<lparr>bytes_out := bytes_out st + 1\<rparr>"
  have p: "\<not> writeerror (put_out st [b])" using Cons.prems(1) put_codes_mono [of ?s] by auto
  note o = put_out_ok [OF p Cons.prems(2)]
  then show ?case using Cons.IH [of ?s] Cons.prems by (simp add: at_end_def)
qed simp

lemma write_encoded_mono: "write_encoded s xs = Inr s' \<Longrightarrow> writeerror s \<Longrightarrow> writeerror s'"
proof (induction s xs rule: write_encoded.induct)
  case (2 s c cs)
  then show ?case using put_codes_mono [of s "encode_cell c"]
    by (auto simp: Let_def assertR_Inr_iff put_out_def split: if_splits prod.splits)
qed auto

lemma write_encoded_bytes:
  "write_encoded st cs = Inr st' \<Longrightarrow> \<not> writeerror st' \<Longrightarrow> at_end st \<Longrightarrow>
    bin_data (fbin st') = bin_data (fbin st) @ code_bytes (sc_compress st) cs \<and> at_end st'
    \<and> sc_compress st' = sc_compress st \<and> \<not> writeerror st"
proof (induction st cs rule: write_encoded.induct)
  case (2 st c cs)
  show ?case
  proof (cases "sc_compress st")
    case True
    let ?s1 = "put_codes st (encode_cell c)"
    let ?s2 = "?s1\<lparr>bytes_in := bytes_in ?s1 + 4\<rparr>"
    have w: "write_encoded ?s2 cs = Inr st'" and b: "\<not> (bytes_out ?s2 - bytes_in ?s2 \<ge> AMX_COMPACTMARGIN - 2)"
      using "2.prems"(1) True by (auto simp: Let_def split: if_splits)
    have ne: "\<not> writeerror ?s1" using write_encoded_mono [OF w] "2.prems"(2) by auto
    note p = put_codes_ok [OF ne "2.prems"(3)]
    have "bin_data (fbin st') = bin_data (fbin ?s2) @ code_bytes (sc_compress ?s2) cs \<and> at_end st'
      \<and> sc_compress st' = sc_compress ?s2 \<and> \<not> writeerror ?s2"
      using p w "2.prems"(2) b by (intro "2.IH"(1) [OF True refl refl]) (simp_all add: at_end_def)
    then show ?thesis using p True by (simp add: code_bytes_def)
  next
    case False
    have w: "write_encoded (put_out st (cell_le c)) cs = Inr st'"
      using "2.prems"(1) False by (auto simp: assertR_Inr_iff)
    have ne: "\<not> writeerror (put_out st (cell_le c))" using write_encoded_mono [OF w] "2.prems"(2) by blast
    note p = put_out_ok [OF ne "2.prems"(3)]
    have "bin_data (fbin st') = bin_data (fbin (put_out st (cell_le c))) @ code_bytes (sc_compress (put_out st (cell_le c))) cs
      \<and> at_end st' \<and> sc_compress st' = sc_compress (put_out st (cell_le c)) \<and> \<not> writeerror (put_out st (cell_le c))"
      using w "2.prems"(2) p by (intro "2.IH"(2) [OF False]) simp_all
    then show ?thesis using p False by (simp add: code_bytes_def)
  qed
qed (simp add: code_bytes_def)

lemma length_code_bytes: "length (code_bytes False cs) = 4 * length cs"
  by (induction cs) (auto simp: code_bytes_def)

lemma decode_code_bytes: "decode_code (code_bytes True cs) = Inr cs"
  by (simp add: code_bytes_def decode_code_def decode_loop_encoded)

lemma expand_code_bytes:
  assumes "write_encoded st cs = Inr st'" "sc_compress st" "bytes_out st = bytes_in st"
    "take (length (code_bytes True cs)) m = code_bytes True cs" "4 * length cs \<le> length m"
  shows "expand m (length (code_bytes True cs)) (4 * int (length cs)) = Inr (code_bytes False cs @ drop (4 * length cs) m)"
  using expand_in_place [OF written_within_margin [OF assms(1-3)] assms(5)] assms(4) by (simp add: code_bytes_def)

section \<open>The label table\<close>

text \<open>The number of the label a line defines.\<close>

definition defines_label :: "asmenv \<Rightarrow> string \<Rightarrow> int \<Rightarrow> bool" where
  "defines_label env line i \<longleftrightarrow>
     (case parse_line line of LabelLine s \<Rightarrow> label_index env s = Inr i | _ \<Rightarrow> False)"

lemma label_index_range: "label_index env s = Inr i \<Longrightarrow> 0 \<le> i \<and> i < sc_labnum env"
  by (auto simp: label_index_def bindR_Inr_iff assertR_Inr_iff Let_def split: prod.splits)

lemma first_pass_append:
  "first_pass env (xs @ ys) st = bindR (first_pass env xs st) (first_pass env ys)"
  by (induction xs arbitrary: st) (auto simp: bindR_def split: sum.splits)

lemma second_pass_append:
  "second_pass env pass (xs @ ys) st = bindR (second_pass env pass xs st) (second_pass env pass ys)"
  by (induction xs arbitrary: st) (auto simp: bindR_def split: sum.splits)

lemma first_pass_keeps:
  "first_pass env lines (tab, n) = Inr (tab', n') \<Longrightarrow> \<forall>l\<in>set lines. \<not> defines_label env l i \<Longrightarrow> 0 \<le> i \<Longrightarrow>
    tab' ! nat i = tab ! nat i"
proof (induction lines arbitrary: tab n)
  case (Cons l lines)
  obtain t1 n1 where s: "first_pass_line env l (tab, n) = Inr (t1, n1)" "first_pass env lines (t1, n1) = Inr (tab', n')"
    using Cons.prems(1) by (auto simp: bindR_Inr_iff)
  have "t1 ! nat i = tab ! nat i"
  proof (cases "parse_line l")
    case (LabelLine s)
    then obtain j where j: "label_index env s = Inr j" "t1 = tab[nat j := n]"
      using first_pass_line_cells [OF s(1)] by auto
    then have "j \<noteq> i" using Cons.prems(2) LabelLine by (auto simp: defines_label_def)
    then show ?thesis using j label_index_range [OF j(1)] Cons.prems(3) by (simp add: nth_list_update nat_eq_iff)
  qed (use first_pass_line_cells [OF s(1)] in auto)
  then show ?case using Cons.IH [OF s(2)] Cons.prems(2,3) by simp
qed simp

lemma first_pass_sets:
  assumes "first_pass env (pre @ l # post) (tab, 0) = Inr (tab', n')" "defines_label env l i"
    "\<forall>l\<in>set post. \<not> defines_label env l i"
  shows "\<exists>cs. file_cells env False InCseg pre = Inr cs \<and> tab' ! nat i = word_of_nat (4 * length cs)"
proof -
  obtain t1 n1 where p: "first_pass env pre (tab, 0) = Inr (t1, n1)" and r: "first_pass env (l # post) (t1, n1) = Inr (tab', n')"
    using assms(1) by (auto simp: first_pass_append bindR_Inr_iff)
  obtain t2 n2 where l: "first_pass_line env l (t1, n1) = Inr (t2, n2)" and q: "first_pass env post (t2, n2) = Inr (tab', n')"
    using r by (auto simp: bindR_Inr_iff)
  obtain cs where cs: "file_cells env False InCseg pre = Inr cs" "n1 = word_of_nat (4 * length cs)"
    using first_pass_cells [OF p] by auto
  obtain s where s: "parse_line l = LabelLine s" "label_index env s = Inr i"
    using assms(2) by (auto simp: defines_label_def split: asmline.splits)
  then have "t2 = t1[nat i := n1]" "nat i < length t1" using first_pass_line_cells [OF l] by auto
  then have "tab' ! nat i = n1"
    using first_pass_keeps [OF q assms(3)] label_index_range [OF s(2)] by simp
  then show ?thesis using cs by simp
qed

text \<open>
  C13: The two passes agree.  When both succeed and no write failed, the code section is the
  bytes of a list of cells (the compact form stands for these cells, and if the passes started without
  a surplus, the loader expands it in place to their plain form), the first pass
  ends at four times their number, and every label has in the table the byte offset of the cells
  of the lines before its last definition, compact output or not.
\<close>

theorem label_placement:
  assumes "first_pass env lines (tab, 0) = Inr (tab', n)"
    and "second_pass (env\<lparr>lbltab := Some tab'\<rparr>) InCseg lines st = Inr st'"
    and "at_end st" "\<not> writeerror st'"
  shows "\<exists>cells. bin_data (fbin st') = bin_data (fbin st) @ code_bytes (sc_compress st) cells
    \<and> decode_code (code_bytes True cells) = Inr cells
    \<and> (sc_compress st \<longrightarrow> bytes_out st = bytes_in st \<longrightarrow>
        (\<forall>m. take (length (code_bytes True cells)) m = code_bytes True cells \<longrightarrow> 4 * length cells \<le> length m \<longrightarrow>
          expand m (length (code_bytes True cells)) (4 * int (length cells)) = Inr (code_bytes False cells @ drop (4 * length cells) m)))
    \<and> n = word_of_nat (4 * length cells)
    \<and> (\<forall>pre l post i. lines = pre @ l # post \<longrightarrow> defines_label env l i
         \<longrightarrow> (\<forall>l\<in>set post. \<not> defines_label env l i)
         \<longrightarrow> (\<exists>before st1. second_pass (env\<lparr>lbltab := Some tab'\<rparr>) InCseg pre st = Inr st1
              \<and> bin_data (fbin st1) = bin_data (fbin st) @ code_bytes (sc_compress st) before
              \<and> take (length before) cells = before
              \<and> tab' ! nat i = word_of_nat (4 * length before)))"
proof -
  let ?env = "env\<lparr>lbltab := Some tab'\<rparr>"
  obtain cells where c: "file_cells ?env True InCseg lines = Inr cells" and w: "write_encoded st cells = Inr st'"
    using second_pass_cells [OF assms(2)] by blast
  obtain cs where cs: "file_cells env False InCseg lines = Inr cs" "n = word_of_nat (4 * length cs)"
    using first_pass_cells [OF assms(1)] by auto
  have len: "length cs = length cells" using file_cells_length [OF cs(1) c] .
  have "\<exists>before st1. second_pass ?env InCseg pre st = Inr st1
      \<and> bin_data (fbin st1) = bin_data (fbin st) @ code_bytes (sc_compress st) before
      \<and> take (length before) cells = before \<and> tab' ! nat i = word_of_nat (4 * length before)"
    if sp: "lines = pre @ l # post" and d: "defines_label env l i" "\<forall>l\<in>set post. \<not> defines_label env l i"
    for pre l post i
  proof -
    obtain st1 where st1: "second_pass ?env InCseg pre st = Inr st1"
      using assms(2) unfolding sp second_pass_append by (auto simp: bindR_Inr_iff)
    obtain before where b: "file_cells ?env True InCseg pre = Inr before" and wb: "write_encoded st before = Inr st1"
      using second_pass_cells [OF st1] by blast
    obtain rest where r: "cells = before @ rest"
      using c b unfolding sp file_cells_append by (auto simp: bindR_Inr_iff)
    have "write_encoded st1 rest = Inr st'" using w wb unfolding r write_encoded_append by simp
    then have "\<not> writeerror st1" using assms(4) write_encoded_mono by blast
    then have "bin_data (fbin st1) = bin_data (fbin st) @ code_bytes (sc_compress st) before"
      using write_encoded_bytes [OF wb _ assms(3)] by blast
    moreover obtain cs1 where "file_cells env False InCseg pre = Inr cs1" "tab' ! nat i = word_of_nat (4 * length cs1)"
      using first_pass_sets [OF assms(1) [unfolded sp] d] by blast
    moreover have "length cs1 = length before" using file_cells_length [OF _ b] calculation(2) by blast
    ultimately show ?thesis using st1 r by auto
  qed
  then show ?thesis
    using write_encoded_bytes [OF w assms(4,3)] cs(2) len decode_code_bytes [of cells] expand_code_bytes [OF w]
    by (intro exI [of _ cells] conjI; (blast | simp only: refl))
qed

text \<open>A jump over one instruction to label 0, at offset 12.\<close>

definition small_env :: asmenv where
  "small_env = \<lparr>sc_labnum = 1, lbltab = None, glb = (\<lambda>_. None)\<rparr>"

definition small_lines :: "string list" where
  "small_lines = [[CHR 0x09] @ ''jump 0'' @ [LF], [CHR 0x09] @ ''nop'' @ [LF], ''l.0'' @ [LF], [CHR 0x09] @ ''zero.pri'' @ [LF]]"

definition small_out :: asmout where
  "small_out = \<lparr>fbin = \<lparr>bin_data = [], bin_pos = 0, bin_room = 100\<rparr>, sc_compress = False, writeerror = False,
     bytes_in = 0, bytes_out = 0\<rparr>"

lemma label_placement_witness:
  "\<exists>cells st'. second_pass (small_env\<lparr>lbltab := Some [12]\<rparr>) InCseg small_lines small_out = Inr st'
    \<and> bin_data (fbin st') = code_bytes False cells \<and> (16 :: cell) = word_of_nat (4 * length cells)
    \<and> (\<exists>before. take (length before) cells = before \<and> (12 :: cell) = word_of_nat (4 * length before))"
proof -
  let ?second = "second_pass (small_env\<lparr>lbltab := Some [12]\<rparr>) InCseg small_lines small_out"
  have f: "first_pass small_env small_lines ([0], 0) = Inr ([12], 16)" by code_simp
  have "case ?second of Inl e \<Rightarrow> False | Inr st' \<Rightarrow> \<not> writeerror st'" by code_simp
  then obtain st' where s: "?second = Inr st'" "\<not> writeerror st'" by (auto split: sum.splits)
  have a: "at_end small_out" by (simp add: at_end_def small_out_def)
  have d: "defines_label small_env (small_lines ! 2) 0" "\<not> defines_label small_env (small_lines ! 3) 0"
    by code_simp+
  have l: "small_lines = take 2 small_lines @ small_lines ! 2 # [small_lines ! 3]"
    by (simp add: small_lines_def)
  have "bin_data (fbin small_out) = []" "\<not> sc_compress small_out" by (simp_all add: small_out_def)
  then show ?thesis using label_placement [OF f s(1) a s(2)] s(1) l d by fastforce
qed

end
