(* ===== verification/Codesize.thy ===== *)
theory Codesize
  imports Asm
begin

text \<open>
  The size of assembler text: what the first pass of the assembler counts for each line, from
  the names of the instructions alone.  This is the contract between the code generator
  (\<open>sc4.c\<close>), the peephole optimizer (\<open>sc7.c\<close>) and the assembler (\<open>sc6.c\<close>): the generator
  keeps the size of the code in \<open>code_idx\<close> while it writes text.
\<close>

definition proc_cells :: "opcode_proc \<Rightarrow> nat" where
  "proc_cells f = (case f of Noop \<Rightarrow> 0 | Do_dump \<Rightarrow> 0 | Parm0 \<Rightarrow> 1 | _ \<Rightarrow> 2)"

text \<open>The size of an instruction by its number in the table, in bytes.\<close>

definition opcode_size :: "nat \<Rightarrow> nat option" where
  "opcode_size i =
     (if op_name (opcodelist ! i) = None then None
      else if op_segment (opcodelist ! i) = InCseg then Some (4 * proc_cells (op_func (opcodelist ! i)))
      else Some 0)"

definition instr_size :: "string \<Rightarrow> nat option" where
  "instr_size instr = (case findopcode instr (length instr) of Inl _ \<Rightarrow> None | Inr i \<Rightarrow> opcode_size i)"

text \<open>No size for a line with an unknown instruction.\<close>

definition line_size :: "string \<Rightarrow> nat option" where
  "line_size l = (case parse_line l of EmptyLine \<Rightarrow> Some 0 | LabelLine _ \<Rightarrow> Some 0 | InstrLine instr _ \<Rightarrow> instr_size instr)"

section \<open>The size is what the assembler counts\<close>

lemma code_ops_no_dump: "\<forall>e\<in>set opcodelist. op_segment e = InCseg \<longrightarrow> op_func e \<noteq> Do_dump"
  by code_simp

lemma findopcode_search_in:
  "\<exists>r. findopcode_search instr 1 137 = Inr r \<and> 1 \<le> r \<and> r < 138"
proof -
  have "\<forall>i :: nat. 137 < i \<and> i < 138 \<longrightarrow> \<not> opcode_key i < CName (map tolower instr)
      \<and> opcode_key i \<noteq> CName (map tolower instr)" by auto
  then have "\<exists>r. findopcode_search instr 1 137 = Inr r \<and> 1 \<le> r \<and> r < 138
    \<and> (\<forall>i. 1 \<le> i \<and> i < 138 \<and> opcode_key i = CName (map tolower instr) \<longrightarrow> i = r)"
    by (intro findopcode_search_spec) auto
  then show ?thesis by blast
qed

lemma findopcode_in: "findopcode instr n = Inr i \<Longrightarrow> i < length opcodelist"
proof -
  assume a: "findopcode instr n = Inr i"
  have len: "length opcodelist = 138" using opcode_names by simp
  obtain r where r: "findopcode_search (take n instr) 1 137 = Inr r" "r < 138"
    using findopcode_search_in by blast
  show ?thesis using a r len by (auto simp: findopcode_def split: if_splits option.splits)
qed

lemma op_cells_size:
  "op_cells env w f params opcode = Inr cs \<Longrightarrow> f \<noteq> Do_dump \<Longrightarrow> length cs = proc_cells f"
  by (cases f) (auto simp: proc_cells_def bindR_Inr_iff Let_def)

lemma line_cells_size:
  assumes "line_cells env w InCseg l = Inr cs" "line_size l \<noteq> None"
  shows "line_size l = Some (4 * length cs)"
proof (cases "parse_line l")
  case (InstrLine instr params)
  then obtain i where i: "findopcode instr (length instr) = Inr i"
    using assms(1) by (auto simp: line_cells_def bindR_Inr_iff)
  have "op_segment (opcodelist ! i) = InCseg \<Longrightarrow> op_func (opcodelist ! i) \<noteq> Do_dump"
    using code_ops_no_dump findopcode_in [OF i] nth_mem by blast
  then show ?thesis
    using assms InstrLine i op_cells_size [of env w "op_func (opcodelist ! i)"]
    by (auto simp: line_cells_def line_size_def instr_size_def opcode_size_def split: if_splits)
qed (use assms in \<open>auto simp: line_cells_def line_size_def\<close>)

text \<open>The name of an instruction is read without regard to case.\<close>

lemma findopcode_search_case:
  "map tolower a = map tolower b \<Longrightarrow> findopcode_search a low high = findopcode_search b low high"
proof (induction a low high rule: findopcode_search.induct)
  case (1 a low high)
  have s: "stricmp a n = stricmp b n" for n using "1.prems" by (simp add: stricmp_def)
  let ?m = "(low + high) div 2"
  show ?case
  proof (cases "low < high")
    case True
    show ?thesis
    proof (cases "op_name (opcodelist ! ?m)")
      case None
      then show ?thesis using True by (simp add: findopcode_search.simps [of a] findopcode_search.simps [of b] Let_def)
    next
      case (Some n)
      then show ?thesis
        using True s "1.IH"(1) [OF True refl Some _ "1.prems"] "1.IH"(2) [OF True refl Some _ "1.prems"]
        by (simp add: findopcode_search.simps [of a low] findopcode_search.simps [of b low] Let_def)
    qed
  next
    case False
    then show ?thesis by (simp add: findopcode_search.simps [of a] findopcode_search.simps [of b])
  qed
qed

lemma instr_size_case: "map tolower a = map tolower b \<Longrightarrow> instr_size a = instr_size b"
proof -
  assume e: "map tolower a = map tolower b"
  then have l: "length a = length b" by (metis length_map)
  have "stricmp a = stricmp b" using e by (intro ext) (simp add: stricmp_def)
  then have "findopcode a (length a) = findopcode b (length b)"
    using findopcode_search_case [OF e, of 1 "length opcodelist - 1"] l by (simp add: findopcode_def cong: option.case_cong)
  then show ?thesis by (simp add: instr_size_def)
qed

section \<open>Sizes of lines and texts\<close>

text \<open>An instruction after white space, up to a space, a comment or the end of the line.\<close>

definition plain_name :: "string \<Rightarrow> bool" where
  "plain_name nm \<longleftrightarrow> nm \<noteq> [] \<and> (\<forall>c\<in>set nm. \<not> isspace c \<and> c \<noteq> CHR '';'')
     \<and> \<not> (tolower (hd nm) = CHR ''l'' \<and> char_at nm 1 = CHR ''.'')"

lemma stripcomment_cut: "CHR '';'' \<notin> set a \<Longrightarrow>
    stripcomment (a @ b) = (case strchr b (CHR '';'') of None \<Rightarrow> a @ b | Some p \<Rightarrow> a @ take p b @ [LF])"
proof -
  assume a: "CHR '';'' \<notin> set a"
  then have "strchr (a @ b) (CHR '';'') = map_option (\<lambda>p. length a + p) (strchr b (CHR '';''))"
    by (induction a) (cases "strchr b (CHR '';'')"; auto)+
  then show ?thesis by (simp add: stripcomment_def split: option.split)
qed

lemma space_not_comment [simp]: "isspace (CHR '';'') = False" "isspace LF" "isspace (CHR '' '')" "isspace TAB"
  by (code_simp, code_simp, code_simp, code_simp)

lemma line_size_instr:
  assumes "\<forall>c\<in>set ws. isspace c" "plain_name nm"
    and "rest = [] \<or> isspace (hd rest) \<or> hd rest = CHR '';''"
  shows "line_size (ws @ nm @ rest) = instr_size nm"
proof -
  obtain r where s: "stripcomment (ws @ nm @ rest) = ws @ nm @ r" and r: "r = [] \<or> isspace (hd r)"
  proof -
    have "CHR '';'' \<notin> set ws" using assms(1) space_not_comment(1) by blast
    moreover have "CHR '';'' \<notin> set nm" using assms(2) unfolding plain_name_def by blast
    ultimately have n: "CHR '';'' \<notin> set (ws @ nm)" by simp
    show ?thesis
    proof (cases "strchr rest (CHR '';'')")
      case None
      then have "rest = [] \<or> isspace (hd rest)"
        using assms(3) by (cases rest) (auto simp: strchr_None)
      then show ?thesis using that [of rest] stripcomment_cut [OF n, of rest] None by simp
    next
      case (Some p)
      have "isspace (hd (take p rest @ [LF]))"
        using assms(3) Some by (cases rest; cases p) (auto split: if_splits)
      then show ?thesis using that [of "take p rest @ [LF]"] stripcomment_cut [OF n, of rest] Some by simp
    qed
  qed
  have nm: "nm \<noteq> []" "\<not> isspace (hd nm)" "\<forall>c\<in>set nm. \<not> isspace c"
    using assms(2) by (auto simp: plain_name_def)
  have w: "skipwhitespace (ws @ nm @ r) = nm @ r"
    using assms(1) nm(1,2) by (cases nm) (simp_all add: skipwhitespace_def)
  have t: "takeWhile (\<lambda>c. \<not> isspace c) (nm @ r) = nm"
    using nm(3) r by (cases r) (simp_all add: takeWhile_append2)
  have lab: "\<not> (tolower (hd (nm @ r)) = CHR ''l'' \<and> char_at (nm @ r) 1 = CHR ''.'')"
  proof (cases "length nm = 1")
    case True
    then obtain c where "nm = [c]" by (cases nm) auto
    moreover have "char_at r 0 \<noteq> CHR ''.''" using r by (cases r) (auto simp: isspace_def)
    ultimately show ?thesis by simp
  next
    case False
    then obtain c d xs where "nm = c # d # xs" using nm(1) by (cases nm; cases "tl nm") auto
    then show ?thesis using assms(2) by (simp add: plain_name_def)
  qed
  show ?thesis using nm(1) lab t by (auto simp: line_size_def parse_line_def s w Let_def)
qed

lemma line_size_comment:
  assumes "\<forall>c\<in>set ws. isspace c"
  shows "line_size (ws @ CHR '';'' # rest) = Some 0" "line_size ws = Some 0"
proof -
  have n: "CHR '';'' \<notin> set ws" using assms space_not_comment(1) by blast
  have "skipwhitespace (ws @ [LF]) = []" "skipwhitespace ws = []"
    using assms by (auto simp: skipwhitespace_def dropWhile_append2)
  then show "line_size (ws @ CHR '';'' # rest) = Some 0" "line_size ws = Some 0"
    using stripcomment_cut [OF n, of "CHR '';'' # rest"] stripcomment_cut [OF n, of "[]"]
    by (simp_all add: line_size_def parse_line_def)
qed

section \<open>Sizes of texts\<close>

definition add_size :: "nat option \<Rightarrow> nat option \<Rightarrow> nat option" where
  "add_size a b = (case a of None \<Rightarrow> None | Some x \<Rightarrow> (case b of None \<Rightarrow> None | Some y \<Rightarrow> Some (x + y)))"

lemma add_size_simps [simp]:
  "add_size (Some x) (Some y) = Some (x + y)" "add_size None b = None" "add_size a None = None"
  "add_size a (Some 0) = a" "add_size (Some 0) a = a"
  by (auto simp: add_size_def split: option.split)

lemma add_size_assoc [simp]: "add_size (add_size a b) c = add_size a (add_size b c)"
  by (auto simp: add_size_def split: option.split)

lemma add_size_commute: "add_size a b = add_size b a"
  by (auto simp: add_size_def split: option.split)

lemma add_size_left_commute: "add_size a (add_size b c) = add_size b (add_size a c)"
  by (auto simp: add_size_def split: option.split)

lemma add_size_Some: "add_size a b = Some n \<longleftrightarrow> (\<exists>x y. a = Some x \<and> b = Some y \<and> n = x + y)"
  by (auto simp: add_size_def split: option.split)

text \<open>The pieces of a text that a separator ends; the last piece may lack it.\<close>

function pieces :: "char \<Rightarrow> string \<Rightarrow> string list" where
  "pieces sep t = (if t = [] then [] else takeWhile (\<lambda>c. c \<noteq> sep) t # pieces sep (tl (dropWhile (\<lambda>c. c \<noteq> sep) t)))"
  by pat_completeness auto

termination
proof (relation "measure (\<lambda>(sep, t). length t)", goal_cases)
  case (2 sep t)
  then show ?case using length_dropWhile_le [of "\<lambda>c. c \<noteq> sep" t] by (cases t) (auto simp: less_Suc_eq_le)
qed simp

declare pieces.simps [simp del]

lemma pieces_Nil [simp]: "pieces sep [] = []"
  by (simp add: pieces.simps)

lemma dropWhile_stop: "sep \<notin> set l \<Longrightarrow> dropWhile (\<lambda>c. c \<noteq> sep) (l @ sep # r) = sep # r"
  by (induction l) auto

lemma pieces_line: "sep \<notin> set l \<Longrightarrow> pieces sep (l @ sep # r) = l # pieces sep r"
  by (subst pieces.simps) (simp add: dropWhile_stop)

lemma pieces_last: "sep \<notin> set l \<Longrightarrow> l \<noteq> [] \<Longrightarrow> pieces sep l = [l]"
proof -
  assume a: "sep \<notin> set l" "l \<noteq> []"
  have "\<forall>x\<in>set l. x \<noteq> sep" using a(1) by blast
  then have tw: "takeWhile (\<lambda>c. c \<noteq> sep) l = l" and dw: "dropWhile (\<lambda>c. c \<noteq> sep) l = []"
    by (simp_all add: takeWhile_eq_all_conv dropWhile_eq_Nil_conv)
  show ?thesis using a(2) by (subst pieces.simps) (simp only: tw dw if_False list.sel(2) pieces_Nil simp_thms)
qed

text \<open>A text is complete when its last piece is ended.\<close>

definition complete :: "char \<Rightarrow> string \<Rightarrow> bool" where
  "complete sep t \<longleftrightarrow> t = [] \<or> last t = sep"

lemma complete_simps [simp]:
  "complete sep []" "complete sep (t @ [sep])" "complete sep b \<Longrightarrow> complete sep (a @ sep # b)"
  "complete sep a \<Longrightarrow> complete sep b \<Longrightarrow> complete sep (a @ b)"
  by (auto simp: complete_def last_append)

lemma complete_induct [consumes 1, case_names Nil Line]:
  assumes "complete sep t" "P []" "\<And>l r. sep \<notin> set l \<Longrightarrow> complete sep r \<Longrightarrow> P r \<Longrightarrow> P (l @ sep # r)"
  shows "P t"
  using assms(1)
proof (induction t rule: length_induct)
  case (1 t)
  show ?case
  proof (cases "t = []")
    case True
    then show ?thesis using assms(2) by simp
  next
    case False
    let ?l = "takeWhile (\<lambda>c. c \<noteq> sep) t" and ?d = "dropWhile (\<lambda>c. c \<noteq> sep) t"
    have "sep \<in> set t" using "1.prems" False by (auto simp: complete_def)
    then have d: "?d \<noteq> []" by (auto simp: dropWhile_eq_Nil_conv)
    then have d2: "hd ?d = sep" using hd_dropWhile [of "\<lambda>c. c \<noteq> sep" t] by blast
    have t: "t = ?l @ sep # tl ?d" using d d2 by (metis list.collapse takeWhile_dropWhile_id)
    have c: "complete sep (tl ?d)"
    proof (cases "tl ?d = []")
      case False
      then have "last t = last (tl ?d)" by (subst t) simp
      then show ?thesis using "1.prems" \<open>t \<noteq> []\<close> False by (simp add: complete_def)
    qed simp
    have "length ?d > 0" using d by simp
    then have "length (tl ?d) < length t" using length_dropWhile_le [of "\<lambda>c. c \<noteq> sep" t]
      by (metis diff_less length_tl less_le_trans zero_less_one)
    have "sep \<notin> set ?l" by (auto dest: set_takeWhileD)
    moreover have "P (tl ?d)" using "1.IH" c \<open>length (tl ?d) < length t\<close> by blast
    ultimately have "P (?l @ sep # tl ?d)" using c by (intro assms(3)) simp_all
    then show ?thesis using t by simp
  qed
qed

lemma pieces_append: "complete sep a \<Longrightarrow> pieces sep (a @ b) = pieces sep a @ pieces sep b"
  by (induction a rule: complete_induct) (simp_all add: pieces_line)

text \<open>The size of a list of lines, of a text, and of a sequence of C strings that are texts.\<close>

fun lines_size :: "string list \<Rightarrow> nat option" where
  "lines_size [] = Some 0"
| "lines_size (l # ls) = add_size (line_size l) (lines_size ls)"

definition text_size :: "string \<Rightarrow> nat option" where
  "text_size t = lines_size (pieces LF t)"

fun texts_size :: "string list \<Rightarrow> nat option" where
  "texts_size [] = Some 0"
| "texts_size (t # ts) = add_size (text_size t) (texts_size ts)"

definition strings_size :: "string \<Rightarrow> nat option" where
  "strings_size b = texts_size (pieces NUL b)"

lemma lines_size_append [simp]: "lines_size (a @ b) = add_size (lines_size a) (lines_size b)"
  by (induction a) simp_all

lemma texts_size_append [simp]: "texts_size (a @ b) = add_size (texts_size a) (texts_size b)"
  by (induction a) simp_all

lemma text_size_simps [simp]:
  "text_size [] = Some 0"
  "LF \<notin> set l \<Longrightarrow> text_size (l @ LF # r) = add_size (line_size l) (text_size r)"
  "complete LF a \<Longrightarrow> text_size (a @ b) = add_size (text_size a) (text_size b)"
  by (simp_all add: text_size_def pieces_line pieces_append)

lemma strings_size_simps [simp]:
  "strings_size [] = Some 0"
  "NUL \<notin> set l \<Longrightarrow> strings_size (l @ NUL # r) = add_size (text_size l) (strings_size r)"
  "complete NUL a \<Longrightarrow> strings_size (a @ b) = add_size (strings_size a) (strings_size b)"
  by (simp_all add: strings_size_def pieces_line pieces_append)

section \<open>Files\<close>

lemma takeWhile_stop': "\<not> P c \<Longrightarrow> takeWhile P (l @ c # r) = takeWhile P l"
  by (induction l) auto

lemma dropWhile_stop': "\<not> P c \<Longrightarrow> dropWhile P (l @ c # r) = dropWhile P l @ c # r"
  by (induction l) auto

text \<open>The line feed at the end of a line does not count.\<close>

lemma line_size_LF: "line_size (l @ [LF]) = line_size l"
proof -
  have sw: "skipwhitespace (s @ [LF]) = (if skipwhitespace s = [] then [] else skipwhitespace s @ [LF])" for s
    by (simp add: skipwhitespace_def dropWhile_eq_Nil_conv dropWhile_append3 dropWhile_append)
  show ?thesis
  proof (cases "strchr l (CHR '';'')")
    case (Some p)
    then have "p < length l" using strchr_Some by blast
    moreover have "strchr (l @ [LF]) (CHR '';'') = Some p" using Some
      by (induction l arbitrary: p) (auto split: if_splits)
    ultimately have "stripcomment (l @ [LF]) = stripcomment l" using Some by (simp add: stripcomment_def)
    then show ?thesis by (simp add: line_size_def parse_line_def)
  next
    case None
    then have n: "CHR '';'' \<notin> set l" by (simp add: strchr_None)
    then have st: "stripcomment (l @ [LF]) = l @ [LF]" "stripcomment l = l"
      using stripcomment_cut [OF n, of "[LF]"] stripcomment_cut [OF n, of "[]"] by simp_all
    let ?i = "skipwhitespace l"
    show ?thesis
    proof (cases "?i = []")
      case True
      then show ?thesis by (simp add: line_size_def parse_line_def st sw Let_def)
    next
      case False
      have c: "char_at (?i @ [LF]) 1 = CHR ''.'' \<longleftrightarrow> char_at ?i 1 = CHR ''.''"
        using False by (cases ?i; cases "tl ?i") auto
      have t: "takeWhile (\<lambda>c. \<not> isspace c) (?i @ [LF]) = takeWhile (\<lambda>c. \<not> isspace c) ?i"
        by (rule takeWhile_stop') simp
      show ?thesis using False c t by (auto simp: line_size_def parse_line_def st sw Let_def)
    qed
  qed
qed

lemma lines_size_LF [simp]: "lines_size (map (\<lambda>l. l @ [LF]) ls) = lines_size ls"
  by (induction ls) (simp_all add: line_size_LF)

lemma file_cells_size:
  "file_cells env w InCseg lines = Inr cs \<Longrightarrow> lines_size lines = Some n \<Longrightarrow> n = 4 * length cs"
proof (induction lines arbitrary: cs n)
  case (Cons l lines)
  obtain a b where a: "line_cells env w InCseg l = Inr a" "file_cells env w InCseg lines = Inr b" "cs = a @ b"
    using Cons.prems(1) by (auto simp: bindR_Inr_iff)
  obtain x y where "line_size l = Some x" "lines_size lines = Some y" "n = x + y"
    using Cons.prems(2) by (auto simp: add_size_Some)
  then show ?case using Cons.IH [OF a(2)] line_cells_size [OF a(1)] a(3) by simp
qed simp

section \<open>The sizes of all instructions\<close>

lemma named_instr_size:
  assumes "1 \<le> i" "i < 138" "op_name (opcodelist ! i) = Some nm" "length nm < MAX_INSTR_LEN"
  shows "instr_size nm = opcode_size i"
proof -
  have "\<forall>i :: nat. 137 < i \<and> i < 138 \<longrightarrow> \<not> opcode_key i < CName (map tolower nm)
      \<and> opcode_key i \<noteq> CName (map tolower nm)" by auto
  then have "\<exists>r. findopcode_search nm 1 137 = Inr r \<and> 1 \<le> r \<and> r < 138
    \<and> (\<forall>i. 1 \<le> i \<and> i < 138 \<and> opcode_key i = CName (map tolower nm) \<longrightarrow> i = r)"
    by (intro findopcode_search_spec) auto
  then obtain r where r: "findopcode_search nm 1 137 = Inr r"
      "1 \<le> i \<and> i < 138 \<and> opcode_key i = CName (map tolower nm) \<longrightarrow> i = r" by blast
  have "opcode_key i = CName (map tolower nm)" using assms(3) by (simp add: opcode_key_def)
  then have "r = i" using r(2) assms(1,2) by blast
  moreover have "length opcodelist = 138" using opcode_names by simp
  moreover have "stricmp nm nm = 0" by (simp add: stricmp_def)
  ultimately have "findopcode nm (length nm) = Inr i" using r(1) assms(3,4) by (simp add: findopcode_def)
  then show ?thesis by (simp add: instr_size_def)
qed

definition entry_size :: "opcode \<Rightarrow> nat" where
  "entry_size e = (if op_segment e = InCseg then 4 * proc_cells (op_func e) else 0)"

lemma short_names: "list_all (\<lambda>e. case op_name e of None \<Rightarrow> True | Some n \<Rightarrow> length n < 30) opcodelist"
  by code_simp

lemma all_instr_sizes: "list_all (\<lambda>e. case op_name e of None \<Rightarrow> True | Some n \<Rightarrow> instr_size n = Some (entry_size e)) (tl opcodelist)"
proof -
  have len: "length opcodelist = 138" using opcode_names by simp
  have e: "case op_name (opcodelist ! i) of None \<Rightarrow> True | Some n \<Rightarrow> instr_size n = Some (entry_size (opcodelist ! i))"
    if i: "1 \<le> i" "i < 138" for i
  proof -
    obtain n where n: "op_name (opcodelist ! i) = Some n" using opcode_name_Some i by blast
    have "opcodelist ! i \<in> set opcodelist" using i len by simp
    then have "length n < MAX_INSTR_LEN" using short_names n by (auto simp: list_all_iff MAX_INSTR_LEN_def)
    then show ?thesis using named_instr_size [OF i n] n by (simp add: opcode_size_def entry_size_def)
  qed
  show ?thesis unfolding list_all_length
  proof (intro allI impI)
    fix k assume k: "k < length (tl opcodelist)"
    then have t: "tl opcodelist ! k = opcodelist ! Suc k" by (simp add: nth_tl)
    show "case op_name (tl opcodelist ! k) of None \<Rightarrow> True
        | Some n \<Rightarrow> instr_size n = Some (entry_size (tl opcodelist ! k))"
      unfolding t using e [of "Suc k"] k len by simp
  qed
qed

text \<open>The same as equations, one for each instruction, by which sizes are evaluated.\<close>

definition name_size :: "string \<Rightarrow> nat option" where
  "name_size = instr_size"

lemma loadi_unknown: "instr_size ''loadi'' = None"
  by code_simp

lemmas instr_size_facts =
  all_instr_sizes [unfolded opcodelist_def list.sel(3) list.pred_inject op_name_def entry_size_def
    op_segment_def op_func_def proc_cells_def fst_conv snd_conv, simplified]

lemma name_size_eqs [code]:
  "name_size ''loadi'' = None"
  "name_size ''add'' = Some 4"
  "name_size ''add.c'' = Some 8"
  "name_size ''addr.alt'' = Some 8"
  "name_size ''addr.pri'' = Some 8"
  "name_size ''align.alt'' = Some 8"
  "name_size ''align.pri'' = Some 8"
  "name_size ''and'' = Some 4"
  "name_size ''bounds'' = Some 8"
  "name_size ''break'' = Some 4"
  "name_size ''call'' = Some 8"
  "name_size ''call.pri'' = Some 4"
  "name_size ''case'' = Some 8"
  "name_size ''casetbl'' = Some 4"
  "name_size ''cmps'' = Some 8"
  "name_size ''code'' = Some 0"
  "name_size ''const.alt'' = Some 8"
  "name_size ''const.pri'' = Some 8"
  "name_size ''data'' = Some 0"
  "name_size ''dec'' = Some 8"
  "name_size ''dec.alt'' = Some 4"
  "name_size ''dec.i'' = Some 4"
  "name_size ''dec.pri'' = Some 4"
  "name_size ''dec.s'' = Some 8"
  "name_size ''dump'' = Some 0"
  "name_size ''eq'' = Some 4"
  "name_size ''eq.c.alt'' = Some 8"
  "name_size ''eq.c.pri'' = Some 8"
  "name_size ''fill'' = Some 8"
  "name_size ''geq'' = Some 4"
  "name_size ''grtr'' = Some 4"
  "name_size ''halt'' = Some 8"
  "name_size ''heap'' = Some 8"
  "name_size ''idxaddr'' = Some 4"
  "name_size ''idxaddr.b'' = Some 8"
  "name_size ''inc'' = Some 8"
  "name_size ''inc.alt'' = Some 4"
  "name_size ''inc.i'' = Some 4"
  "name_size ''inc.pri'' = Some 4"
  "name_size ''inc.s'' = Some 8"
  "name_size ''invert'' = Some 4"
  "name_size ''jeq'' = Some 8"
  "name_size ''jgeq'' = Some 8"
  "name_size ''jgrtr'' = Some 8"
  "name_size ''jleq'' = Some 8"
  "name_size ''jless'' = Some 8"
  "name_size ''jneq'' = Some 8"
  "name_size ''jnz'' = Some 8"
  "name_size ''jrel'' = Some 8"
  "name_size ''jsgeq'' = Some 8"
  "name_size ''jsgrtr'' = Some 8"
  "name_size ''jsleq'' = Some 8"
  "name_size ''jsless'' = Some 8"
  "name_size ''jump'' = Some 8"
  "name_size ''jump.pri'' = Some 4"
  "name_size ''jzer'' = Some 8"
  "name_size ''lctrl'' = Some 8"
  "name_size ''leq'' = Some 4"
  "name_size ''less'' = Some 4"
  "name_size ''lidx'' = Some 4"
  "name_size ''lidx.b'' = Some 8"
  "name_size ''load.alt'' = Some 8"
  "name_size ''load.i'' = Some 4"
  "name_size ''load.pri'' = Some 8"
  "name_size ''load.s.alt'' = Some 8"
  "name_size ''load.s.pri'' = Some 8"
  "name_size ''lodb.i'' = Some 8"
  "name_size ''lref.alt'' = Some 8"
  "name_size ''lref.pri'' = Some 8"
  "name_size ''lref.s.alt'' = Some 8"
  "name_size ''lref.s.pri'' = Some 8"
  "name_size ''move.alt'' = Some 4"
  "name_size ''move.pri'' = Some 4"
  "name_size ''movs'' = Some 8"
  "name_size ''neg'' = Some 4"
  "name_size ''neq'' = Some 4"
  "name_size ''nop'' = Some 4"
  "name_size ''not'' = Some 4"
  "name_size ''or'' = Some 4"
  "name_size ''pop.alt'' = Some 4"
  "name_size ''pop.pri'' = Some 4"
  "name_size ''proc'' = Some 4"
  "name_size ''push'' = Some 8"
  "name_size ''push.alt'' = Some 4"
  "name_size ''push.c'' = Some 8"
  "name_size ''push.pri'' = Some 4"
  "name_size ''push.r'' = Some 8"
  "name_size ''push.s'' = Some 8"
  "name_size ''pushaddr'' = Some 8"
  "name_size ''ret'' = Some 4"
  "name_size ''retn'' = Some 4"
  "name_size ''sctrl'' = Some 8"
  "name_size ''sdiv'' = Some 4"
  "name_size ''sdiv.alt'' = Some 4"
  "name_size ''sgeq'' = Some 4"
  "name_size ''sgrtr'' = Some 4"
  "name_size ''shl'' = Some 4"
  "name_size ''shl.c.alt'' = Some 8"
  "name_size ''shl.c.pri'' = Some 8"
  "name_size ''shr'' = Some 4"
  "name_size ''shr.c.alt'' = Some 8"
  "name_size ''shr.c.pri'' = Some 8"
  "name_size ''sign.alt'' = Some 4"
  "name_size ''sign.pri'' = Some 4"
  "name_size ''sleq'' = Some 4"
  "name_size ''sless'' = Some 4"
  "name_size ''smul'' = Some 4"
  "name_size ''smul.c'' = Some 8"
  "name_size ''sref.alt'' = Some 8"
  "name_size ''sref.pri'' = Some 8"
  "name_size ''sref.s.alt'' = Some 8"
  "name_size ''sref.s.pri'' = Some 8"
  "name_size ''sshr'' = Some 4"
  "name_size ''stack'' = Some 8"
  "name_size ''stksize'' = Some 0"
  "name_size ''stor.alt'' = Some 8"
  "name_size ''stor.i'' = Some 4"
  "name_size ''stor.pri'' = Some 8"
  "name_size ''stor.s.alt'' = Some 8"
  "name_size ''stor.s.pri'' = Some 8"
  "name_size ''strb.i'' = Some 8"
  "name_size ''sub'' = Some 4"
  "name_size ''sub.alt'' = Some 4"
  "name_size ''swap.alt'' = Some 4"
  "name_size ''swap.pri'' = Some 4"
  "name_size ''switch'' = Some 8"
  "name_size ''sysreq.c'' = Some 8"
  "name_size ''sysreq.d'' = Some 8"
  "name_size ''sysreq.pri'' = Some 4"
  "name_size ''udiv'' = Some 4"
  "name_size ''udiv.alt'' = Some 4"
  "name_size ''umul'' = Some 4"
  "name_size ''xchg'' = Some 4"
  "name_size ''xor'' = Some 4"
  "name_size ''zero'' = Some 8"
  "name_size ''zero.alt'' = Some 4"
  "name_size ''zero.pri'' = Some 4"
  "name_size ''zero.s'' = Some 8"
  by (simp_all only: name_size_def instr_size_facts loadi_unknown)

end
