(* ===== verification/Peephole.thy ===== *)
theory Peephole
  imports Codesize "HOL-Library.Multiset"
begin

text \<open>
  The peephole optimizer (\<open>amx/compiler/libpc300/sc7.c\<close>, \<open>sc7-in.scp\<close>): the table of
  sequences, the matching of a sequence with the lines in the staging buffer, its replacement
  and the loops of \<open>stgopt\<close>.

  A pointer into the staging buffer is the rest of the buffer from there on, with the number of
  bytes up to the end of the part that is optimized; reading past the buffer is a fault.
\<close>

section \<open>The table of sequences\<close>

text \<open>What to find, what to put instead, and the number of bytes of code saved.\<close>

type_synonym peep_seq = "string \<times> string \<times> cell"

definition seqsize :: "nat \<Rightarrow> nat \<Rightarrow> cell" where
  "seqsize opcodes opargs = word_of_nat (4 * opcodes + 4 * opargs)"

definition sequences_1 :: "peep_seq list" where
  "sequences_1 = [
    (''load.s.pri %1!push.pri!load.s.pri %2!pop.alt!'',
     ''load.s.pri %2!load.s.alt %1!'', seqsize 4 2 - seqsize 2 2),
    (''load.pri %1!push.pri!load.s.pri %2!pop.alt!'',
     ''load.s.pri %2!load.alt %1!'', seqsize 4 2 - seqsize 2 2),
    (''load.s.pri %1!push.pri!load.pri %2!pop.alt!'',
     ''load.pri %2!load.s.alt %1!'', seqsize 4 2 - seqsize 2 2),
    (''load.pri %1!push.pri!load.pri %2!pop.alt!'',
     ''load.pri %2!load.alt %1!'', seqsize 4 2 - seqsize 2 2),
    (''addr.pri %1!push.pri!load.s.pri %2!pop.alt!'',
     ''addr.alt %1!load.s.pri %2!'', seqsize 4 2 - seqsize 2 2),
    (''addr.pri %1!push.pri!load.pri %2!pop.alt!'',
     ''addr.alt %1!load.pri %2!'', seqsize 4 2 - seqsize 2 2),
    (''const.pri %1!push.pri!load.s.pri %2!pop.alt!'',
     ''load.s.pri %2!const.alt %1!'', seqsize 4 2 - seqsize 2 2),
    (''const.pri %1!push.pri!load.pri %2!pop.alt!'',
     ''load.pri %2!const.alt %1!'', seqsize 4 2 - seqsize 2 2),
    (''load.s.pri %1!push.pri!const.pri %2!pop.alt!'',
     ''const.pri %2!load.s.alt %1!'', seqsize 4 2 - seqsize 2 2),
    (''load.pri %1!push.pri!const.pri %2!pop.alt!'',
     ''const.pri %2!load.alt %1!'', seqsize 4 2 - seqsize 2 2),
    (''addr.pri %1!push.pri!const.pri %2!pop.alt!'',
     ''addr.alt %1!const.pri %2!'', seqsize 4 2 - seqsize 2 2),
    (''addr.pri %1!push.pri!zero.pri!pop.alt!'',
     ''addr.alt %1!zero.pri!'', seqsize 4 1 - seqsize 2 1),
    (''move.pri!push.pri!load.s.pri %1!pop.alt!'',
     ''load.s.pri %1!'', seqsize 4 1 - seqsize 1 1),
    (''move.pri!push.pri!load.pri %1!pop.alt!'',
     ''load.pri %1!'', seqsize 4 1 - seqsize 1 1),
    (''move.pri!push.pri!const.pri %1!pop.alt!'',
     ''const.pri %1!'', seqsize 4 1 - seqsize 1 1),
    (''xchg!sgrtr!swap.alt!and!pop.alt!;$exp!'',
     ''sless!pop.alt!and!;$exp!'', seqsize 5 0 - seqsize 3 0)]"

definition sequences_2 :: "peep_seq list" where
  "sequences_2 = [
    (''xchg!sless!swap.alt!and!pop.alt!;$exp!'',
     ''sgrtr!pop.alt!and!;$exp!'', seqsize 5 0 - seqsize 3 0),
    (''xchg!sgeq!swap.alt!and!pop.alt!;$exp!'',
     ''sleq!pop.alt!and!;$exp!'', seqsize 5 0 - seqsize 3 0),
    (''xchg!sleq!swap.alt!and!pop.alt!;$exp!'',
     ''sgeq!pop.alt!and!;$exp!'', seqsize 5 0 - seqsize 3 0),
    (''xchg!sgrtr!swap.alt!and!pop.alt!jzer %1!'',
     ''sless!pop.alt!and!jzer %1!'', seqsize 5 0 - seqsize 3 0),
    (''xchg!sless!swap.alt!and!pop.alt!jzer %1!'',
     ''sgrtr!pop.alt!and!jzer %1!'', seqsize 5 0 - seqsize 3 0),
    (''xchg!sgeq!swap.alt!and!pop.alt!jzer %1!'',
     ''sleq!pop.alt!and!jzer %1!'', seqsize 5 0 - seqsize 3 0),
    (''xchg!sleq!swap.alt!and!pop.alt!jzer %1!'',
     ''sgeq!pop.alt!and!jzer %1!'', seqsize 5 0 - seqsize 3 0),
    (''xchg!sgrtr!jzer %1!;$exp!'',
     ''jsgeq %1!;$exp!'', seqsize 3 1 - seqsize 1 1),
    (''xchg!sless!jzer %1!;$exp!'',
     ''jsleq %1!;$exp!'', seqsize 3 1 - seqsize 1 1),
    (''xchg!sgeq!jzer %1!;$exp!'',
     ''jsgrtr %1!;$exp!'', seqsize 3 1 - seqsize 1 1),
    (''xchg!sleq!jzer %1!;$exp!'',
     ''jsless %1!;$exp!'', seqsize 3 1 - seqsize 1 1),
    (''xchg!sgrtr!;$exp!'',
     ''sless!;$exp!'', seqsize 2 0 - seqsize 1 0),
    (''xchg!sless!;$exp!'',
     ''sgrtr!;$exp!'', seqsize 2 0 - seqsize 1 0),
    (''xchg!sgeq!;$exp!'',
     ''sleq!;$exp!'', seqsize 2 0 - seqsize 1 0),
    (''xchg!sleq!;$exp!'',
     ''sgeq!;$exp!'', seqsize 2 0 - seqsize 1 0),
    (''load.s.pri %1!load.s.alt %2!xchg!'',
     ''load.s.pri %2!load.s.alt %1!'', seqsize 3 2 - seqsize 2 2),
    (''load.s.pri %1!load.alt %2!xchg!'',
     ''load.pri %2!load.s.alt %1!'', seqsize 3 2 - seqsize 2 2),
    (''load.s.pri %1!const.alt %2!xchg!'',
     ''const.pri %2!load.s.alt %1!'', seqsize 3 2 - seqsize 2 2)]"

definition sequences_3 :: "peep_seq list" where
  "sequences_3 = [
    (''load.pri %1!load.s.alt %2!xchg!'',
     ''load.s.pri %2!load.alt %1!'', seqsize 3 2 - seqsize 2 2),
    (''load.pri %1!load.alt %2!xchg!'',
     ''load.pri %2!load.alt %1!'', seqsize 3 2 - seqsize 2 2),
    (''load.pri %1!const.alt %2!xchg!'',
     ''const.pri %2!load.alt %1!'', seqsize 3 2 - seqsize 2 2),
    (''const.pri %1!load.s.alt %2!xchg!'',
     ''load.s.pri %2!const.alt %1!'', seqsize 3 2 - seqsize 2 2),
    (''const.pri %1!load.alt %2!xchg!'',
     ''load.pri %2!const.alt %1!'', seqsize 3 2 - seqsize 2 2),
    (''addr.pri %1!push.pri!load.s.pri %2!bounds %3!shl.c.pri 2!pop.alt!add!load.i!'',
     ''addr.alt %1!load.s.pri %2!bounds %3!lidx!'', seqsize 8 4 - seqsize 4 3),
    (''const.pri %1!push.pri!load.s.pri %2!bounds %3!shl.c.pri 2!pop.alt!add!load.i!'',
     ''const.alt %1!load.s.pri %2!bounds %3!lidx!'', seqsize 8 4 - seqsize 4 3),
    (''addr.pri %1!push.pri!load.s.pri %2!shl.c.pri 2!pop.alt!add!load.i!'',
     ''addr.alt %1!load.s.pri %2!lidx!'', seqsize 7 3 - seqsize 3 2),
    (''const.pri %1!push.pri!load.s.pri %2!shl.c.pri 2!pop.alt!add!load.i!'',
     ''const.alt %1!load.s.pri %2!lidx!'', seqsize 7 3 - seqsize 3 2),
    (''addr.pri %1!push.pri!load.s.pri %2!bounds %3!shl.c.pri %4!pop.alt!add!load.i!'',
     ''addr.alt %1!load.s.pri %2!bounds %3!lidx.b %4!'', seqsize 8 4 - seqsize 4 4),
    (''const.pri %1!push.pri!load.s.pri %2!bounds %3!shl.c.pri %4!pop.alt!add!load.i!'',
     ''const.alt %1!load.s.pri %2!bounds %3!lidx.b %4!'', seqsize 8 4 - seqsize 4 4),
    (''addr.pri %1!push.pri!load.s.pri %2!shl.c.pri %3!pop.alt!add!load.i!'',
     ''addr.alt %1!load.s.pri %2!lidx.b %3!'', seqsize 7 3 - seqsize 3 3),
    (''const.pri %1!push.pri!load.s.pri %2!shl.c.pri %3!pop.alt!add!load.i!'',
     ''const.alt %1!load.s.pri %2!lidx.b %3!'', seqsize 7 3 - seqsize 3 3),
    (''addr.pri %1!push.pri!load.s.pri %2!bounds %3!shl.c.pri 2!pop.alt!add!'',
     ''addr.alt %1!load.s.pri %2!bounds %3!idxaddr!'', seqsize 7 4 - seqsize 4 3),
    (''const.pri %1!push.pri!load.s.pri %2!bounds %3!shl.c.pri 2!pop.alt!add!'',
     ''const.alt %1!load.s.pri %2!bounds %3!idxaddr!'', seqsize 7 4 - seqsize 4 3),
    (''addr.pri %1!push.pri!load.s.pri %2!shl.c.pri 2!pop.alt!add!'',
     ''addr.alt %1!load.s.pri %2!idxaddr!'', seqsize 6 3 - seqsize 3 2),
    (''const.pri %1!push.pri!load.s.pri %2!shl.c.pri 2!pop.alt!add!'',
     ''const.alt %1!load.s.pri %2!idxaddr!'', seqsize 6 3 - seqsize 3 2)]"

definition sequences_4 :: "peep_seq list" where
  "sequences_4 = [
    (''addr.pri %1!push.pri!load.s.pri %2!bounds %3!shl.c.pri %4!pop.alt!add!'',
     ''addr.alt %1!load.s.pri %2!bounds %3!idxaddr.b %4!'', seqsize 7 4 - seqsize 4 4),
    (''const.pri %1!push.pri!load.s.pri %2!bounds %3!shl.c.pri %4!pop.alt!add!'',
     ''const.alt %1!load.s.pri %2!bounds %3!idxaddr.b %4!'', seqsize 7 4 - seqsize 4 4),
    (''addr.pri %1!push.pri!load.s.pri %2!shl.c.pri %3!pop.alt!add!'',
     ''addr.alt %1!load.s.pri %2!idxaddr.b %3!'', seqsize 6 3 - seqsize 3 3),
    (''const.pri %1!push.pri!load.s.pri %2!shl.c.pri %3!pop.alt!add!'',
     ''const.alt %1!load.s.pri %2!idxaddr.b %3!'', seqsize 6 3 - seqsize 3 3),
    (''shl.c.pri 2!pop.alt!add!loadi!'',
     ''pop.alt!lidx!'', seqsize 4 1 - seqsize 2 0),
    (''shl.c.pri 2!pop.alt!add!'',
     ''pop.alt!idxaddr!'', seqsize 3 1 - seqsize 2 0),
    (''shl.c.pri %1!pop.alt!add!loadi!'',
     ''pop.alt!lidx.b %1!'', seqsize 4 1 - seqsize 2 1),
    (''shl.c.pri %1!pop.alt!add!'',
     ''pop.alt!idxaddr.b %1!'', seqsize 3 1 - seqsize 2 1),
    (''addr.pri %1!push.pri!load.s.pri %2!bounds %3!pop.alt!'',
     ''addr.alt %1!load.s.pri %2!bounds %3!'', seqsize 5 3 - seqsize 3 3),
    (''const.pri %1!push.pri!load.s.pri %2!bounds %3!pop.alt!'',
     ''const.alt %1!load.s.pri %2!bounds %3!'', seqsize 5 3 - seqsize 3 3),
    ('';$lcl %1 %2!stack -4!const.pri %3!stor.s.pri %2!;$exp!'',
     '';$lcl %1 %2!push.c %3!;$exp!'', seqsize 3 3 - seqsize 1 1),
    ('';$lcl %1 %2!stack -4!zero.pri!stor.s.pri %2!;$exp!'',
     '';$lcl %1 %2!push.c 0!;$exp!'', seqsize 3 2 - seqsize 1 1),
    (''push.pri!load.s.pri %1!pop.alt!'',
     ''move.alt!load.s.pri %1!'', seqsize 3 1 - seqsize 2 1),
    (''push.pri!load.pri %1!pop.alt!'',
     ''move.alt!load.pri %1!'', seqsize 3 1 - seqsize 2 1),
    (''push.pri!const.pri %1!pop.alt!'',
     ''move.alt!const.pri %1!'', seqsize 3 1 - seqsize 2 1)]"

definition sequences_5 :: "peep_seq list" where
  "sequences_5 = [
    (''push.pri!zero.pri!pop.alt!'',
     ''move.alt!zero.pri!'', seqsize 3 0 - seqsize 2 0),
    (''push.pri!load.i!pop.alt!'',
     ''move.alt!load.i!'', seqsize 3 0 - seqsize 2 0),
    (''push.pri!pop.alt!'',
     ''move.alt!'', seqsize 2 0 - seqsize 1 0),
    (''const.pri %1!const.alt %2!push.pri!push.alt!'',
     ''push.c %1!push.c %2!'', seqsize 4 2 - seqsize 2 2),
    (''const.pri %1!const.alt %2!push.alt!push.pri!'',
     ''push.c %2!push.c %1!'', seqsize 4 2 - seqsize 2 2),
    (''const.pri %1!load.alt %2!push.pri!push.alt!'',
     ''push.c %1!push %2!'', seqsize 4 2 - seqsize 2 2),
    (''const.pri %1!load.alt %2!push.alt!push.pri!'',
     ''push %2!push.c %1!'', seqsize 4 2 - seqsize 2 2),
    (''load.pri %1!const.alt %2!push.pri!push.alt!'',
     ''push %1!push.c %2!'', seqsize 4 2 - seqsize 2 2),
    (''load.pri %1!const.alt %2!push.alt!push.pri!'',
     ''push.c %2!push %1!'', seqsize 4 2 - seqsize 2 2),
    (''load.pri %1!load.alt %2!push.pri!push.alt!'',
     ''push %1!push %2!'', seqsize 4 2 - seqsize 2 2),
    (''load.pri %1!load.alt %2!push.alt!push.pri!'',
     ''push %2!push %1!'', seqsize 4 2 - seqsize 2 2),
    (''load.s.pri %1!push.pri!;$par!'',
     ''push.s %1!;$par!'', seqsize 2 1 - seqsize 1 1),
    (''load.pri %1!push.pri!;$par!'',
     ''push %1!;$par!'', seqsize 2 1 - seqsize 1 1),
    (''const.pri %1!push.pri!;$par!'',
     ''push.c %1!;$par!'', seqsize 2 1 - seqsize 1 1),
    (''zero.pri!push.pri!;$par!'',
     ''push.c 0!;$par!'', seqsize 2 0 - seqsize 1 1),
    (''addr.pri %1!push.pri!;$par!'',
     ''pushaddr %1!;$par!'', seqsize 2 1 - seqsize 1 1)]"

definition sequences_6 :: "peep_seq list" where
  "sequences_6 = [
    (''move.pri!push.pri!'',
     ''push.alt!'', seqsize 2 0 - seqsize 1 0),
    (''const.alt %1!add!'',
     ''add.c %1!'', seqsize 2 1 - seqsize 1 1),
    (''const.alt %1!sub!'',
     ''add.c -%1!'', seqsize 2 1 - seqsize 1 1),
    (''const.alt %1!smul!'',
     ''smul.c %1!'', seqsize 2 1 - seqsize 1 1),
    (''const.alt %1!eq!'',
     ''eq.c.pri %1!'', seqsize 2 1 - seqsize 1 1),
    (''const.pri %1!load.s.alt %2!sub.alt!'',
     ''load.s.pri %2!add.c -%1!'', seqsize 3 2 - seqsize 2 2),
    (''const.pri %1!load.alt %2!sub.alt!'',
     ''load.pri %2!add.c -%1!'', seqsize 3 2 - seqsize 2 2),
    (''add.c %1!add.c %2!'',
     ''add.c %1+%2!'', seqsize 2 2 - seqsize 1 1),
    (''eq!jzer %1!'',
     ''jneq %1!'', seqsize 2 1 - seqsize 1 1),
    (''eq!jnz %1!'',
     ''jeq %1!'', seqsize 2 1 - seqsize 1 1),
    (''neq!jzer %1!'',
     ''jeq %1!'', seqsize 2 1 - seqsize 1 1),
    (''neq!jnz %1!'',
     ''jneq %1!'', seqsize 2 1 - seqsize 1 1),
    (''less!jzer %1!'',
     ''jgeq %1!'', seqsize 2 1 - seqsize 1 1),
    (''leq!jzer %1!'',
     ''jgrtr %1!'', seqsize 2 1 - seqsize 1 1),
    (''grtr!jzer %1!'',
     ''jleq %1!'', seqsize 2 1 - seqsize 1 1),
    (''geq!jzer %1!'',
     ''jless %1!'', seqsize 2 1 - seqsize 1 1),
    (''sless!jzer %1!'',
     ''jsgeq %1!'', seqsize 2 1 - seqsize 1 1),
    (''sleq!jzer %1!'',
     ''jsgrtr %1!'', seqsize 2 1 - seqsize 1 1)]"

definition sequences_7 :: "peep_seq list" where
  "sequences_7 = [
    (''sgrtr!jzer %1!'',
     ''jsleq %1!'', seqsize 2 1 - seqsize 1 1),
    (''sgeq!jzer %1!'',
     ''jsless %1!'', seqsize 2 1 - seqsize 1 1),
    (''zero.alt!jeq %1!'',
     ''jzer %1!'', seqsize 2 1 - seqsize 1 1),
    (''zero.alt!jneq %1!'',
     ''jnz %1!'', seqsize 2 1 - seqsize 1 1),
    (''inc %1!load.pri %1!;$exp!'',
     ''inc %1!;$exp!'', seqsize 2 2 - seqsize 1 1),
    (''load.pri %1!inc %1!;$exp!'',
     ''inc %1!;$exp!'', seqsize 2 2 - seqsize 1 1),
    (''inc.s %1!load.s.pri %1!;$exp!'',
     ''inc.s %1!;$exp!'', seqsize 2 2 - seqsize 1 1),
    (''load.s.pri %1!inc.s %1!;$exp!'',
     ''inc.s %1!;$exp!'', seqsize 2 2 - seqsize 1 1),
    (''dec %1!load.pri %1!;$exp!'',
     ''dec %1!;$exp!'', seqsize 2 2 - seqsize 1 1),
    (''load.pri %1!dec %1!;$exp!'',
     ''dec %1!;$exp!'', seqsize 2 2 - seqsize 1 1),
    (''dec.s %1!load.s.pri %1!;$exp!'',
     ''dec.s %1!;$exp!'', seqsize 2 2 - seqsize 1 1),
    (''load.s.pri %1!dec.s %1!;$exp!'',
     ''dec.s %1!;$exp!'', seqsize 2 2 - seqsize 1 1),
    (''const.pri 0!stor.pri %1!;$exp!'',
     ''zero %1!;$exp!'', seqsize 2 2 - seqsize 1 1),
    (''const.pri 0!stor.s.pri %1!;$exp!'',
     ''zero.s %1!;$exp!'', seqsize 2 2 - seqsize 1 1),
    (''zero.pri!stor.pri %1!;$exp!'',
     ''zero %1!;$exp!'', seqsize 2 1 - seqsize 1 1),
    (''zero.pri!stor.s.pri %1!;$exp!'',
     ''zero.s %1!;$exp!'', seqsize 2 1 - seqsize 1 1),
    (''const.pri 0!'',
     ''zero.pri!'', seqsize 1 1 - seqsize 1 0),
    (''const.alt 0!'',
     ''zero.alt!'', seqsize 1 1 - seqsize 1 0)]"

text \<open>The table without its terminating entry.\<close>

definition sequences :: "peep_seq list" where
  "sequences = sequences_1 @ sequences_2 @ sequences_3 @ sequences_4 @ sequences_5 @ sequences_6 @ sequences_7"

section \<open>Matching\<close>

definition MAX_OPT_VARS :: nat where "MAX_OPT_VARS = 4"
definition MAX_ALIAS :: nat where "MAX_ALIAS = 63"

text \<open>\<open>atoi\<close> and \<open>strtol\<close> with base 16, on text that starts with a digit.\<close>

definition atoi :: "string \<Rightarrow> int" where
  "atoi s = foldl (\<lambda>v c. 10 * v + (of_char c - 48)) 0 (takeWhile isdigit s)"

definition strtol16 :: "string \<Rightarrow> int \<times> string" where
  "strtol16 s = (foldl (\<lambda>v c. 16 * v + (case hex_val c of None \<Rightarrow> 0 | Some d \<Rightarrow> int d)) 0 (takeWhile ishex s),
     dropWhile ishex s)"

text \<open>The variable after a percent sign.\<close>

definition pattern_var :: "string \<Rightarrow> nat res" where
  "pattern_var pattern =
     assertR (isdigit (char_at pattern 0))
       (let var = atoi pattern - 1 in assertR (0 \<le> var \<and> var < int MAX_OPT_VARS) (Inr (nat var)))"

definition symchar :: "char \<Rightarrow> bool" where
  "symchar c \<longleftrightarrow> c = CHR ''-'' \<or> c = CHR ''+'' \<or> alphanum c"

text \<open>The copy of a symbol into \<open>str[MAX_ALIAS+1]\<close>, with the zero byte that ends it.\<close>

fun scan_symbol :: "nat \<Rightarrow> string \<Rightarrow> nat \<Rightarrow> (string \<times> string \<times> nat) res" where
  "scan_symbol i [] n = (if n = 0 \<and> i \<le> MAX_ALIAS then Inr ([], [], 0) else Inl OutOfBounds)"
| "scan_symbol i (c # s) n =
     (if n > 0 \<and> symchar c then
        assertR (i \<le> MAX_ALIAS) (bindR (scan_symbol (i + 1) s (n - 1)) (\<lambda>(str, r). Inr (c # str, r)))
      else if i \<le> MAX_ALIAS then Inr ([], c # s, n) else Inl OutOfBounds)"

text \<open>White space; the test against the end guards the tab only.\<close>

fun skip_ws :: "string \<Rightarrow> nat \<Rightarrow> (string \<times> nat) res" where
  "skip_ws [] n = Inl OutOfBounds"
| "skip_ws (c # s) n =
     (if n > 0 \<and> c = TAB \<or> c = CHR '' '' then skip_ws s (n - 1) else Inr (c # s, n))"

text \<open>A number of the pattern against the text.\<close>

fun match_number :: "string \<Rightarrow> string \<Rightarrow> nat \<Rightarrow> (string \<times> nat) option res" where
  "match_number [] s n = Inr (Some (s, n))"
| "match_number (d # ds) [] n = Inl OutOfBounds"
| "match_number (d # ds) (c # s) n =
     (if tolower c \<noteq> tolower d then Inr None else match_number ds s (n - 1))"

function match_loop :: "string \<Rightarrow> string \<Rightarrow> nat \<Rightarrow> string list \<Rightarrow> (string list \<times> string) option res" where
  "match_loop [] s n symbols = Inr (Some (symbols, s))"
| "match_loop (p # pattern) s n symbols =
     (if n = 0 then Inr None
      else if p = CHR ''%'' then
        bindR (pattern_var pattern) (\<lambda>var.
        assertR (char_at s 0 = CHR ''-'' \<or> alphanum (char_at s 0))
          (bindR (scan_symbol 0 s n) (\<lambda>(str, s1, n1).
             if symbols ! var \<noteq> [] then
               if symbols ! var \<noteq> str then Inr None else match_loop (tl pattern) s1 n1 symbols
             else match_loop (tl pattern) s1 n1 (symbols[var := str]))))
      else if p = CHR ''-'' then
        bindR (match_number (itoh (word_of_int (- fst (strtol16 pattern)))) s n) (\<lambda>m.
          case m of None \<Rightarrow> Inr None
          | Some (s1, n1) \<Rightarrow> match_loop (snd (strtol16 pattern)) s1 n1 symbols)
      else if p = CHR '' '' then
        if s = [] then Inl OutOfBounds
        else if hd s \<noteq> TAB \<and> hd s \<noteq> CHR '' '' then Inr None
        else bindR (skip_ws s n) (\<lambda>(s1, n1). match_loop pattern s1 n1 symbols)
      else if p = CHR ''!'' then
        bindR (skip_ws s n) (\<lambda>(s1, n1).
          if hd s1 \<noteq> LF then Inr None
          else if tl s1 = [] then Inl OutOfBounds
          else assertR (hd (tl s1) = NUL)
            (if pattern \<noteq> [] then
               bindR (skip_ws (drop 2 s1) (n1 - 2)) (\<lambda>(s2, n2). match_loop pattern s2 n2 symbols)
             else match_loop pattern (drop 2 s1) (n1 - 2) symbols))
      else if s = [] then Inl OutOfBounds
      else if tolower (hd s) \<noteq> tolower p then Inr None
      else match_loop pattern (tl s) (n - 1) symbols)"
  by pat_completeness auto

termination
  by (relation "measure (\<lambda>(p, s, n, sy). length p)")
     (auto simp: strtol16_def less_Suc_eq_le length_dropWhile_le)

declare match_loop.simps [simp del]

fun skip_lead :: "string \<Rightarrow> nat \<Rightarrow> (string \<times> nat) res" where
  "skip_lead [] n = Inl OutOfBounds"
| "skip_lead (c # s) n = (if c = TAB \<or> c = CHR '' '' then skip_lead s (n - 1) else Inr (c # s, n))"

text \<open>The symbols and the length of the match, or nothing.\<close>

definition matchsequence :: "string \<Rightarrow> nat \<Rightarrow> string \<Rightarrow> (string list \<times> nat) option res" where
  "matchsequence start n pattern =
     bindR (skip_lead start n) (\<lambda>(s, n1).
     bindR (match_loop pattern s n1 (replicate MAX_OPT_VARS [])) (\<lambda>m.
       case m of None \<Rightarrow> Inr None
       | Some (symbols, rest) \<Rightarrow> Inr (Some (symbols, length start - length rest))))"

section \<open>Replacing\<close>

text \<open>The size of the replacement.\<close>

function repl_length :: "string \<Rightarrow> string list \<Rightarrow> nat res" where
  "repl_length [] symbols = Inr 0"
| "repl_length (p # pattern) symbols =
     (if p = CHR ''%'' then
        bindR (pattern_var pattern) (\<lambda>var. assertR (symbols ! var \<noteq> [])
          (bindR (repl_length (tl pattern) symbols) (\<lambda>n. Inr (length (symbols ! var) + n))))
      else bindR (repl_length pattern symbols) (\<lambda>n. Inr ((if p = CHR ''!'' then 3 else 1) + n)))"
  by pat_completeness auto

termination by (relation "measure (\<lambda>(p, sy). length p)") auto

declare repl_length.simps [simp del]

text \<open>Appending at \<open>ptr\<close>, in a block of the calculated size.\<close>

definition put_repl :: "string \<Rightarrow> nat \<Rightarrow> string \<Rightarrow> string res" where
  "put_repl buffer blksize str = (if length buffer + length str \<le> blksize then Inr (buffer @ str) else Inl OutOfBounds)"

function repl_loop :: "string \<Rightarrow> string list \<Rightarrow> nat \<Rightarrow> string \<Rightarrow> string res" where
  "repl_loop [] symbols blksize buffer = assertR (length buffer = blksize) (Inr buffer)"
| "repl_loop (p # pattern) symbols blksize buffer =
     assertR (length buffer < blksize)
       (if p = CHR ''%'' then
          bindR (pattern_var pattern) (\<lambda>var. assertR (symbols ! var \<noteq> [])
            (bindR (put_repl buffer blksize (symbols ! var @ [NUL])) (\<lambda>b.
               repl_loop (tl pattern) symbols blksize (butlast b))))
        else bindR (put_repl buffer blksize
               (if p = CHR ''!'' then LF # NUL # (if pattern \<noteq> [] then [TAB] else []) else [p]))
               (repl_loop pattern symbols blksize))"
  by pat_completeness auto

termination by (relation "measure (\<lambda>(p, sy, k, b). length p)") auto

declare repl_loop.simps [simp del]

definition replacesequence :: "string \<Rightarrow> string list \<Rightarrow> string res" where
  "replacesequence pattern symbols =
     bindR (repl_length pattern symbols) (\<lambda>blksize.
     bindR (put_repl [] blksize [TAB]) (repl_loop pattern symbols blksize))"

text \<open>The replacement in place; the rest of the part is moved.\<close>

definition strreplace :: "string \<Rightarrow> string \<Rightarrow> nat \<Rightarrow> nat \<Rightarrow> nat \<Rightarrow> string res" where
  "strreplace dest replace sub_length rlen dest_length =
     bindR
       (if sub_length > rlen then
          let offset = sub_length - rlen in
          if offset > dest_length then Inl OutOfBounds
          else bindR (peek dest offset (dest_length - offset)) (\<lambda>m.
               bindR (blit dest 0 m) (\<lambda>d.
               blit d (dest_length - offset) (replicate offset (CHR 0xCC))))
        else if sub_length < rlen then
          bindR (peek dest 0 dest_length) (\<lambda>m. blit dest (rlen - sub_length) m)
        else Inr dest)
       (\<lambda>d. bindR (peek replace 0 rlen) (\<lambda>r. blit d 0 r))"

section \<open>The loops of \<open>stgopt\<close>\<close>

text \<open>The first sequence that matches: its replacement, the length of the match, the saving.\<close>

fun first_match :: "peep_seq list \<Rightarrow> string \<Rightarrow> nat \<Rightarrow> (string \<times> nat \<times> cell) option res" where
  "first_match [] s n = Inr None"
| "first_match ((pat, repl, savesize) # seqs) s n =
     bindR (matchsequence s n pat) (\<lambda>m.
       case m of
         None \<Rightarrow> first_match seqs s n
       | Some (symbols, match_length) \<Rightarrow>
           bindR (replacesequence repl symbols) (\<lambda>r.
             assertR (match_length \<ge> length r) (Inr (Some (r, match_length, savesize)))))"

section \<open>What a match consists of\<close>

text \<open>
  A text fits a pattern for given symbols: the reading of a pattern that both the
  matching and the replacement follow.  A minus sign starts a number in a pattern to match and
  stands for itself in a replacement.
\<close>

definition blanks :: "string \<Rightarrow> bool" where
  "blanks s \<longleftrightarrow> (\<forall>c\<in>set s. c = TAB \<or> c = CHR '' '')"

definition special :: "char \<Rightarrow> bool" where
  "special c \<longleftrightarrow> c \<in> {CHR ''%'', CHR ''-'', CHR '' '', CHR ''!''}"

definition pattern_number :: "string \<Rightarrow> string" where
  "pattern_number p = itoh (word_of_int (- fst (strtol16 p)))"

inductive fits :: "bool \<Rightarrow> string list \<Rightarrow> string \<Rightarrow> string \<Rightarrow> bool" for neg symbols where
  fits_end: "fits neg symbols [] []"
| fits_symbol: "pattern_var p = Inr v \<Longrightarrow> symbols ! v \<noteq> [] \<Longrightarrow> (\<forall>c\<in>set (symbols ! v). symchar c)
    \<Longrightarrow> fits neg symbols (tl p) t \<Longrightarrow> fits neg symbols (CHR ''%'' # p) (symbols ! v @ t)"
| fits_number: "neg \<Longrightarrow> map tolower k = map tolower (pattern_number p) \<Longrightarrow> fits neg symbols (snd (strtol16 p)) t
    \<Longrightarrow> fits neg symbols (CHR ''-'' # p) (k @ t)"
| fits_space: "blanks ws \<Longrightarrow> ws \<noteq> [] \<Longrightarrow> fits neg symbols p t \<Longrightarrow> fits neg symbols (CHR '' '' # p) (ws @ t)"
| fits_line: "blanks ws \<Longrightarrow> blanks ws' \<Longrightarrow> (p = [] \<longrightarrow> ws' = []) \<Longrightarrow> fits neg symbols p t
    \<Longrightarrow> fits neg symbols (CHR ''!'' # p) (ws @ LF # NUL # ws' @ t)"
| fits_char: "\<not> special c \<or> \<not> neg \<and> c = CHR ''-'' \<Longrightarrow> tolower d = tolower c \<Longrightarrow> fits neg symbols p t \<Longrightarrow> fits neg symbols (c # p) (d # t)"

inductive_cases fits_endE: "fits neg symbols [] t"
inductive_cases fits_spaceE: "fits neg symbols (CHR '' '' # p) t"
inductive_cases fits_lineE: "fits neg symbols (CHR ''!'' # p) t"
inductive_cases fits_consE: "fits neg symbols (c # p) t"

lemma skip_ws_blanks: "skip_ws s n = Inr (s1, n1) \<Longrightarrow>
    \<exists>ws. s = ws @ s1 \<and> blanks ws \<and> n1 = n - length ws \<and> s1 \<noteq> []
      \<and> (ws = [] \<longrightarrow> \<not> (n > 0 \<and> hd s = TAB \<or> hd s = CHR '' ''))"
proof (induction s n rule: skip_ws.induct)
  case (2 c s n)
  show ?case
  proof (cases "n > 0 \<and> c = TAB \<or> c = CHR '' ''")
    case True
    then obtain ws where "s = ws @ s1" "blanks ws" "n1 = n - 1 - length ws" "s1 \<noteq> []" using 2 by auto
    then show ?thesis using True by (intro exI [of _ "c # ws"]) (auto simp: blanks_def)
  qed (use 2 in \<open>auto simp: blanks_def\<close>)
qed simp

lemma skip_lead_blanks: "skip_lead s n = Inr (s1, n1) \<Longrightarrow>
    \<exists>ws. s = ws @ s1 \<and> blanks ws \<and> n1 = n - length ws"
proof (induction s n rule: skip_lead.induct)
  case (2 c s n)
  show ?case
  proof (cases "c = TAB \<or> c = CHR '' ''")
    case True
    then obtain ws where "s = ws @ s1" "blanks ws" "n1 = n - 1 - length ws" using 2 by auto
    then show ?thesis using True by (intro exI [of _ "c # ws"]) (auto simp: blanks_def)
  qed (use 2 in \<open>auto simp: blanks_def\<close>)
qed simp

lemma scan_symbol_symchars: "scan_symbol i s n = Inr (str, s1, n1) \<Longrightarrow>
    s = str @ s1 \<and> (\<forall>c\<in>set str. symchar c) \<and> n1 = n - length str
    \<and> (str = [] \<longrightarrow> n = 0 \<or> s = [] \<or> \<not> symchar (hd s))"
proof (induction i s n arbitrary: str rule: scan_symbol.induct)
  case (2 i c s n)
  show ?case
  proof (cases "n > 0 \<and> symchar c")
    case True
    then obtain str' where "str = c # str'" "scan_symbol (i + 1) s (n - 1) = Inr (str', s1, n1)"
      using "2.prems" by (auto simp: assertR_Inr_iff bindR_Inr_iff)
    then show ?thesis using "2.IH" [OF True, of str'] True by auto
  qed (use "2.prems" in \<open>auto split: if_splits\<close>)
qed (auto split: if_splits)

lemma match_number_fits: "match_number k s n = Inr (Some (s1, n1)) \<Longrightarrow>
    \<exists>k'. s = k' @ s1 \<and> map tolower k' = map tolower k \<and> n1 = n - length k"
proof (induction k s n rule: match_number.induct)
  case (3 d ds c s n)
  then obtain k' where "s = k' @ s1" "map tolower k' = map tolower ds" "n1 = n - 1 - length ds" "tolower c = tolower d"
    by (auto split: if_splits)
  then show ?case by (intro exI [of _ "c # k'"]) simp
qed auto

text \<open>The symbols only grow during a match.\<close>

definition sym_ext :: "string list \<Rightarrow> string list \<Rightarrow> bool" where
  "sym_ext sy sy' \<longleftrightarrow> length sy' = length sy \<and> (\<forall>v<length sy. sy ! v \<noteq> [] \<longrightarrow> sy' ! v = sy ! v)"

lemma sym_ext_refl [simp]: "sym_ext sy sy"
  by (simp add: sym_ext_def)

lemma sym_ext_trans: "sym_ext a b \<Longrightarrow> sym_ext b c \<Longrightarrow> sym_ext a c"
  by (auto simp: sym_ext_def)

lemma pattern_var_less: "pattern_var p = Inr v \<Longrightarrow> v < 4"
  by (auto simp: pattern_var_def assertR_Inr_iff Let_def MAX_OPT_VARS_def)

lemma not_alphanum_NUL: "\<not> alphanum NUL" by code_simp

lemma match_loop_fits:
  "match_loop p s n sy = Inr (Some (sy', s')) \<Longrightarrow> length sy = 4 \<Longrightarrow>
    sym_ext sy sy' \<and> (p \<noteq> [] \<longrightarrow> n > 0) \<and> (\<exists>t. s = t @ s' \<and> fits True sy' p t)"
proof (induction p s n sy rule: match_loop.induct)
  case (1 s n sy)
  then show ?case by (auto simp: match_loop.simps intro: fits.intros)
next
  case (2 p pattern s n sy)
  note red = "2.prems"(1) [unfolded match_loop.simps(2)]
  have n: "n \<noteq> 0"
  proof
    assume "n = 0"
    then show False using red by simp
  qed
  have "p = CHR ''%'' \<or> p = CHR ''-'' \<or> p = CHR '' '' \<or> p = CHR ''!'' \<or> \<not> special p"
    by (auto simp: special_def)
  then consider (sym) "p = CHR ''%''" | (num) "p = CHR ''-''" | (blank) "p = CHR '' ''"
    | (line) "p = CHR ''!''" | (lit) "\<not> special p" by blast
  then show ?case
  proof cases
    case sym
    obtain v where v: "pattern_var pattern = Inr v" using red n sym by (cases "pattern_var pattern") simp_all
    have a: "char_at s 0 = CHR ''-'' \<or> alphanum (char_at s 0)"
      by (rule ccontr) (use red n sym v in simp)
    obtain r where r: "scan_symbol 0 s n = Inr r" using red n sym v a by (cases "scan_symbol 0 s n") simp_all
    obtain str s1 n1 where sc: "scan_symbol 0 s n = Inr (str, s1, n1)" using r by (cases r) simp
    have m: "(if sy ! v \<noteq> [] then if sy ! v \<noteq> str then Inr None else match_loop (tl pattern) s1 n1 sy
              else match_loop (tl pattern) s1 n1 (sy[v := str])) = Inr (Some (sy', s'))"
      using red n sym v a sc by simp
    have vl: "v < 4" using pattern_var_less [OF v] .
    have hd: "s \<noteq> []" "symchar (hd s)" using a not_alphanum_NUL by (cases s; simp add: symchar_def; blast)+
    have str: "s = str @ s1" "\<forall>c\<in>set str. symchar c" "str \<noteq> []"
      using scan_symbol_symchars [OF sc] hd n by blast+
    define sy1 where "sy1 = (if sy ! v \<noteq> [] then sy else sy[v := str])"
    have e1: "sym_ext sy sy1" "sy1 ! v = str" "length sy1 = 4"
      using m vl "2.prems"(2) by (cases "sy ! v = []"; simp add: sy1_def sym_ext_def nth_list_update split: if_splits)+
    have m1: "match_loop (tl pattern) s1 n1 sy1 = Inr (Some (sy', s'))"
      using m by (simp add: sy1_def split: if_splits)
    have "sym_ext sy1 sy' \<and> (\<exists>t. s1 = t @ s' \<and> fits True sy' (tl pattern) t)"
    proof (cases "sy ! v \<noteq> []")
      case True
      then show ?thesis using "2.IH"(1) [OF n sym v _ _ refl True] m m1 sc e1
        by (auto simp: sy1_def split: if_splits)
    next
      case False
      then show ?thesis using "2.IH"(2) [OF n sym v _ _ refl False] m1 sc e1 by (auto simp: sy1_def)
    qed
    then obtain t where t: "sym_ext sy1 sy'" "s1 = t @ s'" "fits True sy' (tl pattern) t" by blast
    have "sy' ! v = str" using t(1) e1 str(3) vl by (auto simp: sym_ext_def)
    then have "fits True sy' (CHR ''%'' # pattern) (str @ t)"
      using fits_symbol [OF v, of sy' True t] str t(3) by simp
    then show ?thesis using sym n str(1) t(2) sym_ext_trans [OF e1(1) t(1)] by auto
  next
    case num
    then obtain s1 n1 where k: "match_number (pattern_number pattern) s n = Inr (Some (s1, n1))"
      and m: "match_loop (snd (strtol16 pattern)) s1 n1 sy = Inr (Some (sy', s'))"
      using red n by (auto simp: bindR_Inr_iff pattern_number_def split: option.splits)
    obtain k' where k': "s = k' @ s1" "map tolower k' = map tolower (pattern_number pattern)"
      using match_number_fits [OF k] by blast
    have "\<exists>t. s1 = t @ s' \<and> fits True sy' (snd (strtol16 pattern)) t" "sym_ext sy sy'"
      using "2.IH"(3) [OF n _ num k [unfolded pattern_number_def] refl refl m "2.prems"(2)] num by simp_all
    then show ?thesis using num n k' fits_number [of True, OF _ k'(2), of sy'] by auto
  next
    case blank
    obtain s1 n1 where w: "skip_ws s n = Inr (s1, n1)" "s \<noteq> []" "hd s = TAB \<or> hd s = CHR '' ''"
      and m: "match_loop pattern s1 n1 sy = Inr (Some (sy', s'))"
      using red n blank by (auto simp: bindR_Inr_iff split: if_splits)
    obtain ws where ws: "s = ws @ s1" "blanks ws" "ws \<noteq> []" using skip_ws_blanks [OF w(1)] w(3) n by auto
    have "\<exists>t. s1 = t @ s' \<and> fits True sy' pattern t" "sym_ext sy sy'"
      using "2.IH"(4) [OF n _ _ blank w(2) _ w(1) refl m "2.prems"(2)] w(3) blank by simp_all
    then show ?thesis using blank n ws fits_space [OF ws(2,3), of True sy'] by auto
  next
    case line
    obtain s1 n1 where w: "skip_ws s n = Inr (s1, n1)" "hd s1 = LF" "tl s1 \<noteq> []" "hd (tl s1) = NUL"
      and m: "(if pattern \<noteq> [] then bindR (skip_ws (drop 2 s1) (n1 - 2)) (\<lambda>(s2, n2). match_loop pattern s2 n2 sy)
              else match_loop pattern (drop 2 s1) (n1 - 2) sy) = Inr (Some (sy', s'))"
      using red n line by (auto simp: bindR_Inr_iff assertR_Inr_iff split: if_splits)
    obtain ws where ws: "s = ws @ s1" "blanks ws" "s1 \<noteq> []" using skip_ws_blanks [OF w(1)] by auto
    have s1: "s1 = LF # NUL # drop 2 s1" using w ws(3) by (cases s1; cases "tl s1") auto
    show ?thesis
    proof (cases "pattern = []")
      case True
      then have "sy' = sy" "s' = drop 2 s1" using m by (auto simp: match_loop.simps)
      then show ?thesis
        using line n True ws s1 fits_line [OF ws(2), of "[]" pattern True sy "[]"] fits_end [of True sy]
        by (intro conjI exI [of _ "ws @ [LF, NUL]"]) (auto simp: blanks_def)
    next
      case False
      then obtain s2 n2 where w2: "skip_ws (drop 2 s1) (n1 - 2) = Inr (s2, n2)"
        and m2: "match_loop pattern s2 n2 sy = Inr (Some (sy', s'))"
        using m by (auto simp: bindR_Inr_iff)
      obtain ws' where ws': "drop 2 s1 = ws' @ s2" "blanks ws'" using skip_ws_blanks [OF w2] by auto
      have "\<exists>t. s2 = t @ s' \<and> fits True sy' pattern t" "sym_ext sy sy'"
        using "2.IH"(5) [OF n _ _ _ line w(1) refl _ w(3) False w2 refl m2 "2.prems"(2)] w(2) line by simp_all
      then obtain t where t: "s2 = t @ s'" "fits True sy' pattern t" "sym_ext sy sy'" by blast
      have "s = (ws @ LF # NUL # ws' @ t) @ s'" using ws(1) s1 ws'(1) t(1) by simp
      then show ?thesis using line n fits_line [OF ws(2) ws'(2) _ t(2)] False t(3) by blast
    qed
  next
    case lit
    then have l: "p \<noteq> CHR ''%''" "p \<noteq> CHR ''-''" "p \<noteq> CHR '' ''" "p \<noteq> CHR ''!''"
      by (auto simp: special_def)
    have s: "s \<noteq> []" "tolower (hd s) = tolower p" "match_loop pattern (tl s) (n - 1) sy = Inr (Some (sy', s'))"
      using red n l by (auto split: if_splits)
    have "\<exists>t. tl s = t @ s' \<and> fits True sy' pattern t" "sym_ext sy sy'"
      using "2.IH"(7) [OF n l s(1) _ s(3) "2.prems"(2)] s(2) by simp_all
    then show ?thesis using n s(1,2) fits_char [OF disjI1 [OF lit] s(2)] by (metis append_Cons list.collapse neq0_conv)
  qed
qed

lemma matchsequence_fits:
  assumes "matchsequence s n p = Inr (Some (sy, ml))"
  shows "(p \<noteq> [] \<longrightarrow> n > 0) \<and> (\<exists>ws t s'. s = ws @ t @ s' \<and> blanks ws \<and> fits True sy p t
    \<and> ml = length ws + length t)"
proof -
  obtain s1 n1 where l: "skip_lead s n = Inr (s1, n1)"
    using assms by (cases "skip_lead s n") (auto simp: matchsequence_def)
  obtain s' where m: "match_loop p s1 n1 (replicate MAX_OPT_VARS []) = Inr (Some (sy, s'))" "ml = length s - length s'"
    using assms l by (cases "match_loop p s1 n1 (replicate MAX_OPT_VARS [])")
      (auto simp: matchsequence_def split: option.splits)
  obtain ws where ws: "s = ws @ s1" "blanks ws" "n1 = n - length ws" using skip_lead_blanks [OF l] by blast
  have l4: "length (replicate MAX_OPT_VARS []) = 4" by (simp add: MAX_OPT_VARS_def)
  have ex: "\<exists>t. s1 = t @ s' \<and> fits True sy p t" and n1: "p \<noteq> [] \<longrightarrow> n1 > 0"
    using match_loop_fits [OF m(1) l4] by simp_all
  obtain t where t: "s1 = t @ s'" "fits True sy p t" using ex by blast
  have "ml = length ws + length t" using m(2) ws(1) t(1) by simp
  moreover have "s = ws @ t @ s'" using ws(1) t(1) by simp
  moreover have "p \<noteq> [] \<longrightarrow> n > 0" using ws(3) n1 by auto
  ultimately show ?thesis using ws(2) t(2) by blast
qed



section \<open>The length of matches and replacements\<close>

text \<open>The variables of a pattern, and its length without them.\<close>

function pat_vars :: "string \<Rightarrow> nat list" where
  "pat_vars [] = []"
| "pat_vars (c # p) =
     (if c = CHR ''%'' then (case pattern_var p of Inl _ \<Rightarrow> [] | Inr v \<Rightarrow> v # pat_vars (tl p))
      else if c = CHR ''-'' then pat_vars (snd (strtol16 p)) else pat_vars p)"
  by pat_completeness auto
termination by (relation "measure length") (auto simp: strtol16_def less_Suc_eq_le length_dropWhile_le)

function pat_const :: "string \<Rightarrow> nat" where
  "pat_const [] = 0"
| "pat_const (c # p) =
     (if c = CHR ''%'' then pat_const (tl p)
      else if c = CHR ''-'' then length (pattern_number p) + pat_const (snd (strtol16 p))
      else if c = CHR ''!'' then 2 + pat_const p else 1 + pat_const p)"
  by pat_completeness auto
termination by (relation "measure length") (auto simp: strtol16_def less_Suc_eq_le length_dropWhile_le)

function rep_vars :: "string \<Rightarrow> nat list" where
  "rep_vars [] = []"
| "rep_vars (c # p) =
     (if c = CHR ''%'' then (case pattern_var p of Inl _ \<Rightarrow> [] | Inr v \<Rightarrow> v # rep_vars (tl p)) else rep_vars p)"
  by pat_completeness auto
termination by (relation "measure length") auto

function rep_const :: "string \<Rightarrow> nat" where
  "rep_const [] = 0"
| "rep_const (c # p) =
     (if c = CHR ''%'' then rep_const (tl p) else if c = CHR ''!'' then 3 + rep_const p else 1 + rep_const p)"
  by pat_completeness auto
termination by (relation "measure length") auto

declare pat_vars.simps(2) [simp del] pat_const.simps(2) [simp del]
  rep_vars.simps(2) [simp del] rep_const.simps(2) [simp del]

definition vars_length :: "string list \<Rightarrow> nat list \<Rightarrow> nat" where
  "vars_length sy vs = sum_list (map (\<lambda>v. length (sy ! v)) vs)"

lemma vars_length_simps [simp]: "vars_length sy [] = 0" "vars_length sy (v # vs) = length (sy ! v) + vars_length sy vs"
  by (simp_all add: vars_length_def)

lemma fits_length: "fits True sy p t \<Longrightarrow> pat_const p + vars_length sy (pat_vars p) \<le> length t"
proof (induction p t rule: fits.induct)
  case (fits_number k p t)
  then have "length k = length (pattern_number p)" by (metis length_map)
  then show ?case using fits_number by (simp add: pat_const.simps(2) pat_vars.simps(2))
next
  case (fits_space ws p t)
  then show ?case by (cases ws) (simp_all add: pat_const.simps(2) pat_vars.simps(2))
qed (auto simp: pat_const.simps(2) pat_vars.simps(2) special_def)

lemma repl_length_value: "repl_length p sy = Inr k \<Longrightarrow> k = rep_const p + vars_length sy (rep_vars p)"
proof (induction p sy arbitrary: k rule: repl_length.induct)
  case (2 p pattern symbols)
  show ?case
  proof (cases "p = CHR ''%''")
    case True
    then obtain v k' where "pattern_var pattern = Inr v" "repl_length (tl pattern) symbols = Inr k'"
      "k = length (symbols ! v) + k'" "symbols ! v \<noteq> []"
      using "2.prems" by (auto simp: repl_length.simps(2) bindR_Inr_iff assertR_Inr_iff)
    then show ?thesis using "2.IH"(1) [OF True, of v k'] True by (simp add: rep_const.simps(2) rep_vars.simps(2))
  next
    case False
    then obtain k' where "repl_length pattern symbols = Inr k'" "k = (if p = CHR ''!'' then 3 else 1) + k'"
      using "2.prems" by (auto simp: repl_length.simps(2) bindR_Inr_iff)
    then show ?thesis using "2.IH"(2) [OF False, of k'] False by (auto simp: rep_const.simps(2) rep_vars.simps(2))
  qed
qed (simp add: repl_length.simps)

text \<open>A block that was filled exactly.\<close>

lemma repl_loop_length: "repl_loop p sy k b = Inr r \<Longrightarrow> length r = k"
proof (induction p sy k b rule: repl_loop.induct)
  case (2 p pattern symbols k b)
  then show ?case
    by (cases "p = CHR ''%''")
      (auto simp: repl_loop.simps(2) bindR_Inr_iff assertR_Inr_iff put_repl_def split: if_splits)
qed (simp add: repl_loop.simps assertR_Inr_iff)

text \<open>Every sequence has a shorter replacement, whatever its symbols are.\<close>

definition shorter :: "peep_seq \<Rightarrow> bool" where
  "shorter e = (case e of (pat, repl, _) \<Rightarrow>
     pat \<noteq> [] \<and> rep_const repl < pat_const pat
     \<and> list_all (\<lambda>v. count_list (rep_vars repl) v \<le> count_list (pat_vars pat) v) (rep_vars repl))"

lemma sequences_shorter: "list_all shorter sequences"
  by code_simp

lemma vars_length_mono:
  assumes "list_all (\<lambda>v. count_list xs v \<le> count_list ys v) xs"
  shows "vars_length sy xs \<le> vars_length sy ys"
proof -
  have "count (mset xs) v \<le> count (mset ys) v" for v
    using assms by (cases "v \<in> set xs") (auto simp: list_all_iff count_mset)
  then have "mset xs \<subseteq># mset ys" by (simp add: subseteq_mset_def)
  then have "image_mset (\<lambda>v. length (sy ! v)) (mset xs) \<subseteq># image_mset (\<lambda>v. length (sy ! v)) (mset ys)"
    by (rule image_mset_subseteq_mono)
  then obtain m where "image_mset (\<lambda>v. length (sy ! v)) (mset ys) = image_mset (\<lambda>v. length (sy ! v)) (mset xs) + m"
    by (auto simp: subset_mset.le_iff_add)
  then have "\<Sum>\<^sub># (image_mset (\<lambda>v. length (sy ! v)) (mset xs)) \<le> \<Sum>\<^sub># (image_mset (\<lambda>v. length (sy ! v)) (mset ys))"
    by simp
  then show ?thesis by (simp add: vars_length_def sum_mset_sum_list flip: mset_map)
qed

text \<open>The replacement is shorter than the match.\<close>

lemma first_match_shorter:
  "first_match seqs s n = Inr (Some (r, ml, save)) \<Longrightarrow> list_all shorter seqs \<Longrightarrow> length r < ml \<and> n > 0"
proof (induction seqs)
  case (Cons e seqs)
  obtain pat repl sv where e: "e = (pat, repl, sv)" by (cases e) blast
  show ?case
  proof (cases "matchsequence s n pat = Inr None")
    case True
    then show ?thesis using Cons e by simp
  next
    case False
    then obtain sy ml' where m: "matchsequence s n pat = Inr (Some (sy, ml'))"
      using Cons.prems(1) e by (cases "matchsequence s n pat") auto
    then have rs: "replacesequence repl sy = Inr r" "ml' = ml"
      using Cons.prems(1) e by (auto simp: bindR_Inr_iff assertR_Inr_iff)
    obtain k where k: "repl_length repl sy = Inr k" "length r = k"
      using rs(1) repl_loop_length by (auto simp: replacesequence_def bindR_Inr_iff)
    have sh: "pat \<noteq> []" "rep_const repl < pat_const pat" "vars_length sy (rep_vars repl) \<le> vars_length sy (pat_vars pat)"
      using Cons.prems(2) e vars_length_mono by (auto simp: shorter_def)
    have n: "n > 0" and ex: "\<exists>ws t s'. s = ws @ t @ s' \<and> blanks ws \<and> fits True sy pat t \<and> ml = length ws + length t"
      using matchsequence_fits [OF m] sh(1) rs(2) by simp_all
    obtain ws t s' where "s = ws @ t @ s'" "fits True sy pat t" "ml = length ws + length t" using ex by blast
    then show ?thesis using n fits_length [of sy pat t] repl_length_value [OF k(1)] k(2) sh(2,3) by simp
  qed
qed simp

text \<open>
  At one place: the sequences are tried from the first one again after every replacement.  The
  part that is optimized gets shorter each time, so this ends.
\<close>

function opt_string :: "string \<Rightarrow> nat \<Rightarrow> cell \<Rightarrow> nat \<Rightarrow> (string \<times> nat \<times> cell \<times> nat) res" where
  "opt_string s n code_idx matches =
     (case first_match sequences s n of
        Inl e \<Rightarrow> Inl e
      | Inr None \<Rightarrow> Inr (s, n, code_idx, matches)
      | Inr (Some (r, ml, savesize)) \<Rightarrow>
          (case strreplace s r ml (length r) n of
             Inl e \<Rightarrow> Inl e
           | Inr s1 \<Rightarrow> opt_string s1 (n - (ml - length r)) (code_idx - savesize) (matches + 1)))"
  by pat_completeness auto

termination
proof (relation "measure (\<lambda>(s, n, ci, m). n)", goal_cases)
  case (2 s n ci m y z r x ml save s1)
  then have "first_match sequences s n = Inr (Some (r, ml, save))" by simp
  then have "length r < ml \<and> n > 0" using first_match_shorter sequences_shorter by blast
  then have "n - (ml - length r) < n" by linarith
  then show ?case by simp
qed simp

declare opt_string.simps [simp del]

lemma opt_string_shorter: "opt_string s n ci m = Inr (s1, n1, ci1, m1) \<Longrightarrow> n1 + m1 \<le> n + m \<and> m \<le> m1"
proof (induction s n ci m rule: opt_string.induct)
  case (1 s n ci m)
  show ?case
  proof (cases "first_match sequences s n")
    case (Inr x)
    show ?thesis
    proof (cases x)
      case None
      then show ?thesis using "1.prems" Inr by (simp add: opt_string.simps [of s])
    next
      case (Some y)
      obtain r ml sv where y: "y = (r, ml, sv)" by (cases y)
      obtain s2 where s2: "strreplace s r ml (length r) n = Inr s2"
        using "1.prems" Inr Some y by (cases "strreplace s r ml (length r) n") (simp_all add: opt_string.simps [of s])
      have "n1 + m1 \<le> n - (ml - length r) + (m + 1) \<and> m + 1 \<le> m1"
        using "1.IH" [OF Inr Some y [symmetric] refl s2] "1.prems" Inr Some y s2 by (simp add: opt_string.simps [of s])
      moreover have "length r < ml \<and> n > 0"
        using first_match_shorter [of sequences s n r ml sv] sequences_shorter Inr Some y by simp
      ultimately show ?thesis by linarith
    qed
  qed (use "1.prems" in \<open>simp add: opt_string.simps [of s]\<close>)
qed

text \<open>One pass over the strings of the part.\<close>

function opt_pass :: "string \<Rightarrow> nat \<Rightarrow> cell \<Rightarrow> nat \<Rightarrow> (string \<times> nat \<times> cell \<times> nat) res" where
  "opt_pass s n code_idx matches =
     (if n = 0 then Inr (s, 0, code_idx, matches)
      else (case opt_string s n code_idx matches of
        Inl e \<Rightarrow> Inl e
      | Inr (s1, n1, ci1, m1) \<Rightarrow>
          (case strchr s1 NUL of
             None \<Rightarrow> Inl OutOfBounds
           | Some p \<Rightarrow>
               (case opt_pass (drop (Suc p) s1) (n1 - Suc p) ci1 m1 of
                  Inl e \<Rightarrow> Inl e
                | Inr (s2, n2, ci2, m2) \<Rightarrow> Inr (take (Suc p) s1 @ s2, min n1 (Suc p) + n2, ci2, m2)))))"
  by pat_completeness auto

termination
proof (relation "measure (\<lambda>(s, n, ci, m). n)", goal_cases)
  case (2 s n ci m x s1 y n1 z ci1 m1 p)
  then have "opt_string s n ci m = Inr (s1, n1, ci1, m1)" by simp
  then have "n1 + m1 \<le> n + m \<and> m \<le> m1" by (rule opt_string_shorter)
  moreover have "n \<noteq> 0" using 2 by simp
  ultimately have "n1 - Suc p < n" by linarith
  then show ?case by simp
qed simp

declare opt_pass.simps [simp del]

lemma opt_pass_shorter: "opt_pass s n ci m = Inr (s1, n1, ci1, m1) \<Longrightarrow> n1 + m1 \<le> n + m \<and> m \<le> m1"
proof (induction s n ci m arbitrary: s1 n1 ci1 m1 rule: opt_pass.induct)
  case (1 s n ci m)
  show ?case
  proof (cases "n = 0")
    case False
    then obtain s2 n2 ci2 m2 where o: "opt_string s n ci m = Inr (s2, n2, ci2, m2)"
      using "1.prems" by (cases "opt_string s n ci m") (auto simp: opt_pass.simps [of s])
    then obtain p where p: "strchr s2 NUL = Some p"
      using "1.prems" False by (cases "strchr s2 NUL") (auto simp: opt_pass.simps [of s])
    obtain s3 n3 ci3 m3 where r: "opt_pass (drop (Suc p) s2) (n2 - Suc p) ci2 m2 = Inr (s3, n3, ci3, m3)"
      using "1.prems" False o p
      by (cases "opt_pass (drop (Suc p) s2) (n2 - Suc p) ci2 m2") (auto simp: opt_pass.simps [of s])
    have "n1 = min n2 (Suc p) + n3" "m1 = m3"
      using "1.prems" False o p r by (simp_all add: opt_pass.simps [of s])
    moreover have "n3 + m3 \<le> n2 - Suc p + m2 \<and> m2 \<le> m3"
      using "1.IH" [OF False o refl refl refl p r] .
    moreover have "n2 + m2 \<le> n + m \<and> m \<le> m2" using opt_string_shorter [OF o] .
    ultimately show ?thesis by linarith
  qed (use "1.prems" in \<open>simp add: opt_pass.simps [of s]\<close>)
qed

text \<open>Passes until nothing matches.\<close>

function opt_loop :: "string \<Rightarrow> nat \<Rightarrow> cell \<Rightarrow> (string \<times> nat \<times> cell) res" where
  "opt_loop s n code_idx =
     (case opt_pass s n code_idx 0 of
        Inl e \<Rightarrow> Inl e
      | Inr (s1, n1, ci1, matches) \<Rightarrow> if matches > 0 then opt_loop s1 n1 ci1 else Inr (s1, n1, ci1))"
  by pat_completeness auto

termination
proof (relation "measure (\<lambda>(s, n, ci). n)", goal_cases)
  case (2 s n ci x s1 y n1 z ci1 m)
  then have "opt_pass s n ci 0 = Inr (s1, n1, ci1, m)" by simp
  then have "n1 + m \<le> n" using opt_pass_shorter by fastforce
  then show ?case using 2 by simp
qed simp

declare opt_loop.simps [simp del]

end
