(* ===== verification/Peepsize.thy ===== *)
theory Peepsize
  imports Peephole
begin

text \<open>
  The peephole optimizer keeps account of the code size: what a sequence saves according to the
  table is the difference of the sizes the assembler finds before and after the replacement.
\<close>

section \<open>The size of matches and replacements\<close>

lemma upper_table:
  "\<forall>c\<in>set (map char_of [65..<91::nat]). \<not> isspace c \<and> \<not> isspace (tolower c)
     \<and> c \<notin> set [CHR '';'', CHR ''.'', NUL, LF] \<and> tolower c \<notin> set [CHR '';'', CHR ''.'', NUL, LF]"
  by code_simp

lemma tolower_class:
  "isspace (tolower c) = isspace c" "(tolower c = CHR '';'') = (c = CHR '';'')"
  "(tolower c = CHR ''.'') = (c = CHR ''.'')" "(tolower c = NUL) = (c = NUL)" "(tolower c = LF) = (c = LF)"
proof -
  have "tolower c = c \<or> (\<not> isspace c \<and> \<not> isspace (tolower c)
     \<and> c \<notin> set [CHR '';'', CHR ''.'', NUL, LF] \<and> tolower c \<notin> set [CHR '';'', CHR ''.'', NUL, LF])"
  proof (cases "CHR ''A'' \<le> c \<and> c \<le> CHR ''Z''")
    case True
    define n where "n = (of_char c :: nat)"
    have "65 \<le> n" "n < 91" using True by (simp_all add: n_def less_eq_char_def)
    moreover have "c = char_of n" by (simp add: n_def)
    ultimately have "c \<in> char_of ` {65..<91::nat}" by (intro image_eqI [of _ _ n]) simp_all
    then show ?thesis using upper_table unfolding set_map set_upt by blast
  next
    case False
    then show ?thesis unfolding tolower_def by (simp only: if_False simp_thms)
  qed
  then show "isspace (tolower c) = isspace c" "(tolower c = CHR '';'') = (c = CHR '';'')"
    "(tolower c = CHR ''.'') = (c = CHR ''.'')" "(tolower c = NUL) = (c = NUL)" "(tolower c = LF) = (c = LF)"
    by (elim disjE; simp)+
qed

lemma symchar_no: "\<not> symchar NUL" "\<not> symchar LF"
  by code_simp+

lemma symchar_clean: "symchar c \<Longrightarrow> c \<noteq> NUL \<and> c \<noteq> LF"
  using symchar_no by metis

lemma tolower_same:
  assumes "tolower d = tolower c"
  shows "isspace d = isspace c" "(d = CHR '';'') = (c = CHR '';'')" "(d = CHR ''.'') = (c = CHR ''.'')"
    "(d = NUL) = (c = NUL)" "(d = LF) = (c = LF)"
  using assms tolower_class by metis+

lemma plain_name_case: "map tolower a = map tolower b \<Longrightarrow> plain_name b \<Longrightarrow> plain_name a"
proof -
  assume m: "map tolower a = map tolower b" and b: "plain_name b"
  have l: "length a = length b" using m by (metis length_map)
  have t: "tolower (a ! i) = tolower (b ! i)" if "i < length b" for i
    using m that l by (metis nth_map)
  have "\<forall>c\<in>set a. \<not> isspace c \<and> c \<noteq> CHR '';''"
  proof
    fix c assume "c \<in> set a"
    then obtain i where i: "i < length b" "c = a ! i" using l unfolding in_set_conv_nth by auto
    then have "b ! i \<in> set b" by simp
    then have "\<not> isspace (b ! i) \<and> b ! i \<noteq> CHR '';''" using b unfolding plain_name_def by blast
    then show "\<not> isspace c \<and> c \<noteq> CHR '';''"
      using tolower_same(1,2) [OF t [OF i(1)]] i(2) by simp
  qed
  moreover have bn: "b \<noteq> []" using b unfolding plain_name_def by blast
  moreover have an: "a \<noteq> []" using l bn by (cases a; cases b) simp_all
  moreover have "tolower (hd a) = tolower (hd b)"
    using t [of 0] an bn by (simp add: hd_conv_nth)
  moreover have "char_at a 1 = CHR ''.'' \<longleftrightarrow> char_at b 1 = CHR ''.''"
    using tolower_same(3) [OF t [of 1]] l by (cases "1 < length b") (simp_all add: char_at_def)
  ultimately show ?thesis using b unfolding plain_name_def by metis
qed

definition clean :: "string \<Rightarrow> bool" where
  "clean s \<longleftrightarrow> NUL \<notin> set s \<and> LF \<notin> set s"

lemma clean_simps [simp]:
  "clean []" "clean (c # s) \<longleftrightarrow> c \<noteq> NUL \<and> c \<noteq> LF \<and> clean s" "clean (a @ b) \<longleftrightarrow> clean a \<and> clean b"
  by (auto simp: clean_def)

lemma blanks_clean: "blanks ws \<Longrightarrow> clean ws"
  by (auto simp: blanks_def clean_def)

lemma clean_case: "map tolower a = map tolower b \<Longrightarrow> clean b \<Longrightarrow> clean a"
proof (induction a arbitrary: b)
  case (Cons c a)
  then obtain d b' where "b = d # b'" "tolower c = tolower d" "map tolower a = map tolower b'"
    by (cases b) auto
  then show ?case using Cons tolower_same(4,5) [of c d] by auto
qed simp

lemma itoh_clean: "clean (itoh v)"
proof -
  have "c \<noteq> NUL \<and> c \<noteq> LF" if c: "c \<in> set (hex_digits n)" for c n
  proof -
    obtain d where d: "d < 16" "c = hex_digit d" using hex_digits_chars [OF c] by blast
    have "\<forall>d\<in>set [0..<16::nat]. hex_digit d \<noteq> NUL \<and> hex_digit d \<noteq> LF" by code_simp
    then show ?thesis using d by simp
  qed
  then show ?thesis by (auto simp: itoh_digits clean_def)
qed

text \<open>What fits a pattern without line ends is a part of one line.\<close>

lemma fits_clean: "fits neg sy p t \<Longrightarrow> CHR ''!'' \<notin> set p \<Longrightarrow> clean p \<Longrightarrow> clean t"
proof (induction p t rule: fits.induct)
  case (fits_symbol p v t)
  have "clean (tl p)" "CHR ''!'' \<notin> set (tl p)" using fits_symbol.prems by (cases p; simp)+
  moreover have "clean (sy ! v)" using fits_symbol.hyps(3) symchar_clean by (auto simp: clean_def)
  ultimately show ?case using fits_symbol.IH by simp
next
  case (fits_number k p t)
  have "set (snd (strtol16 p)) \<subseteq> set p" by (auto simp: strtol16_def dest: set_dropWhileD)
  then have "clean (snd (strtol16 p))" "CHR ''!'' \<notin> set (snd (strtol16 p))"
    using fits_number.prems by (auto simp: clean_def)
  moreover have "clean k" using clean_case [OF fits_number.hyps(2)] itoh_clean by (simp add: pattern_number_def)
  ultimately show ?case using fits_number.IH by simp
next
  case (fits_char c d p t)
  then show ?case using tolower_same(4,5) [of d c] by simp
qed (auto simp: blanks_clean)

lemma bang_class: "\<not> isdigit (CHR ''!'')" "\<not> ishex (CHR ''!'')" by code_simp+

lemma pattern_var_stop: "pattern_var (l @ CHR ''!'' # r) = pattern_var l"
  using bang_class(1)
  by (cases l) (simp_all add: pattern_var_def atoi_def takeWhile_stop' isdigit_def)

lemma strtol16_stop: "strtol16 (l @ CHR ''!'' # r) = (fst (strtol16 l), snd (strtol16 l) @ CHR ''!'' # r)"
  using bang_class(2) by (simp add: strtol16_def takeWhile_stop' dropWhile_stop')

text \<open>A pattern is matched line by line.\<close>

lemma fits_line_split:
  "fits neg sy q t \<Longrightarrow> q = l @ CHR ''!'' # p \<Longrightarrow> CHR ''!'' \<notin> set l \<Longrightarrow>
    \<exists>b ws ws' t'. t = b @ ws @ LF # NUL # ws' @ t' \<and> fits neg sy l b \<and> blanks ws \<and> blanks ws'
      \<and> (p = [] \<longrightarrow> ws' = []) \<and> fits neg sy p t'"
proof (induction q t arbitrary: l rule: fits.induct)
  case (fits_symbol q v t)
  obtain l1 where l: "l = CHR ''%'' # l1" using fits_symbol.prems by (cases l) auto
  then have q: "q = l1 @ CHR ''!'' # p" using fits_symbol.prems(1) by simp
  have v: "pattern_var l1 = Inr v" using fits_symbol.hyps(1) unfolding q pattern_var_stop .
  have "l1 \<noteq> []" using v by (auto simp: pattern_var_def isdigit_def)
  then have "tl q = tl l1 @ CHR ''!'' # p" "CHR ''!'' \<notin> set (tl l1)"
    using q fits_symbol.prems(2) l by (cases l1; simp)+
  then obtain b ws ws' t' where "t = b @ ws @ LF # NUL # ws' @ t'" "fits neg sy (tl l1) b" "blanks ws" "blanks ws'"
      "p = [] \<longrightarrow> ws' = []" "fits neg sy p t'" using fits_symbol.IH by blast
  then have r: "t = b @ ws @ LF # NUL # ws' @ t'" "blanks ws" "blanks ws'" "p = [] \<longrightarrow> ws' = []" "fits neg sy p t'"
    and b: "fits neg sy (tl l1) b" by simp_all
  have "fits neg sy l (sy ! v @ b)" unfolding l using v fits_symbol.hyps(2,3) b by (rule fits.fits_symbol)
  moreover have "sy ! v @ t = (sy ! v @ b) @ ws @ LF # NUL # ws' @ t'" using r(1) by simp
  ultimately show ?case using r(2-5) by blast
next
  case (fits_number k q t)
  obtain l1 where l: "l = CHR ''-'' # l1" using fits_number.prems by (cases l) auto
  then have q: "q = l1 @ CHR ''!'' # p" using fits_number.prems(1) by simp
  have k: "map tolower k = map tolower (pattern_number l1)"
    using fits_number.hyps(2) by (simp add: q strtol16_stop pattern_number_def)
  have "snd (strtol16 q) = snd (strtol16 l1) @ CHR ''!'' # p" by (simp add: q strtol16_stop)
  moreover have "CHR ''!'' \<notin> set (snd (strtol16 l1))"
    using fits_number.prems(2) l by (auto simp: strtol16_def dest: set_dropWhileD)
  ultimately obtain b ws ws' t' where r: "t = b @ ws @ LF # NUL # ws' @ t'" "blanks ws" "blanks ws'"
      "p = [] \<longrightarrow> ws' = []" "fits neg sy p t'" and b: "fits neg sy (snd (strtol16 l1)) b"
    using fits_number.IH by blast
  have "fits neg sy l (k @ b)" unfolding l using fits_number.hyps(1) k b by (rule fits.fits_number)
  moreover have "k @ t = (k @ b) @ ws @ LF # NUL # ws' @ t'" using r(1) by simp
  ultimately show ?case using r(2-5) by blast
next
  case (fits_space w q t)
  obtain l1 where l: "l = CHR '' '' # l1" using fits_space.prems by (cases l) auto
  then obtain b ws ws' t' where r: "t = b @ ws @ LF # NUL # ws' @ t'" "blanks ws" "blanks ws'"
      "p = [] \<longrightarrow> ws' = []" "fits neg sy p t'" and b: "fits neg sy l1 b"
    using fits_space.IH [of l1] fits_space.prems by auto
  have "fits neg sy l (w @ b)" unfolding l using fits_space.hyps(1,2) b by (rule fits.fits_space)
  moreover have "w @ t = (w @ b) @ ws @ LF # NUL # ws' @ t'" using r(1) by simp
  ultimately show ?case using r(2-5) by blast
next
  case (fits_line ws ws' q t)
  have l: "l = []" "q = p" using fits_line.prems by (cases l; simp)+
  have "fits neg sy l []" unfolding l(1) by (rule fits.fits_end)
  moreover have "ws @ LF # NUL # ws' @ t = [] @ ws @ LF # NUL # ws' @ t" by simp
  ultimately show ?case using fits_line.hyps l(2) by blast
next
  case (fits_char c d q t)
  have "c \<noteq> CHR ''!''" using fits_char.hyps(1) by (auto simp: special_def)
  then obtain l1 where l: "l = c # l1" using fits_char.prems by (cases l) auto
  then obtain b ws ws' t' where r: "t = b @ ws @ LF # NUL # ws' @ t'" "blanks ws" "blanks ws'"
      "p = [] \<longrightarrow> ws' = []" "fits neg sy p t'" and b: "fits neg sy l1 b"
    using fits_char.IH [of l1] fits_char.prems by auto
  have "fits neg sy l (d # b)" unfolding l using fits_char.hyps(1,2) b by (rule fits.fits_char)
  moreover have "d # t = (d # b) @ ws @ LF # NUL # ws' @ t'" using r(1) by simp
  ultimately show ?case using r(2-5) by blast
qed simp

text \<open>The size of a pattern, and what all patterns of the table have in common.\<close>

definition pat_size :: "string \<Rightarrow> nat option" where
  "pat_size p = lines_size (pieces (CHR ''!'') p)"

definition piece_ok :: "string \<Rightarrow> bool" where
  "piece_ok l \<longleftrightarrow> l \<noteq> [] \<and> (hd l = CHR '';'' \<or>
     (let nm = takeWhile (\<lambda>c. c \<noteq> CHR '' '') l in plain_name nm \<and> list_all (\<lambda>c. \<not> special c) nm))"

definition pattern_ok :: "string \<Rightarrow> bool" where
  "pattern_ok p \<longleftrightarrow> p \<noteq> [] \<and> complete (CHR ''!'') p \<and> clean p \<and> list_all piece_ok (pieces (CHR ''!'') p)"

text \<open>The saving of a sequence is the difference of the sizes, unless it looks for an unknown instruction.\<close>

definition saving_ok :: "peep_seq \<Rightarrow> bool" where
  "saving_ok e = (case e of (pat, repl, save) \<Rightarrow>
     pattern_ok pat \<and> pattern_ok repl
     \<and> (case pat_size pat of None \<Rightarrow> True
        | Some a \<Rightarrow> (case pat_size repl of None \<Rightarrow> False | Some b \<Rightarrow> word_of_nat a = word_of_nat b + save)))"

text \<open>
  The same with the table of sizes, by comparing characters for equality only, which the kernel
  evaluates quickly.
\<close>

definition piece_name :: "string \<Rightarrow> string" where
  "piece_name l = takeWhile (\<lambda>c. c \<noteq> CHR '' '') l"

definition quick_size :: "string \<Rightarrow> nat option" where
  "quick_size l = (if hd l = CHR '';'' then Some 0 else name_size (piece_name l))"

definition quick_ok :: "string \<Rightarrow> bool" where
  "quick_ok l \<longleftrightarrow> l \<noteq> [] \<and> (hd l = CHR '';'' \<or>
     ((piece_name l = ''loadi'' \<or> name_size (piece_name l) \<noteq> None) \<and> list_all (\<lambda>c. \<not> special c) (piece_name l)))"

fun quick_sizes :: "string list \<Rightarrow> nat option" where
  "quick_sizes [] = Some 0"
| "quick_sizes (l # ls) = add_size (quick_size l) (quick_sizes ls)"

definition quick_saving :: "peep_seq \<Rightarrow> bool" where
  "quick_saving e = (case e of (pat, repl, save) \<Rightarrow>
     let pp = pieces (CHR ''!'') pat; rp = pieces (CHR ''!'') repl in
     pat \<noteq> [] \<and> repl \<noteq> [] \<and> last pat = CHR ''!'' \<and> last repl = CHR ''!'' \<and> clean pat \<and> clean repl
     \<and> list_all quick_ok pp \<and> list_all quick_ok rp
     \<and> (case quick_sizes pp of None \<Rightarrow> True
        | Some a \<Rightarrow> (case quick_sizes rp of None \<Rightarrow> False | Some b \<Rightarrow> word_of_nat a = word_of_nat b + save)))"

lemma quick_savings: "list_all quick_saving sequences"
  by code_simp

lemma op_names_plain: "list_all (\<lambda>e. case op_name e of None \<Rightarrow> True | Some n \<Rightarrow> plain_name n) opcodelist"
  by code_simp

lemma loadi_plain: "plain_name ''loadi''"
  by code_simp

lemma known_plain: "instr_size nm \<noteq> None \<Longrightarrow> plain_name nm"
proof -
  assume a: "instr_size nm \<noteq> None"
  then obtain i where i: "findopcode nm (length nm) = Inr i" and n: "op_name (opcodelist ! i) \<noteq> None"
    by (auto simp: instr_size_def opcode_size_def split: sum.splits if_splits)
  have i0: "i \<noteq> 0" using n by (intro notI) (simp add: opcodelist_def op_name_def)
  obtain name where name: "op_name (opcodelist ! i) = Some name" using n by blast
  have "stricmp nm name = 0"
    using i i0 name by (auto simp: findopcode_def bindR_Inr_iff Let_def split: if_splits option.splits)
  then have "map tolower nm = map tolower name" by (simp add: stricmp_def)
  moreover have "plain_name name"
    using op_names_plain findopcode_in [OF i] name nth_mem by (fastforce simp: list_all_iff)
  ultimately show ?thesis by (rule plain_name_case)
qed

lemma quick_piece: "quick_ok l \<Longrightarrow> piece_ok l"
  unfolding quick_ok_def piece_ok_def name_size_def piece_name_def Let_def
  using known_plain loadi_plain by metis

lemma quick_size_eq: "quick_ok l \<Longrightarrow> line_size l = quick_size l"
proof -
  assume q: "quick_ok l"
  show ?thesis
  proof (cases "hd l = CHR '';''")
    case True
    then obtain r where "l = [] @ CHR '';'' # r" using q by (cases l) (auto simp: quick_ok_def)
    then show ?thesis using line_size_comment(1) [of "[]" r] True by (simp add: quick_size_def)
  next
    case False
    have p: "plain_name (piece_name l)" using q False known_plain loadi_plain unfolding quick_ok_def name_size_def by metis
    have "l = [] @ piece_name l @ dropWhile (\<lambda>c. c \<noteq> CHR '' '') l" by (simp add: piece_name_def)
    moreover have "dropWhile (\<lambda>c. c \<noteq> CHR '' '') l = [] \<or> isspace (hd (dropWhile (\<lambda>c. c \<noteq> CHR '' '') l))"
      using hd_dropWhile [of "\<lambda>c. c \<noteq> CHR '' ''" l] by force
    ultimately have "line_size l = instr_size (piece_name l)"
      using line_size_instr [OF _ p, of "[]"] by (metis append_Nil empty_iff list.set(1))
    then show ?thesis using False by (simp add: quick_size_def name_size_def)
  qed
qed

lemma quick_sizes_eq: "list_all quick_ok ls \<Longrightarrow> lines_size ls = quick_sizes ls"
  by (induction ls) (simp_all add: quick_size_eq)

lemma sequence_saving: "e \<in> set sequences \<Longrightarrow> saving_ok e"
proof -
  assume "e \<in> set sequences"
  then have q: "quick_saving e" using quick_savings by (simp add: list_all_iff)
  obtain pat repl save where e: "e = (pat, repl, save)" by (cases e) blast
  have "pattern_ok pat" "pattern_ok repl"
    using q e quick_piece by (auto simp: quick_saving_def pattern_ok_def complete_def Let_def list_all_iff)
  moreover have "pat_size pat = quick_sizes (pieces (CHR ''!'') pat)" "pat_size repl = quick_sizes (pieces (CHR ''!'') repl)"
    using q e by (simp_all add: quick_saving_def pat_size_def quick_sizes_eq Let_def)
  ultimately show ?thesis using q e by (simp add: saving_ok_def quick_saving_def Let_def split: option.splits)
qed

section \<open>Texts that fit a pattern have its size\<close>

lemma fits_plain:
  "fits neg sy (nm @ rest) b \<Longrightarrow> list_all (\<lambda>c. \<not> special c) nm \<Longrightarrow>
    \<exists>nm' rest'. b = nm' @ rest' \<and> map tolower nm' = map tolower nm \<and> fits neg sy rest rest'"
proof (induction nm arbitrary: b)
  case Nil
  then show ?case by (intro exI [of _ "[]"] exI [of _ b]) simp
next
  case (Cons c nm)
  have c: "\<not> special c" using Cons.prems(2) by simp
  obtain d b' where b: "b = d # b'" "tolower d = tolower c" "fits neg sy (nm @ rest) b'"
    using Cons.prems(1) c by (auto simp: special_def elim: fits_consE)
  have "list_all (\<lambda>c. \<not> special c) nm" using Cons.prems(2) by simp
  then obtain nm' rest' where "b' = nm' @ rest'" "map tolower nm' = map tolower nm" "fits neg sy rest rest'"
    using Cons.IH [OF b(3)] by blast
  then show ?case using b by (intro exI [of _ "d # nm'"] exI [of _ rest']) simp
qed

lemma blanks_space: "blanks ws \<Longrightarrow> \<forall>c\<in>set ws. isspace c"
  unfolding blanks_def using space_not_comment(3,4) by metis

lemma fits_line_size:
  assumes "fits neg sy l b" "piece_ok l" "blanks ws" "blanks ws2"
  shows "line_size (ws @ b @ ws2) = line_size l"
proof (cases "hd l = CHR '';''")
  case True
  then obtain r where l: "l = CHR '';'' # r" using assms(2) by (cases l) (auto simp: piece_ok_def)
  obtain d b' where b: "b = d # b'" "tolower d = tolower (CHR '';'')"
    using assms(1) unfolding l by (rule fits_consE) simp_all
  then have "b = CHR '';'' # b'" using tolower_same(2) by blast
  moreover have "line_size l = Some 0" using line_size_comment(1) [of "[]" r] l by simp
  ultimately show ?thesis using line_size_comment(1) [OF blanks_space [OF assms(3)]] by simp
next
  case False
  define nm where "nm = takeWhile (\<lambda>c. c \<noteq> CHR '' '') l"
  define rest where "rest = dropWhile (\<lambda>c. c \<noteq> CHR '' '') l"
  have l: "l = nm @ rest" by (simp add: nm_def rest_def)
  have p: "plain_name nm" "list_all (\<lambda>c. \<not> special c) nm"
    using assms(2) False by (auto simp: piece_ok_def nm_def Let_def)
  have r: "rest = [] \<or> hd rest = CHR '' ''"
    using hd_dropWhile [of "\<lambda>c. c \<noteq> CHR '' ''" l] by (force simp: rest_def)
  obtain nm' rest' where b: "b = nm' @ rest'" "map tolower nm' = map tolower nm" "fits neg sy rest rest'"
    using fits_plain [OF assms(1) [unfolded l] p(2)] by blast
  have r': "rest' = [] \<and> rest = [] \<or> rest' \<noteq> [] \<and> isspace (hd rest')"
  proof (cases rest)
    case Nil
    then show ?thesis using b(3) by (auto elim: fits_endE)
  next
    case (Cons c rs)
    then obtain w t where w: "rest' = w @ t" "blanks w" "w \<noteq> []"
      using b(3) r by (auto elim: fits_spaceE simp: special_def)
    then have "isspace (hd w)" using blanks_space [OF w(2)] by simp
    then show ?thesis using w by simp
  qed
  have "rest' @ ws2 = [] \<or> isspace (hd (rest' @ ws2)) \<or> hd (rest' @ ws2) = CHR '';''"
    using r' blanks_space [OF assms(4)] by (cases "rest'"; cases ws2) auto
  then have "line_size (ws @ nm' @ rest' @ ws2) = instr_size nm'"
    by (rule line_size_instr [OF blanks_space [OF assms(3)] plain_name_case [OF b(2) p(1)]])
  moreover have "line_size ([] @ nm @ rest) = instr_size nm"
    using r by (intro line_size_instr p(1)) auto
  ultimately show ?thesis using instr_size_case [OF b(2)] b(1) l by simp
qed

section \<open>A match stays inside the part that is optimized\<close>

lemma inside_step:
  assumes "s = a @ s1" "n1 = n - length a" "n1 > 0" "n \<le> length s" "complete NUL (take n s)"
  shows "n1 \<le> length s1" "complete NUL (take n1 s1)" "length s1 - length s' \<le> n1 \<Longrightarrow> length s - length s' \<le> n"
proof -
  show "n1 \<le> length s1" using assms(1,2,4) by simp
  have "take n s = a @ take n1 s1" using assms(1,2,3) by simp
  moreover have "take n1 s1 \<noteq> []" using assms(3) \<open>n1 \<le> length s1\<close> by auto
  ultimately show "complete NUL (take n1 s1)" using assms(5) by (simp add: complete_def)
  show "length s1 - length s' \<le> n1 \<Longrightarrow> length s - length s' \<le> n" using assms(1,2,3) by simp
qed

lemma first_nul_inside:
  assumes "n \<le> length s" "complete NUL (take n s)" "n > 0" "s = a @ NUL # r" "NUL \<notin> set a"
  shows "Suc (length a) \<le> n"
proof (rule ccontr)
  assume "\<not> Suc (length a) \<le> n"
  then have "n \<le> length a" by simp
  then have t: "take n s = take n a" using assms(4) by simp
  have "take n s \<noteq> []" using assms(1,3) by auto
  then have "last (take n s) = NUL" using assms(2) by (simp add: complete_def)
  then have "NUL \<in> set (take n a)" using \<open>take n s \<noteq> []\<close> t last_in_set by metis
  then show False using assms(5) in_set_takeD by metis
qed

lemma match_loop_inside:
  "match_loop p s n sy = Inr (Some (sy', s')) \<Longrightarrow> length sy = 4 \<Longrightarrow> p \<noteq> [] \<Longrightarrow> last p = CHR ''!'' \<Longrightarrow> n \<le> length s \<Longrightarrow>
    complete NUL (take n s) \<Longrightarrow> length s - length s' \<le> n"
proof (induction p s n sy rule: match_loop.induct)
  case (2 p pattern s n sy)
  note red = "2.prems"(1) [unfolded match_loop.simps(2)]
  note prems = "2.prems"
  have n: "n \<noteq> 0"
  proof
    assume "n = 0"
    then show False using red by simp
  qed
  have "p = CHR ''%'' \<or> p = CHR ''-'' \<or> p = CHR '' '' \<or> p = CHR ''!'' \<or> \<not> special p"
    by (auto simp: special_def)
  then consider (sym) "p = CHR ''%''" | (num) "p = CHR ''-''" | (blank) "p = CHR '' ''"
    | (line) "p = CHR ''!''" | (lit) "\<not> special p" by blast
  then show ?case
  proof cases
    case sym
    obtain v where v: "pattern_var pattern = Inr v" using red n sym by (cases "pattern_var pattern") simp_all
    have a: "char_at s 0 = CHR ''-'' \<or> alphanum (char_at s 0)"
      by (rule ccontr) (use red n sym v in simp)
    obtain r where r: "scan_symbol 0 s n = Inr r" using red n sym v a by (cases "scan_symbol 0 s n") simp_all
    obtain str s1 n1 where sc: "scan_symbol 0 s n = Inr (str, s1, n1)" using r by (cases r) simp
    have m: "(if sy ! v \<noteq> [] then if sy ! v \<noteq> str then Inr None else match_loop (tl pattern) s1 n1 sy
              else match_loop (tl pattern) s1 n1 (sy[v := str])) = Inr (Some (sy', s'))"
      using red n sym v a sc by simp
    have "isdigit (char_at pattern 0)" using v by (auto simp: pattern_var_def assertR_Inr_iff)
    then have tp: "tl pattern \<noteq> []" "last (tl pattern) = CHR ''!''"
      using prems(4) sym bang_class(1) by (cases pattern; cases "tl pattern"; auto simp: isdigit_def)+
    have s1: "s = str @ s1" "n1 = n - length str" using scan_symbol_symchars [OF sc] by blast+
    define sy1 where "sy1 = (if sy ! v \<noteq> [] then sy else sy[v := str])"
    have m1: "match_loop (tl pattern) s1 n1 sy1 = Inr (Some (sy', s'))" "length sy1 = 4"
      using m prems(2) by (simp add: sy1_def split: if_splits)+
    have n1: "n1 > 0" using match_loop_fits [OF m1] tp(1) by blast
    note st = inside_step [OF s1 n1 prems(5,6)]
    have "length s1 - length s' \<le> n1"
    proof (cases "sy ! v \<noteq> []")
      case True
      then show ?thesis using "2.IH"(1) [OF n sym v sc refl refl True] m m1 tp st(1,2)
        by (simp add: sy1_def split: if_splits)
    next
      case False
      then show ?thesis using "2.IH"(2) [OF n sym v sc refl refl False] m1 tp st(1,2) by (simp add: sy1_def)
    qed
    then show ?thesis by (rule st(3))
  next
    case num
    then obtain s1 n1 where k: "match_number (pattern_number pattern) s n = Inr (Some (s1, n1))"
      and m: "match_loop (snd (strtol16 pattern)) s1 n1 sy = Inr (Some (sy', s'))"
      using red n by (auto simp: bindR_Inr_iff pattern_number_def split: option.splits)
    obtain k' where k': "s = k' @ s1" "n1 = n - length k'"
      using match_number_fits [OF k] by (metis length_map)
    have "last pattern = CHR ''!''" "pattern \<noteq> []" using prems(4) num by (auto split: if_splits)
    then have "dropWhile ishex pattern \<noteq> []" using bang_class(2) last_in_set by (fastforce simp: dropWhile_eq_Nil_conv)
    then have tp: "snd (strtol16 pattern) \<noteq> []" "last (snd (strtol16 pattern)) = CHR ''!''"
      using \<open>last pattern = CHR ''!''\<close> bang_class(2) dropWhile_last [OF last_in_set [OF \<open>pattern \<noteq> []\<close>], of ishex]
      by (simp_all add: strtol16_def)
    have n1: "n1 > 0" using match_loop_fits [OF m prems(2)] tp(1) by blast
    note st = inside_step [OF k' n1 prems(5,6)]
    show ?thesis using "2.IH"(3) [OF n _ num k [unfolded pattern_number_def] refl refl m prems(2) tp st(1,2)] num
      by (intro st(3)) simp
  next
    case blank
    obtain s1 n1 where w: "skip_ws s n = Inr (s1, n1)" "s \<noteq> []" "hd s = TAB \<or> hd s = CHR '' ''"
      and m: "match_loop pattern s1 n1 sy = Inr (Some (sy', s'))"
      using red n blank by (auto simp: bindR_Inr_iff split: if_splits)
    obtain ws where ws: "s = ws @ s1" "n1 = n - length ws" using skip_ws_blanks [OF w(1)] by blast
    have tp: "pattern \<noteq> []" "last pattern = CHR ''!''" using prems(4) blank by (auto split: if_splits)
    have n1: "n1 > 0" using match_loop_fits [OF m prems(2)] tp(1) by blast
    note st = inside_step [OF ws n1 prems(5,6)]
    show ?thesis using "2.IH"(4) [OF n _ _ blank w(2) _ w(1) refl m prems(2) tp st(1,2)] w(3) blank
      by (intro st(3)) simp
  next
    case line
    obtain s1 n1 where w: "skip_ws s n = Inr (s1, n1)" "hd s1 = LF" "tl s1 \<noteq> []" "hd (tl s1) = NUL"
      and m: "(if pattern \<noteq> [] then bindR (skip_ws (drop 2 s1) (n1 - 2)) (\<lambda>(s2, n2). match_loop pattern s2 n2 sy)
              else match_loop pattern (drop 2 s1) (n1 - 2) sy) = Inr (Some (sy', s'))"
      using red n line by (auto simp: bindR_Inr_iff assertR_Inr_iff split: if_splits)
    obtain ws where ws: "s = ws @ s1" "blanks ws" "s1 \<noteq> []" "n1 = n - length ws" using skip_ws_blanks [OF w(1)] by auto
    have s1: "s1 = LF # NUL # drop 2 s1" using w ws(3) by (cases s1; cases "tl s1") auto
    have sn: "s = (ws @ [LF]) @ NUL # drop 2 s1" using ws(1) s1 by simp
    have "NUL \<notin> set (ws @ [LF])" using blanks_clean [OF ws(2)] by (simp add: clean_def)
    then have ln: "length ws + 2 \<le> n" using first_nul_inside [OF prems(5,6) _ sn] n by simp
    show ?thesis
    proof (cases "pattern = []")
      case True
      then have "s' = drop 2 s1" using m by (auto simp: match_loop.simps)
      then show ?thesis using ln ws(1) s1 by simp
    next
      case False
      then obtain s2 n2 where w2: "skip_ws (drop 2 s1) (n1 - 2) = Inr (s2, n2)"
        and m2: "match_loop pattern s2 n2 sy = Inr (Some (sy', s'))"
        using m by (auto simp: bindR_Inr_iff)
      obtain ws' where ws': "drop 2 s1 = ws' @ s2" "n2 = n1 - 2 - length ws'" using skip_ws_blanks [OF w2] by blast
      have tp: "pattern \<noteq> []" "last pattern = CHR ''!''" using prems(4) False by simp_all
      have n2: "n2 > 0" using match_loop_fits [OF m2 prems(2)] tp(1) by blast
      have s: "s = (ws @ [LF, NUL] @ ws') @ s2" using sn ws'(1) by simp
      have nn: "n2 = n - length (ws @ [LF, NUL] @ ws')" using ws(4) ws'(2) by simp
      note st = inside_step [OF s nn n2 prems(5,6)]
      show ?thesis
        using "2.IH"(5) [OF n _ _ _ line w(1) refl _ w(3) False w2 refl m2 prems(2) tp st(1,2)] w(2) line
        by (intro st(3)) simp
    qed
  next
    case lit
    then have l: "p \<noteq> CHR ''%''" "p \<noteq> CHR ''-''" "p \<noteq> CHR '' ''" "p \<noteq> CHR ''!''"
      by (auto simp: special_def)
    have s: "s \<noteq> []" "tolower (hd s) = tolower p" "match_loop pattern (tl s) (n - 1) sy = Inr (Some (sy', s'))"
      using red n l by (auto split: if_splits)
    have tp: "pattern \<noteq> []" "last pattern = CHR ''!''" using prems(4) l(4) by (auto split: if_splits)
    have n1: "n - 1 > 0" using match_loop_fits [OF s(3) prems(2)] tp(1) by blast
    have ss: "s = [hd s] @ tl s" "n - 1 = n - length [hd s]" using s(1) by simp_all
    note st = inside_step [OF ss n1 prems(5,6)]
    show ?thesis using "2.IH"(7) [OF n l s(1) _ s(3) prems(2) tp st(1,2)] s(2) by (intro st(3)) simp
  qed
qed simp

lemma matchsequence_inside:
  assumes "matchsequence s n p = Inr (Some (sy, ml))" "p \<noteq> []" "last p = CHR ''!''" "n \<le> length s" "complete NUL (take n s)"
  shows "ml \<le> n"
proof -
  obtain s1 n1 where l: "skip_lead s n = Inr (s1, n1)"
    using assms(1) by (cases "skip_lead s n") (auto simp: matchsequence_def)
  obtain s' where m: "match_loop p s1 n1 (replicate MAX_OPT_VARS []) = Inr (Some (sy, s'))" "ml = length s - length s'"
    using assms(1) l by (cases "match_loop p s1 n1 (replicate MAX_OPT_VARS [])")
      (auto simp: matchsequence_def split: option.splits)
  obtain ws where ws: "s = ws @ s1" "n1 = n - length ws" using skip_lead_blanks [OF l] by blast
  have l4: "length (replicate MAX_OPT_VARS []) = 4" by (simp add: MAX_OPT_VARS_def)
  have n1: "n1 > 0" using match_loop_fits [OF m(1) l4] assms(2) by blast
  note st = inside_step [OF ws n1 assms(4,5)]
  have "length s1 - length s' \<le> n1" using match_loop_inside [OF m(1) l4 assms(2,3) st(1,2)] .
  then show ?thesis using st(3) [of s'] m(2) by simp
qed

section \<open>Sizes before and after a replacement\<close>

text \<open>Every string ends with a line feed.\<close>

definition full_lines :: "string \<Rightarrow> bool" where
  "full_lines r \<longleftrightarrow> (\<forall>x\<in>set (pieces NUL r). complete LF x)"

lemma full_lines_simps [simp]:
  "full_lines []"
  "NUL \<notin> set l \<Longrightarrow> full_lines (l @ NUL # r) \<longleftrightarrow> complete LF l \<and> full_lines r"
  "complete NUL a \<Longrightarrow> full_lines (a @ b) \<longleftrightarrow> full_lines a \<and> full_lines b"
  by (auto simp: full_lines_def pieces_line pieces_append)

lemma fits_size:
  assumes "complete (CHR ''!'') p" "list_all piece_ok (pieces (CHR ''!'') p)" "clean p" "fits neg sy p t" "blanks ws" "p = [] \<longrightarrow> ws = []"
  shows "strings_size (ws @ t) = pat_size p \<and> complete NUL (ws @ t) \<and> full_lines (ws @ t)"
  using assms
proof (induction p arbitrary: t ws rule: complete_induct)
  case Nil
  then show ?case by (auto simp: pat_size_def elim: fits_endE)
next
  case (Line l r)
  obtain b w1 w2 t' where t: "t = b @ w1 @ LF # NUL # w2 @ t'" and f: "fits neg sy l b" "blanks w1" "blanks w2"
      "r = [] \<longrightarrow> w2 = []" "fits neg sy r t'"
    using fits_line_split [OF Line.prems(3) refl Line.hyps(1)] by blast
  have lo: "piece_ok l" "list_all piece_ok (pieces (CHR ''!'') r)" "clean l" "clean r"
    using Line.prems(1,2) Line.hyps(1) by (simp_all add: pieces_line)
  have ih: "strings_size (w2 @ t') = pat_size r \<and> complete NUL (w2 @ t') \<and> full_lines (w2 @ t')"
    using Line.IH [OF lo(2,4) f(5,3,4)] .
  have cl: "clean (ws @ b @ w1)"
    using fits_clean [OF f(1) Line.hyps(1) lo(3)] blanks_clean Line.prems(4) f(2) by simp
  have "text_size ((ws @ b @ w1) @ LF # []) = line_size l"
    using cl fits_line_size [OF f(1) lo(1) Line.prems(4) f(2)] by (subst text_size_simps(2)) (simp_all add: clean_def)
  moreover have e: "ws @ t = ((ws @ b @ w1) @ LF # []) @ NUL # (w2 @ t')" using t by simp
  ultimately have "strings_size (ws @ t) = add_size (line_size l) (pat_size r)"
    using cl ih unfolding e by (subst strings_size_simps(2)) (simp_all add: clean_def)
  moreover have "pat_size (l @ CHR ''!'' # r) = add_size (line_size l) (pat_size r)"
    using Line.hyps(1) by (simp add: pat_size_def pieces_line)
  moreover have "complete NUL (ws @ t)" using ih unfolding e by (auto simp: complete_def)
  moreover have "full_lines (ws @ t)" using cl ih unfolding e by (subst full_lines_simps(2)) (simp_all add: clean_def complete_def)
  ultimately show ?case by simp
qed

lemma fits_vars: "fits True sy p t \<Longrightarrow> v \<in> set (pat_vars p) \<Longrightarrow> \<forall>c\<in>set (sy ! v). symchar c"
  by (induction p t rule: fits.induct) (auto simp: pat_vars.simps(2) special_def split: if_splits)

text \<open>A replacement fits its pattern.\<close>

lemma repl_loop_fits:
  "repl_loop p sy k b = Inr r \<Longrightarrow> (\<forall>v\<in>set (rep_vars p). \<forall>c\<in>set (sy ! v). symchar c) \<Longrightarrow>
    \<exists>t. r = b @ t \<and> fits False sy p t"
proof (induction p sy k b rule: repl_loop.induct)
  case (1 symbols k b)
  then have "r = b @ []" by (auto simp: repl_loop.simps assertR_Inr_iff)
  then show ?case using fits.fits_end by blast
next
  case (2 p pattern sy k b)
  note red = "2.prems"(1) [unfolded repl_loop.simps(2) assertR_Inr_iff]
  show ?case
  proof (cases "p = CHR ''%''")
    case True
    obtain v where v: "pattern_var pattern = Inr v" using red True by (cases "pattern_var pattern") simp_all
    have m: "sy ! v \<noteq> []" "bindR (put_repl b k (sy ! v @ [NUL])) (\<lambda>b. repl_loop (tl pattern) sy k (butlast b)) = Inr r"
      using red True v by (simp_all add: assertR_Inr_iff)
    have put: "put_repl b k (sy ! v @ [NUL]) = Inr (b @ sy ! v @ [NUL])"
      using m(2) by (simp add: put_repl_def split: if_splits)
    have bl: "butlast (b @ sy ! v @ [NUL]) = b @ sy ! v" by (simp add: butlast_append)
    have rl: "repl_loop (tl pattern) sy k (b @ sy ! v) = Inr r" using m(2) put bl by simp
    have vs: "rep_vars (p # pattern) = v # rep_vars (tl pattern)" using True v by (simp add: rep_vars.simps(2))
    obtain t where t: "r = (b @ sy ! v) @ t" "fits False sy (tl pattern) t"
      using "2.IH"(1) [OF True v put] rl bl "2.prems"(2) vs red by auto
    have "fits False sy (CHR ''%'' # pattern) (sy ! v @ t)"
      using "2.prems"(2) vs by (intro fits.fits_symbol v m(1) t(2)) simp
    then show ?thesis using t(1) True by auto
  next
    case False
    define x where "x = (if p = CHR ''!'' then LF # NUL # (if pattern \<noteq> [] then [TAB] else []) else [p])"
    have b: "bindR (put_repl b k x) (repl_loop pattern sy k) = Inr r" using red False by (simp add: x_def)
    have put: "put_repl b k x = Inr (b @ x)" using b by (simp add: put_repl_def split: if_splits)
    have rl: "repl_loop pattern sy k (b @ x) = Inr r" using b put by simp
    have vs: "rep_vars (p # pattern) = rep_vars pattern" using False by (simp add: rep_vars.simps(2))
    obtain t where t: "r = (b @ x) @ t" "fits False sy pattern t"
      using "2.IH"(2) [OF False put [unfolded x_def]] rl "2.prems"(2) vs red by (auto simp: x_def)
    have "fits False sy (p # pattern) (x @ t)"
    proof (cases "p = CHR ''!''")
      case True
      have "fits False sy (CHR ''!'' # pattern) ([] @ LF # NUL # (if pattern \<noteq> [] then [TAB] else []) @ t)"
        by (rule fits.fits_line) (auto simp: blanks_def t(2))
      then show ?thesis using True by (simp add: x_def)
    next
      case nb: False
      show ?thesis
      proof (cases "p = CHR '' ''")
        case True
        then show ?thesis using fits.fits_space [of "[CHR '' '']" False sy pattern t] t(2) nb
          by (simp add: x_def blanks_def)
      next
        case ns: False
        then have "\<not> special p \<or> \<not> False \<and> p = CHR ''-''" using False nb by (auto simp: special_def)
        then have "fits False sy (p # pattern) (p # t)" using t(2) by (intro fits.fits_char) simp_all
        then show ?thesis using nb by (simp add: x_def)
      qed
    qed
    then show ?thesis using t(1) by auto
  qed
qed

lemma replacesequence_fits:
  assumes "replacesequence p sy = Inr r" "\<forall>v\<in>set (rep_vars p). \<forall>c\<in>set (sy ! v). symchar c"
  shows "\<exists>t. r = [TAB] @ t \<and> fits False sy p t"
proof -
  obtain k where k: "repl_length p sy = Inr k" "bindR (put_repl [] k [TAB]) (repl_loop p sy k) = Inr r"
    using assms(1) by (auto simp: replacesequence_def bindR_Inr_iff)
  then have "repl_loop p sy k [TAB] = Inr r" by (simp add: put_repl_def split: if_splits)
  then show ?thesis using repl_loop_fits [OF _ assms(2)] by blast
qed

text \<open>What a replacement does to the size, in terms of the saving.\<close>

definition saves :: "nat option \<Rightarrow> nat option \<Rightarrow> cell \<Rightarrow> bool" where
  "saves a b save \<longleftrightarrow> (\<forall>x. a = Some x \<longrightarrow> (\<exists>y. b = Some y \<and> word_of_nat x = word_of_nat y + save))"

lemma first_match_saves:
  "first_match seqs s n = Inr (Some (r, ml, save)) \<Longrightarrow> set seqs \<subseteq> set sequences \<Longrightarrow> n \<le> length s \<Longrightarrow> complete NUL (take n s) \<Longrightarrow>
    \<exists>c s'. s = c @ s' \<and> length c = ml \<and> ml \<le> n \<and> complete NUL c \<and> complete NUL r \<and> full_lines r \<and> r \<noteq> []
      \<and> saves (strings_size c) (strings_size r) save"
proof (induction seqs)
  case (Cons e seqs)
  obtain pat repl sv where e: "e = (pat, repl, sv)" by (cases e) blast
  show ?case
  proof (cases "matchsequence s n pat = Inr None")
    case True
    then show ?thesis using Cons e by simp
  next
    case False
    then obtain sy ml' where m: "matchsequence s n pat = Inr (Some (sy, ml'))"
      using Cons.prems(1) e by (cases "matchsequence s n pat") auto
    then have rs: "replacesequence repl sy = Inr r" "ml' = ml" "sv = save"
      using Cons.prems(1) e by (auto simp: bindR_Inr_iff assertR_Inr_iff)
    have es: "e \<in> set sequences" using Cons.prems(2) by simp
    have ok: "pattern_ok pat" "pattern_ok repl" using sequence_saving [OF es] e by (simp_all add: saving_ok_def)
    obtain ws t s' where t: "s = ws @ t @ s'" "blanks ws" "fits True sy pat t" "ml = length ws + length t"
      using matchsequence_fits [OF m] rs(2) by blast
    have c: "strings_size (ws @ t) = pat_size pat" "complete NUL (ws @ t)"
      using fits_size [of pat True sy t ws] ok(1) t(2,3) by (simp_all add: pattern_ok_def)
    have "shorter e" using sequences_shorter es by (simp add: list_all_iff)
    then have "set (rep_vars repl) \<subseteq> set (pat_vars pat)" using e unfolding shorter_def list_all_iff
      by (auto simp: count_list_0_iff intro!: count_notin) (metis count_list_0_iff le_zero_eq)
    then have "\<forall>v\<in>set (rep_vars repl). \<forall>c\<in>set (sy ! v). symchar c" using fits_vars [OF t(3)] by blast
    then obtain t2 where t2: "r = [TAB] @ t2" "fits False sy repl t2" using replacesequence_fits [OF rs(1)] by blast
    have r: "strings_size r = pat_size repl" "complete NUL r" "full_lines r"
      using fits_size [of repl False sy t2 "[TAB]"] ok(2) t2 by (simp_all add: pattern_ok_def blanks_def)
    have "saves (strings_size (ws @ t)) (strings_size r) save"
      using sequence_saving [OF es] e rs(3) unfolding c(1) r(1)
      by (auto simp: saving_ok_def saves_def split: option.splits)
    moreover have "ml \<le> n"
      using matchsequence_inside [OF m] ok(1) Cons.prems(3,4) rs(2) by (auto simp: pattern_ok_def complete_def)
    ultimately show ?thesis using t c(2) r(2,3) t2(1) by (intro exI [of _ "ws @ t"] exI [of _ s']) simp
  qed
qed simp

section \<open>The optimizer keeps the account\<close>

text \<open>A part of the buffer: whole strings, and within the buffer.\<close>

definition whole :: "string \<Rightarrow> nat \<Rightarrow> bool" where
  "whole s n \<longleftrightarrow> n \<le> length s \<and> complete NUL (take n s) \<and> full_lines (take n s)"

text \<open>The size of a part together with the code index: what a replacement must not change.\<close>

definition balance :: "string \<Rightarrow> nat \<Rightarrow> cell \<Rightarrow> string \<Rightarrow> nat \<Rightarrow> cell \<Rightarrow> bool" where
  "balance s n ci s1 n1 ci1 \<longleftrightarrow>
     (\<forall>k. strings_size (take n s) = Some k \<longrightarrow>
        (\<exists>k1. strings_size (take n1 s1) = Some k1 \<and> ci + word_of_nat k1 = ci1 + word_of_nat k))"

lemma balance_refl [simp]: "balance s n ci s n ci"
  by (simp add: balance_def)

lemma balance_trans: "balance s n ci s1 n1 ci1 \<Longrightarrow> balance s1 n1 ci1 s2 n2 ci2 \<Longrightarrow> balance s n ci s2 n2 ci2"
proof -
  assume a: "balance s n ci s1 n1 ci1" "balance s1 n1 ci1 s2 n2 ci2"
  show ?thesis unfolding balance_def
  proof (intro allI impI)
    fix k assume "strings_size (take n s) = Some k"
    then obtain k1 where k1: "strings_size (take n1 s1) = Some k1" "ci + word_of_nat k1 = ci1 + word_of_nat k"
      using a(1) by (auto simp: balance_def)
    then obtain k2 where k2: "strings_size (take n2 s2) = Some k2" "ci1 + word_of_nat k2 = ci2 + word_of_nat k1"
      using a(2) by (auto simp: balance_def)
    have "ci = ci1 + word_of_nat k - word_of_nat k1" using k1(2) by (simp add: eq_diff_eq)
    moreover have "ci1 = ci2 + word_of_nat k1 - word_of_nat k2" using k2(2) by (simp add: eq_diff_eq)
    ultimately have "ci + word_of_nat k2 = ci2 + word_of_nat k" by simp
    then show "\<exists>k1. strings_size (take n2 s2) = Some k1 \<and> ci + word_of_nat k1 = ci2 + word_of_nat k" using k2(1) by blast
  qed
qed

lemma strreplace_result:
  assumes "s = c @ s'" "length c = ml" "length r < ml" "ml \<le> n" "n \<le> length s"
  shows "strreplace s r ml (length r) n
    = Inr (r @ take (n - ml) s' @ replicate (ml - length r) (CHR 0xCC) @ drop (n - ml) s')"
proof -
  define k where "k = ml - length r"
  have k: "k > 0" "k \<le> n" "k + length r = ml" "\<not> n < k" using assms(3,4) by (simp_all add: k_def)
  define m where "m = take (n - k) (drop k s)"
  have lm: "length m = n - k" using assms(5) by (simp add: m_def)
  have p: "peek s k (n - k) = Inr m" using k assms(5) by (simp add: peek_def m_def)
  have b1: "blit s 0 m = Inr (m @ drop (n - k) s)" using lm assms(5) by (simp add: blit_def)
  have b2: "blit (m @ drop (n - k) s) (n - k) (replicate k (CHR 0xCC)) = Inr (m @ replicate k (CHR 0xCC) @ drop n s)"
    using lm assms(5) k by (simp add: blit_def)
  have b3: "blit (m @ replicate k (CHR 0xCC) @ drop n s) 0 r
      = Inr (r @ drop (length r) m @ replicate k (CHR 0xCC) @ drop n s)"
    using lm assms(4) k by (simp add: blit_def)
  have d: "drop (length r) m = take (n - ml) s'"
  proof -
    have "drop (length r) m = take (n - k - length r) (drop (length r + k) s)" by (simp add: m_def drop_take)
    moreover have "n - k - length r = n - ml" "length r + k = ml" using k by simp_all
    ultimately show ?thesis using assms(1,2) by simp
  qed
  have "drop n s = drop (n - ml) s'" using assms(1,2,4) by simp
  then show ?thesis using p b1 b2 b3 d k assms(3) by (simp add: strreplace_def Let_def peek_def k_def [symmetric])
qed

lemma replace_step:
  assumes w: "whole s n" "n > 0" and f: "first_match sequences s n = Inr (Some (r, ml, save))"
    and st: "strreplace s r ml (length r) n = Inr s1"
  shows "whole s1 (n - (ml - length r))" "n - (ml - length r) > 0"
    "balance s n ci s1 (n - (ml - length r)) (ci - save)" "length s1 = length s" "drop n s1 = drop n s"
proof -
  have w': "n \<le> length s" "complete NUL (take n s)" "full_lines (take n s)" using w by (simp_all add: whole_def)
  obtain c s' where c: "s = c @ s'" "length c = ml" "ml \<le> n" "complete NUL c" "complete NUL r" "full_lines r" "r \<noteq> []"
      and sv: "saves (strings_size c) (strings_size r) save"
    using first_match_saves [OF f _ w'(1,2)] by blast
  have lt: "length r < ml" using first_match_shorter [OF f sequences_shorter] by blast
  define n1 where "n1 = n - (ml - length r)"
  have n1: "n1 = length r + (n - ml)" using lt c(3) by (simp add: n1_def)
  have s1: "s1 = r @ take (n - ml) s' @ replicate (ml - length r) (CHR 0xCC) @ drop (n - ml) s'"
    using strreplace_result [OF c(1,2) lt c(3) w'(1)] st by simp
  have ls: "n - ml \<le> length s'" using w'(1) c(1,2) by simp
  have t: "take n s = c @ take (n - ml) s'" using c(1,2,3) by simp
  have t1: "take n1 s1 = r @ take (n - ml) s'" using ls by (simp add: s1 n1)
  have rest: "complete NUL (take (n - ml) s')"
    using w'(2) t by (cases "take (n - ml) s' = []") (simp_all add: complete_def)
  have "full_lines (take (n - ml) s')" using w'(3) c(4) unfolding t by simp
  then show "whole s1 (n - (ml - length r))"
    using t1 rest c(5,6) ls s1 n1 by (simp add: whole_def n1_def [symmetric])
  show "n - (ml - length r) > 0" using n1 c(7) by (simp add: n1_def [symmetric])
  show "balance s n ci s1 (n - (ml - length r)) (ci - save)"
    unfolding balance_def n1_def [symmetric]
  proof (intro allI impI)
    fix k assume "strings_size (take n s) = Some k"
    then obtain a b where ab: "strings_size c = Some a" "strings_size (take (n - ml) s') = Some b" "k = a + b"
      unfolding t using c(4) by (auto simp: add_size_Some)
    obtain y where y: "strings_size r = Some y" "word_of_nat a = word_of_nat y + save"
      using sv ab(1) by (auto simp: saves_def)
    have "strings_size (take n1 s1) = Some (y + b)" unfolding t1 using c(5) y(1) ab(2) by simp
    moreover have "ci + word_of_nat (y + b) = ci - save + word_of_nat k" using ab(3) y(2) by simp
    ultimately show "\<exists>k1. strings_size (take n1 s1) = Some k1 \<and> ci + word_of_nat k1 = ci - save + word_of_nat k" by blast
  qed
  show "length s1 = length s" using s1 c(1,2,3) lt ls by simp
  have "drop n s = drop (n - ml) s'" using c(1,2,3) by simp
  then show "drop n s1 = drop n s" using s1 ls lt c(3) by simp
qed

lemma opt_string_balance:
  "opt_string s n ci m = Inr (s1, n1, ci1, m1) \<Longrightarrow> whole s n \<Longrightarrow> n > 0 \<Longrightarrow>
    whole s1 n1 \<and> n1 > 0 \<and> balance s n ci s1 n1 ci1 \<and> length s1 = length s \<and> drop n s1 = drop n s \<and> n1 \<le> n"
proof (induction s n ci m rule: opt_string.induct)
  case (1 s n ci m)
  show ?case
  proof (cases "first_match sequences s n")
    case (Inr x)
    show ?thesis
    proof (cases x)
      case None
      then show ?thesis using "1.prems" Inr by (simp add: opt_string.simps [of s])
    next
      case (Some y)
      obtain r ml sv where y: "y = (r, ml, sv)" by (cases y)
      obtain s2 where s2: "strreplace s r ml (length r) n = Inr s2"
        using "1.prems" Inr Some y by (cases "strreplace s r ml (length r) n") (simp_all add: opt_string.simps [of s])
      have f: "first_match sequences s n = Inr (Some (r, ml, sv))" using Inr Some y by simp
      note st = replace_step [OF "1.prems"(2,3) f s2]
      let ?n = "n - (ml - length r)"
      have "whole s1 n1 \<and> n1 > 0 \<and> balance s2 ?n (ci - sv) s1 n1 ci1 \<and> length s1 = length s2 \<and> drop ?n s1 = drop ?n s2 \<and> n1 \<le> ?n"
        using "1.IH" [OF Inr Some y [symmetric] refl s2] "1.prems" f s2 st(1,2) by (simp add: opt_string.simps [of s])
      moreover have "drop n s1 = drop n s2"
      proof -
        have "n = ?n + (n - ?n)" by simp
        then show ?thesis using calculation by (metis drop_drop add.commute)
      qed
      ultimately show ?thesis using balance_trans [OF st(3)] st(4,5) by force
    qed
  qed (use "1.prems" in \<open>simp add: opt_string.simps [of s]\<close>)
qed

lemma opt_pass_balance:
  "opt_pass s n ci m = Inr (s1, n1, ci1, m1) \<Longrightarrow> whole s n \<Longrightarrow>
    whole s1 n1 \<and> balance s n ci s1 n1 ci1 \<and> length s1 = length s \<and> drop n s1 = drop n s \<and> n1 \<le> n"
proof (induction s n ci m arbitrary: s1 n1 ci1 m1 rule: opt_pass.induct)
  case (1 s n ci m)
  show ?case
  proof (cases "n = 0")
    case True
    then show ?thesis using "1.prems" by (simp add: opt_pass.simps [of s])
  next
    case False
    then obtain s2 n2 ci2 m2 where o: "opt_string s n ci m = Inr (s2, n2, ci2, m2)"
      using "1.prems"(1) by (cases "opt_string s n ci m") (auto simp: opt_pass.simps [of s])
    then obtain p where p: "strchr s2 NUL = Some p"
      using "1.prems"(1) False by (cases "strchr s2 NUL") (auto simp: opt_pass.simps [of s])
    obtain s3 n3 ci3 m3 where r: "opt_pass (drop (Suc p) s2) (n2 - Suc p) ci2 m2 = Inr (s3, n3, ci3, m3)"
      using "1.prems"(1) False o p
      by (cases "opt_pass (drop (Suc p) s2) (n2 - Suc p) ci2 m2") (auto simp: opt_pass.simps [of s])
    have res: "s1 = take (Suc p) s2 @ s3" "n1 = min n2 (Suc p) + n3" "ci1 = ci3"
      using "1.prems"(1) False o p r by (simp_all add: opt_pass.simps [of s])
    have b: "whole s2 n2" "n2 > 0" "balance s n ci s2 n2 ci2" "length s2 = length s" "drop n s2 = drop n s" "n2 \<le> n"
      using opt_string_balance [OF o "1.prems"(2)] False by simp_all
    have w2: "n2 \<le> length s2" "complete NUL (take n2 s2)" "full_lines (take n2 s2)" using b(1) by (simp_all add: whole_def)
    define l where "l = take p s2"
    define d where "d = drop (Suc p) s2"
    have pl: "p < length s2" "take (Suc p) s2 = takeWhile (\<lambda>x. x \<noteq> NUL) s2 @ [NUL]" using strchr_Some [OF p] by blast+
    have tk: "take (Suc p) s2 = take p s2 @ [s2 ! p]" using pl(1) by (simp add: take_Suc_conv_app_nth)
    have "take p s2 = takeWhile (\<lambda>x. x \<noteq> NUL) s2 \<and> s2 ! p = NUL"
      using pl(2) unfolding tk append1_eq_conv .
    then have l: "l = takeWhile (\<lambda>x. x \<noteq> NUL) s2" "s2 ! p = NUL" unfolding l_def by blast+
    have s2: "s2 = l @ NUL # d" unfolding l_def d_def using id_take_nth_drop [OF pl(1)] l(2) by metis
    have nl: "NUL \<notin> set l" using l(1) by (auto dest: set_takeWhileD)
    have le: "Suc p \<le> n2" using first_nul_inside [OF w2(1,2) b(2) s2 nl] pl(1) by (simp add: l_def)
    have ll: "length l = p" using pl(1) by (simp add: l_def)
    define n4 where "n4 = n2 - Suc p"
    have t2: "take n2 s2 = l @ NUL # take n4 d" using le ll by (simp add: s2 n4_def take_Cons' diff_diff_left)
    have wd: "whole d n4"
      using w2 nl pl(1) le unfolding t2 by (auto simp: whole_def complete_def d_def n4_def split: if_splits)
    have ih: "whole s3 n3" "balance d n4 ci2 s3 n3 ci3" "length s3 = length d" "drop n4 s3 = drop n4 d" "n3 \<le> n4"
      using "1.IH" [OF False o refl refl refl p r] wd unfolding d_def n4_def by blast+
    have n1: "n1 = Suc p + n3" using res(2) le by simp
    have s1: "s1 = l @ NUL # s3" using res(1) tk l(2) by (simp add: l_def)
    have t1: "take n1 s1 = l @ NUL # take n3 s3" using ll by (simp add: n1 s1)
    have "whole s1 n1"
      using ih(1) w2(3) nl ll unfolding whole_def t1 t2 by (auto simp: n1 s1 complete_def)
    moreover have "balance s2 n2 ci2 s1 n1 ci1"
      unfolding balance_def t1 t2 res(3)
    proof (intro allI impI)
      fix k assume "strings_size (l @ NUL # take n4 d) = Some k"
      then obtain x y where xy: "text_size l = Some x" "strings_size (take n4 d) = Some y" "k = x + y"
        using nl by (auto simp: add_size_Some)
      then obtain y1 where y1: "strings_size (take n3 s3) = Some y1" "ci2 + word_of_nat y1 = ci3 + word_of_nat y"
        using ih(2) by (auto simp: balance_def)
      have "ci2 + word_of_nat (x + y1) = ci3 + word_of_nat k"
        using y1(2) xy(3) by (simp add: add.left_commute)
      then show "\<exists>k1. strings_size (l @ NUL # take n3 s3) = Some k1 \<and> ci2 + word_of_nat k1 = ci3 + word_of_nat k"
        using nl xy(1) y1(1) by auto
    qed
    moreover have "length s1 = length s" using s1 s2 ih(3) b(4) by simp
    moreover have "drop n s1 = drop n s"
    proof -
      have "drop n2 s1 = drop n2 s2" using ih(4) le ll by (simp add: s1 s2 n4_def drop_Cons' diff_diff_left)
      moreover have "n = n2 + (n - n2)" using b(6) by simp
      ultimately have "drop n s1 = drop n s2" by (metis drop_drop add.commute)
      then show ?thesis using b(5) by simp
    qed
    moreover have "n1 \<le> n" using n1 ih(5) le b(6) by (simp add: n4_def)
    ultimately show ?thesis using balance_trans [OF b(3)] by blast
  qed
qed

lemma opt_loop_balance:
  "opt_loop s n ci = Inr (s1, n1, ci1) \<Longrightarrow> whole s n \<Longrightarrow>
    whole s1 n1 \<and> balance s n ci s1 n1 ci1 \<and> length s1 = length s \<and> drop n s1 = drop n s \<and> n1 \<le> n"
proof (induction s n ci rule: opt_loop.induct)
  case (1 s n ci)
  obtain s2 n2 ci2 m where p: "opt_pass s n ci 0 = Inr (s2, n2, ci2, m)"
    using "1.prems"(1) by (cases "opt_pass s n ci 0") (auto simp: opt_loop.simps [of s])
  note b = opt_pass_balance [OF p "1.prems"(2)]
  show ?case
  proof (cases "m > 0")
    case True
    then have "opt_loop s2 n2 ci2 = Inr (s1, n1, ci1)" using "1.prems"(1) p by (simp add: opt_loop.simps [of s])
    then have r: "whole s1 n1 \<and> balance s2 n2 ci2 s1 n1 ci1 \<and> length s1 = length s2 \<and> drop n2 s1 = drop n2 s2 \<and> n1 \<le> n2"
      using "1.IH" [OF p refl refl refl True] b by blast
    have "n = n2 + (n - n2)" using b by simp
    then have "drop n s1 = drop n s2" using r by (metis drop_drop add.commute)
    then show ?thesis using r b balance_trans by auto
  next
    case False
    then show ?thesis using "1.prems"(1) p b by (simp add: opt_loop.simps [of s])
  qed
qed

end
