(* ===== verification/Staging.thy ===== *)
theory Staging
  imports Peepsize Lists
begin

text \<open>
  The staging buffer of the code generator (\<open>amx/compiler/libpc300/sc7.c\<close>): the text of an
  expression is collected with marks for function arguments, put in order, optimized and
  written to the assembler file; outside expressions the buffer holds the line that is being
  written.

  The state has the globals of \<open>sc7.c\<close> and \<open>scvars.c\<close> that the buffer and the code generator
  use.  Memory for the buffer is always available; what fresh memory contains is the
  field \<open>stg_junk\<close>.  The assembler file is the text written so far.
\<close>

unbundle bit_operations_syntax

section \<open>The state\<close>

record cgstate =
  stgbuf :: "string option"
  stgidx :: nat
  staging :: bool
  stg_junk :: "nat \<Rightarrow> char"
  code_idx :: cell
  glb_declared :: cell
  litidx :: cell
  curseg :: segment
  sc_status :: status
  sc_debug :: int
  sc_asmfile :: bool
  sc_listing :: bool
  sc_stksize :: cell
  sc_dataalign :: cell
  ntv_funcid :: cell
  labnum :: int
  symtab :: store
  curfunc :: "nat option"
  fline :: int
  tagname_tab :: "constvalue list"
  sc_ctrlchar :: char
  outf :: string

definition sCHKBOUNDS :: int where "sCHKBOUNDS = 1"
definition sSYMBOLIC :: int where "sSYMBOLIC = 2"
definition sNOOPTIMIZE :: int where "sNOOPTIMIZE = 4"

definition sSTG_GROW :: nat where "sSTG_GROW = 512"
definition sSTG_MAX :: nat where "sSTG_MAX = 20480"

definition sSTARTREORDER :: char where "sSTARTREORDER = CHR 0x01"
definition sENDREORDER :: char where "sENDREORDER = CHR 0x02"
definition sEXPRSTART :: nat where "sEXPRSTART = 0x80"
definition sMAXARGS :: nat where "sMAXARGS = 127"

section \<open>The buffer\<close>

definition stgmax :: "cgstate \<Rightarrow> nat" where
  "stgmax st = (case stgbuf st of None \<Rightarrow> 0 | Some b \<Rightarrow> length b)"

definition grow_stgbuffer :: "cgstate \<Rightarrow> nat \<Rightarrow> cgstate res" where
  "grow_stgbuffer st requiredsize =
     assertR (stgmax st < requiredsize)
       (if requiredsize > sSTG_MAX then Inl (FatalError 102)
        else let newmax = requiredsize + sSTG_GROW in
          Inr (st\<lparr>stgbuf := Some (case stgbuf st of
              None \<Rightarrow> NUL # drop 1 (fresh (stg_junk st) newmax)
            | Some b \<Rightarrow> b @ drop (length b) (fresh (stg_junk st) newmax))\<rparr>))"

definition stgbuffer_cleanup :: "cgstate \<Rightarrow> cgstate" where
  "stgbuffer_cleanup st = st\<lparr>stgbuf := None\<rparr>"

definition check_stgbuffer :: "cgstate \<Rightarrow> nat \<Rightarrow> cgstate res" where
  "check_stgbuffer st index = (if index \<ge> stgmax st then grow_stgbuffer st (index + 1) else Inr st)"

definition put_stg :: "cgstate \<Rightarrow> nat \<Rightarrow> string \<Rightarrow> cgstate res" where
  "put_stg st i s =
     bindR (derefR (stgbuf st)) (\<lambda>b. bindR (blit b i s) (\<lambda>b'. Inr (st\<lparr>stgbuf := Some b'\<rparr>)))"

text \<open>The string at the start of the buffer.\<close>

definition stg_line :: "cgstate \<Rightarrow> string res" where
  "stg_line st = bindR (derefR (stgbuf st)) (\<lambda>b. if NUL \<in> set b then Inr (cstr_of b) else Inl OutOfBounds)"

definition stgmark :: "cgstate \<Rightarrow> char \<Rightarrow> cgstate res" where
  "stgmark st mark =
     (if staging st then
        bindR (check_stgbuffer st (stgidx st)) (\<lambda>st1.
        bindR (put_stg st1 (stgidx st1) [mark]) (\<lambda>st2. Inr (st2\<lparr>stgidx := stgidx st2 + 1\<rparr>)))
      else Inr st)"

definition pc_writeasm :: "cgstate \<Rightarrow> string \<Rightarrow> cgstate" where
  "pc_writeasm st str = st\<lparr>outf := outf st @ str\<rparr>"

definition filewrite :: "cgstate \<Rightarrow> string \<Rightarrow> cgstate" where
  "filewrite st str = (if sc_status st = statWRITE then pc_writeasm st str else st)"

fun stg_copy :: "cgstate \<Rightarrow> string \<Rightarrow> cgstate res" where
  "stg_copy st [] = Inr st"
| "stg_copy st (c # s) =
     bindR (check_stgbuffer st (stgidx st)) (\<lambda>st1.
     bindR (put_stg st1 (stgidx st1) [c]) (\<lambda>st2. stg_copy (st2\<lparr>stgidx := stgidx st2 + 1\<rparr>) s))"

definition stgwrite :: "cgstate \<Rightarrow> string \<Rightarrow> cgstate res" where
  "stgwrite st s =
     bindR (check_stgbuffer st 0) (\<lambda>st.
       if staging st then
         bindR (derefR (stgbuf st)) (\<lambda>b.
           let i = (if stgidx st \<ge> 2 \<and> b ! (stgidx st - 1) = NUL \<and> b ! (stgidx st - 2) \<noteq> LF
                    then stgidx st - 1 else stgidx st) in
           stg_copy (st\<lparr>stgidx := i\<rparr>) (s @ [NUL]))
       else
         bindR (stg_line st) (\<lambda>l.
         bindR (check_stgbuffer st (length l + length s + 1)) (\<lambda>st1.
         bindR (put_stg st1 (length l) (s @ [NUL])) (\<lambda>st2.
           let l2 = l @ s in
           if l2 \<noteq> [] \<and> last l2 = LF then put_stg (filewrite st2 l2) 0 [NUL] else Inr st2))))"

section \<open>Output\<close>

text \<open>\<open>filewrite\<close> of every string from a place up to the end of the part.\<close>

function write_strings :: "string \<Rightarrow> nat \<Rightarrow> string res" where
  "write_strings s n =
     (if n = 0 then Inr []
      else case strchr s NUL of
        None \<Rightarrow> Inl OutOfBounds
      | Some p \<Rightarrow> bindR (write_strings (drop (Suc p) s) (n - Suc p)) (\<lambda>t. Inr (take p s @ t)))"
  by pat_completeness auto
termination by (relation "measure (\<lambda>(s, n). n)") auto

declare write_strings.simps [simp del]

definition stgopt :: "cgstate \<Rightarrow> nat \<Rightarrow> nat \<Rightarrow> cgstate res" where
  "stgopt st start endp =
     bindR (derefR (stgbuf st)) (\<lambda>b.
     bindR (if sc_debug st AND sNOOPTIMIZE = 0 \<and> sc_status st = statWRITE
            then opt_loop (drop start b) (endp - start) (code_idx st)
            else Inr (drop start b, endp - start, code_idx st)) (\<lambda>(s, n, ci).
     bindR (write_strings s n) (\<lambda>t.
       Inr (filewrite (st\<lparr>stgbuf := Some (take start b @ s), code_idx := ci\<rparr>) t))))"

section \<open>Reordering\<close>

text \<open>
  The arguments of a block: where the code of each starts and ends.  Entries of the
  stack that were never set are \<open>None\<close>.
\<close>

type_synonym argstack = "nat \<Rightarrow> nat option \<times> nat option"

definition end_arg :: "argstack \<Rightarrow> nat option \<Rightarrow> nat \<Rightarrow> argstack" where
  "end_arg stack arg e = (case arg of None \<Rightarrow> stack | Some a \<Rightarrow> stack(a := (fst (stack a), Some e)))"

definition start_arg :: "argstack \<Rightarrow> nat \<Rightarrow> nat \<Rightarrow> argstack" where
  "start_arg stack a s = stack(a := (Some s, snd (stack a)))"

text \<open>The scan of a block: where it ends, the number of arguments and their places.\<close>

function reorder_scan ::
  "string \<Rightarrow> nat \<Rightarrow> nat \<Rightarrow> nat \<Rightarrow> nat option \<Rightarrow> argstack \<Rightarrow> (nat \<times> nat \<times> argstack) res" where
  "reorder_scan buf start nest argc arg stack =
     (if start \<ge> length buf then Inl OutOfBounds
      else if buf ! start = sSTARTREORDER then reorder_scan buf (start + 1) (nest + 1) argc arg stack
      else if buf ! start = sENDREORDER then
        if nest = 1 then Inr (start + 1, argc, end_arg stack arg start)
        else reorder_scan buf (start + 1) (nest - 1) argc arg stack
      else if of_char (buf ! start) \<ge> sEXPRSTART then
        if nest = 1 then
          let a = of_char (buf ! start) - sEXPRSTART in
          if a \<ge> sMAXARGS then Inl OutOfBounds
          else reorder_scan buf (start + 1) nest (if a \<ge> argc then a + 1 else argc) (Some a)
                 (start_arg (end_arg stack arg (start - 1)) a (start + 1))
        else reorder_scan buf (start + 1) nest argc arg stack
      else case strchr (drop start buf) NUL of
        None \<Rightarrow> Inl OutOfBounds
      | Some p \<Rightarrow> reorder_scan buf (start + p + 1) nest argc arg stack)"
  by pat_completeness auto
termination
  by (relation "measure (\<lambda>(buf, start, nest, argc, arg, stack). length buf - start)") auto

declare reorder_scan.simps [simp del]

text \<open>The places of the arguments in the order they are written, last argument first.\<close>

fun arg_segments :: "nat \<Rightarrow> argstack \<Rightarrow> (nat \<times> nat) list res" where
  "arg_segments 0 stack = Inr []"
| "arg_segments (Suc argc) stack =
     (case stack argc of
        (Some s, Some e) \<Rightarrow> bindR (arg_segments argc stack) (\<lambda>r. Inr ((s, e) # r))
      | _ \<Rightarrow> Inl OutOfBounds)"

text \<open>The end of the strings up to the next block.\<close>

function plain_end :: "string \<Rightarrow> nat \<Rightarrow> nat \<Rightarrow> nat res" where
  "plain_end buf ptr endp =
     (if \<not> ptr < endp then Inr ptr
      else if ptr \<ge> length buf then Inl OutOfBounds
      else if buf ! ptr = sSTARTREORDER then Inr ptr
      else case strchr (drop ptr buf) NUL of
        None \<Rightarrow> Inl OutOfBounds
      | Some p \<Rightarrow> plain_end buf (ptr + p + 1) endp)"
  by pat_completeness auto
termination by (relation "measure (\<lambda>(buf, ptr, e). length buf - ptr)") auto

declare plain_end.simps [simp del]

lemma reorder_scan_starts:
  "reorder_scan buf start nest argc arg stack = Inr (s', argc', stack') \<Longrightarrow>
    (\<forall>i s e. stack i = (Some s, e) \<longrightarrow> lo < s) \<Longrightarrow> lo \<le> start \<Longrightarrow>
    start < s' \<and> (\<forall>i s e. stack' i = (Some s, e) \<longrightarrow> lo < s)"
proof (induction buf start nest argc arg stack rule: reorder_scan.induct)
  case (1 buf start nest argc arg stack)
  have ends: "\<forall>i s e. end_arg stack arg x i = (Some s, e) \<longrightarrow> lo < s" for x
    using "1.prems"(2) by (auto simp: end_arg_def split: option.splits if_splits) (metis prod.collapse)
  have sts: "\<forall>i s e. start_arg (end_arg stack arg x) a (start + 1) i = (Some s, e) \<longrightarrow> lo < s" for x a
    using ends "1.prems"(3) by (auto simp: start_arg_def)
  have len: "\<not> start \<ge> length buf" using "1.prems"(1) by (auto simp: reorder_scan.simps [of buf start])
  note red = "1.prems"(1) [unfolded reorder_scan.simps [of buf start] if_not_P [OF len]]
  show ?case
  proof (cases "buf ! start = sSTARTREORDER")
    case True
    then show ?thesis using "1.IH"(1) [OF len True] red "1.prems"(2,3) by simp
  next
    case n1: False
    show ?thesis
    proof (cases "buf ! start = sENDREORDER")
      case True
      show ?thesis
      proof (cases "nest = 1")
        case nest: True
        then have "s' = start + 1" "stack' = end_arg stack arg start" using red n1 True by simp_all
        then show ?thesis using ends by simp
      next
        case False
        then show ?thesis using "1.IH"(2) [OF len n1 True False] red n1 True "1.prems"(2,3) by simp
      qed
    next
      case n2: False
      show ?thesis
      proof (cases "of_char (buf ! start) \<ge> sEXPRSTART")
        case True
        show ?thesis
        proof (cases "nest = 1")
          case nest: True
          then show ?thesis
            using "1.IH"(3) [OF len n1 n2 True nest refl] red n1 n2 True sts "1.prems"(3)
            by (simp add: Let_def split: if_splits)
        next
          case False
          then show ?thesis using "1.IH"(4) [OF len n1 n2 True False] red n1 n2 True "1.prems"(2,3) by simp
        qed
      next
        case n3: False
        then obtain p where p: "strchr (drop start buf) NUL = Some p"
          using red n1 n2 by (cases "strchr (drop start buf) NUL") simp_all
        show ?thesis using "1.IH"(5) [OF len n1 n2 n3 p] red n1 n2 n3 p "1.prems"(2,3) by simp
      qed
    qed
  qed
qed

lemma arg_segments_starts:
  "arg_segments n stack = Inr segs \<Longrightarrow> (\<forall>i s e. stack i = (Some s, e) \<longrightarrow> lo < s) \<Longrightarrow> \<forall>(s, e)\<in>set segs. lo < s"
  by (induction n arbitrary: segs) (fastforce simp: bindR_Inr_iff split: prod.splits option.splits)+

lemma plain_end_ge: "plain_end buf ptr e = Inr p \<Longrightarrow> ptr \<le> p"
proof (induction buf ptr e rule: plain_end.induct)
  case (1 buf ptr e)
  then show ?case by (subst (asm) (2) plain_end.simps) (auto split: if_splits option.splits)
qed

lemma plain_end_less:
  "plain_end buf ptr e = Inr p \<Longrightarrow> ptr < e \<Longrightarrow> buf ! ptr \<noteq> sSTARTREORDER \<Longrightarrow> ptr < p"
  by (subst (asm) plain_end.simps) (auto split: if_splits option.splits dest!: plain_end_ge)

definition seg_room :: "nat \<Rightarrow> (nat \<times> nat) list \<Rightarrow> nat" where
  "seg_room mx segs = foldr max (map (\<lambda>seg. mx - fst seg) segs) 0"

lemma seg_room_simps [simp]:
  "seg_room mx [] = 0" "seg_room mx (seg # segs) = max (mx - fst seg) (seg_room mx segs)"
  by (simp_all add: seg_room_def)

lemma seg_room_less: "\<forall>(s, e)\<in>set segs. lo < s \<Longrightarrow> lo < mx \<Longrightarrow> seg_room mx segs < mx - lo"
  by (induction segs) auto

lemma scan_room:
  assumes "reorder_scan b (Suc start) (Suc 0) 0 None (\<lambda>_. (None, None)) = Inr (ns, argc, stack)"
    and "arg_segments argc stack = Inr segs" "start < mx"
  shows "seg_room mx segs < mx - start" "mx - ns < mx - start"
proof -
  have r: "Suc start < ns \<and> (\<forall>i s e. stack i = (Some s, e) \<longrightarrow> start < s)"
    using reorder_scan_starts [OF assms(1), of start] by simp
  then show "seg_room mx segs < mx - start"
    using seg_room_less [OF arg_segments_starts [OF assms(2)]] assms(3) by blast
  show "mx - ns < mx - start" using r assms(3) by linarith
qed

text \<open>
  \<open>stgstring\<close> and its loop over the arguments of a block.  The first argument is the
  size of the buffer, beyond which nothing is read.
\<close>

function stgstring :: "nat \<Rightarrow> cgstate \<Rightarrow> nat \<Rightarrow> nat \<Rightarrow> cgstate res"
  and stgargs :: "nat \<Rightarrow> cgstate \<Rightarrow> (nat \<times> nat) list \<Rightarrow> cgstate res" where
  "stgstring mx st start endp =
     (if \<not> start < endp then Inr st
      else if start \<ge> mx then Inl OutOfBounds
      else case stgbuf st of
        None \<Rightarrow> Inl NullDeref
      | Some b \<Rightarrow>
          if b ! start = sSTARTREORDER then
            (case reorder_scan b (start + 1) 1 0 None (\<lambda>_. (None, None)) of
               Inl e \<Rightarrow> Inl e
             | Inr (next_start, argc, stack) \<Rightarrow>
                 (case arg_segments argc stack of
                    Inl e \<Rightarrow> Inl e
                  | Inr segs \<Rightarrow>
                      (case stgargs mx st segs of
                         Inl e \<Rightarrow> Inl e
                       | Inr st1 \<Rightarrow> stgstring mx st1 next_start endp)))
          else
            (case plain_end b start endp of
               Inl e \<Rightarrow> Inl e
             | Inr ptr \<Rightarrow> (case stgopt st start ptr of Inl e \<Rightarrow> Inl e | Inr st1 \<Rightarrow> stgstring mx st1 ptr endp)))"
| "stgargs mx st [] = Inr st"
| "stgargs mx st (seg # segs) =
     (case stgstring mx st (fst seg) (snd seg) of Inl e \<Rightarrow> Inl e | Inr st1 \<Rightarrow> stgargs mx st1 segs)"
  by pat_completeness auto

termination
proof (relation "inv_image (less_than <*lex*> less_than)
    (\<lambda>x. case x of Inl (mx, st, start, endp) \<Rightarrow> (mx - start, 0) | Inr (mx, st, segs) \<Rightarrow> (seg_room mx segs, Suc (length segs)))",
    goal_cases)
  case (4 mx st start endp b p st1)
  then show ?case using plain_end_less [of b start endp p] by (auto simp: less_imp_diff_less)
qed (auto simp: not_le dest: scan_room)

declare stgstring.simps [simp del] stgargs.simps [simp del]

section \<open>The operations of the buffer\<close>

definition stgout :: "cgstate \<Rightarrow> nat \<Rightarrow> cgstate res" where
  "stgout st index =
     (if \<not> staging st then Inr st
      else bindR (stgstring (stgmax st) st index (stgidx st)) (\<lambda>st1. Inr (st1\<lparr>stgidx := index\<rparr>)))"

definition stgdel :: "cgstate \<Rightarrow> nat \<Rightarrow> cell \<Rightarrow> cgstate" where
  "stgdel st index code_index =
     (if staging st then st\<lparr>stgidx := index, code_idx := code_index\<rparr> else st)"

text \<open>The index and the code index, when the buffer is in use.\<close>

definition stgget :: "cgstate \<Rightarrow> (nat \<times> cell) option" where
  "stgget st = (if staging st then Some (stgidx st, code_idx st) else None)"

definition stgset :: "cgstate \<Rightarrow> bool \<Rightarrow> cgstate res" where
  "stgset st onoff =
     (let st = st\<lparr>staging := onoff\<rparr> in
      bindR (if staging st then
               assertR (stgidx st = 0)
                 (bindR (check_stgbuffer (st\<lparr>stgidx := 0\<rparr>) 0) (\<lambda>st1.
                  bindR (stg_line st1) (\<lambda>l. Inr (if l \<noteq> [] then filewrite st1 l else st1))))
             else Inr st)
        (\<lambda>st1. put_stg st1 0 [NUL]))"

end
