(* ===== verification/Symbols.thy ===== *)
theory Symbols
  imports Symhash
begin

text \<open>
  The use of symbols (\<open>amx/compiler/libpc300/sc2.c\<close>): the list of the functions that refer to a
  symbol, and the marks for reading and writing it.
\<close>

unbundle bit_operations_syntax

section \<open>Usage flags\<close>

definition uDEFINE :: "16 word" where "uDEFINE = 0x01"
definition uREAD :: "16 word" where "uREAD = 0x02"
definition uWRITTEN :: "16 word" where "uWRITTEN = 0x04"
definition uPUBLIC :: "16 word" where "uPUBLIC = 0x10"
definition uNATIVE :: "16 word" where "uNATIVE = 0x20"

definition has_usage :: "symbol \<Rightarrow> 16 word \<Rightarrow> bool" where
  "has_usage s u \<longleftrightarrow> sym_usage s AND u \<noteq> 0"

section \<open>Referrers\<close>

text \<open>The first place that satisfies a condition, or the length of the list.\<close>

fun scan_refer :: "(nat option \<Rightarrow> bool) \<Rightarrow> nat option list \<Rightarrow> nat" where
  "scan_refer P [] = 0"
| "scan_refer P (r # rs) = (if P r then 0 else Suc (scan_refer P rs))"

text \<open>\<open>ok\<close> is the outcome of \<open>realloc\<close>.\<close>

definition refer_symbol :: "store \<Rightarrow> nat \<Rightarrow> nat \<Rightarrow> bool \<Rightarrow> (bool \<times> store) res" where
  "refer_symbol mem entry bywhom ok =
     bindR (deref mem entry) (\<lambda>e.
       let refer = sym_refer e; count = scan_refer (\<lambda>r. r = Some bywhom) refer in
       if count < length refer then Inr (True, mem)
       else
         let count = scan_refer (\<lambda>r. r = None) refer in
         if count = length refer then
           assertR (2 * length refer > 0)
             (if \<not> ok then Inr (False, mem)
              else Inr (True, mem(entry \<mapsto> e\<lparr>sym_refer :=
                (refer @ replicate (length refer) None)[length refer := Some bywhom]\<rparr>)))
         else assertR (refer ! count = None)
           (Inr (True, mem(entry \<mapsto> e\<lparr>sym_refer := refer[count := Some bywhom]\<rparr>))))"

text \<open>The flags are cast to a signed byte before they are added.\<close>

definition markusage :: "store \<Rightarrow> nat option \<Rightarrow> int \<Rightarrow> nat option \<Rightarrow> 16 word \<Rightarrow> bool \<Rightarrow> store res" where
  "markusage mem fn line sym_ptr usage ok =
     (case sym_ptr of
        None \<Rightarrow> Inl AssertFailed
      | Some a \<Rightarrow>
          bindR (deref mem a) (\<lambda>s.
            let s1 = s\<lparr>sym_usage := sym_usage s OR scast (ucast usage :: 8 word)\<rparr>;
                s2 = (if usage AND uWRITTEN \<noteq> 0 then s1\<lparr>sym_lnumber := line\<rparr> else s1);
                mem1 = mem(a \<mapsto> s2) in
            if usage AND (uREAD OR uWRITTEN) \<noteq> 0 \<and> sym_vclass s2 = sGLOBAL then
              (case fn of
                 None \<Rightarrow> Inr mem1
               | Some c \<Rightarrow> bindR (refer_symbol mem1 a c ok) (\<lambda>r. Inr (snd r)))
            else Inr mem1))"

end
