(* ===== verification/Codegen.thy ===== *)
theory Codegen
  imports Staging Symbols Opnames
begin

text \<open>
  The code generator (\<open>amx/compiler/libpc300/sc4.c\<close>): every function writes assembler
  text through the staging buffer and adds the size of the instructions to \<open>code_idx\<close>.

  A function of the source is an operation on the state; the statements of its body are a list
  of operations that run one after the other.
\<close>

unbundle bit_operations_syntax

type_synonym emitter = "cgstate \<Rightarrow> cgstate res"

fun run :: "emitter list \<Rightarrow> emitter" where
  "run [] st = Inr st"
| "run (f # fs) st = bindR (f st) (run fs)"

text \<open>The statements: writing text, adding to \<open>code_idx\<close>, an assertion, a read of the state.\<close>

definition wr :: "string \<Rightarrow> emitter" where
  "wr s st = stgwrite st s"

definition grow :: "nat \<Rightarrow> nat \<Rightarrow> emitter" where
  "grow opcodes opargs st = Inr (st\<lparr>code_idx := code_idx st + word_of_nat (4 * opcodes + 4 * opargs)\<rparr>)"

definition chk :: "bool \<Rightarrow> emitter" where
  "chk b st = assertR b (Inr st)"

definition using_state :: "(cgstate \<Rightarrow> emitter) \<Rightarrow> emitter" where
  "using_state f st = f st st"

text \<open>Access through a symbol pointer that the source asserts not to be null.\<close>

definition with_sym :: "nat option \<Rightarrow> (nat \<Rightarrow> symbol \<Rightarrow> emitter) \<Rightarrow> emitter" where
  "with_sym p f st =
     (case p of None \<Rightarrow> Inl AssertFailed | Some a \<Rightarrow> bindR (deref (symtab st) a) (\<lambda>s. f a s st))"

definition mark_sym :: "nat \<Rightarrow> 16 word \<Rightarrow> emitter" where
  "mark_sym a u st =
     bindR (markusage (symtab st) (curfunc st) (fline st) (Some a) u True) (\<lambda>m. Inr (st\<lparr>symtab := m\<rparr>))"

text \<open>A line with an instruction, and an instruction that a parameter follows.\<close>

definition ln :: "string \<Rightarrow> string" where "ln nm = TAB # nm @ [LF]"
definition instr :: "string \<Rightarrow> string" where "instr nm = TAB # nm @ '' ''"

definition outval :: "cell \<Rightarrow> bool \<Rightarrow> emitter" where
  "outval val newline = run (wr (itoh val) # (if newline then [wr [LF]] else []))"

datatype regid = sPRI | sALT

text \<open>The part of \<open>value\<close> (\<open>sc.h\<close>) that the code generator reads.\<close>

record lvalue =
  lv_sym :: "nat option"
  lv_ident :: ident

section \<open>Segments, lines and labels\<close>

definition begcseg :: emitter where
  "begcseg st =
     (if curseg st \<noteq> InCseg then
        run [wr [LF], wr (''CODE'' @ TAB # ''; ''), outval (code_idx st) True, \<lambda>st. Inr (st\<lparr>curseg := InCseg\<rparr>)] st
      else Inr st)"

definition begdseg :: emitter where
  "begdseg st =
     (if curseg st \<noteq> InDseg then
        run [wr [LF], wr (''DATA'' @ TAB # ''; ''), outval (glb_declared st - litidx st) True,
             \<lambda>st. Inr (st\<lparr>curseg := InDseg\<rparr>)] st
      else Inr st)"

definition setline :: "bool \<Rightarrow> emitter" where
  "setline chkbounds st =
     (if sc_debug st AND sSYMBOLIC \<noteq> 0 \<or> chkbounds \<and> sc_debug st AND sCHKBOUNDS \<noteq> 0 then
        run [wr (TAB # ''break'' @ TAB # ''; ''), outval (code_idx st) True, grow 1 0] st
      else Inr st)"

text \<open>\<open>sprintf\<close> of \<open>%d\<close>.\<close>

fun dec_digits :: "nat \<Rightarrow> string" where
  "dec_digits n = (if n < 10 then [char_of (48 + n)] else dec_digits (n div 10) @ [char_of (48 + n mod 10)])"

declare dec_digits.simps [simp del]

definition show_int :: "int \<Rightarrow> string" where
  "show_int i = (if i < 0 then CHR ''-'' # dec_digits (nat (- i)) else dec_digits (nat i))"

definition setfiledirect :: "string option \<Rightarrow> emitter" where
  "setfiledirect name st =
     (if sc_status st = statFIRST \<and> sc_listing st then
        (case name of None \<Rightarrow> Inl AssertFailed
         | Some n \<Rightarrow> Inr (pc_writeasm (pc_writeasm (pc_writeasm st ''#file '') n) [LF]))
      else Inr st)"

definition setlinedirect :: "int \<Rightarrow> emitter" where
  "setlinedirect line st =
     (if sc_status st = statFIRST \<and> sc_listing st
      then Inr (pc_writeasm st (''#line '' @ show_int line @ [LF])) else Inr st)"

definition setlabel :: "int \<Rightarrow> emitter" where
  "setlabel num =
     run [chk (num \<ge> 0), wr ''l.'', wr (itoh (word_of_int num)),
          \<lambda>st. if \<not> staging st then run [wr [TAB, TAB, CHR '';'', CHR '' ''], outval (code_idx st) False] st else Inr st,
          wr [LF]]"

datatype optmark = sEXPR | sPARM | sLDECL

definition markexpr :: "optmark \<Rightarrow> string option \<Rightarrow> cell \<Rightarrow> emitter" where
  "markexpr type name offset =
     (case type of
        sEXPR \<Rightarrow> run [wr (TAB # '';$exp'' @ [LF])]
      | sPARM \<Rightarrow> run [wr (TAB # '';$par'' @ [LF])]
      | sLDECL \<Rightarrow> (case name of
          None \<Rightarrow> chk False
        | Some n \<Rightarrow> run [wr (TAB # '';$lcl ''), wr n, wr '' '', outval offset True]))"

section \<open>Functions and the frame\<close>

definition startfunc :: "string \<Rightarrow> emitter" where
  "startfunc fname =
     run [wr (TAB # ''proc''),
          \<lambda>st. if sc_asmfile st then
                 bindR (funcdisplayname (tagname_tab st) fname) (\<lambda>symname. run [wr (TAB # ''; ''), wr symname] st)
               else Inr st,
          wr [LF], grow 1 0]"

definition endfunc :: emitter where
  "endfunc = run [wr [LF]]"

definition alignframe :: "int \<Rightarrow> emitter" where
  "alignframe numbytes =
     run [chk (length (filter (\<lambda>i. bit numbytes i) [0..<32]) = 1),
          wr (instr ''lctrl'' @ ''4'' @ [LF]),
          wr (instr ''const.alt''), outval (word_of_int (NOT (numbytes - 1))) True,
          wr (ln ''and''),
          wr (instr ''sctrl'' @ ''4'' @ [LF]), wr (instr ''sctrl'' @ ''5'' @ [LF]), grow 5 4]"

section \<open>Loading and storing\<close>

definition load_i :: emitter where
  "load_i = run [wr (ln ''load.i''), grow 1 0]"

definition rvalue :: "lvalue \<Rightarrow> emitter" where
  "rvalue lval =
     (case lv_ident lval of
        iARRAYCELL \<Rightarrow> load_i
      | iARRAYCHAR \<Rightarrow> run [wr (instr ''lodb.i''), outval 1 True, grow 1 1]
      | iREFERENCE \<Rightarrow> with_sym (lv_sym lval) (\<lambda>a s. run [
            chk (sym_vclass s = sLOCAL),
            wr (instr (if sym_vclass s = sLOCAL then ''lref.s.pri'' else ''lref.pri'')),
            outval (sym_addr s) True, mark_sym a uREAD, grow 1 1])
      | _ \<Rightarrow> with_sym (lv_sym lval) (\<lambda>a s. run [
            wr (instr (if sym_vclass s = sLOCAL then ''load.s.pri'' else ''load.pri'')),
            outval (sym_addr s) True, mark_sym a uREAD, grow 1 1]))"

definition address :: "nat option \<Rightarrow> regid \<Rightarrow> emitter" where
  "address p reg =
     with_sym p (\<lambda>a s. run [
       wr (instr (if sym_ident s = iREFARRAY \<or> sym_ident s = iREFERENCE
                  then (case reg of sPRI \<Rightarrow> ''load.s.pri'' | sALT \<Rightarrow> ''load.s.alt'')
                  else (case reg of
                      sPRI \<Rightarrow> (if sym_vclass s = sLOCAL then ''addr.pri'' else ''const.pri'')
                    | sALT \<Rightarrow> (if sym_vclass s = sLOCAL then ''addr.alt'' else ''const.alt'')))),
       outval (sym_addr s) True, mark_sym a uREAD, grow 1 1])"

definition addr_reg :: "cell \<Rightarrow> regid \<Rightarrow> emitter" where
  "addr_reg val reg =
     run [wr (instr (if reg = sPRI then ''addr.pri'' else ''addr.alt'')), outval val True, grow 1 1]"

definition load_argcount :: "regid \<Rightarrow> emitter" where
  "load_argcount reg =
     run [wr (instr (if reg = sPRI then ''load.s.pri'' else ''load.s.alt'')), outval 8 True, grow 1 1]"

definition pushreg :: "regid \<Rightarrow> emitter" where
  "pushreg reg = run [wr (case reg of sPRI \<Rightarrow> ln ''push.pri'' | sALT \<Rightarrow> ln ''push.alt''), grow 1 0]"

definition popreg :: "regid \<Rightarrow> emitter" where
  "popreg reg = run [wr (case reg of sPRI \<Rightarrow> ln ''pop.pri'' | sALT \<Rightarrow> ln ''pop.alt''), grow 1 0]"

definition moveto1 :: emitter where
  "moveto1 = run [wr (ln ''move.pri''), grow 1 0]"

definition move_alt :: emitter where
  "move_alt = run [wr (ln ''move.alt''), grow 1 0]"

definition swap1 :: emitter where
  "swap1 = run [wr (ln ''swap.pri''), grow 1 0]"

definition ob_add :: emitter where
  "ob_add = run [wr (ln ''add''), grow 1 0]"

definition load_hidden_arg :: emitter where
  "load_hidden_arg =
     run [pushreg sPRI, addr_reg 0xC sALT, load_argcount sPRI, ob_add, load_i, move_alt, popreg sPRI]"

definition store_value :: "lvalue \<Rightarrow> emitter" where
  "store_value lval =
     (case lv_ident lval of
        iARRAYCELL \<Rightarrow> run [wr (ln ''stor.i''), grow 1 0]
      | iARRAYCHAR \<Rightarrow> run [wr (instr ''strb.i''), outval 1 True, grow 1 1]
      | iREFERENCE \<Rightarrow> with_sym (lv_sym lval) (\<lambda>a s. run [
            wr (instr (if sym_vclass s = sLOCAL then ''sref.s.pri'' else ''sref.pri'')),
            outval (sym_addr s) True, grow 1 1])
      | _ \<Rightarrow> with_sym (lv_sym lval) (\<lambda>a s. run [
            mark_sym a uWRITTEN,
            wr (instr (if sym_vclass s = sLOCAL then ''stor.s.pri'' else ''stor.pri'')),
            outval (sym_addr s) True, grow 1 1]))"

definition storereg :: "cell \<Rightarrow> regid \<Rightarrow> emitter" where
  "storereg addr reg =
     run [wr (instr (if reg = sPRI then ''stor.pri'' else ''stor.alt'')), outval addr True, grow 1 1]"

definition memcopy :: "cell \<Rightarrow> emitter" where
  "memcopy nbytes = run [wr (instr ''movs''), outval nbytes True, grow 1 1]"

definition array_alt :: "symbol \<Rightarrow> emitter" where
  "array_alt s =
     run [chk (sym_ident s = iREFARRAY \<longrightarrow> sym_vclass s = sLOCAL),
          wr (instr (if sym_ident s = iREFARRAY then ''load.s.alt''
                     else if sym_vclass s = sLOCAL then ''addr.alt'' else ''const.alt''))]"

definition copyarray :: "nat option \<Rightarrow> cell \<Rightarrow> emitter" where
  "copyarray p nbytes =
     with_sym p (\<lambda>a s. run [array_alt s, outval (sym_addr s) True, mark_sym a uWRITTEN, grow 1 1, memcopy nbytes])"

definition ldconst :: "cell \<Rightarrow> regid \<Rightarrow> emitter" where
  "ldconst val reg =
     (case reg of
        sPRI \<Rightarrow> (if val = 0 then run [wr (ln ''zero.pri''), grow 1 0]
                 else run [wr (instr ''const.pri''), outval val True, grow 1 1])
      | sALT \<Rightarrow> (if val = 0 then run [wr (ln ''zero.alt''), grow 1 0]
                 else run [wr (instr ''const.alt''), outval val True, grow 1 1]))"

definition fillarray :: "nat option \<Rightarrow> cell \<Rightarrow> cell \<Rightarrow> emitter" where
  "fillarray p nbytes val =
     run [ldconst val sPRI,
          with_sym p (\<lambda>a s. run [array_alt s, outval (sym_addr s) True, mark_sym a uWRITTEN,
            chk (sint nbytes > 0), wr (instr ''fill''), outval nbytes True, grow 2 2])]"

definition pushval :: "cell \<Rightarrow> emitter" where
  "pushval val = run [wr (instr ''push.c''), outval val True, grow 1 1]"

section \<open>Switches, calls and jumps\<close>

definition ffswitch :: "cell \<Rightarrow> emitter" where
  "ffswitch label = run [wr (instr ''switch''), outval label True, grow 1 1]"

definition ffcase :: "cell \<Rightarrow> string \<Rightarrow> bool \<Rightarrow> emitter" where
  "ffcase val labelname newtable =
     run [if newtable then run [wr (ln ''casetbl''), grow 1 0] else run [],
          wr (instr ''case''), outval val False, wr '' '', wr labelname, wr [LF], grow 0 2]"

text \<open>The comment with the readable name of the called function.\<close>

definition name_comment :: "string \<Rightarrow> emitter" where
  "name_comment name st =
     bindR (funcdisplayname (tagname_tab st) name) (\<lambda>symname. run [wr (TAB # ''; ''), wr symname] st)"

definition ffcall :: "nat option \<Rightarrow> string option \<Rightarrow> int \<Rightarrow> emitter" where
  "ffcall p label numargs =
     with_sym p (\<lambda>a s. run [
       chk (sym_ident s = iFUNCTN),
       if has_usage s uNATIVE then
         run [chk (label = None),
              \<lambda>st. if sc_status st = statWRITE \<and> \<not> has_usage s uREAD \<and> 0 \<le> sint (sym_addr s)
                   then Inr (st\<lparr>symtab := (symtab st)(a \<mapsto> s\<lparr>sym_addr := ntv_funcid st\<rparr>), ntv_funcid := ntv_funcid st + 1\<rparr>)
                   else Inr st,
              wr (instr ''sysreq.c''),
              with_sym (Some a) (\<lambda>a s. outval (sym_addr s) False),
              \<lambda>st. if sc_asmfile st then name_comment (sym_name s) st else Inr st,
              wr (LF # instr ''stack''),
              outval (word_of_int ((numargs + 1) * 4)) True, grow 2 2]
       else
         run [wr (instr ''call''),
              (case label of Some l \<Rightarrow> run [wr ''l.'', wr l] | None \<Rightarrow> wr (sym_name s)),
              \<lambda>st. if sc_asmfile st \<and> (label \<noteq> None
                      \<or> \<not> isalpha (char_at (sym_name s) 0) \<and> char_at (sym_name s) 0 \<noteq> CHR ''_''
                        \<and> char_at (sym_name s) 0 \<noteq> sc_ctrlchar st)
                   then name_comment (sym_name s) st else Inr st,
              wr [LF], grow 1 1]])"

definition ffret :: emitter where
  "ffret = run [wr (ln ''retn''), grow 1 0]"

definition ffabort :: "cell \<Rightarrow> emitter" where
  "ffabort reason = run [wr (instr ''halt''), outval reason True, grow 1 1]"

definition ffbounds :: "cell \<Rightarrow> emitter" where
  "ffbounds sz st =
     (if sc_debug st AND sCHKBOUNDS \<noteq> 0 then run [wr (instr ''bounds''), outval sz True, grow 1 1] st else Inr st)"

definition jumplabel :: "cell \<Rightarrow> emitter" where
  "jumplabel num = run [wr (instr ''jump''), outval num True, grow 1 1]"

definition defstorage :: emitter where
  "defstorage = run [wr ''dump '']"

definition modstk :: "cell \<Rightarrow> emitter" where
  "modstk delta = (if delta \<noteq> 0 then run [wr (instr ''stack''), outval delta True, grow 1 1] else run [])"

definition setstk :: "cell \<Rightarrow> emitter" where
  "setstk val =
     run [wr (instr ''lctrl'' @ ''5'' @ [LF]), chk (sint val \<le> 0),
          if sint val < 0 then run [wr (instr ''add.c''), outval val True, grow 1 1] else run [],
          wr (instr ''sctrl'' @ ''4'' @ [LF]), grow 2 2]"

definition modheap :: "cell \<Rightarrow> emitter" where
  "modheap delta = (if delta \<noteq> 0 then run [wr (instr ''heap''), outval delta True, grow 1 1] else run [])"

definition setheap_pri :: emitter where
  "setheap_pri =
     run [wr (instr ''heap''), outval 4 True, wr (ln ''stor.i''), wr (ln ''move.pri''), grow 3 1]"

definition setheap :: "cell \<Rightarrow> emitter" where
  "setheap val = run [wr (instr ''const.pri''), outval val True, grow 1 1, setheap_pri]"

text \<open>The variants for cells of 32 bits and characters of 8 bits.\<close>

definition cell2addr :: emitter where
  "cell2addr = run [wr (instr ''shl.c.pri'' @ ''2'' @ [LF]), grow 1 1]"

definition cell2addr_alt :: emitter where
  "cell2addr_alt = run [wr (instr ''shl.c.alt'' @ ''2'' @ [LF]), grow 1 1]"

definition addr2cell :: emitter where
  "addr2cell = run [wr (instr ''shr.c.pri'' @ ''2'' @ [LF]), grow 1 1]"

definition char2addr :: emitter where
  "char2addr = run []"

definition charalign :: emitter where
  "charalign = run [wr (instr ''align.pri''), outval 1 True, grow 1 1]"

definition addconst :: "cell \<Rightarrow> emitter" where
  "addconst val = (if val \<noteq> 0 then run [wr (instr ''add.c''), outval val True, grow 1 1] else run [])"

section \<open>Operators\<close>

definition os_mult :: emitter where
  "os_mult = run [wr (ln ''smul''), grow 1 0]"

definition os_div :: emitter where
  "os_div = run [wr (ln ''sdiv.alt''), grow 1 0]"

definition os_mod :: emitter where
  "os_mod = run [wr (ln ''sdiv.alt''), wr (ln ''move.pri''), grow 2 0]"

definition ob_sub :: emitter where
  "ob_sub = run [wr (ln ''sub.alt''), grow 1 0]"

definition ob_sal :: emitter where
  "ob_sal = run [wr (ln ''xchg''), wr (ln ''shl''), grow 2 0]"

definition os_sar :: emitter where
  "os_sar = run [wr (ln ''xchg''), wr (ln ''sshr''), grow 2 0]"

definition ou_sar :: emitter where
  "ou_sar = run [wr (ln ''xchg''), wr (ln ''shr''), grow 2 0]"

definition ob_or :: emitter where
  "ob_or = run [wr (ln ''or''), grow 1 0]"

definition ob_xor :: emitter where
  "ob_xor = run [wr (ln ''xor''), grow 1 0]"

definition ob_and :: emitter where
  "ob_and = run [wr (ln ''and''), grow 1 0]"

definition ob_eq :: emitter where
  "ob_eq = run [wr (ln ''eq''), grow 1 0]"

definition ob_ne :: emitter where
  "ob_ne = run [wr (ln ''neq''), grow 1 0]"

definition relop_prefix :: emitter where
  "relop_prefix = run [wr (ln ''push.pri''), wr (ln ''move.pri''), grow 2 0]"

definition relop_suffix :: emitter where
  "relop_suffix = run [wr (ln ''swap.alt''), wr (ln ''and''), wr (ln ''pop.alt''), grow 3 0]"

definition os_lt :: emitter where
  "os_lt = run [wr (ln ''xchg''), wr (ln ''sless''), grow 2 0]"

definition os_le :: emitter where
  "os_le = run [wr (ln ''xchg''), wr (ln ''sleq''), grow 2 0]"

definition os_gt :: emitter where
  "os_gt = run [wr (ln ''xchg''), wr (ln ''sgrtr''), grow 2 0]"

definition os_ge :: emitter where
  "os_ge = run [wr (ln ''xchg''), wr (ln ''sgeq''), grow 2 0]"

definition lneg :: emitter where
  "lneg = run [wr (ln ''not''), grow 1 0]"

definition neg :: emitter where
  "neg = run [wr (ln ''neg''), grow 1 0]"

definition invert :: emitter where
  "invert = run [wr (ln ''invert''), grow 1 0]"

definition nooperation :: emitter where
  "nooperation = run [wr (ln ''nop''), grow 1 0]"

text \<open>Increment and decrement.\<close>

definition step_char :: "string \<Rightarrow> emitter" where
  "step_char op =
     run [wr (ln ''push.pri''), wr (ln ''push.alt''), wr (ln ''move.alt''),
          wr (instr ''lodb.i''), outval 1 True, wr (ln op), wr (instr ''strb.i''), outval 1 True,
          wr (ln ''pop.alt''), wr (ln ''pop.pri''), grow 8 2]"

definition step_ref :: "string \<Rightarrow> symbol \<Rightarrow> emitter" where
  "step_ref op s =
     run [wr (ln ''push.pri''), chk (sym_vclass s = sLOCAL),
          wr (instr (if sym_vclass s = sLOCAL then ''lref.s.pri'' else ''lref.pri'')), outval (sym_addr s) True,
          wr (ln op),
          wr (instr (if sym_vclass s = sLOCAL then ''sref.s.pri'' else ''sref.pri'')), outval (sym_addr s) True,
          wr (ln ''pop.pri''), grow 5 2]"

definition inc :: "lvalue \<Rightarrow> emitter" where
  "inc lval =
     (case lv_ident lval of
        iARRAYCELL \<Rightarrow> run [wr (ln ''inc.i''), grow 1 0]
      | iARRAYCHAR \<Rightarrow> step_char ''inc.pri''
      | iREFERENCE \<Rightarrow> with_sym (lv_sym lval) (\<lambda>a s. step_ref ''inc.pri'' s)
      | _ \<Rightarrow> with_sym (lv_sym lval) (\<lambda>a s. run [
            wr (instr (if sym_vclass s = sLOCAL then ''inc.s'' else ''inc'')), outval (sym_addr s) True, grow 1 1]))"

definition dec :: "lvalue \<Rightarrow> emitter" where
  "dec lval =
     (case lv_ident lval of
        iARRAYCELL \<Rightarrow> run [wr (ln ''dec.i''), grow 1 0]
      | iARRAYCHAR \<Rightarrow> step_char ''dec.pri''
      | iREFERENCE \<Rightarrow> with_sym (lv_sym lval) (\<lambda>a s. step_ref ''dec.pri'' s)
      | _ \<Rightarrow> with_sym (lv_sym lval) (\<lambda>a s. run [
            wr (instr (if sym_vclass s = sLOCAL then ''dec.s'' else ''dec'')), outval (sym_addr s) True, grow 1 1]))"

definition jmp_ne0 :: "cell \<Rightarrow> emitter" where
  "jmp_ne0 num = run [wr (instr ''jnz''), outval num True, grow 1 1]"

definition jmp_eq0 :: "cell \<Rightarrow> emitter" where
  "jmp_eq0 num = run [wr (instr ''jzer''), outval num True, grow 1 1]"

section \<open>The end of the file\<close>

text \<open>
  The loops that pad a segment.  They count in steps of four bytes modulo the alignment, so
  they end within as many turns as the alignment has bytes or not at all.
\<close>

fun pad_code :: "nat \<Rightarrow> emitter" where
  "pad_code turns st =
     (if code_idx st mod sc_dataalign st = 0 then Inr st
      else case turns of 0 \<Rightarrow> Inl NoReturn | Suc t \<Rightarrow> bindR (nooperation st) (pad_code t))"

fun pad_data :: "nat \<Rightarrow> emitter" where
  "pad_data turns st =
     (if glb_declared st * 4 mod sc_dataalign st = 0 then Inr st
      else case turns of 0 \<Rightarrow> Inl NoReturn
        | Suc t \<Rightarrow> bindR (wr ''0 '' st) (\<lambda>st. pad_data t (st\<lparr>glb_declared := glb_declared st + 1\<rparr>)))"

declare pad_code.simps [simp del] pad_data.simps [simp del]

definition writetrailer :: emitter where
  "writetrailer =
     run [using_state (\<lambda>st. chk (sc_dataalign st mod 4 = 0)), using_state (\<lambda>st. chk (sc_dataalign st \<noteq> 0)),
          \<lambda>st. if code_idx st mod sc_dataalign st \<noteq> 0
               then run [begcseg, pad_code (unat (sc_dataalign st))] st else Inr st,
          using_state (\<lambda>st. chk (litidx st = 0)),
          \<lambda>st. if glb_declared st * 4 mod sc_dataalign st \<noteq> 0
               then run [begdseg, defstorage, pad_data (unat (sc_dataalign st))] st else Inr st,
          wr (LF # ''STKSIZE ''),
          \<lambda>st. outval (sc_stksize st - sc_stksize st mod sc_dataalign st) True st]"

end
