(* ===== verification/Account.thy ===== *)
theory Account
  imports Codegen
begin

text \<open>
  The contract between the code generator (\<open>sc4.c\<close>) and the assembler (\<open>sc6.c\<close>): while it
  writes assembler text, the code generator counts in \<open>code_idx\<close> the bytes that the
  assembler will write for that text.  Labels, switch tables and the addresses of functions
  are taken from \<open>code_idx\<close>, so they are right only when the count is.
\<close>

section \<open>The text written so far\<close>

text \<open>A character of the text, as opposed to the marks in the staging buffer.\<close>

definition textchar :: "char \<Rightarrow> bool" where
  "textchar c \<longleftrightarrow> c \<noteq> NUL \<and> c \<noteq> sSTARTREORDER \<and> c \<noteq> sENDREORDER \<and> of_char c < sEXPRSTART"

lemma textchar_Char [simp]:
  "textchar (Char b0 b1 b2 b3 b4 b5 b6 b7) \<longleftrightarrow> \<not> b7 \<and> (b2 \<or> b3 \<or> b4 \<or> b5 \<or> b6 \<or> b0 \<and> b1)"
  by (cases b0; cases b1; cases b2; cases b3; cases b4; cases b5; cases b6; cases b7)
    (simp_all add: textchar_def sSTARTREORDER_def sENDREORDER_def sEXPRSTART_def)

definition plain_text :: "string \<Rightarrow> bool" where
  "plain_text s \<longleftrightarrow> list_all textchar s"

lemma plain_text_simps [simp]:
  "plain_text []" "plain_text (c # s) \<longleftrightarrow> textchar c \<and> plain_text s"
  "plain_text (a @ b) \<longleftrightarrow> plain_text a \<and> plain_text b"
  by (simp_all add: plain_text_def)

lemma plain_text_cstring: "plain_text s \<Longrightarrow> cstring s"
  by (auto simp: plain_text_def cstring_def list_all_iff textchar_def)

lemma plain_text_filter: "plain_text s \<Longrightarrow> filter textchar s = s"
  by (simp add: plain_text_def list_all_iff)

lemma plain_text_cstr_of: "plain_text s \<Longrightarrow> cstr_of (s @ NUL # r) = s"
  using plain_text_cstring [of s] by (auto simp: cstr_of_def cstring_def)

definition stg_text :: "cgstate \<Rightarrow> string" where
  "stg_text st =
     (case stgbuf st of None \<Rightarrow> []
      | Some b \<Rightarrow> if staging st then filter textchar (take (stgidx st) b) else cstr_of b)"

definition emitted :: "cgstate \<Rightarrow> string" where
  "emitted st = outf st @ stg_text st"

text \<open>The state in which code is written: the second pass, a buffer that is not empty, the index
  within it.\<close>

definition writing :: "cgstate \<Rightarrow> bool" where
  "writing st \<longleftrightarrow> sc_status st = statWRITE \<and> stgbuf st \<noteq> Some [] \<and> (staging st \<longrightarrow> stgidx st \<le> stgmax st)"

text \<open>
  The contents of the staging buffer up to the index, strings one after the other, and whether
  the next string starts behind them rather than continuing the last one.
\<close>

definition content :: "cgstate \<Rightarrow> string" where
  "content st = (case stgbuf st of None \<Rightarrow> [] | Some b \<Rightarrow> take (stgidx st) b)"

definition lines_of :: "string list \<Rightarrow> string" where
  "lines_of ss = concat (map (\<lambda>s. s @ [NUL]) ss)"

definition settled :: "string \<Rightarrow> bool" where
  "settled c \<longleftrightarrow> \<not> (length c \<ge> 2 \<and> last c = NUL \<and> c ! (length c - 2) \<noteq> LF)"

definition laid :: "string \<times> string \<Rightarrow> string \<Rightarrow> cgstate \<Rightarrow> bool" where
  "laid bs p st \<longleftrightarrow> (staging st \<longrightarrow> outf st = fst bs \<and> (settled (snd bs) \<longrightarrow>
     (\<exists>ss. content st = snd bs @ lines_of ss \<and> list_all (\<lambda>s. plain_text s \<and> s \<noteq> []) ss
        \<and> list_all (complete LF) (butlast ss) \<and> (p \<noteq> [] \<longrightarrow> ss \<noteq> [] \<and> last (last ss) = last p))))"

lemma lines_of_simps [simp]: "lines_of [] = []" "lines_of (s # ss) = s @ NUL # lines_of ss"
    "lines_of (ss @ ts) = lines_of ss @ lines_of ts"
  by (simp_all add: lines_of_def)

text \<open>Two states that differ in the buffer and the file only.\<close>

definition same_but_text :: "cgstate \<Rightarrow> cgstate \<Rightarrow> bool" where
  "same_but_text st st' \<longleftrightarrow>
     st\<lparr>stgbuf := None, stgidx := 0, outf := []\<rparr> = st'\<lparr>stgbuf := None, stgidx := 0, outf := []\<rparr>"

lemma same_but_text_refl [simp]: "same_but_text st st"
  by (simp add: same_but_text_def)

lemma same_but_text_trans: "same_but_text a b \<Longrightarrow> same_but_text b c \<Longrightarrow> same_but_text a c"
  by (simp add: same_but_text_def)

lemma same_but_text_updates [simp]:
  "same_but_text st (st'\<lparr>stgbuf := b\<rparr>) = same_but_text st st'"
  "same_but_text st (st'\<lparr>stgidx := i\<rparr>) = same_but_text st st'"
  "same_but_text st (st'\<lparr>outf := t\<rparr>) = same_but_text st st'"
  by (simp_all add: same_but_text_def)

lemma same_but_text_fields:
  assumes "same_but_text st st'"
  shows "staging st' = staging st" "code_idx st' = code_idx st" "sc_status st' = sc_status st"
    "symtab st' = symtab st" "tagname_tab st' = tagname_tab st"
  using assms unfolding same_but_text_def
  by (auto dest: arg_cong [of _ _ staging] arg_cong [of _ _ code_idx] arg_cong [of _ _ sc_status]
      arg_cong [of _ _ symtab] arg_cong [of _ _ tagname_tab])

section \<open>The staging buffer\<close>

lemma grow_stgbuffer_text:
  "grow_stgbuffer st n = Inr st' \<Longrightarrow>
    same_but_text st st' \<and> outf st' = outf st \<and> stgidx st' = stgidx st \<and> n \<le> stgmax st' \<and> stgmax st \<le> stgmax st' \<and>
    (\<forall>b. stgbuf st = Some b \<longrightarrow> (\<exists>r. stgbuf st' = Some (b @ r))) \<and>
    (stgbuf st = None \<longrightarrow> (\<exists>r. stgbuf st' = Some (NUL # r)))"
  by (auto simp: grow_stgbuffer_def assertR_Inr_iff Let_def stgmax_def split: if_splits option.splits)

lemma check_stgbuffer_text:
  "check_stgbuffer st n = Inr st' \<Longrightarrow>
    same_but_text st st' \<and> outf st' = outf st \<and> stgidx st' = stgidx st \<and> n < stgmax st' \<and> stgmax st \<le> stgmax st' \<and>
    (\<forall>b. stgbuf st = Some b \<longrightarrow> (\<exists>r. stgbuf st' = Some (b @ r))) \<and>
    (stgbuf st = None \<longrightarrow> (\<exists>r. stgbuf st' = Some (NUL # r)))"
  using grow_stgbuffer_text [of st "Suc n" st']
  by (auto simp: check_stgbuffer_def stgmax_def split: if_splits option.splits)

lemma put_stg_text:
  "put_stg st i s = Inr st' \<Longrightarrow> \<exists>b. stgbuf st = Some b \<and> i + length s \<le> length b \<and>
    st' = st\<lparr>stgbuf := Some (take i b @ s @ drop (i + length s) b)\<rparr>"
  by (auto simp: put_stg_def bindR_Inr_iff derefR_Inr_iff blit_Inr_iff)

lemma stg_copy_text:
  "stg_copy st s = Inr st' \<Longrightarrow> stgbuf st = Some b \<Longrightarrow> stgidx st \<le> length b \<Longrightarrow>
    same_but_text st st' \<and> outf st' = outf st \<and>
    (\<exists>b'. stgbuf st' = Some b' \<and> stgidx st' \<le> length b' \<and> take (stgidx st') b' = take (stgidx st) b @ s)"
proof (induction st s arbitrary: b rule: stg_copy.induct)
  case (2 st c s)
  obtain st1 where st1: "check_stgbuffer st (stgidx st) = Inr st1" using "2.prems"(1) by (auto simp: bindR_Inr_iff)
  obtain st2 where st2: "put_stg st1 (stgidx st1) [c] = Inr st2" using "2.prems"(1) st1 by (auto simp: bindR_Inr_iff)
  have rest: "stg_copy (st2\<lparr>stgidx := stgidx st2 + 1\<rparr>) s = Inr st'" using "2.prems"(1) st1 st2 by simp
  note c = check_stgbuffer_text [OF st1]
  obtain r where r: "stgbuf st1 = Some (b @ r)" using c "2.prems"(2) by blast
  have i: "stgidx st1 = stgidx st" using c by simp
  have b2: "st2 = st1\<lparr>stgbuf := Some (take (stgidx st) (b @ r) @ [c] @ drop (stgidx st + 1) (b @ r))\<rparr>"
    and l: "stgidx st + 1 \<le> length (b @ r)"
    using put_stg_text [OF st2] r i by auto
  define bb where "bb = take (stgidx st) (b @ r) @ [c] @ drop (stgidx st + 1) (b @ r)"
  have lb: "length bb = length (b @ r)" using l by (simp add: bb_def)
  have ih: "same_but_text (st2\<lparr>stgidx := stgidx st2 + 1\<rparr>) st' \<and> outf st' = outf st2 \<and>
    (\<exists>b'. stgbuf st' = Some b' \<and> stgidx st' \<le> length b' \<and> take (stgidx st') b' = take (stgidx st + 1) bb @ s)"
  proof -
    have e1: "stgbuf (st2\<lparr>stgidx := stgidx st2 + 1\<rparr>) = Some bb" by (simp add: b2 bb_def)
    have e2: "stgidx (st2\<lparr>stgidx := stgidx st2 + 1\<rparr>) = stgidx st + 1" using i by (simp add: b2)
    have e3: "stgidx st + 1 \<le> length bb" using l lb by simp
    show ?thesis using "2.IH" [OF st1 st2 rest e1, unfolded e2, OF e3] by simp
  qed
  have t: "take (stgidx st + 1) bb = take (stgidx st) b @ [c]" using "2.prems"(3) l by (simp add: bb_def)
  have "same_but_text st (st2\<lparr>stgidx := stgidx st2 + 1\<rparr>)" using c b2 by simp
  then have "same_but_text st st'" using ih same_but_text_trans by blast
  moreover have "outf st' = outf st" using ih c b2 by simp
  ultimately show ?case using ih unfolding t by simp
qed simp

text \<open>Writing text adds it to the text written so far, and changes nothing else.\<close>

lemma stgwrite_start:
  assumes "check_stgbuffer st 0 = Inr st0" "writing st"
  shows "same_but_text st st0" "stg_text st0 = stg_text st" "outf st0 = outf st" "stgidx st0 = stgidx st"
    "\<exists>b. stgbuf st0 = Some b \<and> b \<noteq> [] \<and> (staging st \<longrightarrow> stgidx st \<le> length b)"
    "staging st \<Longrightarrow> content st0 = content st"
proof -
  note c = check_stgbuffer_text [OF assms(1)]
  note f = same_but_text_fields [OF conjunct1 [OF c]]
  show "same_but_text st st0" "outf st0 = outf st" "stgidx st0 = stgidx st" using c by blast+
  show "stg_text st0 = stg_text st"
  proof (cases "stgbuf st")
    case None
    then obtain r where "stgbuf st0 = Some (NUL # r)" using c by blast
    then show ?thesis using c f(1) None assms(2) by (auto simp: stg_text_def cstr_of_def writing_def stgmax_def)
  next
    case (Some x)
    then have "st0 = st" using assms by (auto simp: check_stgbuffer_def stgmax_def writing_def)
    then show ?thesis by simp
  qed
  have "0 < stgmax st0" "stgmax st \<le> stgmax st0" using c by blast+
  then show "\<exists>b. stgbuf st0 = Some b \<and> b \<noteq> [] \<and> (staging st \<longrightarrow> stgidx st \<le> length b)"
    using assms(2) by (cases "stgbuf st0") (auto simp: stgmax_def writing_def)
  show "content st0 = content st" if "staging st"
  proof (cases "stgbuf st")
    case None
    then have "stgidx st = 0" using assms(2) that by (simp add: writing_def stgmax_def)
    then show ?thesis using c None by (simp add: content_def split: option.split)
  next
    case (Some x)
    then have "st0 = st" using assms by (auto simp: check_stgbuffer_def stgmax_def writing_def)
    then show ?thesis by simp
  qed
qed

lemma stgwrite_staged:
  assumes w: "stgwrite st s = Inr st'" and ok: "writing st" "plain_text s" and stg: "staging st"
  shows "same_but_text st st' \<and> writing st' \<and> emitted st' = emitted st @ s \<and>
    outf st' = outf st \<and> content st' = (if settled (content st) then content st else butlast (content st)) @ s @ [NUL]"
proof -
  obtain st0 where st0: "check_stgbuffer st 0 = Inr st0" using w by (auto simp: stgwrite_def bindR_Inr_iff)
  note s0 = stgwrite_start [OF st0 ok(1)]
  note f0 = same_but_text_fields [OF s0(1)]
  obtain b where b: "stgbuf st0 = Some b" "b \<noteq> []" "stgidx st \<le> length b" using s0(5) stg by blast
  have c0: "content st = take (stgidx st) b"
    using s0(6) stg b(1) s0(4) by (simp add: content_def)
  define i where "i = (if stgidx st0 \<ge> 2 \<and> b ! (stgidx st0 - 1) = NUL \<and> b ! (stgidx st0 - 2) \<noteq> LF
    then stgidx st0 - 1 else stgidx st0)"
  have i: "i \<le> stgidx st" using s0(4) by (simp add: i_def)
  have t: "filter textchar (take i b) = filter textchar (take (stgidx st) b)"
  proof (cases "i = stgidx st")
    case False
    then have "i = stgidx st - 1" "stgidx st \<ge> 2" "b ! (stgidx st - 1) = NUL"
      using s0(4) by (auto simp: i_def split: if_splits)
    then have "take (stgidx st) b = take i b @ [NUL]"
      using b(3) take_Suc_conv_app_nth [of i b] by simp
    then show ?thesis by (simp add: textchar_def)
  qed simp
  have cp: "stg_copy (st0\<lparr>stgidx := i\<rparr>) (s @ [NUL]) = Inr st'"
    using w st0 b(1) stg f0(1) by (simp add: stgwrite_def i_def Let_def)
  have res: "same_but_text (st0\<lparr>stgidx := i\<rparr>) st' \<and> outf st' = outf st0 \<and>
    (\<exists>b'. stgbuf st' = Some b' \<and> stgidx st' \<le> length b' \<and> take (stgidx st') b' = take i b @ s @ [NUL])"
    using stg_copy_text [OF cp, of b] b i by simp
  then obtain b' where b': "stgbuf st' = Some b'" "stgidx st' \<le> length b'" "take (stgidx st') b' = take i b @ s @ [NUL]"
    by blast
  have sm: "same_but_text st st'" using res s0(1) by (simp add: same_but_text_def)
  note f = same_but_text_fields [OF sm]
  have "b' \<noteq> []" using b'(3) by auto
  then have "writing st'" using ok(1) b' f by (simp add: writing_def stgmax_def)
  moreover have "stg_text st' = filter textchar (take (stgidx st) b) @ s"
    using b' f stg t plain_text_filter [OF ok(2)] by (simp add: stg_text_def textchar_def)
  moreover have "stg_text st = filter textchar (take (stgidx st) b)"
    using s0(2,4) b(1) f0(1) stg by (simp add: stg_text_def)
  moreover have "content st' = (if settled (content st) then content st else butlast (content st)) @ s @ [NUL]"
  proof -
    have "take i b = (if settled (content st) then content st else butlast (content st))"
    proof (cases "stgidx st \<ge> 2")
      case True
      then have "last (take (stgidx st) b) = b ! (stgidx st - 1)" "take (stgidx st) b ! (stgidx st - 2) = b ! (stgidx st - 2)"
        using b(2,3) last_conv_nth [of "take (stgidx st) b"] by (auto simp: min_absorb2)
      then show ?thesis using True b(3) s0(4) by (auto simp: i_def settled_def c0 butlast_take)
    qed (use b(3) s0(4) in \<open>auto simp: i_def settled_def c0\<close>)
    then show ?thesis using b' by (simp add: content_def)
  qed
  ultimately show ?thesis using sm res s0(3) by (simp add: emitted_def)
qed

lemma stgwrite_direct:
  assumes w: "stgwrite st s = Inr st'" and ok: "writing st" "plain_text s" and stg: "\<not> staging st"
  shows "same_but_text st st' \<and> writing st' \<and> emitted st' = emitted st @ s"
proof -
  obtain st0 where st0: "check_stgbuffer st 0 = Inr st0" using w by (auto simp: stgwrite_def bindR_Inr_iff)
  note s0 = stgwrite_start [OF st0 ok(1)]
  note f0 = same_but_text_fields [OF s0(1)]
  obtain b where b: "stgbuf st0 = Some b" "b \<noteq> []" using s0(5) by blast
  define l where "l = cstr_of b"
  have ln: "stg_line st0 = Inr l" and nul: "NUL \<in> set b"
    using w st0 stg f0(1) b(1) by (auto simp: stgwrite_def stg_line_def l_def bindR_Inr_iff split: if_splits)
  have l: "cstring l" "take (length l) b = l" "length l < length b"
  proof -
    show "cstring l" by (auto simp: l_def cstr_of_def cstring_def dest: set_takeWhileD)
    show "take (length l) b = l" unfolding l_def cstr_of_def by (rule takeWhile_eq_take [symmetric])
    obtain x y where "b = x @ NUL # y" "NUL \<notin> set x" using split_list_first [OF nul] by blast
    then show "length l < length b" by (simp add: l_def cstr_of_def)
  qed
  obtain st1 where st1: "check_stgbuffer st0 (length l + length s + 1) = Inr st1"
    using w st0 stg f0(1) ln by (auto simp: stgwrite_def bindR_Inr_iff)
  note c1 = check_stgbuffer_text [OF st1]
  obtain r where r: "stgbuf st1 = Some (b @ r)" using c1 b(1) by blast
  obtain st2 where st2: "put_stg st1 (length l) (s @ [NUL]) = Inr st2"
    using w st0 stg f0(1) ln st1 by (auto simp: stgwrite_def bindR_Inr_iff)
  obtain q where q: "st2 = st1\<lparr>stgbuf := Some (l @ s @ NUL # q)\<rparr>"
    using put_stg_text [OF st2] r l(2,3) by auto
  have st': "(if l @ s \<noteq> [] \<and> last (l @ s) = LF then put_stg (filewrite st2 (l @ s)) 0 [NUL] else Inr st2) = Inr st'"
    using w st0 stg f0(1) ln st1 st2 by (simp add: stgwrite_def Let_def)
  have sm2: "same_but_text st st2" using q c1 s0(1) same_but_text_trans by simp
  note f2 = same_but_text_fields [OF sm2]
  have wr: "sc_status st = statWRITE" using ok(1) by (simp add: writing_def)
  have em: "emitted st = outf st @ l" using s0(2) b(1) f0(1) stg by (simp add: emitted_def stg_text_def l_def)
  have out: "outf st2 = outf st" using q c1 s0(3) by simp
  have cs: "cstr_of (l @ s @ NUL # q) = l @ s"
    using l(1) plain_text_cstring [OF ok(2)] takeWhile_stop [of NUL "l @ s" q] by (simp add: cstr_of_def cstring_def)
  show ?thesis
  proof (cases "l @ s \<noteq> [] \<and> last (l @ s) = LF")
    case True
    then have p: "put_stg (filewrite st2 (l @ s)) 0 [NUL] = Inr st'" using st' by simp
    have fw: "filewrite st2 (l @ s) = st2\<lparr>outf := outf st @ l @ s\<rparr>"
      using f2 wr out by (simp add: filewrite_def pc_writeasm_def)
    obtain q' where "st' = st2\<lparr>outf := outf st @ l @ s, stgbuf := Some (NUL # q')\<rparr>"
      using put_stg_text [OF p] fw by auto
    then show ?thesis using sm2 f2 wr stg em by (simp add: writing_def emitted_def stg_text_def cstr_of_def)
  next
    case False
    then have "st' = st2" using st' by auto
    then show ?thesis using sm2 f2 wr stg em out q cs by (simp add: writing_def emitted_def stg_text_def)
  qed
qed

lemma stgwrite_emitted:
  "stgwrite st s = Inr st' \<Longrightarrow> writing st \<Longrightarrow> plain_text s \<Longrightarrow>
    same_but_text st st' \<and> writing st' \<and> emitted st' = emitted st @ s"
  using stgwrite_staged stgwrite_direct by blast

text \<open>The buffer stays a sequence of whole lines, but for the last one.\<close>

lemma stgwrite_laid:
  assumes w: "stgwrite st s = Inr st'" and ok: "writing st" "plain_text s" and l: "laid bs p st"
    and ne: "s \<noteq> [] \<or> p \<noteq> [] \<and> last p \<noteq> LF"
  shows "laid bs (p @ s) st'"
  unfolding laid_def
proof (intro impI conjI)
  assume stg: "staging st'"
  have st: "staging st" using stgwrite_emitted [OF w ok] same_but_text_fields(1) stg by blast
  note w' = stgwrite_staged [OF w ok st]
  then show "outf st' = fst bs" using l st by (simp add: laid_def)
  have c: "content st' = (if settled (content st) then content st else butlast (content st)) @ s @ [NUL]"
    using w' by blast
  assume b: "settled (snd bs)"
  obtain ss where ss: "content st = snd bs @ lines_of ss" "list_all (\<lambda>s. plain_text s \<and> s \<noteq> []) ss"
      "list_all (complete LF) (butlast ss)" "p \<noteq> [] \<Longrightarrow> ss \<noteq> [] \<and> last (last ss) = last p"
    using l st b by (auto simp: laid_def)
  show "\<exists>ss. content st' = snd bs @ lines_of ss \<and> list_all (\<lambda>s. plain_text s \<and> s \<noteq> []) ss
      \<and> list_all (complete LF) (butlast ss) \<and> (p @ s \<noteq> [] \<longrightarrow> ss \<noteq> [] \<and> last (last ss) = last (p @ s))"
  proof (cases ss rule: rev_cases)
    case Nil
    then have "s \<noteq> []" using ne ss(4) by auto
    then show ?thesis using c ss(1) Nil b ok(2) by (intro exI [of _ "[s]"]) simp
  next
    case (snoc i x)
    have x: "x \<noteq> []" "plain_text x" "list_all (\<lambda>s. plain_text s \<and> s \<noteq> []) i" "list_all (complete LF) i"
      using ss(2,3) snoc by simp_all
    obtain y z where yz: "x = y @ [z]" using x(1) by (cases x rule: rev_cases) auto
    have nz: "content st ! (length (content st) - 2) = z" "length (content st) \<ge> 2" "last (content st) = NUL"
      unfolding ss(1) snoc yz by (simp_all add: nth_append)
    show ?thesis
    proof (cases "settled (content st)")
      case True
      then have z: "z = LF" using nz by (simp add: settled_def)
      then have "s \<noteq> []" using ne ss(4) snoc yz by auto
      moreover have "complete LF x" using z yz by (simp add: complete_def)
      ultimately show ?thesis using c True ss(1) snoc x ok(2)
        by (intro exI [of _ "i @ [x] @ [s]"]) (simp add: butlast_append)
    next
      case False
      then have "content st' = snd bs @ lines_of (i @ [x @ s])" using c ss(1) snoc by (simp add: butlast_append)
      moreover have "p @ s \<noteq> [] \<longrightarrow> last (x @ s) = last (p @ s)"
        using ss(4) snoc by (cases "s = []") auto
      ultimately show ?thesis using x ok(2) by (intro exI [of _ "i @ [x @ s]"]) simp
    qed
  qed
qed

section \<open>The symbols\<close>

definition names_from :: "store \<Rightarrow> store \<Rightarrow> bool" where
  "names_from mem m \<longleftrightarrow> (\<forall>s\<in>ran m. \<exists>s0\<in>ran mem. sym_name s = sym_name s0)"

lemma names_from_refl [simp]: "names_from mem mem"
  by (auto simp: names_from_def)

lemma names_from_update: "mem a = Some s0 \<Longrightarrow> sym_name s = sym_name s0 \<Longrightarrow> names_from mem (mem(a \<mapsto> s))"
  by (auto simp: names_from_def ran_def)

lemma names_from_trans: "names_from a b \<Longrightarrow> names_from b c \<Longrightarrow> names_from a c"
  unfolding names_from_def by metis

lemma refer_symbol_names: "refer_symbol mem e w ok = Inr (r, m) \<Longrightarrow> names_from mem m"
  by (auto simp: refer_symbol_def bindR_Inr_iff deref_def Let_def assertR_Inr_iff split: if_splits option.splits
      intro!: names_from_update)

lemma markusage_names: "markusage mem fn line p u ok = Inr m \<Longrightarrow> names_from mem m"
proof -
  assume a: "markusage mem fn line p u ok = Inr m"
  then obtain x s where x: "p = Some x" "mem x = Some s"
    by (auto simp: markusage_def bindR_Inr_iff deref_def split: option.splits)
  define s2 where "s2 = (let s1 = s\<lparr>sym_usage := sym_usage s OR scast (ucast u :: 8 word)\<rparr> in
    if u AND uWRITTEN \<noteq> 0 then s1\<lparr>sym_lnumber := line\<rparr> else s1)"
  have n: "names_from mem (mem(x \<mapsto> s2))" using x(2) by (rule names_from_update) (simp add: s2_def Let_def)
  have "m = mem(x \<mapsto> s2) \<or> (\<exists>c r. refer_symbol (mem(x \<mapsto> s2)) x c ok = Inr (r, m))"
    using a x by (auto simp: markusage_def bindR_Inr_iff deref_def s2_def Let_def split: option.splits if_splits)
  then show ?thesis using n refer_symbol_names names_from_trans by blast
qed

section \<open>Counting\<close>

text \<open>Names that stay within a line.\<close>

definition clean_text :: "string \<Rightarrow> bool" where
  "clean_text s \<longleftrightarrow> plain_text s \<and> LF \<notin> set s"

lemma clean_text_simps [simp]: "clean_text []" "clean_text (c # s) \<longleftrightarrow> textchar c \<and> c \<noteq> LF \<and> clean_text s"
    "clean_text (a @ b) \<longleftrightarrow> clean_text a \<and> clean_text b"
  by (auto simp: clean_text_def)

lemma clean_text_plain [simp]: "clean_text s \<Longrightarrow> plain_text s"
  by (simp add: clean_text_def)

definition names_clean :: "cgstate \<Rightarrow> bool" where
  "names_clean st \<longleftrightarrow>
     (\<forall>s\<in>ran (symtab st). clean_text (sym_name s)) \<and> (\<forall>v\<in>set (tagname_tab st). clean_text (cv_name v))"

lemma code_idx_update [simp]:
  "emitted (st\<lparr>code_idx := x\<rparr>) = emitted st" "writing (st\<lparr>code_idx := x\<rparr>) = writing st"
  "names_clean (st\<lparr>code_idx := x\<rparr>) = names_clean st" "laid bs p (st\<lparr>code_idx := x\<rparr>) = laid bs p st"
  by (simp_all add: laid_def content_def emitted_def stg_text_def writing_def stgmax_def names_clean_def split: option.split)

text \<open>
  Since the state \<open>st0\<close>, whole lines and the line \<open>p\<close> were written; \<open>n\<close> bytes of the whole
  lines are not yet in \<open>code_idx\<close>.
\<close>

definition tally :: "string \<times> string \<Rightarrow> cgstate \<Rightarrow> string \<Rightarrow> cell \<Rightarrow> cgstate \<Rightarrow> bool" where
  "tally bs st0 p n st \<longleftrightarrow> writing st \<and> names_clean st \<and> staging st = staging st0 \<and> laid bs p st \<and>
     (\<exists>t k. emitted st = emitted st0 @ t @ p \<and> complete LF t \<and> text_size t = Some k
        \<and> code_idx st + n = code_idx st0 + word_of_nat k)"

definition settles :: "string \<Rightarrow> cell \<Rightarrow> emitter list \<Rightarrow> bool" where
  "settles p n fs \<longleftrightarrow> (\<forall>bs st0 st st'. tally bs st0 p n st \<longrightarrow> run fs st = Inr st' \<longrightarrow> tally bs st0 [] 0 st')"

text \<open>An operation that writes whole lines and counts them.\<close>

definition counted :: "emitter \<Rightarrow> bool" where
  "counted f \<longleftrightarrow> settles [] 0 [f]"

lemma settlesI: "(\<And>bs st0 st st'. tally bs st0 p n st \<Longrightarrow> run fs st = Inr st' \<Longrightarrow> tally bs st0 [] 0 st') \<Longrightarrow> settles p n fs"
  by (simp add: settles_def)

lemma settlesD: "settles p n fs \<Longrightarrow> tally bs st0 p n st \<Longrightarrow> run fs st = Inr st' \<Longrightarrow> tally bs st0 [] 0 st'"
  unfolding settles_def by blast

lemma run_append: "run (fs @ gs) st = bindR (run fs st) (run gs)"
  by (induction fs arbitrary: st) (auto simp: bindR_def split: sum.splits)

lemma laid_closed: "laid bs p st \<Longrightarrow> laid bs [] st"
  by (auto simp: laid_def)

lemma laid_last: "laid bs p st \<Longrightarrow> p \<noteq> [] \<Longrightarrow> last q = last p \<Longrightarrow> laid bs q st"
  unfolding laid_def by metis

lemma laid_start: "laid (outf st, content st) [] st"
  unfolding laid_def by (auto intro!: exI [of _ "[]"])

lemma tally_start: "writing st \<Longrightarrow> names_clean st \<Longrightarrow> tally (outf st, content st) st [] 0 st"
  unfolding tally_def using laid_start by (auto intro!: exI [of _ "[]"])

lemma tally_close:
  "tally bs st0 p n st \<Longrightarrow> complete LF p \<Longrightarrow> text_size p = Some k \<Longrightarrow> tally bs st0 [] (n + word_of_nat k) st"
proof -
  assume a: "tally bs st0 p n st" "complete LF p" "text_size p = Some k"
  then obtain t j where t: "emitted st = emitted st0 @ t @ p" "complete LF t" "text_size t = Some j"
      "code_idx st + n = code_idx st0 + word_of_nat j" by (auto simp: tally_def)
  have "code_idx st + (n + word_of_nat k) = code_idx st0 + word_of_nat (j + k)"
    using t(4) by (simp add: add.assoc [symmetric])
  moreover have "complete LF (t @ p)" "text_size (t @ p) = Some (j + k)" using a t by simp_all
  moreover have "laid bs [] st" using a(1) laid_closed [of bs p st] by (simp add: tally_def)
  ultimately show ?thesis using a(1) t(1) unfolding tally_def by (intro conjI exI [of _ "t @ p"] exI [of _ "j + k"]) auto
qed

lemma tally_trans: "tally bs st0 [] n st1 \<Longrightarrow> tally bs st1 [] 0 st2 \<Longrightarrow> tally bs st0 [] n st2"
proof -
  assume a: "tally bs st0 [] n st1" "tally bs st1 [] 0 st2"
  obtain t j where t: "emitted st1 = emitted st0 @ t" "complete LF t" "text_size t = Some j"
      "code_idx st1 + n = code_idx st0 + word_of_nat j" using a(1) by (auto simp: tally_def)
  obtain u k where u: "emitted st2 = emitted st1 @ u" "complete LF u" "text_size u = Some k"
      "code_idx st2 = code_idx st1 + word_of_nat k" using a(2) by (auto simp: tally_def)
  have "code_idx st2 + n = code_idx st0 + word_of_nat (j + k)"
    using t(4) u(4) by (simp add: add_ac)
  moreover have "complete LF (t @ u)" "text_size (t @ u) = Some (j + k)" using t u by simp_all
  ultimately show ?thesis using a t(1) u(1) unfolding tally_def by (intro conjI exI [of _ "t @ u"] exI [of _ "j + k"]) auto
qed

subsection \<open>Statements\<close>

lemma settles_done: "settles [] 0 []"
  by (simp add: settles_def)

lemma tally_wr: "tally bs st0 p n st \<Longrightarrow> plain_text s \<and> (s \<noteq> [] \<or> p \<noteq> [] \<and> last p \<noteq> LF) \<Longrightarrow> wr s st = Inr st1 \<Longrightarrow> tally bs st0 (p @ s) n st1"
proof -
  assume a: "tally bs st0 p n st" "plain_text s \<and> (s \<noteq> [] \<or> p \<noteq> [] \<and> last p \<noteq> LF)" "wr s st = Inr st1"
  have "writing st" using a(1) by (simp add: tally_def)
  then have "same_but_text st st1 \<and> writing st1 \<and> emitted st1 = emitted st @ s"
    using stgwrite_emitted a(2,3) by (simp add: wr_def)
  moreover have "laid bs (p @ s) st1"
    using stgwrite_laid [of st s st1 bs p] a \<open>writing st\<close> by (simp add: wr_def tally_def)
  ultimately show ?thesis
    using a(1) same_but_text_fields [of st st1] by (auto simp: tally_def names_clean_def)
qed

lemma settles_wr:
  assumes "plain_text s \<and> (s \<noteq> [] \<or> p \<noteq> [] \<and> last p \<noteq> LF)" "settles (p @ s) n fs"
  shows "settles p n (wr s # fs)"
proof (rule settlesI)
  fix bs st0 st st' assume a: "tally bs st0 p n st" "run (wr s # fs) st = Inr st'"
  then obtain st1 where st1: "wr s st = Inr st1" "run fs st1 = Inr st'" by (auto simp: bindR_Inr_iff)
  show "tally bs st0 [] 0 st'" using settlesD [OF assms(2) tally_wr [OF a(1) assms(1) st1(1)] st1(2)] .
qed

lemma settles_close:
  assumes "complete LF p" "text_size p = Some k" "settles [] (n + word_of_nat k) fs"
  shows "settles p n fs"
  using assms tally_close unfolding settles_def by blast

lemma settles_line:
  assumes "LF \<notin> set p" "line_size p = Some k" "settles [] (n + word_of_nat k) fs"
  shows "settles p n (wr [LF] # fs)"
proof (rule settles_wr)
  have "text_size (p @ [LF]) = Some k" using text_size_simps(2) [OF assms(1), of "[]"] assms(2) by simp
  then show "settles (p @ [LF]) n fs" using assms(3) by (rule settles_close [of "p @ [LF]" k, rotated]) simp_all
qed simp

lemma settles_grow:
  assumes "settles p (n - word_of_nat (4 * a + 4 * b)) fs"
  shows "settles p n (grow a b # fs)"
proof (rule settlesI)
  fix bs st0 st st' assume a: "tally bs st0 p n st" "run (grow a b # fs) st = Inr st'"
  let ?st = "st\<lparr>code_idx := code_idx st + word_of_nat (4 * a + 4 * b)\<rparr>"
  have "run fs ?st = Inr st'" using a(2) by (simp add: grow_def)
  moreover have "tally bs st0 p (n - word_of_nat (4 * a + 4 * b)) ?st"
  proof -
    have "x + y + (z - y) = x + z" for x y z :: cell by simp
    then show ?thesis using a(1) unfolding tally_def by simp
  qed
  ultimately show "tally bs st0 [] 0 st'" using settlesD [OF assms] by blast
qed

text \<open>Statements that neither write nor count.\<close>

definition quiet :: "emitter \<Rightarrow> bool" where
  "quiet f \<longleftrightarrow> (\<forall>st st'. f st = Inr st' \<longrightarrow> writing st \<longrightarrow> names_clean st \<longrightarrow>
     writing st' \<and> names_clean st' \<and> staging st' = staging st \<and> emitted st' = emitted st \<and> code_idx st' = code_idx st
     \<and> outf st' = outf st \<and> content st' = content st)"

lemma settles_quiet:
  assumes "quiet f" "settles p n fs"
  shows "settles p n (f # fs)"
proof (rule settlesI)
  fix bs st0 st st' assume a: "tally bs st0 p n st" "run (f # fs) st = Inr st'"
  then obtain st1 where st1: "f st = Inr st1" "run fs st1 = Inr st'" by (auto simp: bindR_Inr_iff)
  have "writing st" "names_clean st" using a(1) by (simp_all add: tally_def)
  then have "writing st1" "names_clean st1" "staging st1 = staging st" "emitted st1 = emitted st" "code_idx st1 = code_idx st"
      "outf st1 = outf st" "content st1 = content st" using assms(1) st1(1) unfolding quiet_def by blast+
  then have "tally bs st0 p n st1" using a(1) unfolding tally_def laid_def by simp
  then show "tally bs st0 [] 0 st'" using settlesD [OF assms(2)] st1(2) by blast
qed

lemma quiet_chk: "quiet (chk b)" "quiet (using_state (\<lambda>st. chk (c st)))"
  by (auto simp: quiet_def chk_def using_state_def assertR_Inr_iff)

lemma settles_run: "settles p n (fs @ gs) \<Longrightarrow> settles p n (run fs # gs)"
  by (simp add: settles_def run_append)

lemma settles_call:
  assumes "counted f" "settles [] n fs"
  shows "settles [] n (f # fs)"
proof (rule settlesI)
  fix bs st0 st st' assume a: "tally bs st0 [] n st" "run (f # fs) st = Inr st'"
  then obtain st1 where st1: "f st = Inr st1" "run fs st1 = Inr st'" by (auto simp: bindR_Inr_iff)
  have "tally bs st [] 0 st" using a(1) by (auto simp: tally_def intro!: exI [of _ "[]"])
  then have "tally bs st [] 0 st1" using settlesD [OF assms(1) [unfolded counted_def]] st1(1) by simp
  then have "tally bs st0 [] n st1" using tally_trans a(1) by blast
  then show "tally bs st0 [] 0 st'" using settlesD [OF assms(2)] st1(2) by blast
qed

lemma settles_if:
  "(b \<Longrightarrow> settles p n (f # fs)) \<Longrightarrow> (\<not> b \<Longrightarrow> settles p n (g # fs)) \<Longrightarrow> settles p n ((if b then f else g) # fs)"
  by simp

text \<open>A part that depends on the state.\<close>

lemma settles_opt:
  assumes "settles p n (f # fs)" "settles p n fs"
  shows "settles p n ((\<lambda>st. if c st then f st else Inr st) # fs)"
  using assms unfolding settles_def by (auto split: if_splits)

lemma settles_with_sym:
  assumes "\<And>a s. clean_text (sym_name s) \<Longrightarrow> settles p n (f a s # fs)"
  shows "settles p n (with_sym x f # fs)"
proof (rule settlesI)
  fix bs st0 st st' assume a: "tally bs st0 p n st" "run (with_sym x f # fs) st = Inr st'"
  then obtain st1 where "with_sym x f st = Inr st1" "run fs st1 = Inr st'" by (auto simp: bindR_Inr_iff)
  then obtain y s where s: "deref (symtab st) y = Inr s" "f y s st = Inr st1" "run fs st1 = Inr st'"
    by (auto simp: with_sym_def bindR_Inr_iff split: option.splits)
  then have "s \<in> ran (symtab st)" by (auto simp: deref_def ran_def split: option.splits)
  then have "clean_text (sym_name s)" using a(1) by (auto simp: tally_def names_clean_def)
  then show "tally bs st0 [] 0 st'" using settlesD [OF assms [of s y] a(1)] s(2,3) by simp
qed


section \<open>Lines\<close>

text \<open>The names of instructions that occur in the code generator.\<close>

lemma names_ok:
  "list_all (\<lambda>nm. plain_name nm \<and> clean_text nm) [
     ''add'', ''add.c'', ''addr.alt'', ''addr.pri'', ''align.pri'', ''and'', ''bounds'', ''call'',
     ''case'', ''casetbl'', ''const.alt'', ''const.pri'', ''dec'', ''dec.i'', ''dec.pri'', ''dec.s'',
     ''eq'', ''fill'', ''halt'', ''heap'', ''inc'', ''inc.i'', ''inc.pri'', ''inc.s'', ''invert'',
     ''jnz'', ''jump'', ''jzer'', ''lctrl'', ''load.i'', ''load.pri'', ''load.s.alt'', ''load.s.pri'',
     ''lodb.i'', ''lref.pri'', ''lref.s.pri'', ''move.alt'', ''move.pri'', ''movs'', ''neg'', ''neq'',
     ''nop'', ''not'', ''or'', ''pop.alt'', ''pop.pri'', ''push.alt'', ''push.c'', ''push.pri'',
     ''retn'', ''sctrl'', ''sdiv.alt'', ''sgeq'', ''sgrtr'', ''shl'', ''shl.c.alt'', ''shl.c.pri'',
     ''shr'', ''shr.c.pri'', ''sleq'', ''sless'', ''smul'', ''sref.pri'', ''sref.s.pri'', ''sshr'',
     ''stack'', ''stor.alt'', ''stor.i'', ''stor.pri'', ''stor.s.pri'', ''strb.i'', ''sub.alt'',
     ''swap.alt'', ''swap.pri'', ''switch'', ''sysreq.c'', ''xchg'', ''xor'', ''zero.alt'', ''zero.pri'',
     ''proc'', ''break'', ''dump'', ''code'', ''data'', ''stksize'', ''CODE'', ''DATA'', ''STKSIZE''] = True"
  by code_simp

lemmas names_plain [simp] = names_ok [unfolded list.pred_inject simp_thms]

lemma clean_hex_digits: "clean_text (hex_digits n)"
proof (induction n rule: hex_digits.induct)
  case (1 n)
  have "clean_text [hex_digit d]" if "d < 16" for d
  proof -
    have "hex_digit d \<in> set ''0123456789abcdef''" using that hex_digit_table by simp
    moreover have "\<forall>c\<in>set ''0123456789abcdef''. clean_text [c]" by simp
    ultimately show ?thesis by blast
  qed
  then show ?case using 1 by (subst hex_digits.simps) simp
qed

lemma clean_itoh [simp]: "clean_text (itoh v)" "itoh v \<noteq> []"
  by (simp_all add: itoh_digits clean_hex_digits)

lemma last_itoh [simp]: "last (itoh v) \<noteq> LF"
  using clean_itoh(1) [of v] last_in_set [OF clean_itoh(2), of v] unfolding clean_text_def by metis

lemma line_size_empty [simp]: "line_size [] = Some 0"
  using line_size_comment(2) [of "[]"] by simp

lemma line_size_tab:
  "plain_name nm \<Longrightarrow> isspace c \<or> c = CHR '';'' \<Longrightarrow> name_size nm = Some k \<Longrightarrow> line_size (TAB # nm @ c # x) = Some k"
  using line_size_instr [of "[TAB]" nm "c # x"] by (simp add: name_size_def)

lemma line_size_parameter:
  "plain_name nm \<Longrightarrow> name_size nm = Some k \<Longrightarrow> line_size (instr nm @ x) = Some k"
  "plain_name nm \<Longrightarrow> name_size nm = Some k \<Longrightarrow> line_size (instr nm) = Some k"
  using line_size_tab [of nm "CHR '' ''" k] by (simp_all add: instr_def)

lemma line_size_alone: "plain_name nm \<Longrightarrow> name_size nm = Some k \<Longrightarrow> line_size (TAB # nm) = Some k"
  using line_size_instr [of "[TAB]" nm "[]"] by (simp add: name_size_def)

lemma line_size_margin:
  "plain_name nm \<Longrightarrow> isspace c \<Longrightarrow> instr_size nm = Some k \<Longrightarrow> line_size (nm @ c # x) = Some k"
  using line_size_instr [of "[]" nm "c # x"] by simp

lemma line_size_label: "line_size (''l.'' @ x) = Some 0"
proof -
  have st: "stripcomment (''l.'' @ x) = ''l.'' @ (case strchr x (CHR '';'') of None \<Rightarrow> x | Some p \<Rightarrow> take p x @ [LF])"
    using stripcomment_cut [of "''l.''" x] by (simp split: option.split)
  show ?thesis unfolding line_size_def parse_line_def st by (simp add: skipwhitespace_def isspace_def tolower_def)
qed

lemma last_instr [simp]: "instr nm \<noteq> []" "ln nm \<noteq> []" "last (instr nm) = CHR '' ''"
  by (simp_all add: instr_def ln_def)

lemma plain_instr [simp]: "plain_text (instr nm) = plain_text nm" "clean_text (instr nm) = clean_text nm"
  "plain_text (ln nm) = plain_text nm"
  by (auto simp: instr_def ln_def)


section \<open>Every emitter counts what it writes\<close>

lemma counted_intro: "settles [] 0 [f] \<Longrightarrow> counted f"
  by (simp add: counted_def)

lemma settles_end: "n = 0 \<Longrightarrow> settles [] n []"
  using settles_done by simp

lemma settles_ln:
  assumes "name_size nm = Some k" "plain_name nm \<and> clean_text nm" "settles [] (n + word_of_nat k) fs"
  shows "settles [] n (wr (ln nm) # fs)"
proof (rule settles_wr)
  have e: "LF \<notin> set (TAB # nm)" "ln nm = (TAB # nm) @ LF # []" using assms(2) by (simp_all add: ln_def clean_text_def)
  have t: "text_size (ln nm) = Some k"
    unfolding e(2) text_size_simps(2) [OF e(1)] using line_size_alone [of nm k] assms(1,2) by simp
  show "settles ([] @ ln nm) n fs"
    using assms(3) t by (intro settles_close [of "[] @ ln nm" k]) (simp_all add: ln_def complete_def)
qed (use assms in simp)

lemma settles_instr:
  "plain_name nm \<and> clean_text nm \<Longrightarrow> settles (instr nm) n fs \<Longrightarrow> settles [] n (wr (instr nm) # fs)"
  by (rule settles_wr) simp_all

lemma settles_instr_if:
  "(b \<Longrightarrow> settles p n (wr (instr x) # fs)) \<Longrightarrow> (\<not> b \<Longrightarrow> settles p n (wr (instr y) # fs)) \<Longrightarrow>
    settles p n (wr (instr (if b then x else y)) # fs)"
  by simp

lemma settles_instr_line:
  assumes "name_size nm = Some k" "plain_name nm \<and> clean_text nm \<and> clean_text x" "settles [] (n + word_of_nat k) fs"
  shows "settles [] n (wr (instr nm @ x @ [LF]) # fs)"
proof (rule settles_wr)
  have e: "LF \<notin> set (instr nm @ x)" "instr nm @ x @ [LF] = (instr nm @ x) @ LF # []"
    using assms(2) by (simp_all add: instr_def clean_text_def)
  have t: "text_size (instr nm @ x @ [LF]) = Some k"
    unfolding e(2) text_size_simps(2) [OF e(1)] using line_size_parameter(1) [of nm k] assms(1,2) by simp
  show "settles ([] @ (instr nm @ x @ [LF])) n fs"
    using assms(3) t by (intro settles_close [of "[] @ (instr nm @ x @ [LF])" k]) (simp_all add: complete_def)
qed (use assms in simp)

lemma settles_instr_char:
  "name_size nm = Some k \<Longrightarrow> plain_name nm \<and> clean_text nm \<and> clean_text [c] \<Longrightarrow> settles [] (n + word_of_nat k) fs \<Longrightarrow>
    settles [] n (wr (instr nm @ [c, LF]) # fs)"
  using settles_instr_line [of nm k "[c]"] by simp

text \<open>The number after the instruction, at the end of the line.\<close>

lemma settles_number:
  assumes "LF \<notin> set p" "line_size (p @ itoh v) = Some k" "settles [] (n + word_of_nat k) fs"
  shows "settles p n (outval v True # fs)"
proof -
  have "LF \<notin> set (p @ itoh v)" using assms(1) clean_itoh [of v] by (simp add: clean_text_def)
  then have "settles (p @ itoh v) n (wr [LF] # fs)" using settles_line assms(2,3) by blast
  then have "settles p n ([wr (itoh v), wr [LF]] @ fs)" using settles_wr [of "itoh v" p n] by simp
  then show ?thesis unfolding outval_def using settles_run by simp
qed

lemma settles_number_open: "settles (p @ itoh v) n fs \<Longrightarrow> settles p n (outval v False # fs)"
  using settles_run [of p n "[wr (itoh v)]" fs] settles_wr [of "itoh v" p n fs] by (simp add: outval_def)

lemma settles_chk: "settles p n fs \<Longrightarrow> settles p n (chk b # fs)"
  using settles_quiet [OF quiet_chk(1)] .

lemma instr_no_LF: "plain_name nm \<and> clean_text nm \<Longrightarrow> LF \<notin> set (instr nm)"
  by (simp add: instr_def clean_text_def)

lemma settles_parameter:
  "plain_name nm \<and> clean_text nm \<Longrightarrow> name_size nm = Some k \<Longrightarrow> settles [] (n + word_of_nat k) fs \<Longrightarrow>
    settles (instr nm) n (outval v True # fs)"
  by (rule settles_number [OF instr_no_LF line_size_parameter(1)]) simp_all

lemma quiet_mark_sym: "quiet (mark_sym a u)"
  unfolding quiet_def
proof (intro allI impI)
  fix st st' assume a: "mark_sym a u st = Inr st'" "writing st" "names_clean st"
  then obtain m where m: "markusage (symtab st) (curfunc st) (fline st) (Some a) u True = Inr m"
      and st': "st' = st\<lparr>symtab := m\<rparr>" by (auto simp: mark_sym_def bindR_Inr_iff)
  have "names_from (symtab st) m" using markusage_names [OF m] .
  then have "names_clean st'" using a(3) by (fastforce simp: names_clean_def names_from_def st')
  moreover have "writing st'" "emitted st' = emitted st"
    using a(2) by (simp_all add: st' writing_def stgmax_def emitted_def stg_text_def split: option.split)
  moreover have "content st' = content st" by (simp add: st' content_def split: option.split)
  ultimately show "writing st' \<and> names_clean st' \<and> staging st' = staging st \<and> emitted st' = emitted st
      \<and> code_idx st' = code_idx st \<and> outf st' = outf st \<and> content st' = content st"
    by (simp add: st')
qed

lemma settles_mark: "settles p n fs \<Longrightarrow> settles p n (mark_sym a u # fs)"
  using settles_quiet [OF quiet_mark_sym] .

lemmas settles_rules =
  settles_end settles_ln settles_instr_if settles_instr settles_instr_line settles_instr_char
  settles_parameter settles_number
  settles_number_open settles_grow settles_chk settles_mark settles_with_sym settles_run settles_if

lemma counted_registers:
  "counted load_i" "counted moveto1" "counted move_alt" "counted swap1" "counted ob_add" "counted ffret"
  "counted (pushreg reg)" "counted (popreg reg)" "counted (addr_reg v reg)" "counted (load_argcount reg)"
  "counted (storereg v reg)" "counted (memcopy v)" "counted (ldconst v reg)" "counted (pushval v)"
  "counted (ffswitch v)" "counted (ffabort v)" "counted (jumplabel v)" "counted (jmp_ne0 v)" "counted (jmp_eq0 v)"
  "counted (modstk v)" "counted (modheap v)" "counted (setstk v)" "counted setheap_pri" "counted cell2addr"
  "counted cell2addr_alt" "counted addr2cell" "counted char2addr" "counted charalign" "counted (addconst v)"
  unfolding load_i_def moveto1_def move_alt_def swap1_def ob_add_def ffret_def pushreg_def popreg_def addr_reg_def
    load_argcount_def storereg_def memcopy_def ldconst_def pushval_def ffswitch_def ffabort_def jumplabel_def
    jmp_ne0_def jmp_eq0_def modstk_def modheap_def setstk_def setheap_pri_def cell2addr_def cell2addr_alt_def
    addr2cell_def char2addr_def charalign_def addconst_def
  by (rule counted_intro | rule settles_rules name_size_eqs conjI impI | simp split: regid.split)+

lemma counted_operators:
  "counted os_mult" "counted os_div" "counted os_mod" "counted ob_sub" "counted ob_sal" "counted os_sar"
  "counted ou_sar" "counted ob_or" "counted ob_xor" "counted ob_and" "counted ob_eq" "counted ob_ne"
  "counted relop_prefix" "counted relop_suffix" "counted os_lt" "counted os_le" "counted os_gt" "counted os_ge"
  "counted lneg" "counted neg" "counted invert" "counted nooperation"
  unfolding os_mult_def os_div_def os_mod_def ob_sub_def ob_sal_def os_sar_def ou_sar_def ob_or_def ob_xor_def
    ob_and_def ob_eq_def ob_ne_def relop_prefix_def relop_suffix_def os_lt_def os_le_def os_gt_def os_ge_def
    lneg_def neg_def invert_def nooperation_def
  by (rule counted_intro | rule settles_rules name_size_eqs | simp)+

lemma counted_variables:
  "counted (rvalue lval)" "counted (store_value lval)" "counted (inc lval)" "counted (dec lval)"
  unfolding rvalue_def store_value_def inc_def dec_def step_char_def step_ref_def
  by (cases "lv_ident lval"; simp add: counted_registers;
      (rule counted_intro | rule settles_rules name_size_eqs conjI impI | simp)+)+

lemma counted_symbols: "counted (address x reg)" "counted (copyarray x v)" "counted (fillarray x v w)"
  unfolding address_def copyarray_def fillarray_def array_alt_def memcopy_def ldconst_def
  by (cases reg; (rule counted_intro | rule settles_rules name_size_eqs conjI impI | simp)+)+


lemma clean_no_LF [simp]: "clean_text s \<Longrightarrow> LF \<notin> set s"
  by (simp add: clean_text_def)

lemma instr_LF [simp]: "clean_text nm \<Longrightarrow> LF \<notin> set (instr nm)"
  by (simp add: instr_def)

subsection \<open>Parts that depend on the state\<close>

lemma settles_state: "(\<And>x. settles p n (f x # fs)) \<Longrightarrow> settles p n ((\<lambda>st. f (g st) st) # fs)"
  unfolding settles_def by auto

lemma settles_opt_state:
  assumes "\<And>x. settles p n (f x # fs)" "settles p n fs"
  shows "settles p n ((\<lambda>st. if c st then f (g st) st else Inr st) # fs)"
  using assms unfolding settles_def by (auto split: if_splits)

lemma counted_state: "(\<And>x. settles [] 0 [f x]) \<Longrightarrow> counted (\<lambda>st. if c st then f (g st) st else Inr st)"
  unfolding counted_def using settles_opt_state [of "[]" 0 f "[]" c g] settles_done by blast

lemma tally_line:
  "tally bs st0 (p @ LF # s) n st \<Longrightarrow> LF \<notin> set p \<Longrightarrow> line_size p = Some k \<Longrightarrow> tally bs st0 s (n + word_of_nat k) st"
proof -
  assume a: "tally bs st0 (p @ LF # s) n st" "LF \<notin> set p" "line_size p = Some k"
  then obtain t j where t: "emitted st = emitted st0 @ t @ p @ LF # s" "complete LF t" "text_size t = Some j"
      "code_idx st + n = code_idx st0 + word_of_nat j" by (auto simp: tally_def)
  have "text_size (p @ [LF]) = Some k" using text_size_simps(2) [OF a(2), of "[]"] a(3) by simp
  then have "complete LF (t @ p @ [LF])" "text_size (t @ p @ [LF]) = Some (j + k)" using t by (simp_all add: complete_def)
  moreover have "code_idx st + (n + word_of_nat k) = code_idx st0 + word_of_nat (j + k)"
    using t(4) by (simp add: add.assoc [symmetric])
  moreover have "laid bs s st"
    using a(1) laid_last [of bs "p @ LF # s" st s] laid_closed [of bs "p @ LF # s" st] by (cases "s = []") (auto simp: tally_def)
  ultimately show ?thesis using a(1) t(1)
    unfolding tally_def by (intro conjI exI [of _ "t @ p @ [LF]"] exI [of _ "j + k"]) auto
qed

lemma settles_next:
  assumes "LF \<notin> set p" "line_size p = Some k" "plain_text s" "settles s (n + word_of_nat k) fs"
  shows "settles p n (wr (LF # s) # fs)"
proof (rule settles_wr)
  show "settles (p @ LF # s) n fs" using tally_line [OF _ assms(1,2)] assms(4) unfolding settles_def by blast
qed (use assms(3) in simp)

text \<open>A line that starts in the margin, or with a comment after the instruction.\<close>

lemma settles_margin:
  assumes "instr_size nm = Some k" "plain_name nm \<and> clean_text nm \<and> clean_text (c # x)" "isspace c" "settles [] (n + word_of_nat k) fs"
  shows "settles [] n (wr (nm @ c # x) # outval v True # fs)"
proof (rule settles_wr)
  have "line_size ((nm @ c # x) @ itoh v) = Some k"
    using line_size_margin [of nm c k "x @ itoh v"] assms(1,2,3) by simp
  moreover have "LF \<notin> set (nm @ c # x)" using assms(2) by auto
  ultimately show "settles ([] @ nm @ c # x) n (outval v True # fs)" using settles_number assms(4) by simp
qed (use assms in simp)

lemma settles_comment:
  assumes "name_size nm = Some k" "plain_name nm \<and> clean_text nm" "clean_text x" "settles [] (n + word_of_nat k) fs"
  shows "settles [] n (wr (TAB # nm @ TAB # x) # outval v True # fs)"
proof (rule settles_wr)
  have "line_size ((TAB # nm @ TAB # x) @ itoh v) = Some k"
    using line_size_tab [of nm TAB k "x @ itoh v"] assms(1,2) by simp
  moreover have "LF \<notin> set (TAB # nm @ TAB # x)" using assms(2,3) by simp
  ultimately show "settles ([] @ TAB # nm @ TAB # x) n (outval v True # fs)" using settles_number assms(4) by simp
qed (use assms in simp)

lemma quiet_curseg: "quiet (\<lambda>st. Inr (st\<lparr>curseg := x\<rparr>))"
  by (auto simp: quiet_def writing_def names_clean_def content_def emitted_def stg_text_def stgmax_def split: option.split)

lemma segment_sizes [simp]: "instr_size ''CODE'' = Some 0" "instr_size ''DATA'' = Some 0" "instr_size ''STKSIZE'' = Some 0"
proof -
  have "map tolower ''CODE'' = map tolower ''code''" "map tolower ''DATA'' = map tolower ''data''"
    "map tolower ''STKSIZE'' = map tolower ''stksize''" by code_simp+
  then show "instr_size ''CODE'' = Some 0" "instr_size ''DATA'' = Some 0" "instr_size ''STKSIZE'' = Some 0"
    using name_size_eqs unfolding name_size_def by (metis instr_size_case)+
qed

lemma counted_segments: "counted begcseg" "counted begdseg"
proof -
  have s: "settles [] 0 [run [wr [LF], wr (nm @ TAB # ''; ''), outval x True, \<lambda>st. Inr (st\<lparr>curseg := y\<rparr>)]]"
    if "nm = ''CODE'' \<or> nm = ''DATA''" for nm x y
  proof -
    have "plain_name nm \<and> clean_text nm \<and> instr_size nm = Some 0" using that by auto
    then have "settles [] 0 (wr (nm @ TAB # ''; '') # outval x True # [\<lambda>st. Inr (st\<lparr>curseg := y\<rparr>)])"
      by (intro settles_margin [of nm 0] settles_quiet quiet_curseg settles_end) simp_all
    then have "settles [] 0 (wr [LF] # wr (nm @ TAB # ''; '') # [outval x True, \<lambda>st. Inr (st\<lparr>curseg := y\<rparr>)])"
      using settles_line [of "[]" 0 0] by simp
    then show ?thesis using settles_run [of "[]" 0 _ "[]"] by simp
  qed
  show "counted begcseg" unfolding begcseg_def [abs_def]
    by (rule counted_state [of "\<lambda>x. run [wr [LF], wr (''CODE'' @ TAB # ''; ''), outval x True, \<lambda>st. Inr (st\<lparr>curseg := InCseg\<rparr>)]"
        _ code_idx]) (rule s, simp)
  show "counted begdseg" unfolding begdseg_def [abs_def]
    by (rule counted_state [of "\<lambda>x. run [wr [LF], wr (''DATA'' @ TAB # ''; ''), outval x True, \<lambda>st. Inr (st\<lparr>curseg := InDseg\<rparr>)]"
        _ "\<lambda>st. glb_declared st - litidx st"]) (rule s, simp)
qed

lemma counted_lines: "counted (setline b)" "counted (setfiledirect f)" "counted (setlinedirect l)" "counted endfunc"
    "counted (alignframe k)" "counted load_hidden_arg" "counted (ffbounds v)" "counted (setheap v)"
proof -
  have "settles [] 0 [run [wr (TAB # ''break'' @ TAB # ''; ''), outval x True, grow 1 0]]" for x
  proof -
    have "settles [] 0 (wr (TAB # ''break'' @ TAB # ''; '') # outval x True # [grow 1 0])"
      by (rule settles_comment [of _ 4]) (rule settles_rules name_size_eqs | simp)+
    then show ?thesis using settles_run [of "[]" 0 _ "[]"] by simp
  qed
  then show "counted (setline b)" unfolding setline_def [abs_def]
    by (rule counted_state [of "\<lambda>x. run [wr (TAB # ''break'' @ TAB # ''; ''), outval x True, grow 1 0]" _ code_idx])
  have q: "counted f" if "\<And>st. sc_status st = statWRITE \<Longrightarrow> f st = Inr st" for f
  proof -
    have "quiet f" using that by (auto simp: quiet_def writing_def)
    then show ?thesis using settles_quiet settles_done by (simp add: counted_def)
  qed
  show "counted (setfiledirect f)" "counted (setlinedirect l)" by (rule q; simp add: setfiledirect_def setlinedirect_def)+
  show "counted endfunc" unfolding endfunc_def
    by (rule counted_intro, rule settles_run, simp, rule settles_line [of "[]" 0]) (simp_all add: settles_done)
  show "counted (alignframe k)" unfolding alignframe_def
    by (rule counted_intro | rule settles_rules name_size_eqs | simp)+
  show "counted load_hidden_arg" unfolding load_hidden_arg_def
    by (rule counted_intro, rule settles_run, simp, (rule settles_call settles_done counted_registers)+)
  have "counted (run [wr (instr ''bounds''), outval v True, grow 1 1])"
    by (rule counted_intro | rule settles_rules name_size_eqs | simp)+
  then show "counted (ffbounds v)" unfolding ffbounds_def [abs_def]
    using counted_state [of "\<lambda>_. run [wr (instr ''bounds''), outval v True, grow 1 1]"] by (simp add: counted_def)
  have "settles [] 0 [wr (instr ''const.pri''), outval v True, grow 1 1, setheap_pri]"
    by (rule settles_instr, simp, rule settles_parameter, simp, rule name_size_eqs, rule settles_grow, simp,
        rule settles_call, rule counted_registers, rule settles_done)
  then show "counted (setheap v)" using settles_run [of "[]" 0 _ "[]"] by (simp add: setheap_def counted_def)
qed


subsection \<open>Names\<close>

lemma hex_scan_suffix: "set (snd (hex_scan acc s)) \<subseteq> set s"
  by (induction acc s rule: hex_scan.induct) (auto split: option.split)

lemma strtol16_suffix: "set (snd (Opnames.strtol16 s)) \<subseteq> set s"
proof -
  define s1 where "s1 = dropWhile isspace s"
  define s2 where "s2 = (if s1 \<noteq> [] \<and> hd s1 \<in> {CHR ''+'', CHR ''-''} then tl s1 else s1)"
  define s3 where "s3 = (if take 2 s2 \<in> {''0x'', ''0X''} \<and> 2 < length s2 \<and> hex_val (s2 ! 2) \<noteq> None then drop 2 s2 else s2)"
  have "set s1 \<subseteq> set s" by (auto simp: s1_def dest: set_dropWhileD)
  moreover have "set s2 \<subseteq> set s1" by (auto simp: s2_def dest: list.set_sel(2))
  moreover have "set s3 \<subseteq> set s2" by (auto simp: s3_def dest: in_set_dropD)
  ultimately have "set s3 \<subseteq> set s" by blast
  then have "set (snd (hex_scan 0 s3)) \<subseteq> set s" using hex_scan_suffix [of 0 s3] by blast
  moreover have "snd (Opnames.strtol16 s) = s \<or> snd (Opnames.strtol16 s) = snd (hex_scan 0 s3)"
    unfolding Opnames.strtol16_def Let_def s1_def [symmetric] s2_def [symmetric] s3_def [symmetric]
    by (simp split: prod.split)
  ultimately show ?thesis by auto
qed

lemma clean_subset: "clean_text s \<Longrightarrow> set t \<subseteq> set s \<Longrightarrow> clean_text t"
  by (auto simp only: clean_text_def plain_text_def list_all_iff)

lemma find_constval_byval_in: "find_constval_byval tab v = Some t \<Longrightarrow> t \<in> set tab"
  by (induction tab) (auto split: if_splits)

lemma find_tag_in: "find_tag_byval tab v = Some t \<Longrightarrow> t \<in> set tab"
  by (auto simp: find_tag_byval_def dest: find_constval_byval_in split: option.splits)

lemma parse_funcname_clean: "parse_funcname f = Inr (u, a, b, op) \<Longrightarrow> clean_text f \<Longrightarrow> clean_text op"
proof -
  assume a: "parse_funcname f = Inr (u, a, b, op)" and c: "clean_text f"
  obtain ptr where p: "op = takeWhile (\<lambda>c. \<not> isdigit c) ptr" "ptr = f \<or> ptr = snd (Opnames.strtol16 f)"
    using a by (auto simp: parse_funcname_def assertR_Inr_iff Let_def split: if_splits prod.splits)
  then have "set op \<subseteq> set f" using strtol16_suffix [of f] by (auto dest: set_takeWhileD)
  then show ?thesis using c clean_subset by blast
qed

lemma funcdisplayname_clean:
  assumes "funcdisplayname tab f = Inr r" "clean_text f" "\<forall>v\<in>set tab. clean_text (cv_name v)"
  shows "clean_text r"
proof (cases "r = f")
  case False
  then obtain u a b op where p: "parse_funcname f = Inr (u, a, b, op)"
    using assms(1) by (auto simp: funcdisplayname_def bindR_Inr_iff split: if_splits)
  have "clean_text op" using parse_funcname_clean [OF p assms(2)] .
  moreover have "clean_text (cv_name t)" if "find_tag_byval tab v = Some t" for t v
    using find_tag_in [OF that] assms(3) by blast
  ultimately show ?thesis using assms(1) False p
    by (auto simp: funcdisplayname_def bindR_Inr_iff split: if_splits option.splits)
qed (use assms in simp)

lemma settles_name_comment:
  assumes "clean_text f" "\<And>sn. clean_text sn \<Longrightarrow> settles (p @ TAB # ''; '' @ sn) n fs"
  shows "settles p n ((\<lambda>st. name_comment f st) # fs)"
proof (rule settlesI)
  fix bs st0 st st' assume a: "tally bs st0 p n st" "run ((\<lambda>st. name_comment f st) # fs) st = Inr st'"
  then obtain sn where sn: "funcdisplayname (tagname_tab st) f = Inr sn"
    by (auto simp: name_comment_def bindR_Inr_iff)
  have r: "run ([wr (TAB # ''; ''), wr sn] @ fs) st = Inr st'"
    using a(2) sn unfolding run.simps name_comment_def run_append by simp
  have "clean_text sn" using funcdisplayname_clean [OF sn assms(1)] a(1) by (simp add: tally_def names_clean_def)
  then have "settles p n ([wr (TAB # ''; ''), wr sn] @ fs)"
    using assms(2) settles_wr [of sn "p @ TAB # ''; ''"] settles_wr [of "TAB # ''; ''" p] by simp
  then show "tally bs st0 [] 0 st'" using settlesD a(1) r by blast
qed

lemma counted_setlabel: "counted (setlabel num)"
proof -
  have e: "settles p n (wr [LF] # [])" if "n = 0" "p = ''l.'' @ x" "clean_text x" for p x n
    using that settles_line [of p 0 n "[]"] line_size_label [of x] by (simp add: settles_done)
  have "settles [] 0 (chk (num \<ge> 0) # wr ''l.'' # wr (itoh (word_of_int num)) #
      (\<lambda>st. if \<not> staging st then (\<lambda>x. run [wr [TAB, TAB, CHR '';'', CHR '' ''], outval x False]) (code_idx st) st else Inr st) #
      [wr [LF]])"
  proof (rule settles_chk, rule settles_wr, simp, rule settles_wr, simp,
      rule settles_opt_state [of _ _ "\<lambda>x. run [wr [TAB, TAB, CHR '';'', CHR '' ''], outval x False]"])
    fix x
    show "settles (([] @ ''l.'') @ itoh (word_of_int num)) 0
        (run [wr [TAB, TAB, CHR '';'', CHR '' ''], outval x False] # [wr [LF]])"
      by (rule settles_run, simp, rule settles_wr, simp, rule settles_number_open,
          rule e [of _ _ "itoh (word_of_int num) @ [TAB, TAB, CHR '';'', CHR '' ''] @ itoh x"]) simp_all
    show "settles (([] @ ''l.'') @ itoh (word_of_int num)) 0 [wr [LF]]"
      by (rule e [of _ _ "itoh (word_of_int num)"]) simp_all
  qed
  then show ?thesis using settles_run [of "[]" 0 _ "[]"] by (simp add: setlabel_def counted_def)
qed

lemma line_size_tab_comment: "line_size (TAB # CHR '';'' # x) = Some 0"
  using line_size_comment(1) [of "[TAB]" x] by simp

lemma counted_markexpr: "(\<And>n. name = Some n \<Longrightarrow> clean_text n) \<Longrightarrow> counted (markexpr type name v)"
proof -
  assume c: "\<And>n. name = Some n \<Longrightarrow> clean_text n"
  have t: "text_size (TAB # CHR '';'' # x @ [LF]) = Some 0" if "clean_text x" for x
    using text_size_simps(2) [of "TAB # CHR '';'' # x" "[]"] line_size_tab_comment [of x] that by simp
  have m: "settles [] 0 [run [wr (TAB # CHR '';'' # x @ [LF])]]" if "clean_text x" for x
  proof -
    have "settles [] 0 [wr (TAB # CHR '';'' # x @ [LF])]"
      using settles_close [of "TAB # CHR '';'' # x @ [LF]" 0 0 "[]"] t [OF that] settles_done that
      by (intro settles_wr) (simp_all add: complete_def)
    then show ?thesis using settles_run [of "[]" 0 _ "[]"] by simp
  qed
  have l: "settles [] 0 [run [wr (TAB # '';$lcl ''), wr n, wr '' '', outval v True]]" if "clean_text n" for n
  proof -
    have "line_size ((TAB # '';$lcl '' @ n @ '' '') @ itoh v) = Some 0" using line_size_tab_comment by simp
    then have "settles [] 0 [wr (TAB # '';$lcl ''), wr n, wr '' '', outval v True]"
      using that settles_done
      by (intro settles_wr settles_number [of _ _ 0]) simp_all
    then show ?thesis using settles_run [of "[]" 0 _ "[]"] by simp
  qed
  have f: "settles [] 0 [chk False]" using settles_chk settles_done by blast
  show ?thesis unfolding counted_def markexpr_def
    using m [of "''$exp''"] m [of "''$par''"] c l f by (auto split: optmark.split option.split)
qed


lemma settles_opt_name:
  assumes "clean_text f" "settles p n fs" "\<And>sn. clean_text sn \<Longrightarrow> settles (p @ TAB # ''; '' @ sn) n fs"
  shows "settles p n ((\<lambda>st. if c st then name_comment f st else Inr st) # fs)"
  using settles_opt [OF settles_name_comment [OF assms(1,3)] assms(2)] by blast

lemma counted_startfunc: "clean_text fname \<Longrightarrow> counted (startfunc fname)"
proof -
  assume c: "clean_text fname"
  have e: "settles (TAB # ''proc'' @ x) 0 (wr [LF] # [grow 1 0])"
    if "clean_text x" "x = [] \<or> hd x = TAB" for x
  proof (rule settles_line [of _ 4])
    have n: "plain_name ''proc''" "name_size ''proc'' = Some 4" by simp (rule name_size_eqs)
    show "line_size (TAB # ''proc'' @ x) = Some 4"
      using that(2) line_size_alone [OF n] line_size_tab [OF n(1) _ n(2), of TAB "tl x"] by (cases x) auto
    show "settles [] (0 + word_of_nat 4) [grow 1 0]" by (rule settles_rules | simp)+
  qed (use that in simp)
  have "settles [] 0 (wr (TAB # ''proc'') #
      (\<lambda>st. if sc_asmfile st then name_comment fname st else Inr st) # wr [LF] # [grow 1 0])"
  proof (rule settles_wr, simp, rule settles_opt_name [OF c])
    show "settles ([] @ TAB # ''proc'') 0 (wr [LF] # [grow 1 0])" using e [of "[]"] by simp
    show "settles (([] @ TAB # ''proc'') @ TAB # ''; '' @ sn) 0 (wr [LF] # [grow 1 0])" if "clean_text sn" for sn
      using e [of "TAB # ''; '' @ sn"] that by simp
  qed
  then have "settles [] 0 [run [wr (TAB # ''proc''), \<lambda>st. if sc_asmfile st then name_comment fname st else Inr st, wr [LF], grow 1 0]]"
    using settles_run [of "[]" 0 _ "[]"] by simp
  then show ?thesis unfolding startfunc_def counted_def name_comment_def .
qed

lemma settles_case: "clean_text l \<Longrightarrow> n = 0 \<Longrightarrow>
  settles [] n (wr (instr ''case'') # outval v False # wr '' '' # wr l # wr [LF] # [grow 0 2])"
  by (rule settles_instr, simp, rule settles_number_open, rule settles_wr, simp, rule settles_wr, simp,
      rule settles_line [of _ 8], simp, simp, rule line_size_parameter, simp, rule name_size_eqs)
    (rule settles_rules | simp)+

lemma counted_ffcase: "clean_text l \<Longrightarrow> counted (ffcase v l newtable)"
proof -
  assume c: "clean_text l"
  have "settles [] 0 (run [wr (ln ''casetbl''), grow 1 0] # wr (instr ''case'') # outval v False # wr '' '' # wr l # wr [LF] # [grow 0 2])"
    by (rule settles_run, simp only: append_Cons append_Nil, rule settles_ln, rule name_size_eqs, simp, rule settles_grow,
        rule settles_case [OF c]) simp
  moreover have "settles [] 0 (run [] # wr (instr ''case'') # outval v False # wr '' '' # wr l # wr [LF] # [grow 0 2])"
    by (rule settles_run, simp only: append_Nil, rule settles_case [OF c refl])
  ultimately show ?thesis using settles_run [of "[]" 0 _ "[]"] by (simp add: ffcase_def counted_def)
qed

lemma quiet_native: "clean_text (sym_name s) \<Longrightarrow>
  quiet (\<lambda>st. if c st then Inr (st\<lparr>symtab := (symtab st)(a \<mapsto> s\<lparr>sym_addr := ntv_funcid st\<rparr>), ntv_funcid := ntv_funcid st + 1\<rparr>)
      else Inr st)"
proof -
  assume s: "clean_text (sym_name s)"
  have "names_clean (st\<lparr>symtab := (symtab st)(a \<mapsto> s\<lparr>sym_addr := x\<rparr>), ntv_funcid := y\<rparr>)" if "names_clean st" for st x y
    using that s by (auto simp: names_clean_def ran_def)
  moreover have "emitted (st\<lparr>symtab := x, ntv_funcid := y\<rparr>) = emitted st" "writing (st\<lparr>symtab := x, ntv_funcid := y\<rparr>) = writing st"
    "content (st\<lparr>symtab := x, ntv_funcid := y\<rparr>) = content st"
    for st x y by (simp_all add: content_def emitted_def stg_text_def writing_def stgmax_def split: option.split)
  ultimately show ?thesis by (auto simp: quiet_def)
qed

lemma counted_ffcall:
  assumes "\<And>l. label = Some l \<Longrightarrow> clean_text l"
  shows "counted (ffcall p label numargs)"
proof -
  have st: "settles q n (wr (LF # instr ''stack'') # outval v True # [grow 2 2])"
    if "clean_text x" "q = instr ''sysreq.c'' @ x" "n = 0" for q x v n
  proof (rule settles_next [of _ 8])
    show "line_size q = Some 8" unfolding that(2) by (rule line_size_parameter, simp, rule name_size_eqs)
    show "settles (instr ''stack'') (n + word_of_nat 8) (outval v True # [grow 2 2])"
      using that(3) by (rule_tac settles_parameter, simp, rule_tac name_size_eqs) ((rule settles_rules | simp)+)
  qed (use that in simp_all)
  have cl: "settles q n (wr [LF] # [grow 1 1])" if "clean_text x" "q = instr ''call'' @ x" "n = 0" for q x n
  proof (rule settles_line [of _ 8])
    show "line_size q = Some 8" unfolding that(2) by (rule line_size_parameter, simp, rule name_size_eqs)
    show "settles [] (n + word_of_nat 8) [grow 1 1]" using that(3) by (rule_tac settles_rules | simp)+
  qed (use that in simp_all)
  let ?native = "\<lambda>a s. run [chk (label = None),
              \<lambda>st. if sc_status st = statWRITE \<and> \<not> has_usage s uREAD \<and> 0 \<le> sint (sym_addr s)
                   then Inr (st\<lparr>symtab := (symtab st)(a \<mapsto> s\<lparr>sym_addr := ntv_funcid st\<rparr>), ntv_funcid := ntv_funcid st + 1\<rparr>)
                   else Inr st,
              wr (instr ''sysreq.c''),
              with_sym (Some a) (\<lambda>a s. outval (sym_addr s) False),
              \<lambda>st. if sc_asmfile st then name_comment (sym_name s) st else Inr st,
              wr (LF # instr ''stack''),
              outval (word_of_int ((numargs + 1) * 4)) True, grow 2 2]"
  let ?call = "\<lambda>s. run [wr (instr ''call''),
              (case label of Some l \<Rightarrow> run [wr ''l.'', wr l] | None \<Rightarrow> wr (sym_name s)),
              \<lambda>st. if sc_asmfile st \<and> (label \<noteq> None
                      \<or> \<not> isalpha (char_at (sym_name s) 0) \<and> char_at (sym_name s) 0 \<noteq> CHR ''_''
                        \<and> char_at (sym_name s) 0 \<noteq> sc_ctrlchar st)
                   then name_comment (sym_name s) st else Inr st,
              wr [LF], grow 1 1]"
  have nat: "settles [] 0 [?native a s]" if "clean_text (sym_name s)" for a s
    by (rule settles_run, simp only: append_Cons append_Nil, rule settles_chk, rule settles_quiet, rule quiet_native,
        rule that, rule settles_instr, simp, rule settles_with_sym, rule settles_number_open, rule settles_opt_name, rule that,
        rule st [of "itoh _"], simp, simp, simp)
      (rule st [of "itoh _ @ TAB # ''; '' @ _"], simp, simp, simp)
  have call: "settles [] 0 [?call s]" if s: "clean_text (sym_name s)" for s
  proof -
    have e: "settles (instr ''call'' @ x) 0 ((\<lambda>st. if c st then name_comment (sym_name s) st else Inr st) # wr [LF] # [grow 1 1])"
      if "clean_text x" for x c
      by (rule settles_opt_name, rule s, rule cl [of x], rule that, simp, simp)
        (rule cl [of "x @ TAB # ''; '' @ _"], use that in simp, simp, simp)
    show ?thesis
    proof (cases label)
      case None
      then show ?thesis using s e [OF s]
        by (simp, rule_tac settles_run, simp, rule_tac settles_instr, simp, rule_tac settles_wr) simp_all
    next
      case (Some l)
      then have l: "clean_text (''l.'' @ l)" using assms by simp
      show ?thesis using Some l e [OF l]
        by (simp, rule_tac settles_run, simp, rule_tac settles_instr, simp, rule_tac settles_run, simp, rule_tac settles_wr, simp,
            rule_tac settles_wr) simp_all
    qed
  qed
  have "settles [] 0 [run [chk (sym_ident s = iFUNCTN), if has_usage s uNATIVE then ?native a s else ?call s]]"
    if "clean_text (sym_name s)" for a s
    by (rule settles_run, simp only: append_Cons append_Nil, rule settles_chk, rule settles_if, rule nat [OF that], rule call [OF that])
  then show ?thesis unfolding counted_def ffcall_def by (rule settles_with_sym)
qed


subsection \<open>The end of the file\<close>

lemma counted_cases: "(\<And>st. f st = Inr st \<or> (\<exists>g. counted g \<and> f st = g st) \<or> (\<exists>e. f st = Inl e)) \<Longrightarrow> counted f"
  unfolding counted_def
proof (rule settlesI)
  fix bs st0 st st' assume a: "\<And>st. f st = Inr st \<or> (\<exists>g. settles [] 0 [g] \<and> f st = g st) \<or> (\<exists>e. f st = Inl e)"
    "tally bs st0 [] 0 st" "run [f] st = Inr st'"
  then have f: "f st = Inr st'" by (auto simp: bindR_Inr_iff)
  show "tally bs st0 [] 0 st'"
  proof (cases "f st = Inr st")
    case False
    then obtain g where g: "settles [] 0 [g]" "g st = Inr st'" using a(1) [of st] f by auto
    then have "run [g] st = Inr st'" by simp
    then show ?thesis using settlesD [OF g(1) a(2)] by blast
  qed (use a(2) f in simp)
qed

lemma counted_pair: "counted f \<Longrightarrow> counted g \<Longrightarrow> counted (\<lambda>st. bindR (f st) g)"
proof -
  assume c: "counted f" "counted g"
  have s: "settles [] 0 [f, g]" using settles_call [OF c(1)] c(2) by (simp add: counted_def)
  show ?thesis unfolding counted_def
  proof (rule settlesI)
    fix bs st0 st st' assume a: "tally bs st0 [] 0 st" "run [\<lambda>st. bindR (f st) g] st = Inr st'"
    then have "run [f, g] st = Inr st'" by (auto simp: bindR_Inr_iff)
    then show "tally bs st0 [] 0 st'" using settlesD [OF s a(1)] by blast
  qed
qed

lemma counted_pad_code: "counted (pad_code t)"
proof (induction t)
  case 0
  show ?case by (rule counted_cases) (auto simp: pad_code.simps)
next
  case (Suc t)
  have "counted (\<lambda>st. bindR (nooperation st) (pad_code t))" using counted_pair counted_operators Suc by blast
  then show ?case by (intro counted_cases) (auto simp: pad_code.simps)
qed

lemma tally_declared [simp]: "tally bs st0 p n (st\<lparr>glb_declared := x\<rparr>) = tally bs st0 p n st"
  unfolding tally_def names_clean_def laid_def content_def
  by (simp add: writing_def stgmax_def emitted_def stg_text_def split: option.split)

lemma settles_pad_data:
  assumes "\<And>x. clean_text x \<Longrightarrow> settles (''dump '' @ x) n fs" "clean_text x"
  shows "settles (''dump '' @ x) n (pad_data t # fs)"
  using assms(2)
proof (induction t arbitrary: x)
  case 0
  then show ?case using settlesD [OF assms(1) [OF 0]]
    by (auto simp: settles_def pad_data.simps bindR_Inr_iff split: if_splits)
next
  case (Suc t)
  show ?case
  proof (rule settlesI)
    fix bs st0 st st' assume a: "tally bs st0 (''dump '' @ x) n st" "run (pad_data (Suc t) # fs) st = Inr st'"
    show "tally bs st0 [] 0 st'"
    proof (cases "glb_declared st * 4 mod sc_dataalign st = 0")
      case True
      then show ?thesis using a settlesD [OF assms(1) [OF Suc.prems]] by (simp add: pad_data.simps)
    next
      case False
      then obtain st1 where st1: "wr ''0 '' st = Inr st1"
          "run (pad_data t # fs) (st1\<lparr>glb_declared := glb_declared st1 + 1\<rparr>) = Inr st'"
        using a(2) by (auto simp: pad_data.simps [of "Suc t"] bindR_Inr_iff)
      have "tally bs st0 (''dump '' @ (x @ ''0 '')) n st1" using tally_wr [OF a(1) _ st1(1)] by simp
      then have "tally bs st0 (''dump '' @ (x @ ''0 '')) n (st1\<lparr>glb_declared := glb_declared st1 + 1\<rparr>)"
        unfolding tally_declared .
      moreover have "clean_text (x @ ''0 '')" using Suc.prems by simp
      ultimately show ?thesis using settlesD [OF Suc.IH] st1(2) by blast
    qed
  qed
qed

lemma settles_stksize:
  assumes "LF \<notin> set p" "line_size p = Some 0"
  shows "settles p 0 (wr (LF # ''STKSIZE '') # (\<lambda>st. (\<lambda>x. outval x True) (sc_stksize st - sc_stksize st mod sc_dataalign st) st) # [])"
proof (rule settles_next [OF assms], simp, rule settles_state [of _ _ "\<lambda>x. outval x True"])
  fix x :: cell
  have "line_size (''STKSIZE '' @ itoh x) = Some 0"
    using line_size_margin [of "''STKSIZE''" "CHR '' ''" 0 "itoh x"] by simp
  then show "settles ''STKSIZE '' (0 + word_of_nat 0) [outval x True]"
    by (rule settles_number [rotated]) (simp_all add: settles_done)
qed

lemma settles_opt_data:
  assumes "\<And>x. clean_text x \<Longrightarrow> settles (''dump '' @ x) 0 fs" "settles [] 0 fs"
  shows "settles [] 0 ((\<lambda>st. if c st then run [begdseg, defstorage, pad_data (g st)] st else Inr st) # fs)"
proof (rule settles_opt_state [of _ _ "\<lambda>t. run [begdseg, defstorage, pad_data t]"])
  fix t
  have "settles (''dump '' @ []) 0 (pad_data t # fs)" using settles_pad_data [OF assms(1)] by simp
  then have "settles [] 0 (defstorage # pad_data t # fs)"
    unfolding defstorage_def by (intro settles_run) (simp, rule settles_wr, simp_all)
  then show "settles [] 0 (run [begdseg, defstorage, pad_data t] # fs)"
    by (intro settles_run) (simp add: settles_call counted_segments)
qed (rule assms(2))

lemma counted_writetrailer: "counted writetrailer"
proof -
  let ?stk = "[wr (LF # ''STKSIZE ''), \<lambda>st. outval (sc_stksize st - sc_stksize st mod sc_dataalign st) True st]"
  have dump: "settles (''dump '' @ x) 0 ?stk" if "clean_text x" for x
  proof -
    have "plain_name ''dump''" "instr_size ''dump'' = Some 0"
      using name_size_eqs by (simp_all add: name_size_def)
    then have "line_size (''dump '' @ x) = Some 0" using line_size_margin [of "''dump''" "CHR '' ''" 0 x] by simp
    then show ?thesis using settles_stksize [of "''dump '' @ x"] that by simp
  qed
  have stk: "settles [] 0 ?stk" using settles_stksize [of "[]"] by simp
  have data: "settles [] 0 ((\<lambda>st. if glb_declared st * 4 mod sc_dataalign st \<noteq> 0
      then run [begdseg, defstorage, pad_data (unat (sc_dataalign st))] st else Inr st) # ?stk)"
    using dump stk by (rule settles_opt_data)
  have code: "settles [] 0 ((\<lambda>st. if c st then run [begcseg, pad_code (g st)] st else Inr st) # fs)"
    if fs: "settles [] 0 fs" for c fs and g :: "cgstate \<Rightarrow> nat"
  proof (rule settles_opt_state [of _ _ "\<lambda>t. run [begcseg, pad_code t]"])
    show "settles [] 0 (run [begcseg, pad_code t] # fs)" for t
      by (rule settles_run) (simp add: settles_call counted_segments counted_pad_code fs)
  qed (rule fs)
  show ?thesis unfolding counted_def writetrailer_def
    by (rule settles_run, simp only: append_Cons append_Nil, rule settles_quiet, rule quiet_chk, rule settles_quiet,
        rule quiet_chk, rule code, rule settles_quiet, rule quiet_chk, rule data)
qed

section \<open>The contract\<close>

text \<open>The functions of the code generator that write whole lines.\<close>

inductive code_emitter :: "emitter \<Rightarrow> bool" where
  "code_emitter begcseg" | "code_emitter begdseg" | "code_emitter (setline b)"
| "code_emitter (setfiledirect f)" | "code_emitter (setlinedirect l)" | "code_emitter (setlabel num)"
| "(\<And>n. name = Some n \<Longrightarrow> clean_text n) \<Longrightarrow> code_emitter (markexpr type name v)"
| "clean_text fname \<Longrightarrow> code_emitter (startfunc fname)" | "code_emitter endfunc" | "code_emitter (alignframe k)"
| "code_emitter load_i" | "code_emitter (rvalue lval)" | "code_emitter (address p reg)"
| "code_emitter (addr_reg v reg)" | "code_emitter (load_argcount reg)" | "code_emitter (pushreg reg)"
| "code_emitter (popreg reg)" | "code_emitter moveto1" | "code_emitter move_alt" | "code_emitter swap1"
| "code_emitter load_hidden_arg" | "code_emitter (store_value lval)" | "code_emitter (storereg v reg)"
| "code_emitter (memcopy v)" | "code_emitter (copyarray p v)" | "code_emitter (ldconst v reg)"
| "code_emitter (fillarray p v w)" | "code_emitter (pushval v)" | "code_emitter (ffswitch v)"
| "clean_text l \<Longrightarrow> code_emitter (ffcase v l newtable)"
| "(\<And>l. label = Some l \<Longrightarrow> clean_text l) \<Longrightarrow> code_emitter (ffcall p label numargs)"
| "code_emitter ffret" | "code_emitter (ffabort v)" | "code_emitter (ffbounds v)" | "code_emitter (jumplabel v)"
| "code_emitter (modstk v)" | "code_emitter (setstk v)" | "code_emitter (modheap v)"
| "code_emitter setheap_pri" | "code_emitter (setheap v)" | "code_emitter cell2addr"
| "code_emitter cell2addr_alt" | "code_emitter addr2cell" | "code_emitter char2addr" | "code_emitter charalign"
| "code_emitter (addconst v)" | "code_emitter os_mult" | "code_emitter os_div" | "code_emitter os_mod"
| "code_emitter ob_add" | "code_emitter ob_sub" | "code_emitter ob_sal" | "code_emitter os_sar"
| "code_emitter ou_sar" | "code_emitter ob_or" | "code_emitter ob_xor" | "code_emitter ob_and"
| "code_emitter ob_eq" | "code_emitter ob_ne" | "code_emitter relop_prefix" | "code_emitter relop_suffix"
| "code_emitter os_lt" | "code_emitter os_le" | "code_emitter os_gt" | "code_emitter os_ge" | "code_emitter lneg"
| "code_emitter neg" | "code_emitter invert" | "code_emitter nooperation" | "code_emitter (inc lval)"
| "code_emitter (dec lval)" | "code_emitter (jmp_ne0 v)" | "code_emitter (jmp_eq0 v)" | "code_emitter writetrailer"

lemmas counted_all =
  counted_segments counted_lines counted_setlabel counted_markexpr counted_startfunc counted_registers
  counted_operators counted_variables counted_symbols counted_ffcase counted_ffcall counted_writetrailer

lemma code_emitter_counted: "code_emitter f \<Longrightarrow> counted f"
  by (induction rule: code_emitter.induct) (simp_all add: counted_all)

lemma run_settles: "\<forall>f\<in>set fs. code_emitter f \<Longrightarrow> settles [] 0 fs"
  by (induction fs) (simp_all add: settles_done settles_call code_emitter_counted)

text \<open>In the staging buffer the new text lies as whole lines, behind what was there.\<close>

lemma run_laid:
  assumes "\<forall>f\<in>set fs. code_emitter f" "run fs st = Inr st'" "writing st" "names_clean st" "staging st" "settled (content st)"
  shows "\<exists>ss n. content st' = content st @ lines_of ss
    \<and> list_all (\<lambda>s. plain_text s \<and> s \<noteq> [] \<and> complete LF s) ss
    \<and> text_size (concat ss) = Some n \<and> code_idx st' = code_idx st + word_of_nat n
    \<and> outf st' = outf st \<and> writing st' \<and> names_clean st' \<and> staging st'"
proof -
  have ta: "tally (outf st, content st) st [] 0 st'"
    using settlesD [OF run_settles [OF assms(1)] tally_start [OF assms(3,4)] assms(2)] .
  then obtain t n where t: "emitted st' = emitted st @ t" "complete LF t" "text_size t = Some n"
      "code_idx st' = code_idx st + word_of_nat n" "staging st'" "writing st'" "names_clean st'"
    using assms(5) by (auto simp: tally_def)
  obtain ss where ss: "content st' = content st @ lines_of ss" "list_all (\<lambda>s. plain_text s \<and> s \<noteq> []) ss"
      "list_all (complete LF) (butlast ss)" and o: "outf st' = outf st"
    using ta t(5) assms(6) by (auto simp: tally_def laid_def)
  have f: "filter textchar (lines_of ss) = concat ss"
    using ss(2) by (induction ss) (simp_all add: plain_text_filter textchar_def)
  have e: "emitted s = outf s @ filter textchar (content s)" if "staging s" for s
    using that by (simp add: emitted_def stg_text_def content_def split: option.split)
  have c: "concat ss = t" using t(1) unfolding e [OF assms(5)] e [OF t(5)] ss(1) o by (simp add: f)
  have "list_all (complete LF) ss"
  proof (cases ss rule: rev_cases)
    case (snoc i x)
    have "complete LF x" using t(2) c snoc ss(2) by (auto simp: complete_def last_append)
    then show ?thesis using ss(3) snoc by simp
  qed simp
  then have "list_all (\<lambda>s. plain_text s \<and> s \<noteq> [] \<and> complete LF s) ss" using ss(2) by (simp add: list_all_iff)
  then show ?thesis using t ss(1) o c by blast
qed

text \<open>
  C4: Code generation keeps the count: after any sequence of calls of the code generator in the
  writing pass, staged or not, the text that was added consists of whole lines, the assembler
  knows every instruction in it, and \<open>code_idx\<close> has grown by exactly the number of bytes that
  the assembler counts for it.
\<close>

theorem generator_keeps_count:
  assumes "\<forall>f\<in>set fs. code_emitter f" "run fs st = Inr st'" "writing st" "names_clean st"
  shows "\<exists>t n. emitted st' = emitted st @ t \<and> complete LF t \<and> text_size t = Some n
    \<and> code_idx st' = code_idx st + word_of_nat n"
  using settlesD [OF run_settles [OF assms(1)] tally_start [OF assms(3,4)] assms(2)] by (auto simp: tally_def)


definition writing_state :: cgstate where
  "writing_state =
     \<lparr>stgbuf = Some (replicate 32 NUL), stgidx = 0, staging = False, stg_junk = (\<lambda>_. CHR ''x''), code_idx = 8,
      glb_declared = 0, litidx = 0, curseg = InCseg, sc_status = statWRITE, sc_debug = 0, sc_asmfile = False,
      sc_listing = False, sc_stksize = 0, sc_dataalign = 4, ntv_funcid = 0, labnum = 0, symtab = Map.empty,
      curfunc = None, fline = 0, tagname_tab = [], sc_ctrlchar = CHR ''^'', outf = []\<rparr>"

theorem generator_keeps_count_witness:
  "\<exists>st' t n. run [setheap_pri, ldconst 5 sALT] writing_state = Inr st' \<and> emitted st' = emitted writing_state @ t
     \<and> complete LF t \<and> text_size t = Some n \<and> code_idx st' = code_idx writing_state + word_of_nat n"
proof -
  have "case run [setheap_pri, ldconst 5 sALT] writing_state of Inl e \<Rightarrow> False | Inr st' \<Rightarrow> True" by code_simp
  then obtain st' where st': "run [setheap_pri, ldconst 5 sALT] writing_state = Inr st'" by (auto split: sum.splits)
  have "writing writing_state" "names_clean writing_state"
    by (simp_all add: writing_state_def writing_def names_clean_def)
  moreover have "\<forall>f\<in>set [setheap_pri, ldconst 5 sALT]. code_emitter f" by (simp add: code_emitter.intros)
  ultimately show ?thesis using generator_keeps_count [OF _ st'] st' by blast
qed

end
