(* ===== verification/Optimizer.thy ===== *)
theory Optimizer
  imports Peepsize
begin

text \<open>
  What the peephole optimizer guarantees, built on the size account of its replacements: the
  table of sequences is sound, the count of the code is kept, and the loops of \<open>stgopt\<close> stop at
  a text in which no sequence matches.
\<close>

section \<open>A pass without a match changes nothing\<close>

lemma opt_string_matches: "opt_string s n ci m = Inr (s1, n1, ci1, m1) \<Longrightarrow> m \<le> m1"
  using opt_string_shorter by blast

lemma opt_string_idle:
  assumes "opt_string s n ci m = Inr (s1, n1, ci1, m)"
  shows "first_match sequences s n = Inr None" "s1 = s" "n1 = n" "ci1 = ci"
proof -
  show f: "first_match sequences s n = Inr None"
  proof (cases "first_match sequences s n")
    case (Inr x)
    show ?thesis
    proof (cases x)
      case (Some y)
      obtain r ml sv where y: "y = (r, ml, sv)" by (cases y)
      then obtain s2 where "opt_string s2 (n - (ml - length r)) (ci - sv) (m + 1) = Inr (s1, n1, ci1, m)"
        using assms Inr Some by (cases "strreplace s r ml (length r) n") (simp_all add: opt_string.simps [of s])
      then show ?thesis using opt_string_matches by fastforce
    qed (use Inr in simp)
  qed (use assms in \<open>simp add: opt_string.simps [of s]\<close>)
  show "s1 = s" "n1 = n" "ci1 = ci" using assms f by (simp_all add: opt_string.simps [of s])
qed

lemma opt_pass_idle:
  "opt_pass s n ci m = Inr (s1, n1, ci1, m1) \<Longrightarrow> m1 = m \<Longrightarrow>
    s1 = s \<and> n1 = n \<and> ci1 = ci \<and> (\<forall>ci' m'. opt_pass s n ci' m' = Inr (s, n, ci', m'))"
proof (induction s n ci m arbitrary: s1 n1 ci1 m1 rule: opt_pass.induct)
  case (1 s n ci m)
  show ?case
  proof (cases "n = 0")
    case True
    then show ?thesis using "1.prems" by (auto simp: opt_pass.simps [of _ 0])
  next
    case False
    then obtain s2 n2 ci2 m2 where o: "opt_string s n ci m = Inr (s2, n2, ci2, m2)"
      using "1.prems"(1) by (cases "opt_string s n ci m") (auto simp: opt_pass.simps [of s])
    then obtain p where p: "strchr s2 NUL = Some p"
      using "1.prems"(1) False by (cases "strchr s2 NUL") (auto simp: opt_pass.simps [of s])
    obtain s3 n3 ci3 m3 where r: "opt_pass (drop (Suc p) s2) (n2 - Suc p) ci2 m2 = Inr (s3, n3, ci3, m3)"
      using "1.prems"(1) False o p
      by (cases "opt_pass (drop (Suc p) s2) (n2 - Suc p) ci2 m2") (auto simp: opt_pass.simps [of s])
    have res: "s1 = take (Suc p) s2 @ s3" "n1 = min n2 (Suc p) + n3" "ci1 = ci3" "m1 = m3"
      using "1.prems"(1) False o p r by (simp_all add: opt_pass.simps [of s])
    have "m \<le> m2" "m2 \<le> m3" using opt_string_matches [OF o] opt_pass_shorter [OF r] by auto
    then have m: "m2 = m" "m3 = m2" using "1.prems"(2) res(4) by simp_all
    note i = opt_string_idle [OF o [unfolded m(1)]]
    have ih: "s3 = drop (Suc p) s2 \<and> n3 = n2 - Suc p \<and> ci3 = ci2 \<and>
        (\<forall>ci' m'. opt_pass (drop (Suc p) s2) (n2 - Suc p) ci' m' = Inr (drop (Suc p) s2, n2 - Suc p, ci', m'))"
      using "1.IH" [OF False o refl refl refl p r m(2)] .
    have n: "min n (Suc p) + (n - Suc p) = n" by simp
    have "opt_string s n ci' m' = Inr (s, n, ci', m')" for ci' m' using i(1) by (simp add: opt_string.simps [of s])
    then have "opt_pass s n ci' m' = Inr (s, n, ci', m')" for ci' m'
      using False p ih n unfolding i by (subst opt_pass.simps) simp
    then show ?thesis using res ih n unfolding i by simp
  qed
qed

lemma opt_loop_idle: "opt_loop s n ci = Inr (s1, n1, ci1) \<Longrightarrow> opt_loop s1 n1 ci2 = Inr (s1, n1, ci2)"
proof (induction s n ci rule: opt_loop.induct)
  case (1 s n ci)
  obtain s2 n2 ci3 m where p: "opt_pass s n ci 0 = Inr (s2, n2, ci3, m)"
    using "1.prems"(1) by (cases "opt_pass s n ci 0") (auto simp: opt_loop.simps [of s])
  show ?case
  proof (cases "m > 0")
    case True
    then show ?thesis using "1.IH" [OF p refl refl refl True] "1.prems" p by (simp add: opt_loop.simps [of s])
  next
    case False
    then have "s1 = s2" "n1 = n2" "m = 0" using "1.prems" p by (simp_all add: opt_loop.simps [of s])
    then show ?thesis using opt_pass_idle [OF p] by (simp add: opt_loop.simps [of _ _ ci2])
  qed
qed

section \<open>No sequence matches any more\<close>

text \<open>The places of a part of the buffer at which a string begins, and no sequence matching at any of them.\<close>

definition string_start :: "string \<Rightarrow> nat \<Rightarrow> bool" where
  "string_start s p \<longleftrightarrow> p = 0 \<or> s ! (p - 1) = NUL"

definition nothing_matches :: "string \<Rightarrow> nat \<Rightarrow> bool" where
  "nothing_matches s n \<longleftrightarrow> (\<forall>p < n. string_start s p \<longrightarrow>
     (\<forall>(pat, repl, save) \<in> set sequences. matchsequence (drop p s) (n - p) pat = Inr None))"

lemma first_match_None: "first_match seqs s n = Inr None \<Longrightarrow> \<forall>(pat, repl, save) \<in> set seqs. matchsequence s n pat = Inr None"
proof (induction seqs)
  case (Cons e seqs)
  obtain pat repl sv where e: "e = (pat, repl, sv)" by (cases e)
  then show ?case using Cons by (cases "matchsequence s n pat") (auto simp: bindR_Inr_iff assertR_Inr_iff split: option.splits)
qed simp

lemma first_NUL: "strchr s NUL = Some q \<Longrightarrow> i < q \<Longrightarrow> s ! i \<noteq> NUL"
  by (induction s arbitrary: q i) (auto simp: nth_Cons' split: if_splits)

lemma opt_pass_unmatched: "opt_pass s n ci m = Inr (s1, n1, ci1, m1) \<Longrightarrow> m1 = m \<Longrightarrow> nothing_matches s n"
proof (induction s n ci m arbitrary: s1 n1 ci1 m1 rule: opt_pass.induct)
  case (1 s n ci m)
  show ?case
  proof (cases "n = 0")
    case False
    then obtain s2 n2 ci2 m2 where o: "opt_string s n ci m = Inr (s2, n2, ci2, m2)"
      using "1.prems"(1) by (cases "opt_string s n ci m") (auto simp: opt_pass.simps [of s])
    then obtain p where p: "strchr s2 NUL = Some p"
      using "1.prems"(1) False by (cases "strchr s2 NUL") (auto simp: opt_pass.simps [of s])
    obtain s3 n3 ci3 m3 where r: "opt_pass (drop (Suc p) s2) (n2 - Suc p) ci2 m2 = Inr (s3, n3, ci3, m3)"
      using "1.prems"(1) False o p
      by (cases "opt_pass (drop (Suc p) s2) (n2 - Suc p) ci2 m2") (auto simp: opt_pass.simps [of s])
    have "m1 = m3" using "1.prems"(1) False o p r by (simp add: opt_pass.simps [of s])
    moreover have "m \<le> m2" "m2 \<le> m3" using opt_string_matches [OF o] opt_pass_shorter [OF r] by auto
    ultimately have m: "m2 = m" "m3 = m2" using "1.prems"(2) by simp_all
    note i = opt_string_idle [OF o [unfolded m(1)]]
    have later: "nothing_matches (drop (Suc p) s) (n - Suc p)"
      using "1.IH" [OF False o refl refl refl p r m(2)] unfolding i .
    have lt: "p < length s" using strchr_Some [OF p] unfolding i by simp
    show ?thesis unfolding nothing_matches_def
    proof (intro allI impI)
      fix k assume k: "k < n" "string_start s k"
      show "\<forall>(pat, repl, save) \<in> set sequences. matchsequence (drop k s) (n - k) pat = Inr None"
      proof (cases "k = 0")
        case False
        then have "p \<le> k - 1" using k(2) first_NUL [of s p "k - 1"] p unfolding i string_start_def by (metis not_le)
        then obtain j where j: "k = Suc p + j" using False by (metis Suc_diff_1 add_Suc le_Suc_ex not_gr_zero)
        have "string_start (drop (Suc p) s) j" using k(2) lt unfolding j string_start_def by (cases j) auto
        moreover have "j < n - Suc p" using k(1) j by simp
        ultimately show ?thesis using later unfolding nothing_matches_def j by (auto simp: add.commute)
      qed (use first_match_None [OF i(1)] in simp)
    qed
  qed (simp add: nothing_matches_def)
qed

text \<open>The loop of the passes, stopped after \<open>k\<close> of them.\<close>

primrec opt_passes :: "nat \<Rightarrow> string \<Rightarrow> nat \<Rightarrow> cell \<Rightarrow> (string \<times> nat \<times> cell) res option" where
  "opt_passes 0 s n ci = None"
| "opt_passes (Suc k) s n ci =
     (case opt_pass s n ci 0 of
        Inl e \<Rightarrow> Some (Inl e)
      | Inr (s1, n1, ci1, matches) \<Rightarrow> if matches > 0 then opt_passes k s1 n1 ci1 else Some (Inr (s1, n1, ci1)))"

lemma opt_passes_enough: "n < k \<Longrightarrow> opt_passes k s n ci = Some (opt_loop s n ci)"
proof (induction k arbitrary: s n ci)
  case (Suc k)
  show ?case
  proof (cases "opt_pass s n ci 0")
    case (Inr r)
    obtain s1 n1 ci1 m where r: "r = (s1, n1, ci1, m)" by (cases r)
    have "n1 + m \<le> n" using opt_pass_shorter Inr r by fastforce
    then show ?thesis using Suc.IH [of n1 s1 ci1] Suc.prems Inr r by (simp add: opt_loop.simps [of s])
  qed (simp add: opt_loop.simps [of s])
qed simp

lemma opt_loop_unmatched: "opt_loop s n ci = Inr (s1, n1, ci1) \<Longrightarrow> nothing_matches s1 n1 \<and> n1 \<le> n"
proof (induction s n ci rule: opt_loop.induct)
  case (1 s n ci)
  obtain s2 n2 ci3 m where p: "opt_pass s n ci 0 = Inr (s2, n2, ci3, m)"
    using "1.prems"(1) by (cases "opt_pass s n ci 0") (auto simp: opt_loop.simps [of s])
  have short: "n2 \<le> n" using opt_pass_shorter [OF p] by simp
  show ?case
  proof (cases "m > 0")
    case True
    then show ?thesis using "1.IH" [OF p refl refl refl True] "1.prems" p short by (simp add: opt_loop.simps [of s])
  next
    case False
    then have "s1 = s2" "n1 = n2" "m = 0" using "1.prems" p by (simp_all add: opt_loop.simps [of s])
    then show ?thesis using opt_pass_idle [OF p] opt_pass_unmatched [OF p] short by simp
  qed
qed

section \<open>Properties\<close>

text \<open>
  C5: The optimizer keeps the count of the code: on a part of the staging buffer that consists
  of whole lines, whatever sequences it replaces, the difference between the size the assembler
  counts for the text and \<open>code_idx\<close> stays the same; the part remains a part of whole lines,
  does not grow, and the buffer behind it is not touched.
\<close>

theorem optimizer_keeps_count:
  assumes "opt_loop s n ci = Inr (s1, n1, ci1)" and "whole s n" and "strings_size (take n s) = Some k"
  shows "\<exists>k1. strings_size (take n1 s1) = Some k1 \<and> ci1 - word_of_nat k1 = ci - word_of_nat k
    \<and> whole s1 n1 \<and> n1 \<le> n \<and> length s1 = length s \<and> drop n s1 = drop n s"
proof -
  note b = opt_loop_balance [OF assms(1,2)]
  then obtain k1 where k1: "strings_size (take n1 s1) = Some k1" "ci + word_of_nat k1 = ci1 + word_of_nat k"
    using assms(3) by (auto simp: balance_def)
  have "ci = ci1 + word_of_nat k - word_of_nat k1" using k1(2) by (simp add: eq_diff_eq)
  then have "ci1 - word_of_nat k1 = ci - word_of_nat k" by simp
  then show ?thesis using b k1(1) by blast
qed

theorem optimizer_keeps_count_witness:
  "\<exists>s1 n1 ci1 k1. opt_loop (TAB # ''load.pri 4'' @ [LF, NUL] @ TAB # ''push.pri'' @ [LF, NUL, NUL]) 24 12 = Inr (s1, n1, ci1)
     \<and> strings_size (take n1 s1) = Some k1 \<and> ci1 - word_of_nat k1 = 0"
proof -
  let ?s = "TAB # ''load.pri 4'' @ [LF, NUL] @ TAB # ''push.pri'' @ [LF, NUL, NUL]"
  have "case opt_loop ?s 24 12 of Inl e \<Rightarrow> False | Inr r \<Rightarrow> True" by code_simp
  then obtain s1 n1 ci1 where o: "opt_loop ?s 24 12 = Inr (s1, n1, ci1)" by (auto split: sum.splits)
  have w: "whole ?s 24" by (simp add: whole_def) code_simp
  have "strings_size (take 24 ?s) = Some 12" by code_simp
  then show ?thesis using optimizer_keeps_count [OF o w] o by auto
qed

text \<open>
  C6: The optimizer ends, and at a text that is optimized: on a part of \<open>n\<close> bytes the loop of
  \<open>stgopt\<close> is over after at most \<open>n + 1\<close> passes, whatever the text is.  When it is over without a fault, none of the
  sequences of the table matches at the beginning of any string of the part that is left, and
  optimizing that part again changes neither the text nor the count.
\<close>

theorem optimizer_fixed_point:
  "opt_passes (n + 1) s n ci = Some (opt_loop s n ci) \<and>
    (\<forall>s1 n1 ci1. opt_loop s n ci = Inr (s1, n1, ci1) \<longrightarrow>
       n1 \<le> n \<and> opt_loop s1 n1 ci2 = Inr (s1, n1, ci2) \<and>
       (\<forall>p < n1. string_start s1 p \<longrightarrow>
          (\<forall>(pat, repl, save) \<in> set sequences. matchsequence (drop p s1) (n1 - p) pat = Inr None)))"
  using opt_passes_enough [of n "n + 1" s ci] opt_loop_unmatched [of s n ci] opt_loop_idle [of s n ci]
  unfolding nothing_matches_def by (intro conjI allI impI) (simp, blast+)

theorem optimizer_fixed_point_witness:
  "\<exists>s1 n1 ci1. opt_loop (TAB # ''const.pri 0'' @ [LF, NUL, NUL, NUL]) 14 8 = Inr (s1, n1, ci1) \<and> n1 = 11
     \<and> opt_loop s1 n1 0 = Inr (s1, n1, 0)
     \<and> (\<forall>(pat, repl, save) \<in> set sequences. matchsequence s1 n1 pat = Inr None)"
proof -
  let ?s = "TAB # ''const.pri 0'' @ [LF, NUL, NUL, NUL]"
  have "case opt_loop ?s 14 8 of Inl e \<Rightarrow> False | Inr (s1, n1, ci1) \<Rightarrow> n1 = 11" by code_simp
  then obtain s1 n1 ci1 where o: "opt_loop ?s 14 8 = Inr (s1, n1, ci1)" "n1 = 11"
    by (auto split: sum.splits)
  have "string_start s1 0" by (simp add: string_start_def)
  then show ?thesis using optimizer_fixed_point [of 14 ?s 8 0] o by fastforce
qed

text \<open>
  C7: The table of sequences is sound: every pattern and every replacement consists of whole
  instruction lines, every replacement is shorter than what its pattern matches whatever the
  symbols stand for, and the savings noted in the table are the difference of the two sizes
  as the assembler counts them, wherever it knows the instructions of the pattern.
\<close>

theorem sequence_table_sound:
  "list_all (\<lambda>e. shorter e \<and> saving_ok e) sequences"
  using sequences_shorter sequence_saving by (simp add: list_all_iff)

end
