(* ===== verification/Reorder.thy ===== *)
theory Reorder
  imports Optimizer Account "HOL-Library.Multiset"
begin

unbundle bit_operations_syntax

text \<open>
  What the staging buffer holds and what comes out of it (\<open>stgout\<close> and \<open>stgstring\<close> of
  \<open>sc7.c\<close>).  The buffer holds strings and, for the arguments of a call, blocks: a start mark,
  the arguments in the order in which they were parsed, each behind a mark with its position,
  and an end mark.  The arguments are written last one first.
\<close>

section \<open>The contents of the buffer\<close>

datatype item = Text string | Block "arg list"
  and arg = Arg nat "item list"

fun arg_pos :: "arg \<Rightarrow> nat" where "arg_pos (Arg k its) = k"
fun arg_items :: "arg \<Rightarrow> item list" where "arg_items (Arg k its) = its"

text \<open>How items lie in the buffer.\<close>

fun encode :: "item \<Rightarrow> string"
  and encode_items :: "item list \<Rightarrow> string"
  and encode_args :: "arg list \<Rightarrow> string" where
  "encode (Text s) = s @ [NUL]"
| "encode (Block as) = sSTARTREORDER # encode_args as @ [sENDREORDER]"
| "encode_items [] = []"
| "encode_items (i # is) = encode i @ encode_items is"
| "encode_args [] = []"
| "encode_args (Arg k its # as) = char_of (sEXPRSTART + k) # encode_items its @ encode_args as"

text \<open>
  The strings in the order in which they are written: those of an argument together, the
  arguments in descending order of their positions.
\<close>

fun flat :: "item \<Rightarrow> string list"
  and flat_items :: "item list \<Rightarrow> string list"
  and flat_args :: "arg list \<Rightarrow> (nat \<times> string list) list" where
  "flat (Text s) = [s]"
| "flat (Block as) = (let fs = flat_args as in concat (map (\<lambda>k. the (map_of fs k)) (rev [0..<length as])))"
| "flat_items [] = []"
| "flat_items (i # is) = flat i @ flat_items is"
| "flat_args [] = []"
| "flat_args (Arg k its # as) = (k, flat_items its) # flat_args as"

text \<open>
  Strings contain no zero byte and do not start with a mark; a block has the
  positions from 0 on, each once, and not more of them than the stack of \<open>stgstring\<close> has room for.
\<close>

fun item_ok :: "item \<Rightarrow> bool"
  and arg_ok :: "arg \<Rightarrow> bool" where
  "item_ok (Text s) \<longleftrightarrow> (s \<noteq> [] \<longrightarrow> textchar (hd s)) \<and> NUL \<notin> set s"
| "item_ok (Block as) \<longleftrightarrow> list_all arg_ok as \<and> distinct (map arg_pos as) \<and> set (map arg_pos as) = {..<length as}
     \<and> length as \<le> sMAXARGS"
| "arg_ok (Arg k its) \<longleftrightarrow> list_all item_ok its"

lemma encode_items_append [simp]: "encode_items (a @ b) = encode_items a @ encode_items b"
  by (induction a) simp_all

section \<open>The scan of a block\<close>

lemma mark_values [simp]:
  "sSTARTREORDER \<noteq> sENDREORDER" "sENDREORDER \<noteq> sSTARTREORDER"
  "of_char sSTARTREORDER < sEXPRSTART" "of_char sENDREORDER < sEXPRSTART"
  by (simp_all add: sSTARTREORDER_def sENDREORDER_def sEXPRSTART_def)

lemma mark_of_arg:
  assumes "k < sMAXARGS"
  shows "of_char (char_of (sEXPRSTART + k) :: char) = sEXPRSTART + k" "char_of (sEXPRSTART + k) \<noteq> sSTARTREORDER"
    "char_of (sEXPRSTART + k) \<noteq> sENDREORDER" "char_of (sEXPRSTART + k) \<noteq> NUL"
proof -
  show e: "of_char (char_of (sEXPRSTART + k) :: char) = sEXPRSTART + k"
    using assms by (simp add: sMAXARGS_def sEXPRSTART_def)
  have "of_char NUL < sEXPRSTART" by (simp add: sEXPRSTART_def)
  then show "char_of (sEXPRSTART + k) \<noteq> sSTARTREORDER" "char_of (sEXPRSTART + k) \<noteq> sENDREORDER"
    "char_of (sEXPRSTART + k) \<noteq> NUL"
    using e mark_values(3,4) by (metis not_add_less1)+
qed

lemma strchr_here: "c \<notin> set s \<Longrightarrow> strchr (s @ c # r) c = Some (length s)"
  by (induction s) auto

text \<open>The first character of a string with its zero byte, which is not a mark.\<close>

lemma text_first:
  assumes "item_ok (Text s)"
  obtains c t where "s @ NUL # r = c # t" "c \<noteq> sSTARTREORDER" "c \<noteq> sENDREORDER" "\<not> of_char c \<ge> sEXPRSTART"
proof (cases s)
  case Nil
  have "NUL \<noteq> sSTARTREORDER" "NUL \<noteq> sENDREORDER" "\<not> of_char NUL \<ge> sEXPRSTART"
    by (simp_all add: sSTARTREORDER_def sENDREORDER_def sEXPRSTART_def)
  then show ?thesis using that [of NUL r] Nil by simp
next
  case (Cons c t)
  then show ?thesis using that [of c "t @ NUL # r"] assms by (simp add: textchar_def)
qed

lemma scan_text:
  assumes "item_ok (Text s)"
  shows "reorder_scan (pre @ encode (Text s) @ post) (length pre) nest argc arg stack
    = reorder_scan (pre @ encode (Text s) @ post) (length pre + length (encode (Text s))) nest argc arg stack"
proof -
  obtain c t where c: "s @ NUL # post = c # t" "c \<noteq> sSTARTREORDER" "c \<noteq> sENDREORDER" "\<not> of_char c \<ge> sEXPRSTART"
    using text_first [OF assms] .
  define B where "B = pre @ encode (Text s) @ post"
  have "NUL \<notin> set s" using assms by simp
  moreover have "drop (length pre) B = s @ NUL # post" by (simp add: B_def)
  ultimately have p: "strchr (drop (length pre) B) NUL = Some (length s)" using strchr_here by simp
  have "B = pre @ c # t" using c(1) by (simp add: B_def)
  then have "B ! length pre = c" "length pre < length B" by simp_all
  then have "reorder_scan B (length pre) nest argc arg stack = reorder_scan B (length pre + length s + 1) nest argc arg stack"
    using c(2,3,4) p by (subst reorder_scan.simps) simp
  then show ?thesis by (simp add: B_def)
qed

lemma arg_ok_less: "item_ok (Block as) \<Longrightarrow> a \<in> set as \<Longrightarrow> arg_pos a < sMAXARGS \<and> arg_pos a < length as"
proof -
  assume a: "item_ok (Block as)" "a \<in> set as"
  have "arg_pos a \<in> set (map arg_pos as)" using a(2) by simp
  moreover have "set (map arg_pos as) = {..<length as}" using a(1) unfolding item_ok.simps by blast
  ultimately have "arg_pos a < length as" by blast
  then show ?thesis using a(1) by simp
qed

text \<open>The items of an argument, and whole blocks in it, are passed over.\<close>

lemma scan_skip:
  "item_ok i \<Longrightarrow> nest \<ge> 1 \<Longrightarrow> reorder_scan (pre @ encode i @ post) (length pre) nest argc arg stack
    = reorder_scan (pre @ encode i @ post) (length pre + length (encode i)) nest argc arg stack"
  "list_all item_ok is \<Longrightarrow> nest \<ge> 1 \<Longrightarrow> reorder_scan (pre @ encode_items is @ post) (length pre) nest argc arg stack
    = reorder_scan (pre @ encode_items is @ post) (length pre + length (encode_items is)) nest argc arg stack"
  "list_all arg_ok as \<Longrightarrow> \<forall>a\<in>set as. arg_pos a < sMAXARGS \<Longrightarrow> nest \<ge> 2 \<Longrightarrow>
    reorder_scan (pre @ encode_args as @ post) (length pre) nest argc arg stack
    = reorder_scan (pre @ encode_args as @ post) (length pre + length (encode_args as)) nest argc arg stack"
proof (induction i and "is" and "as" arbitrary: pre post nest and pre post nest and pre post nest
    rule: encode_encode_items_encode_args.induct)
  case (1 s)
  show ?case using scan_text [OF "1.prems"(1)] .
next
  case (2 as)
  let ?b = "pre @ encode (Block as) @ post"
  have p: "\<forall>a\<in>set as. arg_pos a < sMAXARGS" using arg_ok_less [OF "2.prems"(1)] by blast
  have "reorder_scan ?b (length pre) nest argc arg stack = reorder_scan ?b (length pre + 1) (nest + 1) argc arg stack"
    by (subst reorder_scan.simps) (simp add: nth_append)
  also have "\<dots> = reorder_scan ?b (length pre + 1 + length (encode_args as)) (nest + 1) argc arg stack"
    using "2.IH" [of "nest + 1" "pre @ [sSTARTREORDER]" "sENDREORDER # post"] "2.prems" p by simp
  also have "\<dots> = reorder_scan ?b (length pre + 1 + length (encode_args as) + 1) nest argc arg stack"
    using "2.prems"(2) by (subst reorder_scan.simps) (simp add: nth_append)
  finally show ?case by simp
next
  case (4 i "is")
  have "reorder_scan (pre @ encode i @ (encode_items is @ post)) (length pre) nest argc arg stack
      = reorder_scan (pre @ encode i @ (encode_items is @ post)) (length pre + length (encode i)) nest argc arg stack"
    using "4.IH"(1) "4.prems" by simp
  also have "\<dots> = reorder_scan ((pre @ encode i) @ encode_items is @ post)
      (length (pre @ encode i) + length (encode_items is)) nest argc arg stack"
    using "4.IH"(2) [of nest "pre @ encode i" post] "4.prems" by simp
  finally show ?case by (simp add: add.assoc)
next
  case (6 k its as)
  let ?m = "char_of (sEXPRSTART + k) :: char"
  have k: "k < sMAXARGS" using "6.prems"(2) by simp
  have "reorder_scan (pre @ encode_args (Arg k its # as) @ post) (length pre) nest argc arg stack
      = reorder_scan (pre @ encode_args (Arg k its # as) @ post) (length pre + 1) nest argc arg stack"
    using mark_of_arg [OF k] "6.prems"(3) by (subst reorder_scan.simps) (simp add: nth_append)
  also have "\<dots> = reorder_scan ((pre @ [?m]) @ encode_items its @ (encode_args as @ post))
      (length (pre @ [?m]) + length (encode_items its)) nest argc arg stack"
    using "6.IH"(1) [of nest "pre @ [?m]" "encode_args as @ post"] "6.prems" by simp
  also have "\<dots> = reorder_scan ((pre @ [?m] @ encode_items its) @ encode_args as @ post)
      (length (pre @ [?m] @ encode_items its) + length (encode_args as)) nest argc arg stack"
    using "6.IH"(2) [of nest "pre @ [?m] @ encode_items its" post] "6.prems" by simp
  finally show ?case by (simp add: add.assoc)
qed simp_all


text \<open>The stack and the number of arguments after the block.\<close>

fun scan_args :: "nat \<Rightarrow> nat option \<Rightarrow> argstack \<Rightarrow> arg list \<Rightarrow> argstack" where
  "scan_args p arg stack [] = end_arg stack arg p"
| "scan_args p arg stack (Arg k its # as) =
     scan_args (p + 1 + length (encode_items its)) (Some k) (start_arg (end_arg stack arg (p - 1)) k (p + 1)) as"

fun count_args :: "nat \<Rightarrow> arg list \<Rightarrow> nat" where
  "count_args argc [] = argc"
| "count_args argc (a # as) = count_args (if arg_pos a \<ge> argc then arg_pos a + 1 else argc) as"

lemma scan_block:
  "list_all arg_ok as \<Longrightarrow> \<forall>a\<in>set as. arg_pos a < sMAXARGS \<Longrightarrow>
    reorder_scan (pre @ encode_args as @ sENDREORDER # post) (length pre) 1 argc arg stack
    = Inr (length pre + length (encode_args as) + 1, count_args argc as, scan_args (length pre) arg stack as)"
proof (induction "as" arbitrary: pre argc arg stack)
  case Nil
  show ?case by (subst reorder_scan.simps) (simp add: nth_append)
next
  case (Cons a as)
  obtain k its where a: "a = Arg k its" by (cases a)
  let ?m = "char_of (sEXPRSTART + k) :: char"
  let ?b = "pre @ encode_args (a # as) @ sENDREORDER # post"
  have k: "k < sMAXARGS" using Cons.prems(2) a by simp
  let ?st = "start_arg (end_arg stack arg (length pre - 1)) k (length pre + 1)"
  let ?argc = "if k \<ge> argc then k + 1 else argc"
  have "reorder_scan ?b (length pre) 1 argc arg stack = reorder_scan ?b (length pre + 1) 1 ?argc (Some k) ?st"
    using mark_of_arg [OF k] k by (subst reorder_scan.simps) (simp add: a nth_append)
  also have "\<dots> = reorder_scan ((pre @ [?m]) @ encode_items its @ (encode_args as @ sENDREORDER # post))
      (length (pre @ [?m]) + length (encode_items its)) 1 ?argc (Some k) ?st"
    using scan_skip(2) [of its 1 "pre @ [?m]" "encode_args as @ sENDREORDER # post"] Cons.prems(1) a by simp
  also have "\<dots> = reorder_scan ((pre @ [?m] @ encode_items its) @ encode_args as @ sENDREORDER # post)
      (length (pre @ [?m] @ encode_items its)) 1 ?argc (Some k) ?st"
    by simp
  also have "\<dots> = Inr (length (pre @ [?m] @ encode_items its) + length (encode_args as) + 1, count_args ?argc as,
      scan_args (length (pre @ [?m] @ encode_items its)) (Some k) ?st as)"
    using Cons.IH [of "pre @ [?m] @ encode_items its"] Cons.prems by simp
  finally show ?case by (simp add: a)
qed

lemma count_args_bound: "\<forall>a\<in>set as. arg_pos a < n \<Longrightarrow> argc \<le> n \<Longrightarrow> count_args argc as \<le> n"
  by (induction "as" arbitrary: argc) auto

lemma count_args_ge: "argc \<le> count_args argc as \<and> (\<forall>a\<in>set as. arg_pos a < count_args argc as)"
proof (induction "as" arbitrary: argc)
  case (Cons a as)
  let ?c = "if arg_pos a \<ge> argc then arg_pos a + 1 else argc"
  have "?c \<le> count_args ?c as \<and> (\<forall>b\<in>set as. arg_pos b < count_args ?c as)" using Cons.IH .
  moreover have "arg_pos a < ?c" "argc \<le> ?c" by auto
  ultimately show ?case by fastforce
qed simp

lemma count_args_all:
  assumes "set (map arg_pos as) = {..<length as}"
  shows "count_args 0 as = length as"
proof (rule antisym)
  have "\<forall>a\<in>set as. arg_pos a < length as" using assms by auto
  then show "count_args 0 as \<le> length as" using count_args_bound by blast
  show "length as \<le> count_args 0 as"
  proof (cases "length as")
    case (Suc m)
    then have "m \<in> set (map arg_pos as)" using assms by auto
    then show ?thesis using count_args_ge [of 0 "as"] Suc by auto
  qed simp
qed

lemma scan_args_other:
  "k \<notin> set (map arg_pos as) \<Longrightarrow> arg \<noteq> Some k \<Longrightarrow> scan_args p arg stack as k = stack k"
  by (induction p arg stack "as" rule: scan_args.induct) (auto simp: end_arg_def start_arg_def split: option.split)

lemma scan_args_at:
  "k \<notin> set (map arg_pos as1) \<Longrightarrow> k \<notin> set (map arg_pos as2) \<Longrightarrow>
    scan_args p arg stack (as1 @ Arg k its # as2) k = (Some (p + length (encode_args as1) + 1),
      Some (p + length (encode_args as1) + 1 + length (encode_items its) - (if as2 = [] then 0 else 1)))"
proof (induction p arg stack as1 rule: scan_args.induct)
  case (1 p arg stack)
  show ?case
  proof (cases as2)
    case Nil
    then show ?thesis by (simp add: end_arg_def start_arg_def)
  next
    case (Cons a as)
    obtain j js where a: "a = Arg j js" by (cases a)
    then show ?thesis using 1 Cons scan_args_other [of k "as" "Some j"] by (auto simp: end_arg_def start_arg_def)
  qed
next
  case (2 p arg stack j js as1)
  then show ?case by (simp add: add.assoc)
qed

lemma arg_segments_all:
  "\<forall>k<n. stack k = (Some (S k), Some (E k)) \<Longrightarrow> arg_segments n stack = Inr (map (\<lambda>k. (S k, E k)) (rev [0..<n]))"
  by (induction n) simp_all


lemma encode_args_append [simp]: "encode_args (a @ b) = encode_args a @ encode_args b"
proof (induction a)
  case (Cons x a)
  then show ?case by (cases x) simp
qed simp

lemma flat_items_append [simp]: "flat_items (a @ b) = flat_items a @ flat_items b"
  by (induction a) simp_all

lemma flat_args_other: "k \<notin> set (map arg_pos as) \<Longrightarrow> map_of (flat_args as) k = None"
proof (induction "as")
  case (Cons x "as")
  then show ?case by (cases x) auto
qed simp

lemma flat_args_at:
  "k \<notin> set (map arg_pos as1) \<Longrightarrow> map_of (flat_args (as1 @ Arg k its # as2)) k = Some (flat_items its)"
proof (induction as1)
  case (Cons x as1)
  then show ?case by (cases x) auto
qed simp

lemma flat_texts [simp]: "flat_items (map Text ss) = ss"
  by (induction ss) simp_all

section \<open>The run of strings in front of a block\<close>

lemma plain_end_run:
  assumes "list_all item_ok (map Text ss)"
    and "buf = pre @ encode_items (map Text ss) @ post" "q = length pre + length (encode_items (map Text ss))"
    and "q \<le> endp \<or> q = endp + 1 \<and> ss \<noteq> [] \<and> last ss \<noteq> []" "endp \<le> q \<or> post \<noteq> [] \<and> hd post = sSTARTREORDER"
  shows "plain_end buf (length pre) endp = Inr q"
  using assms
proof (induction ss arbitrary: pre)
  case Nil
  then show ?case by (subst plain_end.simps) (auto simp: nth_append hd_conv_nth)
next
  case (Cons s ss)
  have ok: "item_ok (Text s)" using Cons.prems(1) by simp
  obtain c t where c: "s @ NUL # encode_items (map Text ss) @ post = c # t" "c \<noteq> sSTARTREORDER"
    using text_first [OF ok] by blast
  have b: "buf = pre @ c # t" using Cons.prems(2) c(1) by simp
  have "NUL \<notin> set s" using ok by simp
  moreover have d: "drop (length pre) buf = s @ NUL # encode_items (map Text ss) @ post" using Cons.prems(2) by simp
  ultimately have "strchr (drop (length pre) buf) NUL = Some (length s)" using strchr_here by simp
  moreover have "length pre < endp"
  proof (cases "q \<le> endp")
    case True
    then show ?thesis using Cons.prems(3) by simp
  next
    case False
    then have "q = endp + 1" "last (s # ss) \<noteq> []" using Cons.prems(4) by auto
    then have "length pre + 1 < q" using Cons.prems(3) by (cases ss; cases s) auto
    then show ?thesis using \<open>q = endp + 1\<close> by simp
  qed
  moreover have "buf ! length pre = c" "length pre < length buf" unfolding b by simp_all
  ultimately have "plain_end buf (length pre) endp = plain_end buf (length (pre @ s @ [NUL])) endp"
    using c(2) by (subst plain_end.simps) simp
  moreover have "q \<le> endp \<or> q = endp + 1 \<and> ss \<noteq> [] \<and> last ss \<noteq> [] \<or> ss = [] \<and> q = endp + 1"
    using Cons.prems(4) by (auto split: if_splits)
  moreover have "plain_end buf q endp = Inr q" if "ss = []" "q = endp + 1"
    using that by (subst plain_end.simps) simp
  ultimately show ?case using Cons.IH [of "pre @ s @ [NUL]"] Cons.prems by auto
qed

lemma split_run:
  obtains ss rest where "its = map Text ss @ rest" "rest = [] \<or> (\<exists>as r. rest = Block as # r)"
proof (induction its arbitrary: thesis)
  case Nil
  then show ?case using Nil [of "[]" "[]"] by simp
next
  case (Cons i its)
  show ?case
  proof (cases i)
    case (Text s)
    obtain ss rest where "its = map Text ss @ rest" "rest = [] \<or> (\<exists>as r. rest = Block as # r)" using Cons.IH .
    then show ?thesis using Cons.prems [of "s # ss" rest] Text by simp
  next
    case (Block as)
    then show ?thesis using Cons.prems [of "[]" "i # its"] by simp
  qed
qed

section \<open>What is written\<close>

text \<open>
  What holds of a run of strings that \<open>stgopt\<close> writes holds of everything that \<open>stgstring\<close>
  writes, in the order of \<open>flat\<close>.  The locale is the interface between the two: \<open>outcome\<close> says
  what writing a list of strings does, \<open>str_ok\<close> and \<open>ready\<close> what it needs, and \<open>returns\<close> whether
  it always succeeds.
\<close>

fun fill :: "arg list \<Rightarrow> string list \<Rightarrow> string" where
  "fill (Arg k its # as) (c # cs) = char_of (sEXPRSTART + k) # c @ fill as cs"
| "fill _ _ = []"

lemma fill_encode: "encode_args as = fill as (map (encode_items \<circ> arg_items) as)"
proof (induction "as")
  case (Cons a "as")
  then show ?case by (cases a) simp
qed simp

lemma fill_append: "length as1 = length cs1 \<Longrightarrow> fill (as1 @ as2) (cs1 @ cs2) = fill as1 cs1 @ fill as2 cs2"
proof (induction as1 arbitrary: cs1)
  case (Cons a as1)
  then show ?case by (cases a; cases cs1) simp_all
qed simp

lemma length_fill: "map length cs = map (length \<circ> encode_items \<circ> arg_items) as \<Longrightarrow> length (fill as cs) = length (encode_args as)"
proof (induction "as" arbitrary: cs)
  case (Cons a "as")
  then show ?case by (cases a; cases cs) auto
qed simp

locale segment_output =
  fixes ready :: "cgstate \<Rightarrow> bool" and str_ok :: "string \<Rightarrow> bool"
    and outcome :: "cgstate \<Rightarrow> string list \<Rightarrow> cgstate \<Rightarrow> bool" and returns :: bool
  assumes outcome_Nil: "ready st \<Longrightarrow> outcome st [] st"
    and outcome_empty: "outcome a ss b \<Longrightarrow> outcome a (ss @ [[]]) b"
    and outcome_append: "outcome a ss b \<Longrightarrow> outcome b ts c \<Longrightarrow> outcome a (ss @ ts) c"
    and run_step: "ready st \<Longrightarrow> stgbuf st = Some (pre @ encode_items (map Text ss) @ post) \<Longrightarrow>
      list_all item_ok (map Text ss) \<Longrightarrow> list_all str_ok ss \<Longrightarrow> ss \<noteq> [] \<Longrightarrow>
      stgopt st (length pre) (length pre + length (encode_items (map Text ss))) = Inr st1 \<Longrightarrow>
      ready st1 \<and> outcome st ss st1 \<and>
        (\<exists>e. stgbuf st1 = Some (pre @ e @ post) \<and> length e = length (encode_items (map Text ss)))"
    and run_returns: "returns \<Longrightarrow> ready st \<Longrightarrow> stgbuf st = Some (pre @ encode_items (map Text ss) @ post) \<Longrightarrow>
      list_all item_ok (map Text ss) \<Longrightarrow> list_all str_ok ss \<Longrightarrow> ss \<noteq> [] \<Longrightarrow>
      \<exists>st1. stgopt st (length pre) (length pre + length (encode_items (map Text ss))) = Inr st1"
begin

definition written :: "cgstate \<Rightarrow> string \<Rightarrow> nat \<Rightarrow> string \<Rightarrow> string list \<Rightarrow> cgstate res \<Rightarrow> bool" where
  "written st pre n post ss r \<longleftrightarrow>
     (\<forall>st'. r = Inr st' \<longrightarrow> ready st' \<and> outcome st ss st' \<and> (\<exists>e. stgbuf st' = Some (pre @ e @ post) \<and> length e = n))
     \<and> (returns \<longrightarrow> (\<exists>st'. r = Inr st'))"

definition writes :: "item list \<Rightarrow> bool" where
  "writes its \<longleftrightarrow> (\<forall>st pre post endp mx. ready st \<longrightarrow> stgbuf st = Some (pre @ encode_items its @ post) \<longrightarrow>
     mx = length (pre @ encode_items its @ post) \<longrightarrow>
     length pre + length (encode_items its) \<le> endp + 1 \<longrightarrow> endp \<le> length pre + length (encode_items its) \<longrightarrow>
     written st pre (length (encode_items its)) post (flat_items its) (stgstring mx st (length pre) endp))"

lemma writesD:
  "writes its \<Longrightarrow> ready st \<Longrightarrow> stgbuf st = Some (pre @ encode_items its @ post) \<Longrightarrow>
    mx = length (pre @ encode_items its @ post) \<Longrightarrow> length pre + length (encode_items its) \<le> endp + 1 \<Longrightarrow>
    endp \<le> length pre + length (encode_items its) \<Longrightarrow>
    written st pre (length (encode_items its)) post (flat_items its) (stgstring mx st (length pre) endp)"
  unfolding writes_def by blast

lemma written_same: "ready st \<Longrightarrow> stgbuf st = Some (pre @ e @ post) \<Longrightarrow> length e = n \<Longrightarrow> written st pre n post [] (Inr st)"
  by (auto simp: written_def outcome_Nil)

lemma written_then:
  assumes "written st pre n post ss r"
    and "\<And>st1 e. r = Inr st1 \<Longrightarrow> ready st1 \<Longrightarrow> stgbuf st1 = Some (pre @ e @ post) \<Longrightarrow> length e = n \<Longrightarrow>
      written st1 pre' n' post' ts (f st1)"
  shows "written st pre' n' post' (ss @ ts) (case r of Inl x \<Rightarrow> Inl x | Inr st1 \<Rightarrow> f st1)"
proof (cases r)
  case (Inl x)
  then have "\<not> returns" using assms(1) unfolding written_def by simp
  then show ?thesis using Inl unfolding written_def by simp
next
  case (Inr st1)
  then obtain e where e: "ready st1" "outcome st ss st1" "stgbuf st1 = Some (pre @ e @ post)" "length e = n"
    using assms(1) by (auto simp: written_def)
  then have "written st1 pre' n' post' ts (f st1)" using assms(2) Inr by blast
  then show ?thesis using Inr e(2) outcome_append unfolding written_def by auto
qed

lemma stgargs_written:
  assumes H: "\<forall>a\<in>set as. writes (arg_items a)" and dist: "distinct (map arg_pos as)"
    and pos: "\<And>k as1 its as2. as = as1 @ Arg k its # as2 \<Longrightarrow> S k = length pre + length (encode_args as1) + 1
      \<and> S k + length (encode_items its) \<le> E k + 1 \<and> E k \<le> S k + length (encode_items its)"
  shows "distinct ks \<Longrightarrow> set ks \<subseteq> set (map arg_pos as) \<Longrightarrow> ready st \<Longrightarrow> stgbuf st = Some (pre @ fill as cs @ post) \<Longrightarrow>
    map length cs = map (length \<circ> encode_items \<circ> arg_items) as \<Longrightarrow>
    \<forall>i<length as. arg_pos (as ! i) \<in> set ks \<longrightarrow> cs ! i = encode_items (arg_items (as ! i)) \<Longrightarrow>
    mx = length (pre @ encode_args as @ post) \<Longrightarrow>
    written st pre (length (encode_args as)) post (concat (map (\<lambda>k. the (map_of (flat_args as) k)) ks))
      (stgargs mx st (map (\<lambda>k. (S k, E k)) ks))"
proof (induction ks arbitrary: st cs)
  case Nil
  then show ?case using written_same length_fill by (simp add: stgargs.simps)
next
  case (Cons k ks)
  obtain a where a: "a \<in> set as" "arg_pos a = k" using Cons.prems(2) by auto
  obtain its where its: "a = Arg k its" using a(2) by (cases a) simp
  obtain as1 as2 where sp: "as = as1 @ Arg k its # as2" using a(1) its split_list by metis
  have lc: "length cs = length as" using Cons.prems(5) by (metis length_map)
  define i where "i = length as1"
  define cs1 where "cs1 = take i cs"
  define cs2 where "cs2 = drop (Suc i) cs"
  have i: "i < length cs" using lc sp by (simp add: i_def)
  have cs: "cs = cs1 @ cs ! i # cs2" unfolding cs1_def cs2_def using id_take_nth_drop [OF i] .
  have l1: "length as1 = length cs1" using i by (simp add: cs1_def i_def)
  have ci: "cs ! i = encode_items its" using Cons.prems(6) i lc sp by (auto simp: i_def)
  have ml: "map length cs1 = map (length \<circ> encode_items \<circ> arg_items) as1"
    using Cons.prems(5) l1 unfolding sp by (subst (asm) cs) simp
  have ml2: "map length cs2 = map (length \<circ> encode_items \<circ> arg_items) as2"
    using Cons.prems(5) l1 unfolding sp by (subst (asm) cs) simp
  let ?pre = "pre @ fill as1 cs1 @ [char_of (sEXPRSTART + k)]"
  let ?post = "fill as2 cs2 @ post"
  have fl: "fill as (cs1 @ x # cs2) = fill as1 cs1 @ char_of (sEXPRSTART + k) # x @ fill as2 cs2" for x
    unfolding sp using fill_append [OF l1] by simp
  have buf: "stgbuf st = Some (?pre @ encode_items its @ ?post)"
    using Cons.prems(4) fl [of "encode_items its"] cs ci by simp
  have Sk: "S k = length ?pre" using pos [OF sp] length_fill [OF ml] by simp
  have mx: "mx = length (?pre @ encode_items its @ ?post)"
    using Cons.prems(7) length_fill [OF ml] length_fill [OF ml2] by (simp add: sp)
  have "writes its" using H a(1) its by force
  then have w: "written st ?pre (length (encode_items its)) ?post (flat_items its) (stgstring mx st (S k) (E k))"
    using writesD [OF _ Cons.prems(3) buf mx] pos [OF sp] unfolding Sk by simp
  have "k \<notin> set (map arg_pos as1)" using dist sp by auto
  then have fk: "the (map_of (flat_args as) k) = flat_items its" unfolding sp using flat_args_at by simp
  have "written st pre (length (encode_args as)) post
      (flat_items its @ concat (map (\<lambda>k. the (map_of (flat_args as) k)) ks))
      (case stgstring mx st (S k) (E k) of Inl e \<Rightarrow> Inl e | Inr st1 \<Rightarrow> stgargs mx st1 (map (\<lambda>k. (S k, E k)) ks))"
  proof (rule written_then [OF w])
    fix st1 e assume r: "ready st1" "stgbuf st1 = Some (?pre @ e @ ?post)" "length e = length (encode_items its)"
    have b1: "stgbuf st1 = Some (pre @ fill as (cs1 @ e # cs2) @ post)" using r(2) fl [of e] by simp
    have m1: "map length (cs1 @ e # cs2) = map (length \<circ> encode_items \<circ> arg_items) as"
      using ml ml2 r(3) by (simp add: sp)
    have u: "\<forall>j<length as. arg_pos (as ! j) \<in> set ks \<longrightarrow> (cs1 @ e # cs2) ! j = encode_items (arg_items (as ! j))"
    proof (intro allI impI)
      fix j assume j: "j < length as" "arg_pos (as ! j) \<in> set ks"
      have "j \<noteq> i"
      proof
        assume "j = i"
        then have "arg_pos (as ! j) = k" using sp by (simp add: i_def)
        then show False using j(2) Cons.prems(1) by simp
      qed
      moreover have "cs1 @ e # cs2 = cs[i := e]" using upd_conv_take_nth_drop [OF i] by (simp add: cs1_def cs2_def)
      ultimately have "(cs1 @ e # cs2) ! j = cs ! j" by simp
      then show "(cs1 @ e # cs2) ! j = encode_items (arg_items (as ! j))" using Cons.prems(6) j by simp
    qed
    show "written st1 pre (length (encode_args as)) post (concat (map (\<lambda>k. the (map_of (flat_args as) k)) ks))
        (stgargs mx st1 (map (\<lambda>k. (S k, E k)) ks))"
      using Cons.IH [OF _ _ r(1) b1 m1 u Cons.prems(7)] Cons.prems(1,2) by simp
  qed
  then show ?case using fk by (simp add: stgargs.simps)
qed

lemma run_written:
  assumes st: "ready st" "stgbuf st = Some (pre @ encode_items (map Text ss) @ post2)"
    and mx: "mx = length (pre @ encode_items (map Text ss) @ post2)"
    and ok: "list_all item_ok (map Text ss)" "list_all str_ok ss" "ss \<noteq> []"
    and q: "q = length pre + length (encode_items (map Text ss))"
    and e: "q \<le> endp \<or> q = endp + 1 \<and> last ss \<noteq> []" "endp \<le> q \<or> post2 \<noteq> [] \<and> hd post2 = sSTARTREORDER"
    and rest: "\<And>st1 e. ready st1 \<Longrightarrow> stgbuf st1 = Some (pre @ e @ post2) \<Longrightarrow> length e = length (encode_items (map Text ss)) \<Longrightarrow>
      written st1 pre' n' post' ts (stgstring mx st1 q endp)"
  shows "written st pre' n' post' (ss @ ts) (stgstring mx st (length pre) endp)"
proof -
  let ?B = "pre @ encode_items (map Text ss) @ post2"
  obtain s ss' where s: "ss = s # ss'" using ok(3) by (cases ss) auto
  have "item_ok (Text s)" using ok(1) s by simp
  then obtain c t where c: "s @ NUL # encode_items (map Text ss') @ post2 = c # t" "c \<noteq> sSTARTREORDER"
    using text_first by blast
  have B: "?B = pre @ c # t" using c(1) s by simp
  have lt: "length pre < endp"
  proof (cases "q \<le> endp")
    case True
    then show ?thesis using q s by simp
  next
    case False
    then have "q = endp + 1" "last ss \<noteq> []" using e(1) by auto
    then have "length pre + 1 < q" using q s by (cases ss'; cases s) auto
    then show ?thesis using \<open>q = endp + 1\<close> by simp
  qed
  have m: "length pre < mx" "?B ! length pre \<noteq> sSTARTREORDER" using mx c(2) unfolding B by simp_all
  have pe: "plain_end ?B (length pre) endp = Inr q"
    using e ok(3) by (intro plain_end_run [OF ok(1) refl q]) auto
  have w: "written st pre (length (encode_items (map Text ss))) post2 ss (stgopt st (length pre) q)"
    using run_step [OF st ok(1,2,3)] run_returns [OF _ st ok(1,2,3)] unfolding written_def q by blast
  have "written st pre' n' post' (ss @ ts)
      (case stgopt st (length pre) q of Inl x \<Rightarrow> Inl x | Inr st1 \<Rightarrow> stgstring mx st1 q endp)"
    by (rule written_then [OF w]) (rule rest)
  then show ?thesis using lt m st(2) pe by (subst stgstring.simps) simp
qed

lemma written_empty: "written st pre n post ss r \<Longrightarrow> written st pre n post (ss @ [[]]) r"
  unfolding written_def using outcome_empty by blast

lemma writes_all:
  "list_all item_ok its \<Longrightarrow> list_all str_ok (flat_items its) \<Longrightarrow> writes its"
proof (induction its rule: measure_induct_rule [of "\<lambda>its. length (encode_items its)"])
  case (less its)
  obtain ss rest where its: "its = map Text ss @ rest" "rest = [] \<or> (\<exists>as r. rest = Block as # r)"
    using split_run .
  show ?case unfolding writes_def
  proof (intro allI impI)
    fix st pre post endp mx
    assume st: "ready st" "stgbuf st = Some (pre @ encode_items its @ post)" and mx: "mx = length (pre @ encode_items its @ post)"
      and e: "length pre + length (encode_items its) \<le> endp + 1" "endp \<le> length pre + length (encode_items its)"
    let ?goal = "written st pre (length (encode_items its)) post (flat_items its) (stgstring mx st (length pre) endp)"
    have ok: "list_all item_ok (map Text ss)" "list_all item_ok rest" "list_all str_ok ss" "list_all str_ok (flat_items rest)"
      using less.prems its(1) flat_texts by simp_all
    consider (trim) ts where "ss = ts @ [[]]" "rest = []" "endp + 1 = length pre + length (encode_items its)"
      | (run) "ss \<noteq> []" "length pre + length (encode_items (map Text ss)) \<le> endp \<or>
          length pre + length (encode_items (map Text ss)) = endp + 1 \<and> last ss \<noteq> []"
      | (empty) "ss = []" "rest = []" | (block) as r where "ss = []" "rest = Block as # r"
    proof (cases "ss = []")
      case False
      then obtain ts t where t: "ss = ts @ [t]" by (cases ss rule: rev_cases) auto
      show ?thesis
      proof (cases "length pre + length (encode_items (map Text ss)) \<le> endp")
        case le: False
        then have r: "rest = []" using its e(1) by auto
        then have "endp + 1 = length pre + length (encode_items its)" using le e(1) its(1) by simp
        then show ?thesis using that(1) [of ts] that(2) t r its(1) by auto
      qed (use that(2) False in simp)
    qed (use that its(2) in blast)
    then show ?goal
    proof cases
      case empty
      then have "its = []" using its(1) by simp
      then show ?thesis using st e by (subst stgstring.simps) (simp add: written_same)
    next
      case trim
      then have i: "its = map Text ts @ [Text []]" using its(1) by simp
      have fl: "flat_items its = ts @ [[]]" using i by simp
      have b: "stgbuf st = Some (pre @ encode_items (map Text ts) @ (NUL # post))" using st(2) i by simp
      have q: "endp = length pre + length (encode_items (map Text ts))" using trim(3) i by simp
      have stop: "written st1 pre (length (encode_items its)) post [] (stgstring mx st1 endp endp)"
        if "ready st1" "stgbuf st1 = Some (pre @ e @ NUL # post)" "length e = length (encode_items (map Text ts))" for st1 e
        using that i by (subst stgstring.simps) (auto simp: written_def outcome_Nil)
      show ?thesis
      proof (cases "ts = []")
        case True
        then show ?thesis using written_empty [OF stop [OF st(1), of "[]"]] b q fl by simp
      next
        case False
        have "written st pre (length (encode_items its)) post (ts @ []) (stgstring mx st (length pre) endp)"
        proof (rule run_written [OF st(1) b _ _ _ False q])
          show "mx = length (pre @ encode_items (map Text ts) @ NUL # post)" using mx i by simp
          show "list_all item_ok (map Text ts)" "list_all str_ok ts" using ok(1,3) trim(1) by simp_all
        qed (use stop in simp_all)
        then show ?thesis using written_empty fl by simp
      qed
    next
      case run
      let ?run = "encode_items (map Text ss)"
      have b: "stgbuf st = Some (pre @ ?run @ (encode_items rest @ post))" using st(2) its(1) by simp
      have sm: "length (encode_items rest) < length (encode_items its)" using its(1) run(1) by (cases ss) simp_all
      have wr: "writes rest" using less.IH [OF sm ok(2,4)] .
      have "written st pre (length (encode_items its)) post (ss @ flat_items rest) (stgstring mx st (length pre) endp)"
      proof (rule run_written [OF st(1) b _ ok(1,3) run(1) refl run(2)])
        show "mx = length (pre @ ?run @ encode_items rest @ post)" using mx its(1) by simp
        show "endp \<le> length pre + length ?run \<or> encode_items rest @ post \<noteq> [] \<and> hd (encode_items rest @ post) = sSTARTREORDER"
          using its e(2) by auto
        fix st1 e' assume r: "ready st1" "stgbuf st1 = Some (pre @ e' @ encode_items rest @ post)" "length e' = length ?run"
        have b1: "stgbuf st1 = Some ((pre @ e') @ encode_items rest @ post)" using r(2) by simp
        have "written st1 (pre @ e') (length (encode_items rest)) post (flat_items rest)
            (stgstring mx st1 (length (pre @ e')) endp)"
          by (rule writesD [OF wr r(1) b1]) (use mx e its(1) r(3) in simp_all)
        then show "written st1 pre (length (encode_items its)) post (flat_items rest)
            (stgstring mx st1 (length pre + length ?run) endp)"
          using r(3) its(1) by (auto simp: written_def)
      qed
      then show ?thesis using its(1) by simp
    next
      case block
      let ?r = "encode_items r"
      have B: "item_ok (Block as)" using ok(2) block by simp
      then have as_ok: "list_all arg_ok as" "distinct (map arg_pos as)" "set (map arg_pos as) = {..<length as}"
        unfolding item_ok.simps by blast+
      have less_max: "\<forall>a\<in>set as. arg_pos a < sMAXARGS" using arg_ok_less [OF B] by blast
      let ?b = "pre @ encode_items its @ post"
      have bb: "?b = (pre @ [sSTARTREORDER]) @ encode_args as @ sENDREORDER # (?r @ post)" using its(1) block by simp
      let ?stack = "scan_args (length pre + 1) None (\<lambda>_. (None, None)) as"
      let ?next = "length pre + 1 + length (encode_args as) + 1"
      have scan: "reorder_scan ?b (length pre + 1) 1 0 None (\<lambda>_. (None, None)) = Inr (?next, length as, ?stack)"
        unfolding bb using scan_block [OF as_ok(1) less_max, of "pre @ [sSTARTREORDER]"] count_args_all [OF as_ok(3)] by simp
      define S where "S = (\<lambda>k. the (fst (?stack k)))"
      define E where "E = (\<lambda>k. the (snd (?stack k)))"
      have at: "?stack k = (Some (length pre + 1 + length (encode_args as1) + 1),
          Some (length pre + 1 + length (encode_args as1) + 1 + length (encode_items js) - (if as2 = [] then 0 else 1)))"
        if "as = as1 @ Arg k js # as2" for k as1 js as2
        using that as_ok(2) scan_args_at [of k as1 as2 "length pre + 1" None "\<lambda>_. (None, None)" js] by simp
      have "\<forall>k<length as. ?stack k = (Some (S k), Some (E k))"
      proof (intro allI impI)
        fix k assume "k < length as"
        then have "k \<in> set (map arg_pos as)" using as_ok(3) by blast
        then obtain a where a: "a \<in> set as" "arg_pos a = k" by auto
        obtain js where "a = Arg k js" using a(2) by (cases a) simp
        then obtain as1 as2 where "as = as1 @ Arg k js # as2" using a(1) split_list by metis
        then show "?stack k = (Some (S k), Some (E k))" using at by (simp add: S_def E_def)
      qed
      then have segs: "arg_segments (length as) ?stack = Inr (map (\<lambda>k. (S k, E k)) (rev [0..<length as]))"
        by (rule arg_segments_all)
      have lt: "length pre < endp" "length pre < mx" using e(1) mx its(1) block by simp_all
      have inner: "\<forall>a\<in>set as. writes (arg_items a)"
      proof
        fix a assume a: "a \<in> set as"
        obtain k js where k: "a = Arg k js" by (cases a)
        then obtain as1 as2 where sp: "as = as1 @ Arg k js # as2" using a split_list by metis
        have "length (encode_items js) < length (encode_items its)" using its(1) block sp by simp
        moreover have "list_all item_ok js" using as_ok(1) sp by simp
        moreover have "list_all str_ok (flat_items js)"
        proof -
          have "k \<notin> set (map arg_pos as1)" using as_ok(2) sp by auto
          then have "the (map_of (flat_args as) k) = flat_items js" using flat_args_at unfolding sp by simp
          moreover have "k < length as" using arg_ok_less [OF B a] k by simp
          ultimately have "set (flat_items js) \<subseteq> set (flat (Block as))" by (force simp: Let_def)
          then show ?thesis using ok(4) block by (auto simp: list_all_iff)
        qed
        ultimately show "writes (arg_items a)" using less.IH k by simp
      qed
      have pos: "S k = length (pre @ [sSTARTREORDER]) + length (encode_args as1) + 1
          \<and> S k + length (encode_items js) \<le> E k + 1 \<and> E k \<le> S k + length (encode_items js)"
        if "as = as1 @ Arg k js # as2" for k as1 js as2
        using at [OF that] by (auto simp: S_def E_def)
      have w: "written st (pre @ [sSTARTREORDER]) (length (encode_args as)) (sENDREORDER # ?r @ post) (flat (Block as))
          (stgargs mx st (map (\<lambda>k. (S k, E k)) (rev [0..<length as])))"
      proof -
        have "written st (pre @ [sSTARTREORDER]) (length (encode_args as)) (sENDREORDER # ?r @ post)
            (concat (map (\<lambda>k. the (map_of (flat_args as) k)) (rev [0..<length as])))
            (stgargs mx st (map (\<lambda>k. (S k, E k)) (rev [0..<length as])))"
        proof (rule stgargs_written [OF inner as_ok(2) pos, where cs = "map (encode_items \<circ> arg_items) as"])
          show "set (rev [0..<length as]) \<subseteq> set (map arg_pos as)" using as_ok(3) by auto
          show "stgbuf st = Some ((pre @ [sSTARTREORDER]) @ fill as (map (encode_items \<circ> arg_items) as) @ sENDREORDER # ?r @ post)"
            using st(2) bb fill_encode by simp
          show "mx = length ((pre @ [sSTARTREORDER]) @ encode_args as @ sENDREORDER # ?r @ post)" using mx bb by simp
        qed (simp_all add: st)
        then show ?thesis by (simp add: Let_def)
      qed
      have sm: "length ?r < length (encode_items its)" using its(1) block by simp
      have "written st pre (length (encode_items its)) post (flat (Block as) @ flat_items r)
          (case stgargs mx st (map (\<lambda>k. (S k, E k)) (rev [0..<length as])) of
             Inl x \<Rightarrow> Inl x | Inr st1 \<Rightarrow> stgstring mx st1 ?next endp)"
      proof (rule written_then [OF w])
        fix st1 e' assume r: "ready st1" "stgbuf st1 = Some ((pre @ [sSTARTREORDER]) @ e' @ sENDREORDER # ?r @ post)"
          "length e' = length (encode_args as)"
        have wr: "writes r" using less.IH [OF sm] ok(2,4) block by simp
        have b1: "stgbuf st1 = Some ((pre @ sSTARTREORDER # e' @ [sENDREORDER]) @ ?r @ post)" using r(2) by simp
        have "written st1 (pre @ sSTARTREORDER # e' @ [sENDREORDER]) (length ?r) post (flat_items r)
            (stgstring mx st1 (length (pre @ sSTARTREORDER # e' @ [sENDREORDER])) endp)"
          by (rule writesD [OF wr r(1) b1]) (use mx e its(1) block r(3) in simp_all)
        then show "written st1 pre (length (encode_items its)) post (flat_items r) (stgstring mx st1 ?next endp)"
          using r(3) its(1) block by (auto simp: written_def)
      qed
      moreover have "?b ! length pre = sSTARTREORDER" using bb by (simp add: nth_append)
      moreover have "flat_items its = flat (Block as) @ flat_items r" using its(1) block by simp
      ultimately show ?thesis using lt st(2) scan segs by (subst stgstring.simps) (simp cong: sum.case_cong)
    qed
  qed
qed

end

section \<open>Without optimization\<close>

lemma write_strings_texts:
  "\<forall>s\<in>set ss. NUL \<notin> set s \<Longrightarrow>
    write_strings (encode_items (map Text ss) @ post) (length (encode_items (map Text ss))) = Inr (concat ss)"
proof (induction ss)
  case Nil
  show ?case by (simp add: write_strings.simps)
next
  case (Cons s ss)
  have "strchr (s @ NUL # encode_items (map Text ss) @ post) NUL = Some (length s)" using strchr_here Cons.prems by simp
  then show ?case using Cons by (subst write_strings.simps) simp
qed

lemma texts_no_NUL: "list_all item_ok (map Text ss) \<Longrightarrow> \<forall>s\<in>set ss. NUL \<notin> set s"
  by (auto simp: list_all_iff)

lemma stgbuf_same: "stgbuf st = Some b \<Longrightarrow> st\<lparr>stgbuf := Some b\<rparr> = st"
  by (cases st) simp

definition unoptimized :: "cgstate \<Rightarrow> bool" where
  "unoptimized st \<longleftrightarrow> sc_status st = statWRITE \<and> sc_debug st AND sNOOPTIMIZE \<noteq> 0"

lemma stgopt_plain:
  assumes "unoptimized st" "stgbuf st = Some (pre @ encode_items (map Text ss) @ post)" "list_all item_ok (map Text ss)"
  shows "stgopt st (length pre) (length pre + length (encode_items (map Text ss))) = Inr (st\<lparr>outf := outf st @ concat ss\<rparr>)"
  using assms write_strings_texts [OF texts_no_NUL [OF assms(3)], of post] stgbuf_same [OF assms(2)]
  by (simp add: stgopt_def unoptimized_def filewrite_def pc_writeasm_def)

interpretation plain: segment_output unoptimized "\<lambda>_. True" "\<lambda>st ss st'. st' = st\<lparr>outf := outf st @ concat ss\<rparr>" True
proof unfold_locales
  fix st pre ss post st1
  assume a: "unoptimized st" "stgbuf st = Some (pre @ encode_items (map Text ss) @ post)" "list_all item_ok (map Text ss)"
  note p = stgopt_plain [OF a]
  show "\<exists>st1. stgopt st (length pre) (length pre + length (encode_items (map Text ss))) = Inr st1" using p by blast
  assume "stgopt st (length pre) (length pre + length (encode_items (map Text ss))) = Inr st1"
  then have "st1 = st\<lparr>outf := outf st @ concat ss\<rparr>" using p by simp
  then show "unoptimized st1 \<and> st1 = st\<lparr>outf := outf st @ concat ss\<rparr> \<and>
      (\<exists>e. stgbuf st1 = Some (pre @ e @ post) \<and> length e = length (encode_items (map Text ss)))"
    using a(1,2) by (simp add: unoptimized_def)
qed (simp_all add: unoptimized_def)

text \<open>
  C3: Reordering: with optimization switched off, \<open>stgout\<close> writes exactly the strings that were
  staged since the index, the arguments of every block in descending order of their positions
  whatever the order in which they were staged, nested blocks included; it does not fail and
  resets the index.
\<close>

theorem stgout_reorders:
  assumes "staging st" "unoptimized st" and "stgbuf st = Some (pre @ encode_items its @ post)"
    and "stgidx st = length pre + length (encode_items its)" and "list_all item_ok its"
  shows "stgout st (length pre) = Inr (st\<lparr>outf := outf st @ concat (flat_items its), stgidx := length pre\<rparr>)"
proof -
  have "plain.writes its" using plain.writes_all assms(5) by (simp add: list_all_iff)
  then have "plain.written st pre (length (encode_items its)) post (flat_items its)
      (stgstring (stgmax st) st (length pre) (stgidx st))"
    using plain.writesD [OF _ assms(2,3), of "stgmax st" "stgidx st"] assms(3,4) by (simp add: stgmax_def)
  then show ?thesis using assms(1) unfolding plain.written_def stgout_def by auto
qed

definition call_items :: "item list" where
  "call_items = [Text (TAB # ''nop'' @ [LF]), Block [Arg 1 [Text ''a''], Arg 0 [Text ''b'', Block [Arg 0 [Text ''c'']]]]]"

definition call_state :: cgstate where
  "call_state = writing_state\<lparr>staging := True, sc_debug := 4, stgbuf := Some (encode_items call_items),
     stgidx := length (encode_items call_items)\<rparr>"

theorem stgout_reorders_witness:
  "\<exists>st'. stgout call_state 0 = Inr st' \<and> outf st' = TAB # ''nop'' @ [LF] @ ''abc''"
proof -
  have "unoptimized call_state" by (simp add: unoptimized_def call_state_def writing_state_def sNOOPTIMIZE_def)
  moreover have "list_all item_ok call_items" by (simp add: call_items_def lessThan_Suc sMAXARGS_def insert_commute)
  moreover have "concat (flat_items call_items) = TAB # ''nop'' @ [LF] @ ''abc''" by (simp add: call_items_def Let_def)
  moreover have "staging call_state" "stgbuf call_state = Some ([] @ encode_items call_items @ [])"
    "stgidx call_state = length [] + length (encode_items call_items)" "outf call_state = []"
    by (simp_all add: call_state_def writing_state_def)
  ultimately show ?thesis using stgout_reorders [of call_state "[]" call_items "[]"] by simp
qed

section \<open>With the optimizer\<close>

lemma text_size_append_complete: "complete LF a \<Longrightarrow> text_size (a @ b) = add_size (text_size a) (text_size b)"
  by simp

text \<open>Writing whole lines writes their size.\<close>

lemma write_strings_size:
  "complete NUL x \<Longrightarrow> full_lines x \<Longrightarrow>
    \<exists>t. write_strings (x @ r) (length x) = Inr t \<and> complete LF t \<and> text_size t = strings_size x"
proof (induction x rule: complete_induct)
  case Nil
  show ?case by (simp add: write_strings.simps)
next
  case (Line l x)
  then have "complete LF l" "full_lines x" by simp_all
  moreover obtain t where t: "write_strings (x @ r) (length x) = Inr t" "complete LF t" "text_size t = strings_size x"
    using Line.IH \<open>full_lines x\<close> by blast
  moreover have "strchr (l @ NUL # x @ r) NUL = Some (length l)" using strchr_here [OF Line.hyps(1)] .
  ultimately show ?case using Line.hyps(1)
    by (subst write_strings.simps) (simp add: text_size_append_complete)
qed

lemma texts_whole:
  "list_all item_ok (map Text ss) \<Longrightarrow> list_all (complete LF) ss \<Longrightarrow>
    complete NUL (encode_items (map Text ss)) \<and> full_lines (encode_items (map Text ss))
    \<and> strings_size (encode_items (map Text ss)) = texts_size ss"
  by (induction ss) simp_all

definition same_but_code :: "cgstate \<Rightarrow> cgstate \<Rightarrow> bool" where
  "same_but_code st st' \<longleftrightarrow>
     st\<lparr>stgbuf := None, outf := [], code_idx := 0\<rparr> = st'\<lparr>stgbuf := None, outf := [], code_idx := 0\<rparr>"

lemma same_but_code_simps [simp]:
  "same_but_code st st"
  "same_but_code st (st'\<lparr>stgbuf := b\<rparr>) = same_but_code st st'"
  "same_but_code st (st'\<lparr>outf := t\<rparr>) = same_but_code st st'"
  "same_but_code st (st'\<lparr>code_idx := c\<rparr>) = same_but_code st st'"
  by (simp_all add: same_but_code_def)

lemma same_but_code_trans: "same_but_code a b \<Longrightarrow> same_but_code b c \<Longrightarrow> same_but_code a c"
  by (simp add: same_but_code_def)

lemma same_but_code_fields:
  assumes "same_but_code st st'"
  shows "staging st' = staging st" "sc_status st' = sc_status st" "stgidx st' = stgidx st" "symtab st' = symtab st"
    "tagname_tab st' = tagname_tab st"
  using assms unfolding same_but_code_def
  by (auto dest: arg_cong [of _ _ staging] arg_cong [of _ _ sc_status] arg_cong [of _ _ stgidx]
      arg_cong [of _ _ symtab] arg_cong [of _ _ tagname_tab])

text \<open>The strings are written, perhaps optimized, and the count goes with them.\<close>

definition outputs :: "cgstate \<Rightarrow> string list \<Rightarrow> cgstate \<Rightarrow> bool" where
  "outputs st ss st' \<longleftrightarrow> same_but_code st st' \<and>
     (\<exists>t. outf st' = outf st @ t \<and> complete LF t \<and>
       (\<forall>k. texts_size ss = Some k \<longrightarrow>
         (\<exists>k1. text_size t = Some k1 \<and> code_idx st + word_of_nat k1 = code_idx st' + word_of_nat k)))"

lemma outputs_append: "outputs a ss b \<Longrightarrow> outputs b ts c \<Longrightarrow> outputs a (ss @ ts) c"
proof -
  assume a: "outputs a ss b" "outputs b ts c"
  obtain t where t: "same_but_code a b" "outf b = outf a @ t" "complete LF t"
      "\<forall>k. texts_size ss = Some k \<longrightarrow> (\<exists>k1. text_size t = Some k1 \<and> code_idx a + word_of_nat k1 = code_idx b + word_of_nat k)"
    using a(1) by (auto simp: outputs_def)
  obtain u where u: "same_but_code b c" "outf c = outf b @ u" "complete LF u"
      "\<forall>k. texts_size ts = Some k \<longrightarrow> (\<exists>k1. text_size u = Some k1 \<and> code_idx b + word_of_nat k1 = code_idx c + word_of_nat k)"
    using a(2) by (auto simp: outputs_def)
  have "\<exists>k1. text_size (t @ u) = Some k1 \<and> code_idx a + word_of_nat k1 = code_idx c + word_of_nat k"
    if "texts_size (ss @ ts) = Some k" for k
  proof -
    obtain x y where xy: "texts_size ss = Some x" "texts_size ts = Some y" "k = x + y"
      using \<open>texts_size (ss @ ts) = Some k\<close> by (auto simp: add_size_Some)
    obtain x1 where x1: "text_size t = Some x1" "code_idx a + word_of_nat x1 = code_idx b + word_of_nat x"
      using t(4) xy(1) by blast
    obtain y1 where y1: "text_size u = Some y1" "code_idx b + word_of_nat y1 = code_idx c + word_of_nat y"
      using u(4) xy(2) by blast
    have "code_idx a + word_of_nat (x1 + y1) = code_idx c + word_of_nat (x + y)"
      using x1(2) y1(2) by (metis (no_types, lifting) add.assoc add.commute of_nat_add)
    then show ?thesis using t(3) x1(1) y1(1) xy(3) by (intro exI [of _ "x1 + y1"]) simp
  qed
  then show ?thesis using t(1,2,3) u(1,2,3) same_but_code_trans unfolding outputs_def
    by (intro conjI exI [of _ "t @ u"]) auto
qed

lemma outputs_empty: "outputs st ss st' \<Longrightarrow> outputs st (ss @ [[]]) st'"
  by (auto simp: outputs_def)

lemma stgopt_outputs:
  assumes st: "sc_status st = statWRITE" and b: "stgbuf st = Some (pre @ encode_items (map Text ss) @ post)"
    and ok: "list_all item_ok (map Text ss)" "list_all (complete LF) ss"
    and o: "stgopt st (length pre) (length pre + length (encode_items (map Text ss))) = Inr st1"
  shows "outputs st ss st1 \<and> (\<exists>e. stgbuf st1 = Some (pre @ e @ post) \<and> length e = length (encode_items (map Text ss)))"
proof -
  let ?x = "encode_items (map Text ss)"
  note tw = texts_whole [OF ok]
  have w: "whole (?x @ post) (length ?x)" using tw by (simp add: whole_def)
  obtain s n ci t where r: "(if sc_debug st AND sNOOPTIMIZE = 0 \<and> sc_status st = statWRITE
      then opt_loop (?x @ post) (length ?x) (code_idx st) else Inr (?x @ post, length ?x, code_idx st)) = Inr (s, n, ci)"
      "write_strings s n = Inr t" "st1 = st\<lparr>stgbuf := Some (pre @ s), code_idx := ci, outf := outf st @ t\<rparr>"
    using o b st by (auto simp: stgopt_def bindR_Inr_iff filewrite_def pc_writeasm_def cong: if_cong)
  have bal: "whole s n \<and> balance (?x @ post) (length ?x) (code_idx st) s n ci \<and> length s = length (?x @ post)
      \<and> drop (length ?x) s = drop (length ?x) (?x @ post) \<and> n \<le> length ?x"
    using r(1) opt_loop_balance [OF _ w] w by (auto split: if_splits)
  then have c: "n \<le> length s" "complete NUL (take n s)" "full_lines (take n s)" by (simp_all add: whole_def)
  obtain t' where t': "write_strings s n = Inr t'" "complete LF t'" "text_size t' = strings_size (take n s)"
    using write_strings_size [OF c(2,3), of "drop n s"] c(1) by auto
  have "t' = t" using t'(1) r(2) by simp
  then have "outputs st ss st1"
    using t'(2,3) r(3) bal tw by (auto simp: outputs_def balance_def)
  moreover have "s = take (length ?x) s @ post" using bal by (metis append_take_drop_id append_eq_conv_conj)
  moreover have "length (take (length ?x) s) = length ?x" using bal by simp
  ultimately show ?thesis using r(3) by (intro conjI exI [of _ "take (length ?x) s"]) simp_all
qed

interpretation opt: segment_output "\<lambda>st. sc_status st = statWRITE" "complete LF" outputs False
proof unfold_locales
  fix st :: cgstate show "outputs st [] st"
    unfolding outputs_def by (intro conjI exI [of _ "[]"]) simp_all
next
  fix st pre ss post st1
  assume a: "sc_status st = statWRITE" "stgbuf st = Some (pre @ encode_items (map Text ss) @ post)"
    "list_all item_ok (map Text ss)" "list_all (complete LF) ss"
    "stgopt st (length pre) (length pre + length (encode_items (map Text ss))) = Inr st1"
  note o = stgopt_outputs [OF a]
  then have "sc_status st1 = statWRITE" using a(1) same_but_code_fields(2) by (auto simp: outputs_def)
  then show "sc_status st1 = statWRITE \<and> outputs st ss st1 \<and>
      (\<exists>e. stgbuf st1 = Some (pre @ e @ post) \<and> length e = length (encode_items (map Text ss)))" using o by blast
qed (simp_all add: outputs_append outputs_empty)


section \<open>The count over a whole block\<close>

text \<open>The strings in the order of the buffer.\<close>

fun texts :: "item \<Rightarrow> string list"
  and texts_items :: "item list \<Rightarrow> string list"
  and texts_args :: "arg list \<Rightarrow> string list" where
  "texts (Text s) = [s]"
| "texts (Block as) = texts_args as"
| "texts_items [] = []"
| "texts_items (i # is) = texts i @ texts_items is"
| "texts_args [] = []"
| "texts_args (Arg k its # as) = texts_items its @ texts_args as"

lemma not_textchar [simp]: "\<not> textchar sSTARTREORDER" "\<not> textchar sENDREORDER" "k < sMAXARGS \<Longrightarrow> \<not> textchar (char_of (sEXPRSTART + k))"
  using mark_of_arg by (auto simp: textchar_def)

lemma filter_encode:
  "item_ok i \<Longrightarrow> list_all plain_text (texts i) \<Longrightarrow> filter textchar (encode i) = concat (texts i)"
  "list_all item_ok is \<Longrightarrow> list_all plain_text (texts_items is) \<Longrightarrow> filter textchar (encode_items is) = concat (texts_items is)"
  "list_all arg_ok as \<Longrightarrow> \<forall>a\<in>set as. arg_pos a < sMAXARGS \<Longrightarrow> list_all plain_text (texts_args as) \<Longrightarrow>
    filter textchar (encode_args as) = concat (texts_args as)"
proof (induction i and "is" and "as" rule: texts_texts_items_texts_args.induct)
  case (1 s)
  then show ?case by (simp add: plain_text_filter)
next
  case (2 as)
  have "\<forall>a\<in>set as. arg_pos a < sMAXARGS" using arg_ok_less [OF "2.prems"(1)] by blast
  then show ?case using 2 by simp
qed simp_all

lemma mset_concat_map: "mset (concat (map f xs)) = (\<Sum>x\<in>#mset xs. mset (f x))"
  by (induction xs) simp_all

lemma mset_flat_args:
  "distinct (map arg_pos as) \<Longrightarrow>
    mset (concat (map (\<lambda>a. the (map_of (flat_args as) (arg_pos a))) as)) = mset (concat (map (flat_items \<circ> arg_items) as))"
proof -
  assume d: "distinct (map arg_pos as)"
  have "the (map_of (flat_args as) (arg_pos a)) = flat_items (arg_items a)" if m: "a \<in> set as" for a
  proof -
    obtain k its where a: "a = Arg k its" by (cases a)
    then obtain as1 as2 where sp: "as = as1 @ Arg k its # as2" using split_list [OF m] by blast
    then have "k \<notin> set (map arg_pos as1)" using d by auto
    then show ?thesis using flat_args_at [of k as1 its as2] a sp by simp
  qed
  then have "map (\<lambda>a. the (map_of (flat_args as) (arg_pos a))) as = map (flat_items \<circ> arg_items) as" by simp
  then show ?thesis by (simp only:)
qed

lemma mset_flat:
  "item_ok i \<Longrightarrow> mset (flat i) = mset (texts i)"
  "list_all item_ok is \<Longrightarrow> mset (flat_items is) = mset (texts_items is)"
  "list_all arg_ok as \<Longrightarrow> mset (concat (map (flat_items \<circ> arg_items) as)) = mset (texts_args as)"
proof (induction i and "is" and "as" rule: texts_texts_items_texts_args.induct)
  case (2 as)
  then have B: "list_all arg_ok as" "distinct (map arg_pos as)" "set (map arg_pos as) = {..<length as}"
    unfolding item_ok.simps by blast+
  let ?f = "\<lambda>k. the (map_of (flat_args as) k)"
  have "mset (rev [0..<length as]) = mset (map arg_pos as)"
    using B(2,3) by (subst set_eq_iff_mset_eq_distinct [symmetric]) (auto simp: lessThan_atLeast0)
  then have "mset (flat (Block as)) = mset (concat (map ?f (map arg_pos as)))"
    unfolding mset_concat_map flat.simps Let_def by simp
  also have "\<dots> = mset (concat (map (\<lambda>a. ?f (arg_pos a)) as))" by (simp add: comp_def)
  also have "\<dots> = mset (texts_args as)" using mset_flat_args [OF B(2)] 2 B(1) by simp
  finally show ?case by simp
qed simp_all

lemma texts_size_sum:
  "texts_size ts = (if list_all (\<lambda>t. text_size t \<noteq> None) ts then Some (sum_list (map (\<lambda>t. the (text_size t)) ts)) else None)"
  by (induction ts) (auto simp: add_size_def split: option.split)

lemma texts_size_mset: "mset a = mset b \<Longrightarrow> texts_size a = texts_size b"
proof -
  assume m: "mset a = mset b"
  then have "set a = set b" by (metis set_mset_mset)
  moreover have "sum_list (map (\<lambda>t. the (text_size t)) a) = sum_list (map (\<lambda>t. the (text_size t)) b)"
    using m by (metis mset_map sum_mset_sum_list)
  ultimately show ?thesis unfolding texts_size_sum list_all_iff by simp
qed

lemma texts_size_concat: "list_all (complete LF) ts \<Longrightarrow> text_size (concat ts) = texts_size ts \<and> complete LF (concat ts)"
  by (induction ts) (simp_all add: text_size_append_complete)

text \<open>All that \<open>stgout\<close> does to the state, with the optimizer on or off.\<close>

lemma stgout_outputs:
  assumes "staging st" "sc_status st = statWRITE" "stgbuf st = Some (encode_items its @ post)"
    "stgidx st = length (encode_items its)" "list_all item_ok its" "list_all (complete LF) (texts_items its)"
    "stgout st 0 = Inr st'"
  shows "\<exists>st1. outputs st (flat_items its) st1 \<and> st' = st1\<lparr>stgidx := 0\<rparr>"
proof -
  have "list_all (complete LF) (flat_items its)"
    using mset_flat(2) [OF assms(5)] assms(6) unfolding list_all_iff by (metis set_mset_mset)
  note w = opt.writes_all [OF assms(5) this]
  obtain st1 where st1: "stgstring (stgmax st) st 0 (stgidx st) = Inr st1" "st' = st1\<lparr>stgidx := 0\<rparr>"
    using assms(1,7) by (auto simp: stgout_def bindR_Inr_iff)
  have "opt.written st [] (length (encode_items its)) post (flat_items its) (stgstring (stgmax st) st (length []) (stgidx st))"
    using opt.writesD [OF w assms(2), of "[]" post "stgmax st" "stgidx st"] assms(3,4) by (simp add: stgmax_def)
  then show ?thesis using st1 unfolding opt.written_def by auto
qed

lemma stgout_count:
  assumes "staging st" "sc_status st = statWRITE" and b: "stgbuf st = Some (encode_items its @ post)"
    and idx: "stgidx st = length (encode_items its)" and ok: "list_all item_ok its"
    and lines: "list_all plain_text (texts_items its)" "list_all (complete LF) (texts_items its)" "complete LF (outf st)"
    and n: "text_size (emitted st) = Some n" and out: "stgout st 0 = Inr st'"
  shows "\<exists>n'. text_size (emitted st') = Some n' \<and> code_idx st' - word_of_nat n' = code_idx st - word_of_nat n
    \<and> complete LF (emitted st')"
proof -
  have ms: "mset (flat_items its) = mset (texts_items its)" using mset_flat(2) [OF ok] .
  obtain st1 where st1: "outputs st (flat_items its) st1" "st' = st1\<lparr>stgidx := 0\<rparr>"
    using stgout_outputs [OF assms(1,2) b idx ok lines(2) out] by blast
  from st1(1) obtain t where t: "same_but_code st st1" "outf st1 = outf st @ t" "complete LF t"
      "\<forall>k. texts_size (flat_items its) = Some k \<longrightarrow>
        (\<exists>k1. text_size t = Some k1 \<and> code_idx st + word_of_nat k1 = code_idx st1 + word_of_nat k)"
    unfolding outputs_def by blast
  have e: "emitted st = outf st @ concat (texts_items its)"
    using assms(1) b idx filter_encode(2) [OF ok lines(1)] by (simp add: emitted_def stg_text_def)
  obtain a k where ak: "text_size (outf st) = Some a" "texts_size (texts_items its) = Some k" "n = a + k"
    using n texts_size_concat [OF lines(2)] lines(3) unfolding e by (auto simp: text_size_append_complete add_size_Some)
  then obtain k1 where k1: "text_size t = Some k1" "code_idx st + word_of_nat k1 = code_idx st1 + word_of_nat k"
    using t(4) texts_size_mset [OF ms] by auto
  have e': "emitted st' = outf st @ t"
    using st1(2) t(2) same_but_code_fields(1) [OF t(1)] assms(1) by (simp add: emitted_def stg_text_def split: option.split)
  have "code_idx st = code_idx st1 + word_of_nat k - word_of_nat k1" using k1(2) by (simp add: eq_diff_eq)
  then have "code_idx st' - word_of_nat (a + k1) = code_idx st - word_of_nat n" using st1(2) ak(3) by simp
  moreover have "text_size (emitted st') = Some (a + k1)" "complete LF (emitted st')"
    using e' ak(1) k1(1) lines(3) t(3) by (simp_all add: text_size_append_complete)
  ultimately show ?thesis by blast
qed


text \<open>
  \<open>stgout\<close> keeps the count of the code: when the staging buffer holds whole lines, with or
  without blocks of arguments, and the optimizer is on or off, then writing it to the file
  reorders and optimizes the text but leaves the difference between \<open>code_idx\<close> and the size that
  the assembler counts for the text of the file and the buffer together.
\<close>

lemma stgout_keeps_count:
  assumes "staging st" "sc_status st = statWRITE" and b: "stgbuf st = Some (encode_items its @ post)"
    and idx: "stgidx st = length (encode_items its)" and ok: "list_all item_ok its"
    and lines: "list_all plain_text (texts_items its)" "list_all (complete LF) (texts_items its)" "complete LF (outf st)"
    and n: "text_size (emitted st) = Some n" and out: "stgout st 0 = Inr st'"
  shows "\<exists>n'. text_size (emitted st') = Some n' \<and> code_idx st' - word_of_nat n' = code_idx st - word_of_nat n
    \<and> complete LF (emitted st')"
  using stgout_count [OF assms] .


definition line_items :: "item list" where
  "line_items = [Block [Arg 1 [Text (TAB # ''const.pri 0'' @ [LF])], Arg 0 [Text (TAB # ''nop'' @ [LF])]]]"

definition line_state :: cgstate where
  "line_state = writing_state\<lparr>staging := True, code_idx := 12, stgbuf := Some (encode_items line_items @ [NUL]),
     stgidx := length (encode_items line_items)\<rparr>"

lemma stgout_keeps_count_witness:
  "\<exists>st' n'. stgout line_state 0 = Inr st' \<and> text_size (emitted st') = Some n' \<and> code_idx st' - word_of_nat n' = 0"
proof -
  have "case stgout line_state 0 of Inl e \<Rightarrow> False | Inr st' \<Rightarrow> True" by code_simp
  then obtain st' where st': "stgout line_state 0 = Inr st'" by (auto split: sum.splits)
  have s: "staging line_state" "sc_status line_state = statWRITE" "stgidx line_state = length (encode_items line_items)"
    "stgbuf line_state = Some (encode_items line_items @ [NUL])" "complete LF (outf line_state)" "code_idx line_state = 12"
    by (simp_all add: line_state_def writing_state_def)
  have i: "list_all item_ok line_items" "list_all plain_text (texts_items line_items)" "list_all (complete LF) (texts_items line_items)"
    by (simp_all add: line_items_def lessThan_Suc sMAXARGS_def insert_commute complete_def)
  have n: "text_size (emitted line_state) = Some 12" by code_simp
  show ?thesis using stgout_keeps_count [OF s(1,2,4,3) i s(5) n st'] st' s(6) by auto
qed

end
