(* ===== verification/Expression.thy ===== *)
theory Expression
  imports Reorder
begin

text \<open>
  The code of an expression, from the first call of the code generator to the assembler file:
  the discipline with which the parser uses the staging buffer (\<open>sc1.c\<close>, \<open>sc3.c\<close>), the code
  generator (\<open>sc4.c\<close>), the staging buffer, its reordering and the optimizer (\<open>sc7.c\<close>) together.
\<close>

section \<open>Generating an expression\<close>

text \<open>
  Straight code, and the arguments of a call: a start mark, each argument behind the mark with
  its position, in the order in which they are parsed, and an end mark.
\<close>

datatype gen = Emit "emitter list" | Args "garg list"
  and garg = GArg nat "gen list"

fun garg_pos :: "garg \<Rightarrow> nat" where "garg_pos (GArg k gs) = k"

fun exec_gen :: "gen \<Rightarrow> emitter"
  and exec_gens :: "gen list \<Rightarrow> emitter"
  and exec_gargs :: "garg list \<Rightarrow> emitter" where
  "exec_gen (Emit fs) st = run fs st"
| "exec_gen (Args as) st =
     bindR (stgmark st sSTARTREORDER) (\<lambda>st. bindR (exec_gargs as st) (\<lambda>st. stgmark st sENDREORDER))"
| "exec_gens [] st = Inr st"
| "exec_gens (g # gs) st = bindR (exec_gen g st) (exec_gens gs)"
| "exec_gargs [] st = Inr st"
| "exec_gargs (GArg k gs # as) st =
     bindR (stgmark st (char_of (sEXPRSTART + k))) (\<lambda>st. bindR (exec_gens gs st) (exec_gargs as))"

fun gen_ok :: "gen \<Rightarrow> bool"
  and garg_ok :: "garg \<Rightarrow> bool" where
  "gen_ok (Emit fs) \<longleftrightarrow> (\<forall>f\<in>set fs. code_emitter f)"
| "gen_ok (Args as) \<longleftrightarrow> list_all garg_ok as \<and> distinct (map garg_pos as) \<and> set (map garg_pos as) = {..<length as}
     \<and> length as \<le> sMAXARGS"
| "garg_ok (GArg k gs) \<longleftrightarrow> list_all gen_ok gs"

text \<open>A whole expression: the buffer is switched on, filled, written and switched off.\<close>

definition staged :: "gen list \<Rightarrow> emitter" where
  "staged gs st =
     bindR (stgset st True) (\<lambda>st. bindR (exec_gens gs st) (\<lambda>st. bindR (stgout st 0) (\<lambda>st. stgset st False)))"

section \<open>What is in the buffer\<close>

lemma lines_of_encode: "lines_of ss = encode_items (map Text ss)"
  by (induction ss) simp_all

text \<open>The buffer grew by some items that are whole lines, and the count by their size.\<close>

definition grew :: "cgstate \<Rightarrow> string \<Rightarrow> string list \<Rightarrow> cgstate \<Rightarrow> bool" where
  "grew st e ts st' \<longleftrightarrow> content st' = content st @ e \<and> list_all (\<lambda>s. plain_text s \<and> complete LF s) ts
     \<and> (\<exists>n. texts_size ts = Some n \<and> code_idx st' = code_idx st + word_of_nat n) \<and> outf st' = outf st"

definition staging_ok :: "cgstate \<Rightarrow> bool" where
  "staging_ok st \<longleftrightarrow> writing st \<and> names_clean st \<and> staging st \<and> settled (content st)"

lemma grew_refl: "grew st [] [] st"
  by (simp add: grew_def)

lemma grew_trans: "grew a e ss b \<Longrightarrow> grew b f ts c \<Longrightarrow> grew a (e @ f) (ss @ ts) c"
  by (auto simp: grew_def add.assoc)

lemma stgmark_grew:
  assumes "stgmark st m = Inr st'" "staging_ok st" "m \<noteq> NUL"
  shows "grew st [m] [] st' \<and> staging_ok st'"
proof -
  have st: "writing st" "names_clean st" "staging st" using assms(2) by (simp_all add: staging_ok_def)
  obtain st1 st2 where st1: "check_stgbuffer st (stgidx st) = Inr st1" and st2: "put_stg st1 (stgidx st1) [m] = Inr st2"
      and r: "st' = st2\<lparr>stgidx := stgidx st2 + 1\<rparr>"
    using assms(1) st(3) by (auto simp: stgmark_def bindR_Inr_iff)
  note c = check_stgbuffer_text [OF st1]
  obtain b where b: "stgbuf st1 = Some b" "stgidx st1 + 1 \<le> length b"
      "st2 = st1\<lparr>stgbuf := Some (take (stgidx st1) b @ [m] @ drop (stgidx st1 + 1) b)\<rparr>"
    using put_stg_text [OF st2] by auto
  have i: "stgidx st1 = stgidx st" using c by blast
  have tk: "take (stgidx st) b = content st"
  proof (cases "stgbuf st")
    case None
    then have "stgidx st = 0" using st(1,3) by (simp add: writing_def stgmax_def)
    then show ?thesis using None by (simp add: content_def)
  next
    case (Some x)
    then obtain z where "b = x @ z" using c b(1) by auto
    then show ?thesis using Some st(1,3) by (simp add: content_def writing_def stgmax_def)
  qed
  have sm: "same_but_text st st'" using c b(3) r by simp
  note f = same_but_text_fields [OF sm]
  have ct: "content st' = content st @ [m]"
  proof -
    have "content st' = take (stgidx st) b @ [m]" using b(2) i unfolding r b(3) content_def by simp
    then show ?thesis using tk by simp
  qed
  have "outf st' = outf st" using c b(3) r by simp
  moreover have "writing st'" using st(1,3) f b(2,3) i by (simp add: writing_def r stgmax_def)
  moreover have "names_clean st'" using st(2) f by (simp add: names_clean_def)
  ultimately show ?thesis using ct f st(3) assms(3) by (simp add: grew_def staging_ok_def settled_def)
qed

lemma run_grew:
  assumes "\<forall>f\<in>set fs. code_emitter f" "run fs st = Inr st'" "staging_ok st"
  shows "\<exists>ss. grew st (encode_items (map Text ss)) ss st' \<and> list_all item_ok (map Text ss) \<and> staging_ok st'"
proof -
  obtain ss n where ss: "content st' = content st @ lines_of ss" "list_all (\<lambda>s. plain_text s \<and> s \<noteq> [] \<and> complete LF s) ss"
      "text_size (concat ss) = Some n" "code_idx st' = code_idx st + word_of_nat n"
      "outf st' = outf st" "writing st'" "names_clean st'" "staging st'"
    using run_laid [OF assms(1,2)] assms(3) unfolding staging_ok_def by blast
  have l: "list_all (complete LF) ss" using ss(2) by (simp add: list_all_iff)
  have "settled (content st')"
  proof (cases ss rule: rev_cases)
    case Nil
    then show ?thesis using ss(1) assms(3) by (simp add: staging_ok_def)
  next
    case (snoc i x)
    then obtain y where "x = y @ [LF]" using ss(2) by (cases x rule: rev_cases) (auto simp: complete_def)
    then show ?thesis using ss(1) snoc by (simp add: settled_def nth_append)
  qed
  moreover have "list_all item_ok (map Text ss)"
  proof -
    have "item_ok (Text s)" if "plain_text s" for s
      using that plain_text_cstring [OF that] by (cases s) (simp_all add: cstring_def)
    then show ?thesis using ss(2) by (simp add: list_all_iff)
  qed
  ultimately show ?thesis using ss texts_size_concat [OF l]
    unfolding grew_def staging_ok_def lines_of_encode by (intro exI [of _ ss]) (simp add: list_all_iff)
qed

lemma exec_grew:
  "exec_gen g st = Inr st' \<Longrightarrow> gen_ok g \<Longrightarrow> staging_ok st \<Longrightarrow>
    \<exists>its. grew st (encode_items its) (texts_items its) st' \<and> list_all item_ok its \<and> staging_ok st'"
  "exec_gens gs st = Inr st' \<Longrightarrow> list_all gen_ok gs \<Longrightarrow> staging_ok st \<Longrightarrow>
    \<exists>its. grew st (encode_items its) (texts_items its) st' \<and> list_all item_ok its \<and> staging_ok st'"
  "exec_gargs as st = Inr st' \<Longrightarrow> list_all garg_ok as \<Longrightarrow> staging_ok st \<Longrightarrow> \<forall>a\<in>set as. garg_pos a < sMAXARGS \<Longrightarrow>
    \<exists>bs. grew st (encode_args bs) (texts_args bs) st' \<and> list_all arg_ok bs \<and> map arg_pos bs = map garg_pos as \<and> staging_ok st'"
proof (induction g st and gs st and "as" st arbitrary: st' and st' and st' rule: exec_gen_exec_gens_exec_gargs.induct)
  case (1 fs st)
  have tx: "texts_items (map Text ss) = ss" for ss by (induction ss) simp_all
  have "run fs st = Inr st'" "\<forall>f\<in>set fs. code_emitter f" using "1.prems" by simp_all
  then obtain ss where "grew st (encode_items (map Text ss)) ss st'" "list_all item_ok (map Text ss)" "staging_ok st'"
    using run_grew "1.prems"(3) by blast
  then show ?case using tx by (intro exI [of _ "map Text ss"]) simp
next
  case (2 as st)
  obtain st1 st2 where st1: "stgmark st sSTARTREORDER = Inr st1" and st2: "exec_gargs as st1 = Inr st2"
      and st3: "stgmark st2 sENDREORDER = Inr st'"
    using "2.prems"(1) by (auto simp: bindR_Inr_iff)
  have n: "sSTARTREORDER \<noteq> NUL" "sENDREORDER \<noteq> NUL" by (simp_all add: sSTARTREORDER_def sENDREORDER_def)
  note m1 = stgmark_grew [OF st1 "2.prems"(3) n(1)]
  have ok: "list_all garg_ok as" "distinct (map garg_pos as)" "set (map garg_pos as) = {..<length as}" "length as \<le> sMAXARGS"
    using "2.prems"(2) unfolding gen_ok.simps by blast+
  have pos: "\<forall>a\<in>set as. garg_pos a < sMAXARGS"
  proof
    fix a assume "a \<in> set as"
    then have "garg_pos a \<in> set (map garg_pos as)" by simp
    then show "garg_pos a < sMAXARGS" using ok(3,4) by auto
  qed
  obtain bs where bs: "grew st1 (encode_args bs) (texts_args bs) st2" "list_all arg_ok bs" "map arg_pos bs = map garg_pos as"
      "staging_ok st2"
    using "2.IH" [OF st1 st2 ok(1) _ pos] m1 by blast
  note m2 = stgmark_grew [OF st3 bs(4) n(2)]
  have "grew st (encode_items [Block bs]) (texts_items [Block bs]) st'"
    using grew_trans [OF conjunct1 [OF m1] grew_trans [OF bs(1) conjunct1 [OF m2]]] by simp
  moreover have "length bs = length as" using bs(3) by (metis length_map)
  then have "list_all item_ok [Block bs]" using bs(2,3) ok(2,3,4) by (simp only: list.pred_inject item_ok.simps)
  ultimately show ?case using m2 by blast
next
  case (3 st)
  then show ?case using grew_refl by (intro exI [of _ "[]"]) simp
next
  case (4 g gs st)
  obtain st1 where st1: "exec_gen g st = Inr st1" "exec_gens gs st1 = Inr st'" using "4.prems"(1) by (auto simp: bindR_Inr_iff)
  obtain a where a: "grew st (encode_items a) (texts_items a) st1" "list_all item_ok a" "staging_ok st1"
    using "4.IH"(1) [OF st1(1)] "4.prems"(2,3) by auto
  obtain b where b: "grew st1 (encode_items b) (texts_items b) st'" "list_all item_ok b" "staging_ok st'"
    using "4.IH"(2) [OF st1] "4.prems"(2) a(3) by auto
  have "texts_items (a @ b) = texts_items a @ texts_items b" by (induction a) simp_all
  then have "grew st (encode_items (a @ b)) (texts_items (a @ b)) st'" using grew_trans [OF a(1) b(1)] by simp
  then show ?case using a(2) b(2,3) by (intro exI [of _ "a @ b"]) simp
next
  case (5 st)
  then show ?case using grew_refl by (intro exI [of _ "[]"]) simp
next
  case (6 k gs as st)
  obtain st1 st2 where st1: "stgmark st (char_of (sEXPRSTART + k)) = Inr st1" and st2: "exec_gens gs st1 = Inr st2"
      and st3: "exec_gargs as st2 = Inr st'"
    using "6.prems"(1) by (auto simp: bindR_Inr_iff)
  have k: "k < sMAXARGS" using "6.prems"(4) by simp
  note m1 = stgmark_grew [OF st1 "6.prems"(3) mark_of_arg(4) [OF k]]
  obtain a where a: "grew st1 (encode_items a) (texts_items a) st2" "list_all item_ok a" "staging_ok st2"
    using "6.IH"(1) [OF st1 st2] "6.prems"(2) m1 by auto
  obtain b where b: "grew st2 (encode_args b) (texts_args b) st'" "list_all arg_ok b" "map arg_pos b = map garg_pos as" "staging_ok st'"
    using "6.IH"(2) [OF st1 st2 st3] "6.prems"(2,4) a(3) by auto
  have "grew st (encode_args (Arg k a # b)) (texts_args (Arg k a # b)) st'"
    using grew_trans [OF conjunct1 [OF m1] grew_trans [OF a(1) b(1)]] by simp
  then show ?case using a(2) b(2,3,4) by (intro exI [of _ "Arg k a # b"]) simp
qed


section \<open>Switching the buffer on and off\<close>

lemma stg_text_line: "stg_line st = Inr l \<Longrightarrow> \<not> staging st \<Longrightarrow> stg_text st = l"
  by (auto simp: stg_line_def stg_text_def bindR_Inr_iff derefR_Inr_iff split: if_splits)

lemma stgset_on:
  assumes "stgset st True = Inr st'" "writing st" "names_clean st" "\<not> staging st"
  shows "staging_ok st' \<and> content st' = [] \<and> emitted st' = emitted st \<and> outf st' = emitted st \<and> code_idx st' = code_idx st
    \<and> stgidx st' = 0"
proof -
  let ?st = "st\<lparr>staging := True, stgidx := 0\<rparr>"
  obtain st1 l st2 where a: "stgidx st = 0" "check_stgbuffer ?st 0 = Inr st1" "stg_line st1 = Inr l"
      "st2 = (if l \<noteq> [] then filewrite st1 l else st1)" "put_stg st2 0 [NUL] = Inr st'"
    using assms(1) by (auto simp: stgset_def Let_def bindR_Inr_iff assertR_Inr_iff)
  note c = check_stgbuffer_text [OF a(2)]
  note f = same_but_text_fields [OF conjunct1 [OF c]]
  have wr: "sc_status st1 = statWRITE" using f(3) assms(2) by (simp add: writing_def)
  have st2: "st2 = st1\<lparr>outf := outf st1 @ l\<rparr>" using a(4) wr by (cases st1) (simp add: filewrite_def pc_writeasm_def)
  obtain b where b: "stgbuf st2 = Some b" "st' = st2\<lparr>stgbuf := Some (NUL # drop 1 b)\<rparr>"
    using put_stg_text [OF a(5)] by auto
  have l: "l = stg_text st"
  proof (cases "stgbuf st")
    case None
    then obtain r where "stgbuf st1 = Some (NUL # r)" using c by auto
    then show ?thesis using a(3) None by (simp add: stg_line_def stg_text_def cstr_of_def)
  next
    case (Some x)
    then have "st1 = ?st" using a(2) assms(2) by (auto simp: check_stgbuffer_def stgmax_def writing_def split: if_splits)
    then show ?thesis using a(3) Some assms(4) by (auto simp: stg_line_def stg_text_def split: if_splits)
  qed
  have o: "outf st' = emitted st" using b(2) st2 c l by (simp add: emitted_def)
  moreover have i: "stgidx st' = 0" using b(2) st2 c by simp
  moreover have ct: "content st' = []" using b(2) i by (simp add: content_def)
  moreover have "staging st'" using b(2) st2 f by simp
  moreover have "writing st'" using b(2) st2 wr i by (simp add: writing_def)
  moreover have "names_clean st'" using b(2) st2 f assms(3) by (simp add: names_clean_def)
  moreover have "code_idx st' = code_idx st" using b(2) st2 f by simp
  ultimately show ?thesis
    by (simp add: staging_ok_def settled_def emitted_def stg_text_def split: option.split)
qed

lemma stgset_off:
  assumes "stgset st False = Inr st'" "sc_status st = statWRITE" "names_clean st" "stgidx st = 0" "staging st"
  shows "writing st' \<and> names_clean st' \<and> \<not> staging st' \<and> stgidx st' = 0 \<and> emitted st' = emitted st \<and> code_idx st' = code_idx st"
proof -
  obtain b where b: "stgbuf st = Some b" "st' = st\<lparr>staging := False, stgbuf := Some (NUL # drop 1 b)\<rparr>"
    using assms(1) put_stg_text [of "st\<lparr>staging := False\<rparr>" 0 "[NUL]" st'] by (auto simp: stgset_def Let_def)
  then show ?thesis using assms
    by (simp add: writing_def names_clean_def emitted_def stg_text_def cstr_of_def)
qed

section \<open>The count of a whole expression\<close>

text \<open>
  C2: The code generator, the staging buffer and the optimizer together keep the count: an
  expression may call the functions of the code generator in any order, with the arguments of
  calls staged in any order and nested in each other; after it is written, reordered and
  optimized, the text of the assembler file consists of whole lines whose size, as the
  assembler counts it, grew by exactly what \<open>code_idx\<close> grew.  The state afterwards is again one
  from which the next expression can be generated.
\<close>

theorem expression_keeps_count:
  assumes "staged gs st = Inr st'" "list_all gen_ok gs" "writing st" "names_clean st" "\<not> staging st"
    and "complete LF (emitted st)" "text_size (emitted st) = Some n"
  shows "\<exists>n'. text_size (emitted st') = Some n' \<and> code_idx st' - word_of_nat n' = code_idx st - word_of_nat n
    \<and> complete LF (emitted st') \<and> writing st' \<and> names_clean st' \<and> \<not> staging st'"
proof -
  obtain st1 st2 st3 where r: "stgset st True = Inr st1" "exec_gens gs st1 = Inr st2" "stgout st2 0 = Inr st3"
      "stgset st3 False = Inr st'"
    using assms(1) by (auto simp: staged_def bindR_Inr_iff)
  note on = stgset_on [OF r(1) assms(3,4,5)]
  obtain its where its: "grew st1 (encode_items its) (texts_items its) st2" "list_all item_ok its" "staging_ok st2"
    using exec_grew(2) [OF r(2) assms(2)] on by blast
  obtain k where k: "texts_size (texts_items its) = Some k" "code_idx st2 = code_idx st + word_of_nat k" "outf st2 = emitted st"
      and ct: "content st2 = encode_items its" and tx: "list_all (\<lambda>s. plain_text s \<and> complete LF s) (texts_items its)"
    using its(1) on by (auto simp: grew_def)
  have l: "list_all plain_text (texts_items its)" "list_all (complete LF) (texts_items its)" using tx by (auto simp: list_all_iff)
  have ok2: "staging st2" "sc_status st2 = statWRITE" "names_clean st2" "stgidx st2 \<le> stgmax st2"
    using its(3) by (simp_all add: staging_ok_def writing_def)
  have "stgbuf st2 \<noteq> None"
  proof
    assume "stgbuf st2 = None"
    moreover from this have "stgidx st2 = 0" using ok2(4) by (simp add: stgmax_def)
    ultimately have "st3 = st2" using r(3) ok2(1) by (cases st2) (auto simp: stgout_def stgmax_def bindR_Inr_iff stgstring.simps [of _ _ 0 0])
    then show False using r(4) \<open>stgbuf st2 = None\<close> by (simp add: stgset_def put_stg_def)
  qed
  then obtain b where b: "stgbuf st2 = Some b" by blast
  have idx: "stgidx st2 \<le> length b" using ok2(4) b by (simp add: stgmax_def)
  have ci: "encode_items its = take (stgidx st2) b" using ct b by (simp add: content_def)
  define post where "post = drop (stgidx st2) b"
  have bb: "stgbuf st2 = Some (encode_items its @ post)" using b ci by (simp add: post_def)
  have len: "stgidx st2 = length (encode_items its)" using ci idx by simp
  have em: "emitted st2 = emitted st @ concat (texts_items its)"
    using ok2(1) bb len k(3) filter_encode(2) [OF its(2) l(1)] by (simp add: emitted_def stg_text_def)
  have n2: "text_size (emitted st2) = Some (n + k)"
    using assms(6,7) k(1) texts_size_concat [OF l(2)] by (simp add: em text_size_append_complete)
  obtain n3 where n3: "text_size (emitted st3) = Some n3" "complete LF (emitted st3)"
      "code_idx st3 - word_of_nat n3 = code_idx st2 - word_of_nat (n + k)"
    using stgout_count [OF ok2(1,2) bb len its(2) l _ n2 r(3)] k(3) assms(6) by auto
  obtain st4 where st4: "outputs st2 (flat_items its) st4" "st3 = st4\<lparr>stgidx := 0\<rparr>"
    using stgout_outputs [OF ok2(1,2) bb len its(2) l(2) r(3)] by blast
  have "same_but_code st2 st4" using st4(1) by (simp add: outputs_def)
  note f = same_but_code_fields [OF this]
  have "sc_status st3 = statWRITE" "names_clean st3" "stgidx st3 = 0" "staging st3"
    using f ok2(1,2,3) by (simp_all add: st4(2) names_clean_def)
  note off = stgset_off [OF r(4) this]
  then show ?thesis using n3 k(2) by auto
qed


definition call_gens :: "gen list" where
  "call_gens = [Args [GArg 1 [Emit [nooperation]], GArg 0 [Emit [begcseg, nooperation]]]]"

theorem expression_keeps_count_witness:
  "\<exists>st' n'. staged call_gens writing_state = Inr st' \<and> text_size (emitted st') = Some n'
    \<and> code_idx st' - word_of_nat n' = code_idx writing_state"
proof -
  have "case staged call_gens writing_state of Inl e \<Rightarrow> False | Inr st' \<Rightarrow> True" by code_simp
  then obtain st' where st': "staged call_gens writing_state = Inr st'" by (auto split: sum.splits)
  have g: "list_all gen_ok call_gens"
    by (auto simp: call_gens_def lessThan_Suc sMAXARGS_def intro: code_emitter.intros)
  have s: "writing writing_state" "names_clean writing_state" "\<not> staging writing_state"
    by (simp_all add: writing_state_def writing_def names_clean_def)
  have "emitted writing_state = []" by code_simp
  then have n: "text_size (emitted writing_state) = Some 0" "complete LF (emitted writing_state)" by simp_all
  show ?thesis using expression_keeps_count [OF st' g s(1,2,3) n(2,1)] st' by auto
qed

end
