(* ===== verification/Amx.thy ===== *)
theory Amx
  imports Binfile
begin

unbundle bit_operations_syntax

text \<open>
  The abstract machine as its host sees it (\<open>amxmodx/amx.cpp\<close>, \<open>amx.h\<close>): the data section with
  the heap that grows up and the stack that grows down in it, the registers of the structure
  \<open>AMX\<close>, and the functions of the interface that push arguments, allocate on the heap and copy
  strings between the host and the machine.

  The memory is the list of the bytes of the data section, from \<open>data\<close> up to \<open>stp\<close>; addresses are
  relative to its start.  An access outside of it is a fault.  The build is the one of the
  repository's default: cells of 32 bits, little endian, \<open>size_t\<close> of 32 bits, \<open>AMX_ANSIONLY\<close>.
\<close>

section \<open>Cells in memory\<close>

type_synonym mem = "byte list"

definition cell_of :: "byte list \<Rightarrow> cell" where
  "cell_of bs = ucast (bs ! 0) OR push_bit 8 (ucast (bs ! 1)) OR push_bit 16 (ucast (bs ! 2)) OR push_bit 24 (ucast (bs ! 3))"

definition read_bytes :: "mem \<Rightarrow> int \<Rightarrow> nat \<Rightarrow> byte list res" where
  "read_bytes m a n = (if a < 0 then Inl OutOfBounds else peek m (nat a) n)"

definition write_bytes :: "mem \<Rightarrow> int \<Rightarrow> byte list \<Rightarrow> mem res" where
  "write_bytes m a bs = (if a < 0 then Inl OutOfBounds else blit m (nat a) bs)"

text \<open>\<open>* (cell *)(data + a)\<close>, read and written.\<close>

definition rd_cell :: "mem \<Rightarrow> int \<Rightarrow> cell res" where
  "rd_cell m a = bindR (read_bytes m a 4) (\<lambda>bs. Inr (cell_of bs))"

definition wr_cell :: "mem \<Rightarrow> int \<Rightarrow> cell \<Rightarrow> mem res" where
  "wr_cell m a v = write_bytes m a (cell_le v)"

lemma cell_le_bytes: "cell_le c = [ucast c, ucast (drop_bit 8 c), ucast (drop_bit 16 c), ucast (drop_bit 24 c)]"
  by (simp add: cell_le_def upt_rec numeral_2_eq_2 numeral_3_eq_3)

lemma cell_of_le [simp]: "cell_of (cell_le c) = c"
proof (rule bit_word_eqI)
  fix n assume "n < LENGTH(32)"
  then consider "n < 8" | "8 \<le> n" "n < 16" | "16 \<le> n" "n < 24" | "24 \<le> n" "n < 32" by fastforce
  then show "bit (cell_of (cell_le c)) n = bit c n"
    by cases (auto simp: cell_of_def cell_le_bytes bit_or_iff bit_push_bit_iff bit_ucast_iff bit_drop_bit_eq)
qed

lemma cell_le_of: "length bs = 4 \<Longrightarrow> cell_le (cell_of bs) = bs"
proof -
  assume "length bs = 4"
  then obtain a b c d where bs: "bs = [a, b, c, d]"
    by (auto simp: length_Suc_conv numeral_eq_Suc)
  have top: "\<not> bit x (8 + n)" "\<not> bit x (16 + n)" "\<not> bit x (24 + n)" for x :: byte and n
    using bit_imp_le_length [of x] by force+
  show ?thesis unfolding bs cell_le_bytes
    by (auto simp: cell_of_def intro!: bit_word_eqI simp: bit_or_iff bit_push_bit_iff bit_ucast_iff bit_drop_bit_eq top)
qed

named_theorems mem_simps \<open>reading and writing the memory\<close>

definition inside :: "mem \<Rightarrow> int \<Rightarrow> nat \<Rightarrow> bool" where
  "inside m a n \<longleftrightarrow> 0 \<le> a \<and> a + int n \<le> int (length m)"

lemma read_bytes_iff: "read_bytes m a n = Inr bs \<longleftrightarrow> inside m a n \<and> bs = take n (drop (nat a) m)"
  by (auto simp: read_bytes_def inside_def peek_def)

lemma write_bytes_iff: "write_bytes m a bs = Inr m' \<longleftrightarrow>
    inside m a (length bs) \<and> m' = take (nat a) m @ bs @ drop (nat a + length bs) m"
  by (auto simp: write_bytes_def inside_def blit_def)

lemma rd_iff [mem_simps]: "rd_cell m a = Inr v \<longleftrightarrow> inside m a 4 \<and> v = cell_of (take 4 (drop (nat a) m))"
  by (auto simp: rd_cell_def bindR_Inr_iff read_bytes_iff)

lemma wr_iff [mem_simps]: "wr_cell m a v = Inr m' \<longleftrightarrow> inside m a 4 \<and> m' = take (nat a) m @ cell_le v @ drop (nat a + 4) m"
  by (simp add: wr_cell_def write_bytes_iff)

lemma length_wr: "wr_cell m a v = Inr m' \<Longrightarrow> length m' = length m"
  by (auto simp: wr_iff inside_def)

lemma rd_wr_same: "wr_cell m a v = Inr m' \<Longrightarrow> rd_cell m' a = Inr v"
  by (auto simp: wr_iff rd_iff inside_def)

lemma read_write_other:
  assumes "write_bytes m a bs = Inr m'" "a + int (length bs) \<le> b \<or> b + int n \<le> a"
  shows "read_bytes m' b n = read_bytes m b n"
proof -
  define i j where "i = nat a" and "j = nat b"
  have a: "0 \<le> a" "i + length bs \<le> length m" "m' = take i m @ bs @ drop (i + length bs) m"
    using assms(1) by (auto simp: write_bytes_iff inside_def i_def)
  have "take n (drop j m') = take n (drop j m)" if "0 \<le> b"
  proof (cases "i + length bs \<le> j")
    case True
    then have "drop j m' = drop (j - i - length bs) (drop (i + length bs) m)" using a(2) unfolding a(3) by (simp add: min_absorb2)
    also have "\<dots> = drop j m" using True by simp
    finally show ?thesis by simp
  next
    case False
    then have "j + n \<le> i" using assms(2) a(1) \<open>0 \<le> b\<close> unfolding i_def j_def by linarith
    then show ?thesis using a(2) unfolding a(3) by (simp add: drop_take min_absorb2)
  qed
  moreover have "length m' = length m" using a(2) unfolding a(3) by simp
  ultimately show ?thesis by (simp add: read_bytes_def peek_def j_def)
qed

lemma rd_wr_other: "wr_cell m a v = Inr m' \<Longrightarrow> a + 4 \<le> b \<or> b + 4 \<le> a \<Longrightarrow> rd_cell m' b = rd_cell m b"
  using read_write_other [of m a "cell_le v" m' b 4] by (simp add: wr_cell_def rd_cell_def)

lemma wr_inside: "inside m a 4 \<Longrightarrow> \<exists>m'. wr_cell m a v = Inr m' \<and> length m' = length m"
  by (auto simp: wr_iff inside_def)

lemma rd_inside: "inside m a 4 \<Longrightarrow> \<exists>v. rd_cell m a = Inr v"
  by (auto simp: rd_iff)

section \<open>The machine\<close>

abbreviation (input) AMX_ERR_NONE :: int where "AMX_ERR_NONE \<equiv> 0"
abbreviation (input) AMX_ERR_STACKERR :: int where "AMX_ERR_STACKERR \<equiv> 3"
abbreviation (input) AMX_ERR_BOUNDS :: int where "AMX_ERR_BOUNDS \<equiv> 4"
abbreviation (input) AMX_ERR_MEMACCESS :: int where "AMX_ERR_MEMACCESS \<equiv> 5"
abbreviation (input) AMX_ERR_INVINSTR :: int where "AMX_ERR_INVINSTR \<equiv> 6"
abbreviation (input) AMX_ERR_STACKLOW :: int where "AMX_ERR_STACKLOW \<equiv> 7"
abbreviation (input) AMX_ERR_HEAPLOW :: int where "AMX_ERR_HEAPLOW \<equiv> 8"
abbreviation (input) AMX_ERR_CALLBACK :: int where "AMX_ERR_CALLBACK \<equiv> 9"
abbreviation (input) AMX_ERR_DIVIDE :: int where "AMX_ERR_DIVIDE \<equiv> 11"
abbreviation (input) AMX_ERR_SLEEP :: int where "AMX_ERR_SLEEP \<equiv> 12"
abbreviation (input) AMX_ERR_MEMORY :: int where "AMX_ERR_MEMORY \<equiv> 16"
abbreviation (input) AMX_ERR_NOTFOUND :: int where "AMX_ERR_NOTFOUND \<equiv> 19"
abbreviation (input) AMX_ERR_INDEX :: int where "AMX_ERR_INDEX \<equiv> 20"
abbreviation (input) AMX_ERR_INIT :: int where "AMX_ERR_INIT \<equiv> 22"
abbreviation (input) AMX_ERR_PARAMS :: int where "AMX_ERR_PARAMS \<equiv> 25"

text \<open>
  The structure \<open>AMX\<close>.  The memory it points to is a field; of the pointers to the callback and
  the debug hook only whether they are null is kept, as the functions themselves belong to the
  host.
\<close>

record amx =
  callback_set :: bool
  debug_set :: bool
  amx_mem :: mem
  amx_cip :: cell
  amx_frm :: cell
  amx_hea :: cell
  amx_hlw :: cell
  amx_stk :: cell
  amx_stp :: cell
  amx_flags :: cell
  amx_error :: int
  paramcount :: cell
  amx_pri :: cell
  amx_alt :: cell
  amx_reset_stk :: cell
  amx_reset_hea :: cell

definition STKMARGIN :: cell where "STKMARGIN = 16 * 4"

definition amx_SetCallback :: "amx \<Rightarrow> int \<times> amx" where
  "amx_SetCallback a = (AMX_ERR_NONE, a\<lparr>callback_set := True\<rparr>)"

definition amx_SetDebugHook :: "amx \<Rightarrow> bool \<Rightarrow> int \<times> amx" where
  "amx_SetDebugHook a hook = (AMX_ERR_NONE, a\<lparr>debug_set := hook\<rparr>)"

definition amx_RaiseError :: "amx \<Rightarrow> int \<Rightarrow> (int \<times> amx) res" where
  "amx_RaiseError a err = assertR (err > 0) (Inr (AMX_ERR_NONE, a\<lparr>amx_error := err\<rparr>))"

text \<open>The physical address is null or the offset from the start of the memory.\<close>

definition amx_GetAddr :: "amx \<Rightarrow> cell \<Rightarrow> int \<times> int option" where
  "amx_GetAddr a addr =
     (if (amx_hea a \<le>s addr \<and> addr <s amx_stk a) \<or> addr <s 0 \<or> amx_stp a \<le>s addr
      then (AMX_ERR_MEMACCESS, None)
      else (AMX_ERR_NONE, Some (sint addr)))"

definition amx_Allot :: "amx \<Rightarrow> cell \<Rightarrow> int \<times> cell option \<times> amx" where
  "amx_Allot a cells =
     (if amx_stk a - amx_hea a - cells * 4 < STKMARGIN then (AMX_ERR_MEMORY, None, a)
      else (AMX_ERR_NONE, Some (amx_hea a), a\<lparr>amx_hea := amx_hea a + cells * 4\<rparr>))"

definition amx_Release :: "amx \<Rightarrow> cell \<Rightarrow> int \<times> amx" where
  "amx_Release a addr = (AMX_ERR_NONE, if addr <s amx_hea a then a\<lparr>amx_hea := addr\<rparr> else a)"

definition amx_Push :: "amx \<Rightarrow> cell \<Rightarrow> (int \<times> amx) res" where
  "amx_Push a v =
     (if amx_stk a <s amx_hea a + STKMARGIN then Inr (AMX_ERR_STACKERR, a)
      else let a = a\<lparr>amx_stk := amx_stk a - 4, paramcount := paramcount a + 1\<rparr> in
        bindR (wr_cell (amx_mem a) (sint (amx_stk a)) v) (\<lambda>m. Inr (AMX_ERR_NONE, a\<lparr>amx_mem := m\<rparr>)))"

definition amx_PushArray :: "amx \<Rightarrow> cell list \<Rightarrow> cell \<Rightarrow> (int \<times> cell option \<times> amx) res" where
  "amx_PushArray a array numcells =
     (case amx_Allot a numcells of
        (err, None, a) \<Rightarrow> Inr (err, None, a)
      | (err, Some addr, a) \<Rightarrow>
          bindR (peek (concat (map cell_le array)) 0 (unat (numcells * 4))) (\<lambda>bs.
          bindR (write_bytes (amx_mem a) (sint addr) bs) (\<lambda>m.
          bindR (amx_Push (a\<lparr>amx_mem := m\<rparr>) addr) (\<lambda>(err, a). Inr (err, Some addr, a)))))"

section \<open>The heap and the stack\<close>

text \<open>The heap lies below the stack and both in the memory.\<close>

definition amx_ok :: "amx \<Rightarrow> bool" where
  "amx_ok a \<longleftrightarrow> 0 \<le> sint (amx_hea a) \<and> sint (amx_hea a) \<le> sint (amx_stk a) \<and> sint (amx_stk a) \<le> int (length (amx_mem a))"

definition gap :: "amx \<Rightarrow> int" where "gap a = sint (amx_stk a) - sint (amx_hea a)"

lemma sint_bounds: "- (2 ^ 31) \<le> sint (c :: cell)" "sint (c :: cell) < 2 ^ 31"
  using sint_ge [of c] sint_lt [of c] by simp_all

lemma sint_add_small: "- (2 ^ 31) \<le> sint (x :: cell) + sint y \<Longrightarrow> sint x + sint y < 2 ^ 31 \<Longrightarrow> sint (x + y) = sint x + sint y"
  by (simp add: sint_word_add signed_take_bit_int_eq_self)

lemma sint_diff_small: "- (2 ^ 31) \<le> sint (x :: cell) - sint y \<Longrightarrow> sint x - sint y < 2 ^ 31 \<Longrightarrow> sint (x - y) = sint x - sint y"
  by (simp add: sint_word_diff signed_take_bit_int_eq_self)

lemma uint_sint_pos: "0 \<le> sint (x :: cell) \<Longrightarrow> uint x = sint x"
  using sint_bounds [of x] by (simp add: uint_sint take_bit_int_eq_self)

lemma sint_uint_small: "uint (x :: cell) < 2 ^ 31 \<Longrightarrow> sint x = uint x"
proof -
  assume "uint x < 2 ^ 31"
  then have "signed_take_bit 31 (uint x) = uint x" by (intro signed_take_bit_int_eq_self) (simp_all add: order_trans [of _ 0])
  then show ?thesis by (simp add: sint_uint)
qed

lemma uint_diff_pos: "uint (y :: cell) \<le> uint x \<Longrightarrow> uint (x - y) = uint x - uint y"
  by (simp add: uint_sub_lem)

text \<open>The bytes a request for cells takes, and what is left between the heap and the stack.\<close>

abbreviation bytes :: "cell \<Rightarrow> int" where "bytes cells \<equiv> uint (cells * 4)"

lemma gap_uint: "amx_ok a \<Longrightarrow> uint (amx_stk a - amx_hea a) = gap a"
  by (subst uint_diff_pos) (auto simp: amx_ok_def gap_def uint_sint_pos)

lemma amx_Allot_iff:
  assumes "amx_ok a"
  shows "amx_Allot a cells =
    (if (if bytes cells \<le> gap a then gap a - bytes cells else gap a - bytes cells + 2 ^ 32) < 64
     then (AMX_ERR_MEMORY, None, a) else (AMX_ERR_NONE, Some (amx_hea a), a\<lparr>amx_hea := amx_hea a + cells * 4\<rparr>))"
proof -
  have "uint (amx_stk a - amx_hea a - cells * 4) = (if bytes cells \<le> gap a then gap a - bytes cells else gap a - bytes cells + 2 ^ 32)"
    using gap_uint [OF assms] by (subst uint_sub_if') simp
  moreover have "uint STKMARGIN = 64" by (simp add: STKMARGIN_def)
  ultimately show ?thesis by (simp add: amx_Allot_def word_less_def)
qed

lemma gap_bound: "amx_ok a \<Longrightarrow> gap a < 2 ^ 31"
  using sint_bounds [of "amx_stk a"] by (simp add: amx_ok_def gap_def)

lemma hea_plus:
  assumes "amx_ok a" "bytes cells \<le> gap a"
  shows "sint (amx_hea a + cells * 4) = sint (amx_hea a) + bytes cells"
proof -
  have "sint (cells * 4) = bytes cells" using assms gap_bound by (intro sint_uint_small) force
  moreover have "sint (amx_hea a) + bytes cells \<le> sint (amx_stk a)" using assms(2) by (simp add: gap_def)
  moreover have "0 \<le> sint (amx_hea a)" "0 \<le> bytes cells" using assms(1) by (simp_all add: amx_ok_def)
  ultimately show ?thesis using sint_bounds(2) [of "amx_stk a"] sint_add_small [of "amx_hea a" "cells * 4"] by linarith
qed

text \<open>
  Heap requests that fit: when a request leaves the margin of 16 cells between the heap and
  the stack, \<open>amx_Allot\<close> grants it at the top of the heap, the heap still lies below the stack,
  the space between them shrinks by exactly the request, and \<open>amx_Release\<close> with the granted
  address gives the machine back as it was.
\<close>

lemma amx_Allot_Release:
  assumes "amx_ok a" "bytes cells + 64 \<le> gap a"
  shows "\<exists>b. amx_Allot a cells = (AMX_ERR_NONE, Some (amx_hea a), b) \<and> amx_ok b \<and> gap b = gap a - bytes cells
    \<and> amx_Release b (amx_hea a) = (AMX_ERR_NONE, a)"
proof -
  let ?b = "a\<lparr>amx_hea := amx_hea a + cells * 4\<rparr>"
  have h: "sint (amx_hea ?b) = sint (amx_hea a) + bytes cells" using hea_plus [OF assms(1), of cells] assms(2) by simp
  have "amx_Allot a cells = (AMX_ERR_NONE, Some (amx_hea a), ?b)" using assms by (simp add: amx_Allot_iff)
  moreover have "amx_ok ?b" using assms h uint_ge_0 [of "cells * 4"] by (auto simp: amx_ok_def gap_def)
  moreover have "gap ?b = gap a - bytes cells" using h by (simp add: gap_def)
  moreover have "amx_Release ?b (amx_hea a) = (AMX_ERR_NONE, a)"
  proof (cases "cells * 4 = 0")
    case False
    then have "0 < bytes cells" by (metis uint_0_iff uint_ge_0 order_le_less)
    then show ?thesis using h by (simp add: amx_Release_def word_sless_alt)
  qed (simp add: amx_Release_def)
  ultimately show ?thesis by blast
qed

definition sample_machine :: amx where
  "sample_machine = \<lparr>callback_set = True, debug_set = False, amx_mem = replicate 200 0, amx_cip = 0, amx_frm = 0, amx_hea = 8,
      amx_hlw = 8, amx_stk = 200, amx_stp = 200, amx_flags = 0, amx_error = 0, paramcount = 0, amx_pri = 0, amx_alt = 0,
      amx_reset_stk = 0, amx_reset_hea = 0\<rparr>"

lemma amx_Allot_Release_witness:
  "\<exists>b. amx_Allot sample_machine 5 = (AMX_ERR_NONE, Some 8, b) \<and> gap b = 172"
  by (insert amx_Allot_Release [of sample_machine 5]) (auto simp: amx_ok_def gap_def sample_machine_def)

text \<open>
  Heap requests that do not fit: the comparison of \<open>amx_Allot\<close> is unsigned, so a request
  for more bytes than there are between the heap and the stack wraps around and is granted
  (unless it is within 64 bytes of 2 to the 32), with the heap pointer behind the stack pointer.
\<close>

lemma amx_Allot_wraps:
  assumes "amx_ok a" "gap a < bytes cells" "bytes cells \<le> gap a + (2 ^ 32 - 64)" "sint (amx_hea a) + bytes cells < 2 ^ 31"
  shows "\<exists>b. amx_Allot a cells = (AMX_ERR_NONE, Some (amx_hea a), b) \<and> amx_stk b <s amx_hea b"
proof -
  have "sint (cells * 4) = bytes cells"
    using assms(1,4) by (intro sint_uint_small) (simp add: amx_ok_def)
  moreover have "0 \<le> sint (amx_hea a)" "0 \<le> bytes cells" using assms(1) by (simp_all add: amx_ok_def)
  ultimately have "sint (amx_hea a + cells * 4) = sint (amx_hea a) + bytes cells"
    using assms(4) sint_add_small [of "amx_hea a" "cells * 4"] by linarith
  then show ?thesis using assms by (simp add: amx_Allot_iff word_sless_alt gap_def)
qed

lemma amx_Allot_wraps_witness:
  "\<exists>b. amx_Allot sample_machine 1000 = (AMX_ERR_NONE, Some 8, b) \<and> amx_stk b <s amx_hea b"
  by (insert amx_Allot_wraps [of sample_machine 1000]) (auto simp: amx_ok_def gap_def sample_machine_def)

text \<open>Pushing onto a stack with room.\<close>

lemma stk_minus:
  assumes "amx_ok a" "64 \<le> gap a"
  shows "sint (amx_stk a - 4) = sint (amx_stk a) - 4"
proof -
  have "0 \<le> sint (amx_hea a)" "64 \<le> sint (amx_stk a) - sint (amx_hea a)" using assms by (simp_all add: amx_ok_def gap_def)
  moreover have "sint (amx_stk a) < 2 ^ 31" "sint (4 :: cell) = 4" using sint_bounds by simp_all
  ultimately show ?thesis using sint_diff_small [of "amx_stk a" 4] by linarith
qed

lemma amx_Push_ok:
  assumes "amx_ok a" "64 \<le> gap a"
  shows "\<exists>m. wr_cell (amx_mem a) (sint (amx_stk a) - 4) v = Inr m \<and>
    amx_Push a v = Inr (AMX_ERR_NONE, a\<lparr>amx_stk := amx_stk a - 4, paramcount := paramcount a + 1, amx_mem := m\<rparr>)"
proof -
  have a: "0 \<le> sint (amx_hea a)" "64 \<le> sint (amx_stk a) - sint (amx_hea a)" "sint (amx_stk a) \<le> int (length (amx_mem a))"
    using assms by (simp_all add: amx_ok_def gap_def)
  have M: "sint STKMARGIN = 64" by (simp add: STKMARGIN_def)
  then have "sint (amx_hea a + STKMARGIN) = sint (amx_hea a) + 64"
    using a sint_bounds(2) [of "amx_stk a"] sint_add_small [of "amx_hea a" STKMARGIN] by linarith
  then have "\<not> amx_stk a <s amx_hea a + STKMARGIN" using a by (simp add: word_sless_alt)
  moreover obtain m where "wr_cell (amx_mem a) (sint (amx_stk a) - 4) v = Inr m"
    using wr_inside [of "amx_mem a" "sint (amx_stk a) - 4" v] a by (auto simp: inside_def)
  ultimately show ?thesis using stk_minus [OF assms] by (simp add: amx_Push_def Let_def)
qed

text \<open>
  Passing an array: on a machine with room for it, \<open>amx_PushArray\<close> succeeds; afterwards the
  cells of the array are in the memory at the granted address, this address is on top of the
  stack and counted as a parameter, and every cell of the memory that was in use, below the old
  top of the heap or above the old top of the stack, is unchanged.
\<close>

lemma amx_PushArray_readback:
  assumes "amx_ok a" "bytes n + 64 \<le> gap a" "int (length cells) * 4 = bytes n"
  shows "\<exists>b. amx_PushArray a cells n = Inr (AMX_ERR_NONE, Some (amx_hea a), b)
    \<and> read_bytes (amx_mem b) (sint (amx_hea a)) (4 * length cells) = Inr (concat (map cell_le cells))
    \<and> amx_stk b = amx_stk a - 4 \<and> rd_cell (amx_mem b) (sint (amx_stk b)) = Inr (amx_hea a) \<and> paramcount b = paramcount a + 1
    \<and> (\<forall>p. p + 4 \<le> sint (amx_hea a) \<or> sint (amx_stk a) \<le> p \<longrightarrow> rd_cell (amx_mem b) p = rd_cell (amx_mem a) p)"
proof -
  let ?h = "sint (amx_hea a)" and ?bs = "concat (map cell_le cells)"
  let ?a1 = "a\<lparr>amx_hea := amx_hea a + n * 4\<rparr>"
  have a: "0 \<le> ?h" "?h + bytes n + 64 \<le> sint (amx_stk a)" "sint (amx_stk a) \<le> int (length (amx_mem a))"
    using assms(1,2) by (simp_all add: amx_ok_def gap_def)
  have al: "amx_Allot a n = (AMX_ERR_NONE, Some (amx_hea a), ?a1)" using assms by (simp add: amx_Allot_iff)
  have len: "length ?bs = 4 * length cells" by (induction cells) simp_all
  have un: "unat (n * 4) = 4 * length cells" using assms(3) by (metis mult.commute nat_int of_nat_mult of_nat_numeral unat_eq_nat_uint)
  have pk: "peek ?bs 0 (unat (n * 4)) = Inr ?bs" using len un by (simp add: peek_def)
  have ins: "inside (amx_mem a) ?h (length ?bs)" using a assms(3) len by (simp add: inside_def)
  then obtain m where m: "write_bytes (amx_mem a) ?h ?bs = Inr m" by (simp add: write_bytes_iff)
  have lm: "length m = length (amx_mem a)" using m by (auto simp: write_bytes_iff inside_def)
  let ?a2 = "?a1\<lparr>amx_mem := m\<rparr>"
  have h2: "sint (amx_hea ?a2) = ?h + bytes n" using hea_plus [OF assms(1), of n] assms(2) by simp
  have "amx_ok ?a2" "64 \<le> gap ?a2" using a h2 lm by (simp_all add: amx_ok_def gap_def)
  then obtain m2 where m2: "wr_cell m (sint (amx_stk a) - 4) (amx_hea a) = Inr m2"
      "amx_Push ?a2 (amx_hea a) = Inr (AMX_ERR_NONE, ?a2\<lparr>amx_stk := amx_stk a - 4, paramcount := paramcount a + 1, amx_mem := m2\<rparr>)"
    using amx_Push_ok [of ?a2 "amx_hea a"] by auto
  have ws: "write_bytes m (sint (amx_stk a) - 4) (cell_le (amx_hea a)) = Inr m2" using m2(1) by (simp add: wr_cell_def)
  have "read_bytes m2 ?h (4 * length cells) = read_bytes m ?h (4 * length cells)"
    using read_write_other [OF ws, of ?h] a(2) assms(3) by simp
  also have "\<dots> = Inr ?bs" using m len by (auto simp: write_bytes_iff read_bytes_iff inside_def)
  finally have r: "read_bytes m2 ?h (4 * length cells) = Inr ?bs" .
  have s: "sint (amx_stk a - 4) = sint (amx_stk a) - 4"
    using stk_minus [OF assms(1)] assms(2) uint_ge_0 [of "n * 4"] by linarith
  have "rd_cell m2 p = rd_cell (amx_mem a) p" if "p + 4 \<le> ?h \<or> sint (amx_stk a) \<le> p" for p
  proof -
    have "sint (amx_stk a) - 4 + 4 \<le> p \<or> p + 4 \<le> sint (amx_stk a) - 4" using that a(2) uint_ge_0 [of "n * 4"] by linarith
    then have "rd_cell m2 p = rd_cell m p" by (rule rd_wr_other [OF m2(1)])
    also have "\<dots> = rd_cell (amx_mem a) p"
      using read_write_other [OF m, of p 4] that a(2) assms(3) len by (auto simp: rd_cell_def)
    finally show ?thesis .
  qed
  moreover have "amx_PushArray a cells n = Inr (AMX_ERR_NONE, Some (amx_hea a),
      ?a2\<lparr>amx_stk := amx_stk a - 4, paramcount := paramcount a + 1, amx_mem := m2\<rparr>)"
    using al pk m m2(2) by (simp add: amx_PushArray_def)
  ultimately show ?thesis using r s rd_wr_same [OF m2(1)] by simp
qed

lemma amx_PushArray_readback_witness:
  "\<exists>b. amx_PushArray sample_machine [7, 8] 2 = Inr (AMX_ERR_NONE, Some 8, b)
    \<and> read_bytes (amx_mem b) 8 8 = Inr [7, 0, 0, 0, 8, 0, 0, 0]"
  using amx_PushArray_readback [of sample_machine 2 "[7, 8]"] by (auto simp: amx_ok_def gap_def sample_machine_def cell_le_bytes)

end
