(* ===== verification/Amxstr.thy ===== *)
theory Amxstr
  imports Amx
begin

unbundle bit_operations_syntax

text \<open>
  Strings in the memory of the abstract machine (\<open>amx_SetString\<close>, \<open>amx_GetString\<close>,
  \<open>amx_StrLen\<close>, \<open>amx_PushString\<close> of \<open>amxmodx/amx.cpp\<close>): unpacked, one character per cell, or
  packed, four characters per cell with the first one in the highest byte.
\<close>

section \<open>Strings in memory\<close>

definition byte_of :: "char \<Rightarrow> byte" where "byte_of c = word_of_nat (of_char c)"
definition char_of_byte :: "byte \<Rightarrow> char" where "char_of_byte b = char_of (unat b)"

definition UNPACKEDMAX :: cell where "UNPACKEDMAX = 0x00FFFFFF"
definition UNLIMITED :: int where "UNLIMITED = 0x7FFFFFFF"
definition CHARMASK :: cell where "CHARMASK = 0xFF000000"

definition swap32 :: "cell \<Rightarrow> cell" where "swap32 c = cell_of (rev (cell_le c))"

text \<open>\<open>while (len>=0) swapcell(&dest[len--])\<close>, and the loop that stores one character per cell.\<close>

fun swap_cells :: "mem \<Rightarrow> int \<Rightarrow> nat \<Rightarrow> mem res" where
  "swap_cells m d 0 = bindR (rd_cell m d) (\<lambda>c. wr_cell m d (swap32 c))"
| "swap_cells m d (Suc k) = bindR (rd_cell m (d + 4 * int (Suc k))) (\<lambda>c.
     bindR (wr_cell m (d + 4 * int (Suc k)) (swap32 c)) (\<lambda>m. swap_cells m d k))"

fun set_cells :: "mem \<Rightarrow> int \<Rightarrow> cell list \<Rightarrow> mem res" where
  "set_cells m d [] = Inr m"
| "set_cells m d (c # cs) = bindR (wr_cell m d c) (\<lambda>m. set_cells m (d + 4) cs)"

definition amx_SetString :: "mem \<Rightarrow> int \<Rightarrow> string \<Rightarrow> bool \<Rightarrow> int \<Rightarrow> mem res" where
  "amx_SetString m d source pack room =
     (let len = int (length source) in
      if pack then
        let len = (if room < UNLIMITED div 4 \<and> len \<ge> room * 4 then room * 4 - 1 else len) in
        if len < 0 then Inl OutOfBounds
        else bindR (wr_cell m (d + 4 * (len div 4)) 0) (\<lambda>m.
             bindR (write_bytes m d (map byte_of (take (nat len) source))) (\<lambda>m.
             swap_cells m d (nat (len div 4))))
      else
        let len = (if room < UNLIMITED \<and> len \<ge> room then room - 1 else len) in
        bindR (set_cells m d (map (\<lambda>c. word_of_int (schar c)) (take (nat len) source))) (\<lambda>m.
        wr_cell m (d + 4 * len) 0))"

text \<open>\<open>amx_GetString\<close>: the characters of a packed string, the highest byte of a cell first.\<close>

function get_packed :: "mem \<Rightarrow> int \<Rightarrow> cell \<Rightarrow> nat \<Rightarrow> string \<Rightarrow> nat \<Rightarrow> string res" where
  "get_packed m source c i dest room =
     (if length dest < room then
        bindR (if i = 3 then rd_cell m source else Inr c) (\<lambda>c.
          let source = (if i = 3 then source + 4 else source);
              ch = char_of_byte (ucast (drop_bit (i * 8) c)) in
          if ch = NUL then Inr (dest @ [ch])
          else get_packed m source c ((i + 3) mod 4) (dest @ [ch]) room)
      else Inr dest)"
  by pat_completeness auto
termination
  by (relation "measure (\<lambda>(m, source, c, i, dest, room). room - length dest)") auto

declare get_packed.simps [simp del]

function get_unpacked :: "mem \<Rightarrow> int \<Rightarrow> string \<Rightarrow> nat \<Rightarrow> string res" where
  "get_unpacked m source dest room =
     bindR (rd_cell m source) (\<lambda>c.
       if c \<noteq> 0 \<and> length dest < room
       then get_unpacked m (source + 4) (dest @ [char_of_byte (ucast c)]) room else Inr dest)"
  by pat_completeness auto
termination
  by (relation "measure (\<lambda>(m, source, dest, room). room - length dest)") auto

declare get_unpacked.simps [simp del]

text \<open>What \<open>amx_GetString\<close> leaves in \<open>dest\<close>.\<close>

definition amx_GetString :: "mem \<Rightarrow> int \<Rightarrow> nat \<Rightarrow> string res" where
  "amx_GetString m source room =
     bindR (rd_cell m source) (\<lambda>c0.
     bindR (if UNPACKEDMAX < c0 then get_packed m source 0 3 [] room else get_unpacked m source [] room) (\<lambda>dest.
       Inr (if room = 0 then dest
            else if length dest \<ge> room then dest[room - 1 := NUL]
            else dest @ [NUL])))"

text \<open>\<open>amx_StrLen\<close>: the characters of the last cell are counted from its high end.\<close>

function strlen_tail :: "cell \<Rightarrow> nat \<Rightarrow> nat" where
  "strlen_tail c len = (if c AND CHARMASK \<noteq> 0 then strlen_tail (push_bit 8 c) (len + 1) else len)"
  by pat_completeness auto
termination
proof (relation "measure (\<lambda>(c, len). card {n. bit c n})", simp_all)
  fix c :: cell assume "c AND CHARMASK \<noteq> 0"
  then obtain n where n: "bit (c AND CHARMASK) n" by (auto simp: bit_eq_iff [of "c AND CHARMASK"])
  have C: "CHARMASK = push_bit 24 0xFF" by (simp add: CHARMASK_def)
  have "bit c n \<and> 24 \<le> n" using n unfolding C bit_and_iff bit_push_bit_iff by blast
  then have n: "bit c n" "\<not> n < 24" by simp_all
  have "{n. bit (push_bit 8 c) n} = (\<lambda>n. n + 8) ` {n. bit c n \<and> n < 24}"
    by (force simp: bit_push_bit_iff image_iff dest: bit_imp_le_length intro: exI [of _ "_ - 8"])
  then have "card {n. bit (push_bit 8 c) n} = card {n. bit c n \<and> n < 24}" by (simp add: card_image)
  also have "\<dots> < card {n. bit c n}"
  proof (rule psubset_card_mono)
    show "finite {n. bit c n}" by (rule finite_subset [of _ "{..<32}"]) (auto dest: bit_imp_le_length)
    show "{n. bit c n \<and> n < 24} \<subset> {n. bit c n}" using n by blast
  qed
  finally show "card {n. bit (push_bit 8 c) n} < card {n. bit c n}" .
qed

declare strlen_tail.simps [simp del]

function strlen_cells :: "mem \<Rightarrow> int \<Rightarrow> nat \<Rightarrow> nat res" where
  "strlen_cells m a len = bindR (rd_cell m a) (\<lambda>c. if c \<noteq> 0 then strlen_cells m (a + 4) (len + 1) else Inr len)"
  by pat_completeness auto
termination
  by (relation "measure (\<lambda>(m, a, len). nat (int (length m) - a))") (auto simp: rd_iff inside_def)

declare strlen_cells.simps [simp del]

definition amx_StrLen :: "mem \<Rightarrow> int \<Rightarrow> (int \<times> nat) res" where
  "amx_StrLen m cstr =
     bindR (rd_cell m cstr) (\<lambda>c0.
       if UNPACKEDMAX < c0 then
         (case strchr (map char_of_byte (drop (nat cstr) m)) NUL of
            None \<Rightarrow> Inl OutOfBounds
          | Some len \<Rightarrow> bindR (rd_cell m (cstr + 4 * int (len div 4))) (\<lambda>c.
              Inr (AMX_ERR_NONE, strlen_tail c (len - len mod 4))))
       else
         bindR (strlen_cells m cstr 0) (\<lambda>len. Inr (AMX_ERR_NONE, len)))"

definition amx_PushString :: "amx \<Rightarrow> string \<Rightarrow> bool \<Rightarrow> (int \<times> cell option \<times> amx) res" where
  "amx_PushString a str pack =
     (let numcells = length str + 1;
          numcells = (if pack then (numcells + 3) div 4 else numcells) in
      case amx_Allot a (word_of_nat numcells) of
        (err, None, a) \<Rightarrow> Inr (err, None, a)
      | (err, Some addr, a) \<Rightarrow>
          bindR (amx_SetString (amx_mem a) (sint addr) str pack UNLIMITED) (\<lambda>m.
          bindR (amx_Push (a\<lparr>amx_mem := m\<rparr>) addr) (\<lambda>(err, a). Inr (err, Some addr, a))))"

section \<open>Characters and cells\<close>

lemma char_byte [simp]: "char_of_byte (byte_of c) = c"
  by (simp add: char_of_byte_def byte_of_def unat_of_nat)

lemma schar_mod: "schar c mod 256 = of_char c"
proof -
  define n where "n = (of_char c :: nat)"
  have "n < 256" by (simp add: n_def)
  moreover have "(of_char c :: int) = int n" by (simp only: n_def of_nat_of_char)
  ultimately show ?thesis by (auto simp: schar_def Let_def)
qed

lemma char_of_cell [simp]: "char_of_byte (ucast (word_of_int (schar c) :: cell)) = c"
proof -
  have "ucast (word_of_int (schar c) :: cell) = (word_of_int (schar c) :: byte)"
    by (rule ucast_down_wi) (simp add: is_down)
  then have "uint (ucast (word_of_int (schar c) :: cell) :: byte) = schar c mod 256"
    by (simp add: uint_word_of_int)
  then have "unat (ucast (word_of_int (schar c) :: cell) :: byte) = of_char c"
    using schar_mod by (simp add: unat_eq_nat_uint)
  then show ?thesis by (simp add: char_of_byte_def)
qed

lemma char_byte_0 [simp]: "char_of_byte 0 = NUL"
  by (simp add: char_of_byte_def char_of_def)

lemma schar_cell_0: "c \<noteq> NUL \<Longrightarrow> word_of_int (schar c) \<noteq> (0 :: cell)"
proof
  assume "c \<noteq> NUL" "word_of_int (schar c) = (0 :: cell)"
  then have "char_of_byte (ucast (0 :: cell)) = c" using char_of_cell [of c] by simp
  then show False using \<open>c \<noteq> NUL\<close> by (auto simp: char_of_byte_def char_of_def)
qed

text \<open>An ASCII character is not taken for a cell of a packed string; any other one is.\<close>

lemma schar_packed_iff: "UNPACKEDMAX < word_of_int (schar c) \<longleftrightarrow> \<not> ascii c"
proof -
  define n where "n = (of_char c :: nat)"
  have n: "n < 256" by (simp add: n_def)
  have "(of_char c :: int) = int n" by (simp only: n_def of_nat_of_char)
  then have sc: "schar c = (if n < 128 then int n else int n - 256)" by (simp add: schar_def Let_def)
  have "uint (word_of_int (schar c) :: cell) = (if n < 128 then int n else int n - 256 + 2 ^ 32)"
  proof -
    have "(int n - 256) mod 2 ^ 32 = (int n - 256 + 2 ^ 32) mod 2 ^ 32" by (simp only: mod_add_self2)
    also have "\<dots> = int n - 256 + 2 ^ 32" using n by (intro mod_pos_pos_trivial) auto
    finally show ?thesis using n unfolding sc uint_word_of_int by simp
  qed
  moreover have "uint UNPACKEDMAX = 0x00FFFFFF" by (simp add: UNPACKEDMAX_def)
  ultimately show ?thesis using n unfolding word_less_def by (simp add: ascii_def n_def)
qed

section \<open>Unpacked strings\<close>

lemma set_cells_spec:
  "set_cells m d cs = Inr m' \<Longrightarrow> (\<forall>i<length cs. rd_cell m' (d + 4 * int i) = Inr (cs ! i)) \<and> length m' = length m
    \<and> (\<forall>b n. b + int n \<le> d \<or> d + 4 * int (length cs) \<le> b \<longrightarrow> read_bytes m' b n = read_bytes m b n)"
proof (induction m d cs rule: set_cells.induct)
  case (2 m d c cs)
  obtain m1 where m1: "wr_cell m d c = Inr m1" "set_cells m1 (d + 4) cs = Inr m'" using "2.prems" by (auto simp: bindR_Inr_iff)
  note IH = "2.IH" [OF m1]
  have w: "write_bytes m d (cell_le c) = Inr m1" using m1(1) by (simp add: wr_cell_def)
  have keep: "read_bytes m' b n = read_bytes m b n" if "b + int n \<le> d \<or> d + 4 * int (length (c # cs)) \<le> b" for b n
  proof -
    have "b + int n \<le> d + 4 \<or> d + 4 + 4 * int (length cs) \<le> b" using that by auto
    then have "read_bytes m' b n = read_bytes m1 b n" using IH by blast
    also have "d + int (length (cell_le c)) \<le> b \<or> b + int n \<le> d" using that by auto
    then have "read_bytes m1 b n = read_bytes m b n" by (rule read_write_other [OF w])
    finally show ?thesis .
  qed
  have "rd_cell m' d = rd_cell m1 d" using IH by (simp add: rd_cell_def)
  then have "rd_cell m' d = Inr c" using rd_wr_same [OF m1(1)] by simp
  moreover have "rd_cell m' (d + 4 * int i) = Inr ((c # cs) ! i)" if "0 < i" "i < length (c # cs)" for i
  proof -
    obtain j where i: "i = Suc j" using \<open>0 < i\<close> by (cases i) auto
    then have "rd_cell m' (d + 4 + 4 * int j) = Inr (cs ! j)" using IH that(2) by simp
    then show ?thesis using i by (simp add: algebra_simps)
  qed
  ultimately have "rd_cell m' (d + 4 * int i) = Inr ((c # cs) ! i)" if "i < length (c # cs)" for i
    using that by (cases "i = 0") auto
  then show ?case using keep IH length_wr [OF m1(1)] by simp
qed simp

lemma get_unpacked_spec:
  "\<forall>i<length cs. rd_cell m (a + 4 * int i) = Inr (cs ! i) \<and> cs ! i \<noteq> 0 \<Longrightarrow> rd_cell m (a + 4 * int (length cs)) = Inr 0 \<Longrightarrow>
    get_unpacked m a dest n = Inr (dest @ take (n - length dest) (map (\<lambda>c. char_of_byte (ucast c)) cs))"
proof (induction cs arbitrary: a dest)
  case Nil
  then show ?case by (subst get_unpacked.simps) simp
next
  case (Cons c cs)
  have h: "rd_cell m a = Inr c" "c \<noteq> 0" using Cons.prems(1) by force+
  have t: "\<forall>i<length cs. rd_cell m (a + 4 + 4 * int i) = Inr (cs ! i) \<and> cs ! i \<noteq> 0"
  proof (intro allI impI)
    fix i assume "i < length cs"
    then show "rd_cell m (a + 4 + 4 * int i) = Inr (cs ! i) \<and> cs ! i \<noteq> 0"
      using Cons.prems(1) [rule_format, of "Suc i"] by (simp add: algebra_simps)
  qed
  have e: "rd_cell m (a + 4 + 4 * int (length cs)) = Inr 0" using Cons.prems(2) by (simp add: algebra_simps)
  show ?case
  proof (cases "length dest < n")
    case True
    then obtain k where "n - length dest = Suc k" by (cases "n - length dest") auto
    moreover from this have "n - Suc (length dest) = k" by simp
    ultimately show ?thesis using h True Cons.IH [OF t e] by (subst get_unpacked.simps) (simp add: Suc_diff_Suc)
  qed (use h in \<open>subst get_unpacked.simps, simp\<close>)
qed

section \<open>Packed strings\<close>

lemma swap_cells_spec:
  "swap_cells m d k = Inr m' \<Longrightarrow> (\<forall>i\<le>k. \<forall>c. rd_cell m (d + 4 * int i) = Inr c \<longrightarrow> rd_cell m' (d + 4 * int i) = Inr (swap32 c))
    \<and> length m' = length m \<and> (\<forall>b. d + 4 * int (Suc k) \<le> b \<longrightarrow> rd_cell m' b = rd_cell m b)"
proof (induction m d k arbitrary: m' rule: swap_cells.induct)
  case (1 m d)
  then obtain c where c: "rd_cell m d = Inr c" "wr_cell m d (swap32 c) = Inr m'" by (auto simp: bindR_Inr_iff)
  then show ?case using rd_wr_same [OF c(2)] rd_wr_other [OF c(2)] length_wr [OF c(2)] by auto
next
  case (2 m d k)
  let ?a = "d + 4 * int (Suc k)"
  obtain c m1 where c: "rd_cell m ?a = Inr c" "wr_cell m ?a (swap32 c) = Inr m1" "swap_cells m1 d k = Inr m'"
    using "2.prems" by (auto simp: bindR_Inr_iff)
  note IH = "2.IH" [OF c]
  have top: "rd_cell m' ?a = Inr (swap32 c)" using IH rd_wr_same [OF c(2)] by simp
  have low: "rd_cell m1 (d + 4 * int i) = rd_cell m (d + 4 * int i)" if "i \<le> k" for i
    using that by (intro rd_wr_other [OF c(2)]) auto
  have "rd_cell m' b = rd_cell m b" if "d + 4 * int (Suc (Suc k)) \<le> b" for b
  proof -
    have "rd_cell m' b = rd_cell m1 b" using IH that by simp
    also have "\<dots> = rd_cell m b" using that by (intro rd_wr_other [OF c(2)]) auto
    finally show ?thesis .
  qed
  moreover have "rd_cell m' (d + 4 * int i) = Inr (swap32 e)" if "i \<le> Suc k" "rd_cell m (d + 4 * int i) = Inr e" for i e
  proof (cases "i = Suc k")
    case True
    then show ?thesis using top c(1) that(2) by simp
  next
    case False
    then show ?thesis using IH low that by simp
  qed
  ultimately show ?case using IH length_wr [OF c(2)] by simp
qed

text \<open>The cell that holds the four characters from position \<open>4 * k\<close> on.\<close>

definition packed_cell :: "byte list \<Rightarrow> nat \<Rightarrow> cell" where
  "packed_cell bs k = cell_of (rev (take 4 (drop (4 * k) bs)))"

lemma cell_le_nth: "i < 4 \<Longrightarrow> ucast (drop_bit (i * 8) c) = cell_le c ! i"
  by (simp add: cell_le_def mult.commute)

lemma packed_char:
  assumes "p < length bs" "length bs = 4 * q"
  shows "char_of_byte (ucast (drop_bit ((3 - p mod 4) * 8) (packed_cell bs (p div 4)))) = char_of_byte (bs ! p)"
proof -
  let ?xs = "take 4 (drop (4 * (p div 4)) bs)"
  have l: "length ?xs = 4" using assms by (simp add: mult.commute) presburger
  have "ucast (drop_bit ((3 - p mod 4) * 8) (packed_cell bs (p div 4))) = cell_le (packed_cell bs (p div 4)) ! (3 - p mod 4)"
    by (rule cell_le_nth) simp
  also have "\<dots> = rev ?xs ! (3 - p mod 4)" unfolding packed_cell_def using l by (simp only: cell_le_of length_rev)
  also have "\<dots> = ?xs ! (p mod 4)" using l by (subst rev_nth) simp_all
  also have "\<dots> = bs ! p" using l by (simp add: mult.commute)
  finally show ?thesis by simp
qed

lemma get_packed_spec:
  assumes cells: "\<forall>k<q. rd_cell m (d + 4 * int k) = Inr (packed_cell bs k)" and len: "length bs = 4 * q"
    and bs: "bs = map byte_of (s @ NUL # z)" and s: "NUL \<notin> set s"
  shows "p \<le> length s \<Longrightarrow> p \<le> n \<Longrightarrow> (p mod 4 \<noteq> 0 \<longrightarrow> c = packed_cell bs (p div 4)) \<Longrightarrow>
    get_packed m (d + 4 * int ((p + 3) div 4)) c (3 - p mod 4) (take p s) n
      = Inr (if length s < n then s @ [NUL] else take n s)"
proof (induction "length s - p" arbitrary: p c rule: less_induct)
  case less
  let ?i = "3 - p mod 4" and ?c = "packed_cell bs (p div 4)"
  have lb: "length bs = length s + 1 + length z" using bs by simp
  show ?case
  proof (cases "p < n")
    case False
    then show ?thesis using less.prems by (subst get_packed.simps) simp
  next
    case True
    have q: "p div 4 < q" "p < length bs" using less.prems(1) lb len by auto
    have i: "?i = 3 \<longleftrightarrow> p mod 4 = 0" by presburger
    have src: "p mod 4 = 0 \<Longrightarrow> (p + 3) div 4 = p div 4" "p mod 4 \<noteq> 0 \<Longrightarrow> (p + 3) div 4 = p div 4 + 1" by presburger+
    have load: "(if ?i = 3 then rd_cell m (d + 4 * int ((p + 3) div 4)) else Inr c) = Inr ?c"
      using cells q(1) src(1) less.prems(3) i by auto
    have next_src: "(if ?i = 3 then d + 4 * int ((p + 3) div 4) + 4 else d + 4 * int ((p + 3) div 4)) = d + 4 * int ((Suc p + 3) div 4)"
    proof (cases "p mod 4 = 0")
      case True
      moreover have "(Suc p + 3) div 4 = p div 4 + 1" by presburger
      ultimately show ?thesis using src(1) by simp
    next
      case False
      moreover have "(Suc p + 3) div 4 = p div 4 + 1" by presburger
      ultimately show ?thesis using src(2) i by simp
    qed
    have "p mod 4 < 4" by simp
    then consider "p mod 4 = 0" | "p mod 4 = 1" | "p mod 4 = 2" | "p mod 4 = 3" by linarith
    then have next_i: "(?i + 3) mod 4 = 3 - Suc p mod 4" by cases (simp_all add: mod_Suc)
    have ch: "char_of_byte (ucast (drop_bit (?i * 8) ?c)) = (s @ NUL # z) ! p"
      using packed_char [OF q(2) len] q(2) lb by (simp add: bs del: map_append)
    have step: "get_packed m (d + 4 * int ((p + 3) div 4)) c ?i (take p s) n =
        (if (s @ NUL # z) ! p = NUL then Inr (take p s @ [(s @ NUL # z) ! p])
         else get_packed m (d + 4 * int ((Suc p + 3) div 4)) ?c (3 - Suc p mod 4) (take p s @ [(s @ NUL # z) ! p]) n)"
      using True less.prems(1) by (subst get_packed.simps) (simp only: length_take min_absorb2 load bindR_simps Let_def next_src next_i ch if_True)
    show ?thesis
    proof (cases "p < length s")
      case True
      then have "(s @ NUL # z) ! p = s ! p" "s ! p \<noteq> NUL" using s by (auto simp: nth_append) (metis nth_mem)
      moreover have "take p s @ [s ! p] = take (Suc p) s" using True by (simp add: take_Suc_conv_app_nth)
      moreover have "Suc p mod 4 \<noteq> 0 \<longrightarrow> ?c = packed_cell bs (Suc p div 4)"
      proof
        assume "Suc p mod 4 \<noteq> 0"
        then have "Suc p div 4 = p div 4" by presburger
        then show "?c = packed_cell bs (Suc p div 4)" by simp
      qed
      ultimately show ?thesis using step less.hyps [of "Suc p" ?c] True \<open>p < n\<close> by simp
    next
      case False
      then show ?thesis using step less.prems(1) True by simp
    qed
  qed
qed

text \<open>The part of the string that is stored, and the bytes of a packed string before they are swapped.\<close>

definition stored :: "string \<Rightarrow> bool \<Rightarrow> int \<Rightarrow> string" where
  "stored s pack room =
     (if pack then if room < UNLIMITED div 4 \<and> int (length s) \<ge> room * 4 then take (nat (room * 4 - 1)) s else s
      else if room < UNLIMITED \<and> int (length s) \<ge> room then take (nat (room - 1)) s else s)"

lemma stored_prefix: "\<exists>k. stored s pack room = take k s"
proof -
  have "s = take (length s) s" by simp
  then show ?thesis unfolding stored_def by metis
qed

definition packed_bytes :: "string \<Rightarrow> byte list" where
  "packed_bytes t = map byte_of (t @ NUL # replicate (3 - length t mod 4) NUL)"

lemma length_packed_bytes: "length (packed_bytes t) = 4 * (length t div 4 + 1)"
proof -
  have "length t = 4 * (length t div 4) + length t mod 4" "length t mod 4 < 4" by simp_all
  then show ?thesis unfolding packed_bytes_def by (simp only: length_map length_append list.size length_replicate) presburger
qed

lemma byte_NUL [simp]: "byte_of NUL = 0"
  by (simp add: byte_of_def)

lemma pack_bytes:
  assumes "wr_cell m (d + 4 * int (length t div 4)) 0 = Inr m1" "write_bytes m1 d (map byte_of t) = Inr m2"
  shows "read_bytes m2 d (length (packed_bytes t)) = Inr (packed_bytes t)"
proof -
  define q r i where "q = length t div 4" and "r = length t mod 4" and "i = nat d"
  have t: "length t = 4 * q + r" "r < 4" by (simp_all add: q_def r_def)
  have d: "0 \<le> d" "i + length t \<le> length m1" "m2 = take i m1 @ map byte_of t @ drop (i + length t) m1"
    using assms(2) by (auto simp: write_bytes_iff inside_def i_def)
  have n: "nat (d + 4 * int q) = i + 4 * q" using d(1) by (simp add: i_def)
  have m1: "i + 4 * q + 4 \<le> length m" "m1 = take (i + 4 * q) m @ cell_le 0 @ drop (i + 4 * q + 4) m"
    using assms(1) d(1) unfolding wr_iff inside_def q_def [symmetric] n by (auto simp: i_def)
  have lm: "length m2 = length m" "length m1 = length m" using d(2) m1(1) unfolding d(3) by (simp_all add: m1(2))
  have z: "cell_le 0 = replicate 4 (0 :: byte)" by (simp add: cell_le_bytes numeral_eq_Suc)
  have "drop (i + length t) m1 = drop r (replicate 4 0) @ drop (i + 4 * q + 4) m"
    using t m1(1) unfolding m1(2) z by simp
  also have "drop r (replicate 4 (0 :: byte)) = replicate (4 - r) 0" by simp
  finally have dr: "drop (i + length t) m1 = replicate (4 - r) 0 @ drop (i + 4 * q + 4) m" .
  have "take (4 * q + 4) (drop i m2) = map byte_of t @ replicate (4 - r) 0"
    using d(2) t unfolding d(3) dr by simp
  also have "\<dots> = packed_bytes t"
  proof -
    have "4 - r = Suc (3 - r)" using t(2) by simp
    then show ?thesis by (simp add: packed_bytes_def r_def [symmetric])
  qed
  moreover have "length (packed_bytes t) = 4 * q + 4" using length_packed_bytes [of t] by (simp add: q_def)
  ultimately show ?thesis using d(1) m1(1) lm by (simp add: read_bytes_def peek_def i_def)
qed

lemma rd_of_bytes:
  assumes "read_bytes m d n = Inr bs" "4 * k + 4 \<le> n"
  shows "rd_cell m (d + 4 * int k) = Inr (cell_of (take 4 (drop (4 * k) bs)))"
proof -
  have i: "inside m d n" "bs = take n (drop (nat d) m)" using assms(1) by (simp_all add: read_bytes_iff)
  have "nat (d + 4 * int k) = nat d + 4 * k" using i(1) by (simp add: inside_def nat_add_distrib)
  moreover have "take 4 (drop (4 * k) bs) = take 4 (drop (nat d + 4 * k) m)"
    using assms(2) unfolding i(2) by (simp add: drop_take add.commute min_absorb1)
  ultimately show ?thesis using i(1) assms(2) by (simp add: rd_iff inside_def)
qed

lemma SetString_packed:
  assumes "amx_SetString m d s True room = Inr m'" "NUL \<notin> set s"
  shows "\<forall>k < length (stored s True room) div 4 + 1. rd_cell m' (d + 4 * int k) = Inr (packed_cell (packed_bytes (stored s True room)) k)"
proof -
  define t where "t = stored s True room"
  define len where "len = (if room < UNLIMITED div 4 \<and> int (length s) \<ge> room * 4 then room * 4 - 1 else int (length s))"
  obtain m1 m2 where st: "len \<ge> 0" "wr_cell m (d + 4 * (len div 4)) 0 = Inr m1"
      "write_bytes m1 d (map byte_of (take (nat len) s)) = Inr m2" "swap_cells m2 d (nat (len div 4)) = Inr m'"
    using assms(1) by (auto simp: amx_SetString_def Let_def bindR_Inr_iff len_def split: if_splits)
  have t: "take (nat len) s = t" "len = int (length t)"
    using st(1) by (auto simp: len_def t_def stored_def nat_diff_distrib)
  have q: "len div 4 = int (length t div 4)" "nat (len div 4) = length t div 4" using t(2) by (simp_all add: zdiv_int)
  have b: "read_bytes m2 d (length (packed_bytes t)) = Inr (packed_bytes t)"
    using pack_bytes st(2,3) unfolding t(1) q(1) by blast
  have "rd_cell m' (d + 4 * int k) = Inr (packed_cell (packed_bytes t) k)" if "k < length t div 4 + 1" for k
  proof -
    let ?xs = "take 4 (drop (4 * k) (packed_bytes t))"
    have k: "4 * k + 4 \<le> length (packed_bytes t)" using that length_packed_bytes [of t] by simp
    have "rd_cell m2 (d + 4 * int k) = Inr (cell_of ?xs)" using rd_of_bytes [OF b k] .
    then have "rd_cell m' (d + 4 * int k) = Inr (swap32 (cell_of ?xs))"
      using swap_cells_spec [OF st(4)] that q(2) by simp
    moreover have "length ?xs = 4" using k by simp
    then have "swap32 (cell_of ?xs) = packed_cell (packed_bytes t) k"
      by (simp only: swap32_def packed_cell_def cell_le_of)
    ultimately show ?thesis by simp
  qed
  then show ?thesis by (simp add: t_def)
qed

lemma packed_first: "NUL \<notin> set t \<Longrightarrow> UNPACKEDMAX < packed_cell (packed_bytes t) 0 \<longleftrightarrow> t \<noteq> []"
proof -
  assume t: "NUL \<notin> set t"
  let ?c = "packed_cell (packed_bytes t) 0"
  have l: "0 < length (packed_bytes t)" "length (packed_bytes t) = 4 * (length t div 4 + 1)" using length_packed_bytes [of t] by simp_all
  have "char_of_byte (ucast (drop_bit 24 ?c)) = (t @ [NUL]) ! 0"
    using packed_char [OF l] by (cases t) (simp_all add: packed_bytes_def)
  then have ch: "char_of_byte (ucast (drop_bit 24 ?c)) = NUL \<longleftrightarrow> t = []" using t by (cases t) auto
  have lt: "unat ?c < 2 ^ 32" using unsigned_less [of ?c] by simp
  have u: "unat (drop_bit 24 ?c) = unat ?c div 2 ^ 24" unfolding unat_drop_bit_eq by (simp only: drop_bit_eq_div)
  have "unat (ucast (drop_bit 24 ?c) :: byte) = unat ?c div 2 ^ 24 mod 2 ^ 8"
    by (simp add: unsigned_ucast_eq u take_bit_eq_mod)
  also have "\<dots> = unat ?c div 2 ^ 24" using lt by (intro mod_less) (simp add: div_less_iff_less_mult)
  finally have e: "unat (ucast (drop_bit 24 ?c) :: byte) = unat ?c div 2 ^ 24" .
  have "char_of_byte (ucast (drop_bit 24 ?c)) = NUL \<longleftrightarrow> unat ?c div 2 ^ 24 = 0"
  proof -
    have "unat ?c div 2 ^ 24 < 256" using lt by (simp add: div_less_iff_less_mult)
    moreover have "NUL = char_of (0 :: nat)" by (simp add: char_of_def)
    ultimately show ?thesis unfolding char_of_byte_def e by (simp add: char_of_quasi_inj)
  qed
  then show ?thesis using ch by (simp add: UNPACKEDMAX_def word_less_nat_alt div_eq_0_iff) linarith
qed

lemma cut_string:
  "0 < n \<Longrightarrow> (if n \<le> length (take n t) then (take n t)[n - 1 := NUL] else take n t @ [NUL]) = take (n - 1) t @ [NUL]"
proof (cases "n \<le> length t")
  case True
  assume "0 < n"
  then obtain k where k: "n = Suc k" by (cases n) auto
  then have "take n t = take k t @ [t ! k]" using True by (simp add: take_Suc_conv_app_nth)
  then show ?thesis using True k by (simp add: list_update_append)
qed simp

text \<open>
  C33: Bounds of \<open>amx_GetString\<close>: whatever the memory holds, the function writes at most as many
  characters as the destination has room for, and a zero byte is among them.
\<close>

theorem amx_GetString_bounds:
  assumes "amx_GetString m a n = Inr dest"
  shows "length dest \<le> n \<and> (0 < n \<longrightarrow> NUL \<in> set dest)"
proof -
  have pk: "get_packed m a c i dest n = Inr r \<Longrightarrow> length dest \<le> n \<Longrightarrow> length r \<le> n" for a c i dest r
  proof (induction m a c i dest n arbitrary: r rule: get_packed.induct)
    case (1 m a c i dest n)
    show ?case
    proof (cases "length dest < n")
      case True
      obtain x where x: "(if i = 3 then rd_cell m a else Inr c) = Inr x"
          "(if char_of_byte (ucast (drop_bit (i * 8) x)) = NUL then Inr (dest @ [char_of_byte (ucast (drop_bit (i * 8) x))])
            else get_packed m (if i = 3 then a + 4 else a) x ((i + 3) mod 4) (dest @ [char_of_byte (ucast (drop_bit (i * 8) x))]) n) = Inr r"
        using "1.prems"(1) True by (subst (asm) get_packed.simps) (auto simp: bindR_Inr_iff Let_def)
      show ?thesis
      proof (cases "char_of_byte (ucast (drop_bit (i * 8) x)) = NUL")
        case False
        then show ?thesis using "1.IH" [OF True x(1) refl refl False] x(2) True by simp
      qed (use x(2) True in auto)
    qed (use "1.prems" in \<open>subst (asm) get_packed.simps, simp\<close>)
  qed
  have up: "get_unpacked m a dest n = Inr r \<Longrightarrow> length dest \<le> n \<Longrightarrow> length r \<le> n" for a dest r
  proof (induction m a dest n arbitrary: r rule: get_unpacked.induct)
    case (1 m a dest n)
    show ?case using "1.prems" by (subst (asm) get_unpacked.simps) (auto simp: bindR_Inr_iff split: if_splits dest: "1.IH")
  qed
  obtain c0 r where r: "(if UNPACKEDMAX < c0 then get_packed m a 0 3 [] n else get_unpacked m a [] n) = Inr r"
      "dest = (if n = 0 then r else if length r \<ge> n then r[n - 1 := NUL] else r @ [NUL])"
    using assms by (auto simp: amx_GetString_def bindR_Inr_iff)
  have "length r \<le> n" using r(1) pk up by (auto split: if_splits)
  then show ?thesis using r(2) by (auto simp: set_update_memI)
qed

theorem amx_GetString_bounds_witness:
  "\<exists>dest. amx_GetString [72, 0, 0, 0, 105, 0, 0, 0, 0, 0, 0, 0] 0 2 = Inr dest \<and> length dest \<le> 2 \<and> NUL \<in> set dest"
proof -
  have "case amx_GetString [72, 0, 0, 0, 105, 0, 0, 0, 0, 0, 0, 0] 0 2 of Inl e \<Rightarrow> False | Inr dest \<Rightarrow> True" by code_simp
  then obtain dest where d: "amx_GetString [72, 0, 0, 0, 105, 0, 0, 0, 0, 0, 0, 0] 0 2 = Inr dest" by (auto split: sum.splits)
  then show ?thesis using amx_GetString_bounds [OF d] by simp
qed

lemma stored_props:
  assumes "NUL \<notin> set s"
  shows "NUL \<notin> set (stored s pack room)" "stored s pack room \<noteq> [] \<Longrightarrow> hd (stored s pack room) = hd s \<and> s \<noteq> []"
proof -
  obtain k where k: "stored s pack room = take k s" using stored_prefix by blast
  show "NUL \<notin> set (stored s pack room)" "stored s pack room \<noteq> [] \<Longrightarrow> hd (stored s pack room) = hd s \<and> s \<noteq> []"
    using assms unfolding k by (auto dest: in_set_takeD)
qed

text \<open>The cells of an unpacked string, or of an empty packed one.\<close>

abbreviation char_cells :: "string \<Rightarrow> cell list" where "char_cells t \<equiv> map (\<lambda>c. word_of_int (schar c)) t"

lemma SetString_cells:
  assumes "amx_SetString m d s pack room = Inr m'" "NUL \<notin> set s" "0 < room" "\<not> (pack \<and> stored s pack room \<noteq> [])"
  shows "\<forall>i < length (stored s pack room). rd_cell m' (d + 4 * int i) = Inr (char_cells (stored s pack room) ! i)
      \<and> char_cells (stored s pack room) ! i \<noteq> 0"
    and "rd_cell m' (d + 4 * int (length (stored s pack room))) = Inr 0"
proof -
  define t where "t = stored s pack room"
  have t: "NUL \<notin> set t" using stored_props(1) [OF assms(2)] by (simp add: t_def)
  have "(\<forall>i < length t. rd_cell m' (d + 4 * int i) = Inr (char_cells t ! i) \<and> char_cells t ! i \<noteq> 0)
      \<and> rd_cell m' (d + 4 * int (length t)) = Inr 0"
  proof (cases pack)
    case True
    then have "t = []" using assms(4) by (simp add: t_def)
    then have "rd_cell m' d = Inr (packed_cell (packed_bytes []) 0)"
      using SetString_packed [of m d s room m'] assms(1,2) True unfolding t_def by force
    moreover have "packed_cell (packed_bytes []) 0 = 0"
      by (simp add: packed_cell_def packed_bytes_def cell_of_def numeral_3_eq_3)
    ultimately show ?thesis using \<open>t = []\<close> by simp
  next
    case False
    define len where "len = (if room < UNLIMITED \<and> int (length s) \<ge> room then room - 1 else int (length s))"
    have len: "take (nat len) s = t" "len = int (length t)"
      using False assms(3) by (auto simp: len_def t_def stored_def nat_diff_distrib)
    let ?cs = "char_cells t"
    have "bindR (set_cells m d (map (\<lambda>c. word_of_int (schar c)) (take (nat len) s))) (\<lambda>m. wr_cell m (d + 4 * len) 0) = Inr m'"
      using assms(1) False unfolding amx_SetString_def Let_def len_def by simp
    then obtain m1 where m1: "set_cells m d ?cs = Inr m1" "wr_cell m1 (d + 4 * int (length t)) 0 = Inr m'"
      unfolding len(1) unfolding len(2) by (auto simp: bindR_Inr_iff)
    have "rd_cell m' (d + 4 * int i) = Inr (?cs ! i) \<and> ?cs ! i \<noteq> 0" if i: "i < length t" for i
    proof -
      have "rd_cell m' (d + 4 * int i) = rd_cell m1 (d + 4 * int i)" using i by (intro rd_wr_other [OF m1(2)]) auto
      also have "\<dots> = Inr (?cs ! i)" using set_cells_spec [OF m1(1)] i by simp
      moreover have "t ! i \<noteq> NUL" using t i by (metis nth_mem)
      ultimately show ?thesis using i schar_cell_0 by simp
    qed
    then show ?thesis using rd_wr_same [OF m1(2)] by simp
  qed
  then show "\<forall>i < length (stored s pack room). rd_cell m' (d + 4 * int i) = Inr (char_cells (stored s pack room) ! i)
      \<and> char_cells (stored s pack room) ! i \<noteq> 0" "rd_cell m' (d + 4 * int (length (stored s pack room))) = Inr 0"
    by (simp_all add: t_def)
qed

text \<open>How the readers tell the two kinds of strings apart.\<close>

lemma SetString_first:
  assumes "amx_SetString m d s pack room = Inr m'" "NUL \<notin> set s" "0 < room" "\<not> pack \<longrightarrow> s \<noteq> [] \<longrightarrow> ascii (hd s)"
  shows "\<exists>c0. rd_cell m' d = Inr c0 \<and> (UNPACKEDMAX < c0 \<longleftrightarrow> pack \<and> stored s pack room \<noteq> [])"
proof (cases "pack \<and> stored s pack room \<noteq> []")
  case True
  have p: "amx_SetString m d s True room = Inr m'" using assms(1) True by simp
  have "rd_cell m' d = Inr (packed_cell (packed_bytes (stored s True room)) 0)"
    using SetString_packed [OF p assms(2), rule_format, of 0] by simp
  then show ?thesis using packed_first [OF stored_props(1) [OF assms(2)]] True by auto
next
  case False
  note c = SetString_cells [OF assms(1,2,3) False]
  show ?thesis
  proof (cases "stored s pack room")
    case Nil
    then show ?thesis using c(2) by (simp add: UNPACKEDMAX_def)
  next
    case (Cons x xs)
    then have "\<not> pack" "ascii x" using False assms(4) stored_props(2) [OF assms(2), of pack room] by auto
    then have "\<not> UNPACKEDMAX < word_of_int (schar x)" using schar_packed_iff by blast
    then show ?thesis using c(1) [rule_format, of 0] Cons \<open>\<not> pack\<close> by simp
  qed
qed

text \<open>
  C32: Strings survive the memory of the abstract machine: what \<open>amx_SetString\<close> stored, packed or
  unpacked, is what \<open>amx_GetString\<close> reads back, up to the smaller of the two sizes.  An unpacked
  string must not start with a character outside of ASCII (see below).
\<close>

theorem amx_string_roundtrip:
  assumes "amx_SetString m d s pack room = Inr m'" "NUL \<notin> set s" "0 < room" "\<not> pack \<longrightarrow> s \<noteq> [] \<longrightarrow> ascii (hd s)" "0 < n"
  shows "\<exists>dest. amx_GetString m' d n = Inr dest \<and> takeWhile (\<lambda>c. c \<noteq> NUL) dest = take (n - 1) (stored s pack room)"
proof -
  define t where "t = stored s pack room"
  have t: "NUL \<notin> set t" using stored_props(1) [OF assms(2)] by (simp add: t_def)
  have tw: "takeWhile (\<lambda>c. c \<noteq> NUL) (take (n - 1) t @ NUL # r) = take (n - 1) t" for r
    using t by (subst takeWhile_append2) (auto dest: in_set_takeD)
  have twt: "takeWhile (\<lambda>c. c \<noteq> NUL) (t @ NUL # r) = t" for r using t by (subst takeWhile_append2) auto
  obtain c0 where c0: "rd_cell m' d = Inr c0" "UNPACKEDMAX < c0 \<longleftrightarrow> pack \<and> t \<noteq> []"
    using SetString_first [OF assms(1-4)] unfolding t_def by blast
  show ?thesis
  proof (cases "pack \<and> t \<noteq> []")
    case True
    have c: "\<forall>k < length t div 4 + 1. rd_cell m' (d + 4 * int k) = Inr (packed_cell (packed_bytes t) k)"
      using SetString_packed [of m d s room m'] assms(1,2) True unfolding t_def by simp
    have "get_packed m' d 0 3 [] n = Inr (if length t < n then t @ [NUL] else take n t)"
      using get_packed_spec [OF c length_packed_bytes packed_bytes_def t, of 0 n 0] by simp
    then have r: "amx_GetString m' d n = Inr (let r = (if length t < n then t @ [NUL] else take n t)
        in if length r \<ge> n then r[n - 1 := NUL] else r @ [NUL])"
      using c0 True assms(5) by (simp add: amx_GetString_def)
    show ?thesis
    proof (cases "length t < n")
      case True
      then show ?thesis using r twt by (auto simp: Let_def list_update_append t_def [symmetric])
    next
      case False
      then show ?thesis using r tw [of "[]"] cut_string [OF assms(5), of t] by (simp add: Let_def t_def [symmetric])
    qed
  next
    case False
    note c = SetString_cells [OF assms(1,2,3), folded t_def, OF False]
    have "get_unpacked m' d [] n = Inr (take n t)"
      using get_unpacked_spec [of "char_cells t" m' d "[]" n] c by (simp add: comp_def)
    then have "amx_GetString m' d n = Inr (take (n - 1) t @ [NUL])"
      using c0 False cut_string [OF assms(5), of t] assms(5) by (auto simp: amx_GetString_def simp del: length_take)
    then show ?thesis using tw [of "[]"] by (simp add: t_def)
  qed
qed

theorem amx_string_roundtrip_witness:
  "\<exists>m' dest. amx_SetString (replicate 16 7) 4 ''hello'' True 3 = Inr m' \<and> amx_GetString m' 4 9 = Inr dest
    \<and> takeWhile (\<lambda>c. c \<noteq> NUL) dest = ''hello''"
proof -
  have "case amx_SetString (replicate 16 7) 4 ''hello'' True 3 of Inl e \<Rightarrow> False | Inr m \<Rightarrow> True" by code_simp
  then obtain m' where m': "amx_SetString (replicate 16 7) 4 ''hello'' True 3 = Inr m'" by (auto split: sum.splits)
  show ?thesis using amx_string_roundtrip [OF m', of 9] m' by (auto simp: stored_def UNLIMITED_def)
qed

text \<open>
  Characters outside of ASCII: \<open>amx_SetString\<close> widens a plain, signed character to a cell,
  so an unpacked string that starts with one is taken for a packed string by \<open>amx_GetString\<close>:
  the character e acute of Latin 1 is read back as four characters.
\<close>

lemma amx_SetString_misread:
  "bindR (amx_SetString (replicate 16 0) 0 [CHR 0xE9] False UNLIMITED) (\<lambda>m. amx_GetString m 0 10)
    = Inr [CHR 0xFF, CHR 0xFF, CHR 0xFF, CHR 0xE9, NUL, NUL]"
  by code_simp

section \<open>The length of a string\<close>

lemma strlen_cells_spec:
  "\<forall>i<length cs. rd_cell m (a + 4 * int i) = Inr (cs ! i) \<and> cs ! i \<noteq> 0 \<Longrightarrow> rd_cell m (a + 4 * int (length cs)) = Inr 0 \<Longrightarrow>
    strlen_cells m a n = Inr (n + length cs)"
proof (induction cs arbitrary: a n)
  case Nil
  then show ?case by (subst strlen_cells.simps) simp
next
  case (Cons c cs)
  have h: "rd_cell m a = Inr c" "c \<noteq> 0" using Cons.prems(1) by force+
  have t: "\<forall>i<length cs. rd_cell m (a + 4 + 4 * int i) = Inr (cs ! i) \<and> cs ! i \<noteq> 0"
  proof (intro allI impI)
    fix i assume "i < length cs"
    then show "rd_cell m (a + 4 + 4 * int i) = Inr (cs ! i) \<and> cs ! i \<noteq> 0"
      using Cons.prems(1) [rule_format, of "Suc i"] by (simp add: algebra_simps)
  qed
  have e: "rd_cell m (a + 4 + 4 * int (length cs)) = Inr 0" using Cons.prems(2) by (simp add: algebra_simps)
  show ?case using h Cons.IH [OF t e, of "n + 1"] by (subst strlen_cells.simps) simp
qed

lemma strchr_first: "i < length s \<Longrightarrow> s ! i = c \<Longrightarrow> \<forall>j<i. s ! j \<noteq> c \<Longrightarrow> strchr s c = Some i"
proof (induction s arbitrary: i)
  case (Cons x s)
  show ?case
  proof (cases i)
    case (Suc j)
    have "x \<noteq> c" using Cons.prems(3) Suc by (metis nth_Cons_0 zero_less_Suc)
    moreover have "strchr s c = Some j" using Cons.prems Suc by (intro Cons.IH) auto
    ultimately show ?thesis using Suc by simp
  qed (use Cons.prems in simp)
qed simp

lemma push_cell: "push_bit 8 (cell_of [w, x, y, z]) = cell_of [0, w, x, y]"
  by (rule bit_word_eqI) (auto simp: cell_of_def bit_or_iff bit_push_bit_iff bit_ucast_iff)

lemma top_byte: "cell_of [w, x, y, z] AND CHARMASK = push_bit 24 (ucast z)"
proof -
  have C: "CHARMASK = push_bit 24 (mask 8)" by (simp add: CHARMASK_def mask_eq_exp_minus_1)
  have hi: "\<not> bit b n" if "8 \<le> n" for b :: byte and n using that bit_imp_le_length [of b n] by force
  show ?thesis unfolding C
    by (rule bit_word_eqI) (auto simp: cell_of_def bit_or_iff bit_and_iff bit_push_bit_iff bit_ucast_iff bit_mask_iff hi)
qed

lemma push_byte_0 [simp]: "push_bit 24 (ucast z :: cell) = 0 \<longleftrightarrow> z = (0 :: byte)"
proof
  assume "push_bit 24 (ucast z :: cell) = 0"
  then have "ucast (drop_bit 24 (push_bit 24 (ucast z :: cell))) = (0 :: byte)" by simp
  moreover have "ucast (drop_bit 24 (push_bit 24 (ucast z :: cell))) = z"
    by (rule bit_word_eqI) (auto simp: bit_ucast_iff bit_drop_bit_eq bit_push_bit_iff)
  ultimately show "z = 0" by simp
qed simp

lemma strlen_tail_0 [simp]: "strlen_tail (cell_of [w, x, y, 0]) n = n"
  by (subst strlen_tail.simps) (simp add: top_byte)

lemma strlen_tail_step: "z \<noteq> 0 \<Longrightarrow> strlen_tail (cell_of [w, x, y, z]) n = strlen_tail (cell_of [0, w, x, y]) (n + 1)"
  by (subst strlen_tail.simps) (simp add: top_byte push_cell)

lemma strlen_tail_bytes:
  "length xs < 4 \<Longrightarrow> 0 \<notin> set xs \<Longrightarrow> strlen_tail (cell_of (rev (xs @ replicate (4 - length xs) 0))) n = n + length xs"
proof -
  assume a: "length xs < 4" "0 \<notin> set xs"
  then consider "xs = []" | x where "xs = [x]" | x y where "xs = [x, y]" | x y z where "xs = [x, y, z]"
    by (auto simp: numeral_eq_Suc less_Suc_eq length_Suc_conv)
  then show ?thesis using a(2) by cases (simp_all add: numeral_eq_Suc strlen_tail_step)
qed

lemma bytes_of_rd:
  assumes "rd_cell m a = Inr (cell_of xs)" "length xs = 4"
  shows "take 4 (drop (nat a) m) = xs"
proof -
  have i: "inside m a 4" "cell_of (take 4 (drop (nat a) m)) = cell_of xs" using assms(1) by (simp_all add: rd_iff)
  have "nat a + 4 \<le> length m" using i(1) unfolding inside_def by linarith
  then have "length (take 4 (drop (nat a) m)) = 4" by simp
  then have "take 4 (drop (nat a) m) = cell_le (cell_of xs)" using cell_le_of i(2) by metis
  then show ?thesis using cell_le_of [OF assms(2)] by simp
qed

text \<open>The bytes of a packed string as they lie in the memory.\<close>

lemma raw_packed:
  assumes "\<forall>k<q. rd_cell m (d + 4 * int k) = Inr (packed_cell bs k)" "length bs = 4 * q" "j < 4 * q" "0 < q"
  shows "nat d + j < length m" "m ! (nat d + j) = bs ! (4 * (j div 4) + (3 - j mod 4))"
proof -
  let ?k = "j div 4" and ?xs = "take 4 (drop (4 * (j div 4)) bs)"
  have k: "?k < q" using assms(3) by auto
  have l: "length ?xs = 4" using assms(2) k by simp
  have d: "0 \<le> d" using assms(1,4) by (force simp: rd_iff inside_def)
  have n: "nat (d + 4 * int ?k) = nat d + 4 * ?k" using d by simp
  have r: "rd_cell m (d + 4 * int ?k) = Inr (cell_of (rev ?xs))" using assms(1) k by (simp add: packed_cell_def)
  have "d + 4 * int ?k + 4 \<le> int (length m)" using r by (simp add: rd_iff inside_def)
  then have ins: "nat d + 4 * ?k + 4 \<le> length m" using d by linarith
  have j: "4 * ?k + j mod 4 = j" "j mod 4 < 4" by simp_all
  then show "nat d + j < length m" using ins by linarith
  have t: "take 4 (drop (nat d + 4 * ?k) m) = rev ?xs" using bytes_of_rd [OF r] l n by simp
  have "m ! (nat d + j) = take 4 (drop (nat d + 4 * ?k) m) ! (j mod 4)" using ins j by (simp add: add.assoc)
  also have "\<dots> = ?xs ! (3 - j mod 4)" unfolding t using l j(2) by (subst rev_nth) simp_all
  also have "\<dots> = bs ! (4 * ?k + (3 - j mod 4))" using l assms(2) k by simp
  finally show "m ! (nat d + j) = bs ! (4 * (j div 4) + (3 - j mod 4))" .
qed

text \<open>The bytes of a packed string, and its first zero byte as a C string: the one that ends the last cell.\<close>

lemma packed_bytes_nth:
  "j < length t \<Longrightarrow> packed_bytes t ! j = byte_of (t ! j)"
  "length t \<le> j \<Longrightarrow> j < 4 * (length t div 4) + 4 \<Longrightarrow> packed_bytes t ! j = 0"
proof -
  show "j < length t \<Longrightarrow> packed_bytes t ! j = byte_of (t ! j)" by (simp add: packed_bytes_def nth_append)
  assume j: "length t \<le> j" "j < 4 * (length t div 4) + 4"
  moreover have "length t = 4 * (length t div 4) + length t mod 4" by simp
  ultimately have "j - length t \<le> 3 - length t mod 4" by linarith
  then show "packed_bytes t ! j = 0" using j by (cases "j - length t") (auto simp: packed_bytes_def nth_append)
qed

lemma packed_strchr:
  assumes "\<forall>k < length t div 4 + 1. rd_cell m (d + 4 * int k) = Inr (packed_cell (packed_bytes t) k)" "NUL \<notin> set t"
  shows "strchr (map char_of_byte (drop (nat d) m)) NUL = Some (4 * (length t div 4))"
proof -
  let ?q = "length t div 4" and ?m = "map char_of_byte (drop (nat d) m)" and ?bs = "packed_bytes t"
  note raw = raw_packed [OF assms(1) length_packed_bytes]
  have lt: "length t = 4 * ?q + length t mod 4" "length t mod 4 < 4" by simp_all
  show ?thesis
  proof (rule strchr_first)
    have z: "4 * ?q < 4 * (?q + 1)" by simp
    show "4 * ?q < length ?m" using raw(1) [OF z] by simp
    have "?bs ! (4 * ?q + 3) = 0" using lt by (intro packed_bytes_nth) linarith+
    then show "?m ! (4 * ?q) = NUL" using raw [OF z] by simp
    show "\<forall>j < 4 * ?q. ?m ! j \<noteq> NUL"
    proof (intro allI impI)
      fix j assume j: "j < 4 * ?q"
      have z: "j < 4 * (?q + 1)" using j by simp
      have "j div 4 < ?q" using j by auto
      then have k: "4 * (j div 4) + (3 - j mod 4) < length t" using lt(1) by linarith
      then have "?m ! j = t ! (4 * (j div 4) + (3 - j mod 4))" using raw [OF z] packed_bytes_nth(1) [OF k] by simp
      then show "?m ! j \<noteq> NUL" using assms(2) nth_mem [OF k] by metis
    qed
  qed
qed

lemma packed_tail:
  assumes "NUL \<notin> set t"
  shows "strlen_tail (packed_cell (packed_bytes t) (length t div 4)) (4 * (length t div 4)) = length t"
proof -
  let ?q = "length t div 4" and ?r = "length t mod 4" and ?bs = "packed_bytes t"
  have lt: "length t = 4 * ?q + ?r" "?r < 4" by simp_all
  have "take 4 (drop (4 * ?q) ?bs) = map byte_of (drop (4 * ?q) t) @ replicate (4 - ?r) 0"
  proof -
    have "4 - ?r = Suc (3 - ?r)" "length (drop (4 * ?q) t) = ?r" using lt(2) by (simp_all add: minus_mult_div_eq_mod)
    then show ?thesis using lt by (simp add: packed_bytes_def drop_map)
  qed
  then have last: "packed_cell ?bs ?q = cell_of (rev (map byte_of (drop (4 * ?q) t) @ replicate (4 - ?r) 0))"
    by (simp add: packed_cell_def)
  have "x = NUL" if "byte_of x = 0" for x using char_byte [of x] unfolding that char_byte_0 by simp
  then have nz: "0 \<notin> set (map byte_of (drop (4 * ?q) t))" using assms in_set_dropD [of NUL "4 * ?q" t] by force
  have "length (drop (4 * ?q) t) = ?r" by (simp add: minus_mult_div_eq_mod)
  then show ?thesis using strlen_tail_bytes [OF _ nz, of "4 * ?q"] lt unfolding last by simp
qed

text \<open>
  C34: The length of a string: \<open>amx_StrLen\<close> returns the number of characters that
  \<open>amx_SetString\<close> stored, for packed strings too, although their characters lie in the reverse
  order in each cell on a little-endian machine.  An unpacked string must not start with a character
  outside of ASCII (\<open>amx_SetString_misread\<close>).
\<close>

theorem amx_StrLen_correct:
  assumes "amx_SetString m d s pack room = Inr m'" "NUL \<notin> set s" "0 < room" "\<not> pack \<longrightarrow> s \<noteq> [] \<longrightarrow> ascii (hd s)"
  shows "amx_StrLen m' d = Inr (AMX_ERR_NONE, length (stored s pack room))"
proof -
  define t where "t = stored s pack room"
  have t: "NUL \<notin> set t" using stored_props(1) [OF assms(2)] by (simp add: t_def)
  obtain c0 where c0: "rd_cell m' d = Inr c0" "UNPACKEDMAX < c0 \<longleftrightarrow> pack \<and> t \<noteq> []"
    using SetString_first [OF assms(1-4)] unfolding t_def by blast
  show ?thesis
  proof (cases "pack \<and> t \<noteq> []")
    case False
    note c = SetString_cells [OF assms(1,2,3), folded t_def, OF False]
    have "strlen_cells m' d 0 = Inr (length t)" using strlen_cells_spec [of "char_cells t" m' d 0] c by simp
    moreover have "\<not> UNPACKEDMAX < c0" using c0(2) False by blast
    ultimately show ?thesis using c0(1) by (simp add: amx_StrLen_def t_def [symmetric])
  next
    case True
    have c: "\<forall>k < length t div 4 + 1. rd_cell m' (d + 4 * int k) = Inr (packed_cell (packed_bytes t) k)"
      using SetString_packed [of m d s room m'] assms(1,2) True unfolding t_def by simp
    moreover have "rd_cell m' (d + 4 * int (length t div 4)) = Inr (packed_cell (packed_bytes t) (length t div 4))" using c by simp
    ultimately have "amx_StrLen m' d = Inr (AMX_ERR_NONE, length t)"
      using c0 True packed_strchr [OF c t] packed_tail [OF t] by (simp add: amx_StrLen_def)
    then show ?thesis by (simp only: t_def)
  qed
qed

theorem amx_StrLen_correct_witness:
  "\<exists>m'. amx_SetString (replicate 16 7) 4 ''hello'' True 3 = Inr m' \<and> amx_StrLen m' 4 = Inr (AMX_ERR_NONE, 5)"
proof -
  have "case amx_SetString (replicate 16 7) 4 ''hello'' True 3 of Inl e \<Rightarrow> False | Inr m \<Rightarrow> True" by code_simp
  then obtain m' where m': "amx_SetString (replicate 16 7) 4 ''hello'' True 3 = Inr m'" by (auto split: sum.splits)
  show ?thesis using amx_StrLen_correct [OF m'] m' by (auto simp: stored_def UNLIMITED_def)
qed

end
