(* ===== verification/Amxexec.thy ===== *)
theory Amxexec
  imports Amx "HOL-Library.Signed_Division"
begin

unbundle bit_operations_syntax

text \<open>
  The interpreter of the abstract machine: the ANSI C version of \<open>amx_Exec\<close>
  (\<open>amxmodx/amx.cpp\<close>), instruction by instruction.  The code section holds jump and call
  addresses that are already relocated, that is, absolute, as \<open>amx_BrowseRelocate\<close> leaves them.

  Signed addition, subtraction and multiplication wrap, as they do with the compilers the
  machine is built with; shift counts that are not below 32 and the one signed division that
  overflows are \<open>Undefined\<close>.  Natives, the debug hook and the floating point unit belong to the
  host: they are fields of the environment.
\<close>

section \<open>Instructions\<close>

text \<open>The enumeration of the opcodes.\<close>

definition OPCODE :: "string list" where
  "OPCODE = [
     ''OP_NONE'', ''OP_LOAD_PRI'', ''OP_LOAD_ALT'', ''OP_LOAD_S_PRI'', ''OP_LOAD_S_ALT'', ''OP_LREF_PRI'',
     ''OP_LREF_ALT'', ''OP_LREF_S_PRI'', ''OP_LREF_S_ALT'', ''OP_LOAD_I'', ''OP_LODB_I'', ''OP_CONST_PRI'',
     ''OP_CONST_ALT'', ''OP_ADDR_PRI'', ''OP_ADDR_ALT'', ''OP_STOR_PRI'', ''OP_STOR_ALT'', ''OP_STOR_S_PRI'',
     ''OP_STOR_S_ALT'', ''OP_SREF_PRI'', ''OP_SREF_ALT'', ''OP_SREF_S_PRI'', ''OP_SREF_S_ALT'', ''OP_STOR_I'',
     ''OP_STRB_I'', ''OP_LIDX'', ''OP_LIDX_B'', ''OP_IDXADDR'', ''OP_IDXADDR_B'', ''OP_ALIGN_PRI'',
     ''OP_ALIGN_ALT'', ''OP_LCTRL'', ''OP_SCTRL'', ''OP_MOVE_PRI'', ''OP_MOVE_ALT'', ''OP_XCHG'',
     ''OP_PUSH_PRI'', ''OP_PUSH_ALT'', ''OP_PUSH_R'', ''OP_PUSH_C'', ''OP_PUSH'', ''OP_PUSH_S'',
     ''OP_POP_PRI'', ''OP_POP_ALT'', ''OP_STACK'', ''OP_HEAP'', ''OP_PROC'', ''OP_RET'', ''OP_RETN'',
     ''OP_CALL'', ''OP_CALL_PRI'', ''OP_JUMP'', ''OP_JREL'', ''OP_JZER'', ''OP_JNZ'', ''OP_JEQ'', ''OP_JNEQ'',
     ''OP_JLESS'', ''OP_JLEQ'', ''OP_JGRTR'', ''OP_JGEQ'', ''OP_JSLESS'', ''OP_JSLEQ'', ''OP_JSGRTR'',
     ''OP_JSGEQ'', ''OP_SHL'', ''OP_SHR'', ''OP_SSHR'', ''OP_SHL_C_PRI'', ''OP_SHL_C_ALT'', ''OP_SHR_C_PRI'',
     ''OP_SHR_C_ALT'', ''OP_SMUL'', ''OP_SDIV'', ''OP_SDIV_ALT'', ''OP_UMUL'', ''OP_UDIV'', ''OP_UDIV_ALT'',
     ''OP_ADD'', ''OP_SUB'', ''OP_SUB_ALT'', ''OP_AND'', ''OP_OR'', ''OP_XOR'', ''OP_NOT'', ''OP_NEG'',
     ''OP_INVERT'', ''OP_ADD_C'', ''OP_SMUL_C'', ''OP_ZERO_PRI'', ''OP_ZERO_ALT'', ''OP_ZERO'', ''OP_ZERO_S'',
     ''OP_SIGN_PRI'', ''OP_SIGN_ALT'', ''OP_EQ'', ''OP_NEQ'', ''OP_LESS'', ''OP_LEQ'', ''OP_GRTR'',
     ''OP_GEQ'', ''OP_SLESS'', ''OP_SLEQ'', ''OP_SGRTR'', ''OP_SGEQ'', ''OP_EQ_C_PRI'', ''OP_EQ_C_ALT'',
     ''OP_INC_PRI'', ''OP_INC_ALT'', ''OP_INC'', ''OP_INC_S'', ''OP_INC_I'', ''OP_DEC_PRI'', ''OP_DEC_ALT'',
     ''OP_DEC'', ''OP_DEC_S'', ''OP_DEC_I'', ''OP_MOVS'', ''OP_CMPS'', ''OP_FILL'', ''OP_HALT'',
     ''OP_BOUNDS'', ''OP_SYSREQ_PRI'', ''OP_SYSREQ_C'', ''OP_FILE'', ''OP_LINE'', ''OP_SYMBOL'',
     ''OP_SRANGE'', ''OP_JUMP_PRI'', ''OP_SWITCH'', ''OP_CASETBL'', ''OP_SWAP_PRI'', ''OP_SWAP_ALT'',
     ''OP_PUSHADDR'', ''OP_NOP'', ''OP_SYSREQ_D'', ''OP_SYMTAG'', ''OP_BREAK'', ''OP_FLOAT_MUL'',
     ''OP_FLOAT_DIV'', ''OP_FLOAT_ADD'', ''OP_FLOAT_SUB'', ''OP_FLOAT_TO'', ''OP_FLOAT_ROUND'',
     ''OP_FLOAT_CMP'']"

abbreviation (input) OP_NONE :: cell where "OP_NONE \<equiv> 0"
abbreviation (input) OP_LOAD_PRI :: cell where "OP_LOAD_PRI \<equiv> 1"
abbreviation (input) OP_LOAD_ALT :: cell where "OP_LOAD_ALT \<equiv> 2"
abbreviation (input) OP_LOAD_S_PRI :: cell where "OP_LOAD_S_PRI \<equiv> 3"
abbreviation (input) OP_LOAD_S_ALT :: cell where "OP_LOAD_S_ALT \<equiv> 4"
abbreviation (input) OP_LREF_PRI :: cell where "OP_LREF_PRI \<equiv> 5"
abbreviation (input) OP_LREF_ALT :: cell where "OP_LREF_ALT \<equiv> 6"
abbreviation (input) OP_LREF_S_PRI :: cell where "OP_LREF_S_PRI \<equiv> 7"
abbreviation (input) OP_LREF_S_ALT :: cell where "OP_LREF_S_ALT \<equiv> 8"
abbreviation (input) OP_LOAD_I :: cell where "OP_LOAD_I \<equiv> 9"
abbreviation (input) OP_LODB_I :: cell where "OP_LODB_I \<equiv> 10"
abbreviation (input) OP_CONST_PRI :: cell where "OP_CONST_PRI \<equiv> 11"
abbreviation (input) OP_CONST_ALT :: cell where "OP_CONST_ALT \<equiv> 12"
abbreviation (input) OP_ADDR_PRI :: cell where "OP_ADDR_PRI \<equiv> 13"
abbreviation (input) OP_ADDR_ALT :: cell where "OP_ADDR_ALT \<equiv> 14"
abbreviation (input) OP_STOR_PRI :: cell where "OP_STOR_PRI \<equiv> 15"
abbreviation (input) OP_STOR_ALT :: cell where "OP_STOR_ALT \<equiv> 16"
abbreviation (input) OP_STOR_S_PRI :: cell where "OP_STOR_S_PRI \<equiv> 17"
abbreviation (input) OP_STOR_S_ALT :: cell where "OP_STOR_S_ALT \<equiv> 18"
abbreviation (input) OP_SREF_PRI :: cell where "OP_SREF_PRI \<equiv> 19"
abbreviation (input) OP_SREF_ALT :: cell where "OP_SREF_ALT \<equiv> 20"
abbreviation (input) OP_SREF_S_PRI :: cell where "OP_SREF_S_PRI \<equiv> 21"
abbreviation (input) OP_SREF_S_ALT :: cell where "OP_SREF_S_ALT \<equiv> 22"
abbreviation (input) OP_STOR_I :: cell where "OP_STOR_I \<equiv> 23"
abbreviation (input) OP_STRB_I :: cell where "OP_STRB_I \<equiv> 24"
abbreviation (input) OP_LIDX :: cell where "OP_LIDX \<equiv> 25"
abbreviation (input) OP_LIDX_B :: cell where "OP_LIDX_B \<equiv> 26"
abbreviation (input) OP_IDXADDR :: cell where "OP_IDXADDR \<equiv> 27"
abbreviation (input) OP_IDXADDR_B :: cell where "OP_IDXADDR_B \<equiv> 28"
abbreviation (input) OP_ALIGN_PRI :: cell where "OP_ALIGN_PRI \<equiv> 29"
abbreviation (input) OP_ALIGN_ALT :: cell where "OP_ALIGN_ALT \<equiv> 30"
abbreviation (input) OP_LCTRL :: cell where "OP_LCTRL \<equiv> 31"
abbreviation (input) OP_SCTRL :: cell where "OP_SCTRL \<equiv> 32"
abbreviation (input) OP_MOVE_PRI :: cell where "OP_MOVE_PRI \<equiv> 33"
abbreviation (input) OP_MOVE_ALT :: cell where "OP_MOVE_ALT \<equiv> 34"
abbreviation (input) OP_XCHG :: cell where "OP_XCHG \<equiv> 35"
abbreviation (input) OP_PUSH_PRI :: cell where "OP_PUSH_PRI \<equiv> 36"
abbreviation (input) OP_PUSH_ALT :: cell where "OP_PUSH_ALT \<equiv> 37"
abbreviation (input) OP_PUSH_R :: cell where "OP_PUSH_R \<equiv> 38"
abbreviation (input) OP_PUSH_C :: cell where "OP_PUSH_C \<equiv> 39"
abbreviation (input) OP_PUSH :: cell where "OP_PUSH \<equiv> 40"
abbreviation (input) OP_PUSH_S :: cell where "OP_PUSH_S \<equiv> 41"
abbreviation (input) OP_POP_PRI :: cell where "OP_POP_PRI \<equiv> 42"
abbreviation (input) OP_POP_ALT :: cell where "OP_POP_ALT \<equiv> 43"
abbreviation (input) OP_STACK :: cell where "OP_STACK \<equiv> 44"
abbreviation (input) OP_HEAP :: cell where "OP_HEAP \<equiv> 45"
abbreviation (input) OP_PROC :: cell where "OP_PROC \<equiv> 46"
abbreviation (input) OP_RET :: cell where "OP_RET \<equiv> 47"
abbreviation (input) OP_RETN :: cell where "OP_RETN \<equiv> 48"
abbreviation (input) OP_CALL :: cell where "OP_CALL \<equiv> 49"
abbreviation (input) OP_CALL_PRI :: cell where "OP_CALL_PRI \<equiv> 50"
abbreviation (input) OP_JUMP :: cell where "OP_JUMP \<equiv> 51"
abbreviation (input) OP_JREL :: cell where "OP_JREL \<equiv> 52"
abbreviation (input) OP_JZER :: cell where "OP_JZER \<equiv> 53"
abbreviation (input) OP_JNZ :: cell where "OP_JNZ \<equiv> 54"
abbreviation (input) OP_JEQ :: cell where "OP_JEQ \<equiv> 55"
abbreviation (input) OP_JNEQ :: cell where "OP_JNEQ \<equiv> 56"
abbreviation (input) OP_JLESS :: cell where "OP_JLESS \<equiv> 57"
abbreviation (input) OP_JLEQ :: cell where "OP_JLEQ \<equiv> 58"
abbreviation (input) OP_JGRTR :: cell where "OP_JGRTR \<equiv> 59"
abbreviation (input) OP_JGEQ :: cell where "OP_JGEQ \<equiv> 60"
abbreviation (input) OP_JSLESS :: cell where "OP_JSLESS \<equiv> 61"
abbreviation (input) OP_JSLEQ :: cell where "OP_JSLEQ \<equiv> 62"
abbreviation (input) OP_JSGRTR :: cell where "OP_JSGRTR \<equiv> 63"
abbreviation (input) OP_JSGEQ :: cell where "OP_JSGEQ \<equiv> 64"
abbreviation (input) OP_SHL :: cell where "OP_SHL \<equiv> 65"
abbreviation (input) OP_SHR :: cell where "OP_SHR \<equiv> 66"
abbreviation (input) OP_SSHR :: cell where "OP_SSHR \<equiv> 67"
abbreviation (input) OP_SHL_C_PRI :: cell where "OP_SHL_C_PRI \<equiv> 68"
abbreviation (input) OP_SHL_C_ALT :: cell where "OP_SHL_C_ALT \<equiv> 69"
abbreviation (input) OP_SHR_C_PRI :: cell where "OP_SHR_C_PRI \<equiv> 70"
abbreviation (input) OP_SHR_C_ALT :: cell where "OP_SHR_C_ALT \<equiv> 71"
abbreviation (input) OP_SMUL :: cell where "OP_SMUL \<equiv> 72"
abbreviation (input) OP_SDIV :: cell where "OP_SDIV \<equiv> 73"
abbreviation (input) OP_SDIV_ALT :: cell where "OP_SDIV_ALT \<equiv> 74"
abbreviation (input) OP_UMUL :: cell where "OP_UMUL \<equiv> 75"
abbreviation (input) OP_UDIV :: cell where "OP_UDIV \<equiv> 76"
abbreviation (input) OP_UDIV_ALT :: cell where "OP_UDIV_ALT \<equiv> 77"
abbreviation (input) OP_ADD :: cell where "OP_ADD \<equiv> 78"
abbreviation (input) OP_SUB :: cell where "OP_SUB \<equiv> 79"
abbreviation (input) OP_SUB_ALT :: cell where "OP_SUB_ALT \<equiv> 80"
abbreviation (input) OP_AND :: cell where "OP_AND \<equiv> 81"
abbreviation (input) OP_OR :: cell where "OP_OR \<equiv> 82"
abbreviation (input) OP_XOR :: cell where "OP_XOR \<equiv> 83"
abbreviation (input) OP_NOT :: cell where "OP_NOT \<equiv> 84"
abbreviation (input) OP_NEG :: cell where "OP_NEG \<equiv> 85"
abbreviation (input) OP_INVERT :: cell where "OP_INVERT \<equiv> 86"
abbreviation (input) OP_ADD_C :: cell where "OP_ADD_C \<equiv> 87"
abbreviation (input) OP_SMUL_C :: cell where "OP_SMUL_C \<equiv> 88"
abbreviation (input) OP_ZERO_PRI :: cell where "OP_ZERO_PRI \<equiv> 89"
abbreviation (input) OP_ZERO_ALT :: cell where "OP_ZERO_ALT \<equiv> 90"
abbreviation (input) OP_ZERO :: cell where "OP_ZERO \<equiv> 91"
abbreviation (input) OP_ZERO_S :: cell where "OP_ZERO_S \<equiv> 92"
abbreviation (input) OP_SIGN_PRI :: cell where "OP_SIGN_PRI \<equiv> 93"
abbreviation (input) OP_SIGN_ALT :: cell where "OP_SIGN_ALT \<equiv> 94"
abbreviation (input) OP_EQ :: cell where "OP_EQ \<equiv> 95"
abbreviation (input) OP_NEQ :: cell where "OP_NEQ \<equiv> 96"
abbreviation (input) OP_LESS :: cell where "OP_LESS \<equiv> 97"
abbreviation (input) OP_LEQ :: cell where "OP_LEQ \<equiv> 98"
abbreviation (input) OP_GRTR :: cell where "OP_GRTR \<equiv> 99"
abbreviation (input) OP_GEQ :: cell where "OP_GEQ \<equiv> 100"
abbreviation (input) OP_SLESS :: cell where "OP_SLESS \<equiv> 101"
abbreviation (input) OP_SLEQ :: cell where "OP_SLEQ \<equiv> 102"
abbreviation (input) OP_SGRTR :: cell where "OP_SGRTR \<equiv> 103"
abbreviation (input) OP_SGEQ :: cell where "OP_SGEQ \<equiv> 104"
abbreviation (input) OP_EQ_C_PRI :: cell where "OP_EQ_C_PRI \<equiv> 105"
abbreviation (input) OP_EQ_C_ALT :: cell where "OP_EQ_C_ALT \<equiv> 106"
abbreviation (input) OP_INC_PRI :: cell where "OP_INC_PRI \<equiv> 107"
abbreviation (input) OP_INC_ALT :: cell where "OP_INC_ALT \<equiv> 108"
abbreviation (input) OP_INC :: cell where "OP_INC \<equiv> 109"
abbreviation (input) OP_INC_S :: cell where "OP_INC_S \<equiv> 110"
abbreviation (input) OP_INC_I :: cell where "OP_INC_I \<equiv> 111"
abbreviation (input) OP_DEC_PRI :: cell where "OP_DEC_PRI \<equiv> 112"
abbreviation (input) OP_DEC_ALT :: cell where "OP_DEC_ALT \<equiv> 113"
abbreviation (input) OP_DEC :: cell where "OP_DEC \<equiv> 114"
abbreviation (input) OP_DEC_S :: cell where "OP_DEC_S \<equiv> 115"
abbreviation (input) OP_DEC_I :: cell where "OP_DEC_I \<equiv> 116"
abbreviation (input) OP_MOVS :: cell where "OP_MOVS \<equiv> 117"
abbreviation (input) OP_CMPS :: cell where "OP_CMPS \<equiv> 118"
abbreviation (input) OP_FILL :: cell where "OP_FILL \<equiv> 119"
abbreviation (input) OP_HALT :: cell where "OP_HALT \<equiv> 120"
abbreviation (input) OP_BOUNDS :: cell where "OP_BOUNDS \<equiv> 121"
abbreviation (input) OP_SYSREQ_PRI :: cell where "OP_SYSREQ_PRI \<equiv> 122"
abbreviation (input) OP_SYSREQ_C :: cell where "OP_SYSREQ_C \<equiv> 123"
abbreviation (input) OP_FILE :: cell where "OP_FILE \<equiv> 124"
abbreviation (input) OP_LINE :: cell where "OP_LINE \<equiv> 125"
abbreviation (input) OP_SYMBOL :: cell where "OP_SYMBOL \<equiv> 126"
abbreviation (input) OP_SRANGE :: cell where "OP_SRANGE \<equiv> 127"
abbreviation (input) OP_JUMP_PRI :: cell where "OP_JUMP_PRI \<equiv> 128"
abbreviation (input) OP_SWITCH :: cell where "OP_SWITCH \<equiv> 129"
abbreviation (input) OP_CASETBL :: cell where "OP_CASETBL \<equiv> 130"
abbreviation (input) OP_SWAP_PRI :: cell where "OP_SWAP_PRI \<equiv> 131"
abbreviation (input) OP_SWAP_ALT :: cell where "OP_SWAP_ALT \<equiv> 132"
abbreviation (input) OP_PUSHADDR :: cell where "OP_PUSHADDR \<equiv> 133"
abbreviation (input) OP_NOP :: cell where "OP_NOP \<equiv> 134"
abbreviation (input) OP_SYSREQ_D :: cell where "OP_SYSREQ_D \<equiv> 135"
abbreviation (input) OP_SYMTAG :: cell where "OP_SYMTAG \<equiv> 136"
abbreviation (input) OP_BREAK :: cell where "OP_BREAK \<equiv> 137"
abbreviation (input) OP_FLOAT_MUL :: cell where "OP_FLOAT_MUL \<equiv> 138"
abbreviation (input) OP_FLOAT_DIV :: cell where "OP_FLOAT_DIV \<equiv> 139"
abbreviation (input) OP_FLOAT_ADD :: cell where "OP_FLOAT_ADD \<equiv> 140"
abbreviation (input) OP_FLOAT_SUB :: cell where "OP_FLOAT_SUB \<equiv> 141"
abbreviation (input) OP_FLOAT_TO :: cell where "OP_FLOAT_TO \<equiv> 142"
abbreviation (input) OP_FLOAT_ROUND :: cell where "OP_FLOAT_ROUND \<equiv> 143"
abbreviation (input) OP_FLOAT_CMP :: cell where "OP_FLOAT_CMP \<equiv> 144"

section \<open>State\<close>

text \<open>
  What does not change while the machine runs: the code section and the absolute address where
  it lies, the fields of the header the interpreter reads, and the functions of the host.
\<close>

record env =
  code :: "byte list"
  code_base :: cell
  hdr_cod :: cell
  hdr_dat :: cell
  hdr_cip :: cell
  publics :: "cell list"
  callback :: "amx \<Rightarrow> cell \<Rightarrow> cell \<Rightarrow> int \<times> cell \<times> amx"
  native :: "cell \<Rightarrow> amx \<Rightarrow> cell \<times> amx"
  debug :: "amx \<Rightarrow> int \<times> amx"
  fl_mul :: "cell \<Rightarrow> cell \<Rightarrow> cell"
  fl_add :: "cell \<Rightarrow> cell \<Rightarrow> cell"
  fl_sub :: "cell \<Rightarrow> cell \<Rightarrow> cell"
  fl_div :: "cell \<Rightarrow> cell \<Rightarrow> cell"
  fl_of :: "cell \<Rightarrow> cell"
  fl_nearest :: "cell \<Rightarrow> cell"
  fl_floor :: "cell \<Rightarrow> cell"
  fl_ceil :: "cell \<Rightarrow> cell"
  fl_eq :: "cell \<Rightarrow> cell \<Rightarrow> bool"
  fl_gt :: "cell \<Rightarrow> cell \<Rightarrow> bool"

text \<open>The local variables of \<open>amx_Exec\<close> and the structure it was called with.\<close>

record vm =
  am :: amx
  pri :: cell
  alt :: cell
  stk :: cell
  frm :: cell
  hea :: cell
  cip :: cell
  reset_stk :: cell
  reset_hea :: cell

text \<open>An instruction leaves the machine running or returns an error code and perhaps a result.\<close>

datatype outcome = Run vm | Ret int "cell option" amx

definition codesize :: "env \<Rightarrow> cell" where "codesize env = hdr_dat env - hdr_cod env"

definition rdm :: "vm \<Rightarrow> int \<Rightarrow> cell res" where "rdm st a = rd_cell (amx_mem (am st)) a"

definition set_mem :: "vm \<Rightarrow> mem \<Rightarrow> vm" where "set_mem st m = st\<lparr>am := (am st)\<lparr>amx_mem := m\<rparr>\<rparr>"

definition wrm :: "vm \<Rightarrow> int \<Rightarrow> cell \<Rightarrow> (vm \<Rightarrow> outcome res) \<Rightarrow> outcome res" where
  "wrm st a v k = bindR (wr_cell (amx_mem (am st)) a v) (\<lambda>m. k (set_mem st m))"

section \<open>The macros\<close>

definition fetch :: "env \<Rightarrow> cell \<Rightarrow> cell res" where
  "fetch env a = rd_cell (code env) (uint (a - code_base env))"

definition get_param :: "env \<Rightarrow> vm \<Rightarrow> (cell \<Rightarrow> vm \<Rightarrow> outcome res) \<Rightarrow> outcome res" where
  "get_param env st k = bindR (fetch env (cip st)) (\<lambda>v. k v (st\<lparr>cip := cip st + 4\<rparr>))"

definition skipparam :: "vm \<Rightarrow> cell \<Rightarrow> outcome res" where
  "skipparam st n = Inr (Run (st\<lparr>cip := cip st + 4 * n\<rparr>))"

definition push :: "vm \<Rightarrow> cell \<Rightarrow> (vm \<Rightarrow> outcome res) \<Rightarrow> outcome res" where
  "push st v k = wrm (st\<lparr>stk := stk st - 4\<rparr>) (sint (stk st - 4)) v k"

definition pop :: "vm \<Rightarrow> (cell \<Rightarrow> vm \<Rightarrow> outcome res) \<Rightarrow> outcome res" where
  "pop st k = bindR (rdm st (sint (stk st))) (\<lambda>v. k v (st\<lparr>stk := stk st + 4\<rparr>))"

definition abort :: "vm \<Rightarrow> int \<Rightarrow> outcome res" where
  "abort st v = Inr (Ret v None ((am st)\<lparr>amx_stk := reset_stk st, amx_hea := reset_hea st, amx_cip := cip st,
     amx_pri := pri st, amx_alt := alt st\<rparr>))"

definition chkmargin :: "vm \<Rightarrow> (vm \<Rightarrow> outcome res) \<Rightarrow> outcome res" where
  "chkmargin st k = (if stk st <s hea st + STKMARGIN then Inr (Ret AMX_ERR_STACKERR None (am st)) else k st)"

definition chkstack :: "vm \<Rightarrow> (vm \<Rightarrow> outcome res) \<Rightarrow> outcome res" where
  "chkstack st k = (if amx_stp (am st) <s stk st then Inr (Ret AMX_ERR_STACKLOW None (am st)) else k st)"

definition chkheap :: "vm \<Rightarrow> (vm \<Rightarrow> outcome res) \<Rightarrow> outcome res" where
  "chkheap st k = (if hea st <s amx_hlw (am st) then Inr (Ret AMX_ERR_HEAPLOW None (am st)) else k st)"

text \<open>The two tests of an address: its start, and the end of a block.\<close>

definition bad_addr :: "vm \<Rightarrow> cell \<Rightarrow> bool" where
  "bad_addr st a \<longleftrightarrow> (hea st \<le>s a \<and> a <s stk st) \<or> amx_stp (am st) \<le> a"

definition bad_end :: "vm \<Rightarrow> cell \<Rightarrow> bool" where
  "bad_end st a \<longleftrightarrow> (hea st <s a \<and> a <s stk st) \<or> amx_stp (am st) < a"

definition verify :: "vm \<Rightarrow> bool \<Rightarrow> (vm \<Rightarrow> outcome res) \<Rightarrow> outcome res" where
  "verify st bad k = (if bad then abort st AMX_ERR_MEMACCESS else k st)"

definition run_next :: "vm \<Rightarrow> outcome res" where "run_next st = Inr (Run st)"

text \<open>A jump to the address the instruction is followed by, and passing over it.\<close>

definition jumpabs :: "env \<Rightarrow> vm \<Rightarrow> outcome res" where
  "jumpabs env st = bindR (fetch env (cip st)) (\<lambda>a. run_next (st\<lparr>cip := a\<rparr>))"

definition jump_if :: "env \<Rightarrow> vm \<Rightarrow> bool \<Rightarrow> outcome res" where
  "jump_if env st b = (if b then jumpabs env st else run_next (st\<lparr>cip := cip st + 4\<rparr>))"

text \<open>Reading a register from the memory, and the address of a variable in the frame.\<close>

definition load_pri :: "vm \<Rightarrow> int \<Rightarrow> outcome res" where
  "load_pri st a = bindR (rdm st a) (\<lambda>v. run_next (st\<lparr>pri := v\<rparr>))"

definition load_alt :: "vm \<Rightarrow> int \<Rightarrow> outcome res" where
  "load_alt st a = bindR (rdm st a) (\<lambda>v. run_next (st\<lparr>alt := v\<rparr>))"

definition in_frame :: "vm \<Rightarrow> cell \<Rightarrow> int" where
  "in_frame st offs = sint (frm st) + sint offs"

section \<open>Loading and storing\<close>

definition exec_load :: "env \<Rightarrow> cell \<Rightarrow> vm \<Rightarrow> outcome res" where
  "exec_load env op st =
    (if op = OP_LOAD_PRI then get_param env st (\<lambda>offs st. load_pri st (sint offs))
     else if op = OP_LOAD_ALT then get_param env st (\<lambda>offs st. load_alt st (sint offs))
     else if op = OP_LOAD_S_PRI then get_param env st (\<lambda>offs st. load_pri st (in_frame st offs))
     else if op = OP_LOAD_S_ALT then get_param env st (\<lambda>offs st. load_alt st (in_frame st offs))
     else if op = OP_LREF_PRI then get_param env st (\<lambda>offs st. bindR (rdm st (sint offs)) (\<lambda>offs. load_pri st (sint offs)))
     else if op = OP_LREF_ALT then get_param env st (\<lambda>offs st. bindR (rdm st (sint offs)) (\<lambda>offs. load_alt st (sint offs)))
     else if op = OP_LREF_S_PRI then
       get_param env st (\<lambda>offs st. bindR (rdm st (in_frame st offs)) (\<lambda>offs. load_pri st (sint offs)))
     else if op = OP_LREF_S_ALT then
       get_param env st (\<lambda>offs st. bindR (rdm st (in_frame st offs)) (\<lambda>offs. load_alt st (sint offs)))
     else if op = OP_LOAD_I then verify st (bad_addr st (pri st)) (\<lambda>st. load_pri st (sint (pri st)))
     else if op = OP_LODB_I then
       get_param env st (\<lambda>offs st. verify st (bad_addr st (pri st)) (\<lambda>st.
         if offs \<in> {1, 2, 4}
         then bindR (read_bytes (amx_mem (am st)) (sint (pri st)) (unat offs)) (\<lambda>bs.
                run_next (st\<lparr>pri := cell_of (bs @ replicate (4 - unat offs) 0)\<rparr>))
         else run_next st))
     else if op = OP_CONST_PRI then get_param env st (\<lambda>offs st. run_next (st\<lparr>pri := offs\<rparr>))
     else if op = OP_CONST_ALT then get_param env st (\<lambda>offs st. run_next (st\<lparr>alt := offs\<rparr>))
     else if op = OP_ADDR_PRI then get_param env st (\<lambda>offs st. run_next (st\<lparr>pri := offs + frm st\<rparr>))
     else if op = OP_ADDR_ALT then get_param env st (\<lambda>offs st. run_next (st\<lparr>alt := offs + frm st\<rparr>))
     else Inl AssertFailed)"

definition exec_store :: "env \<Rightarrow> cell \<Rightarrow> vm \<Rightarrow> outcome res" where
  "exec_store env op st =
    (if op = OP_STOR_PRI then get_param env st (\<lambda>offs st. wrm st (sint offs) (pri st) run_next)
     else if op = OP_STOR_ALT then get_param env st (\<lambda>offs st. wrm st (sint offs) (alt st) run_next)
     else if op = OP_STOR_S_PRI then get_param env st (\<lambda>offs st. wrm st (in_frame st offs) (pri st) run_next)
     else if op = OP_STOR_S_ALT then get_param env st (\<lambda>offs st. wrm st (in_frame st offs) (alt st) run_next)
     else if op = OP_SREF_PRI then
       get_param env st (\<lambda>offs st. bindR (rdm st (sint offs)) (\<lambda>offs. wrm st (sint offs) (pri st) run_next))
     else if op = OP_SREF_ALT then
       get_param env st (\<lambda>offs st. bindR (rdm st (sint offs)) (\<lambda>offs. wrm st (sint offs) (alt st) run_next))
     else if op = OP_SREF_S_PRI then
       get_param env st (\<lambda>offs st. bindR (rdm st (in_frame st offs)) (\<lambda>offs. wrm st (sint offs) (pri st) run_next))
     else if op = OP_SREF_S_ALT then
       get_param env st (\<lambda>offs st. bindR (rdm st (in_frame st offs)) (\<lambda>offs. wrm st (sint offs) (alt st) run_next))
     else if op = OP_STOR_I then verify st (bad_addr st (alt st)) (\<lambda>st. wrm st (sint (alt st)) (pri st) run_next)
     else if op = OP_STRB_I then
       get_param env st (\<lambda>offs st. verify st (bad_addr st (alt st)) (\<lambda>st.
         if offs \<in> {1, 2, 4}
         then bindR (write_bytes (amx_mem (am st)) (sint (alt st)) (take (unat offs) (cell_le (pri st)))) (\<lambda>m.
                run_next (set_mem st m))
         else run_next st))
     else Inl AssertFailed)"

section \<open>Array elements, alignment and the registers of the machine\<close>

definition index_addr :: "vm \<Rightarrow> cell \<Rightarrow> (cell \<Rightarrow> outcome res) \<Rightarrow> outcome res" where
  "index_addr st shift k = (if shift < 32 then k (push_bit (unat shift) (pri st) + alt st) else Inl Undefined)"

definition exec_index :: "env \<Rightarrow> cell \<Rightarrow> vm \<Rightarrow> outcome res" where
  "exec_index env op st =
    (if op = OP_LIDX then
       let offs = pri st * 4 + alt st in verify st (bad_addr st offs) (\<lambda>st. load_pri st (sint offs))
     else if op = OP_LIDX_B then
       get_param env st (\<lambda>offs st. index_addr st offs (\<lambda>offs.
         verify st (bad_addr st offs) (\<lambda>st. load_pri st (sint offs))))
     else if op = OP_IDXADDR then run_next (st\<lparr>pri := pri st * 4 + alt st\<rparr>)
     else if op = OP_IDXADDR_B then
       get_param env st (\<lambda>offs st. index_addr st offs (\<lambda>a. run_next (st\<lparr>pri := a\<rparr>)))
     else if op = OP_ALIGN_PRI then
       get_param env st (\<lambda>offs st. run_next (if offs < 4 then st\<lparr>pri := pri st XOR (4 - offs)\<rparr> else st))
     else if op = OP_ALIGN_ALT then
       get_param env st (\<lambda>offs st. run_next (if offs < 4 then st\<lparr>alt := alt st XOR (4 - offs)\<rparr> else st))
     else if op = OP_LCTRL then
       get_param env st (\<lambda>offs st. run_next
         (if offs = 0 then st\<lparr>pri := hdr_cod env\<rparr>
          else if offs = 1 then st\<lparr>pri := hdr_dat env\<rparr>
          else if offs = 2 then st\<lparr>pri := hea st\<rparr>
          else if offs = 3 then st\<lparr>pri := amx_stp (am st)\<rparr>
          else if offs = 4 then st\<lparr>pri := stk st\<rparr>
          else if offs = 5 then st\<lparr>pri := frm st\<rparr>
          else if offs = 6 then st\<lparr>pri := cip st - code_base env\<rparr>
          else st))
     else if op = OP_SCTRL then
       get_param env st (\<lambda>offs st. run_next
         (if offs = 2 then st\<lparr>hea := pri st\<rparr>
          else if offs = 4 then st\<lparr>stk := pri st\<rparr>
          else if offs = 5 then st\<lparr>frm := pri st\<rparr>
          else if offs = 6 then st\<lparr>cip := code_base env + pri st\<rparr>
          else st))
     else Inl AssertFailed)"

section \<open>Moving registers, the stack and the heap\<close>

text \<open>\<open>while (offs--) PUSH(pri)\<close>\<close>

fun push_times :: "nat \<Rightarrow> vm \<Rightarrow> outcome res" where
  "push_times 0 st = run_next st"
| "push_times (Suc n) st = push st (pri st) (push_times n)"

definition exec_stack :: "env \<Rightarrow> cell \<Rightarrow> vm \<Rightarrow> outcome res" where
  "exec_stack env op st =
    (if op = OP_MOVE_PRI then run_next (st\<lparr>pri := alt st\<rparr>)
     else if op = OP_MOVE_ALT then run_next (st\<lparr>alt := pri st\<rparr>)
     else if op = OP_XCHG then run_next (st\<lparr>pri := alt st, alt := pri st\<rparr>)
     else if op = OP_PUSH_PRI then push st (pri st) run_next
     else if op = OP_PUSH_ALT then push st (alt st) run_next
     else if op = OP_PUSH_C then get_param env st (\<lambda>offs st. push st offs run_next)
     else if op = OP_PUSH_R then get_param env st (\<lambda>offs st. push_times (unat offs) st)
     else if op = OP_PUSH then get_param env st (\<lambda>offs st. bindR (rdm st (sint offs)) (\<lambda>v. push st v run_next))
     else if op = OP_PUSH_S then get_param env st (\<lambda>offs st. bindR (rdm st (in_frame st offs)) (\<lambda>v. push st v run_next))
     else if op = OP_POP_PRI then pop st (\<lambda>v st. run_next (st\<lparr>pri := v\<rparr>))
     else if op = OP_POP_ALT then pop st (\<lambda>v st. run_next (st\<lparr>alt := v\<rparr>))
     else if op = OP_STACK then
       get_param env st (\<lambda>offs st. chkmargin (st\<lparr>alt := stk st, stk := stk st + offs\<rparr>) (\<lambda>st. chkstack st run_next))
     else if op = OP_HEAP then
       get_param env st (\<lambda>offs st. chkmargin (st\<lparr>alt := hea st, hea := hea st + offs\<rparr>) (\<lambda>st. chkheap st run_next))
     else Inl AssertFailed)"

section \<open>Calls\<close>

text \<open>The test of a return address, and the jump to it.\<close>

definition return_to :: "env \<Rightarrow> vm \<Rightarrow> cell \<Rightarrow> (vm \<Rightarrow> outcome res) \<Rightarrow> outcome res" where
  "return_to env st offs k =
     (if codesize env \<le> offs then abort st AMX_ERR_MEMACCESS else k (st\<lparr>cip := code_base env + offs\<rparr>))"

definition exec_call :: "env \<Rightarrow> cell \<Rightarrow> vm \<Rightarrow> outcome res" where
  "exec_call env op st =
    (if op = OP_PROC then push st (frm st) (\<lambda>st. chkmargin (st\<lparr>frm := stk st\<rparr>) run_next)
     else if op = OP_RET then
       pop st (\<lambda>f st. pop (st\<lparr>frm := f\<rparr>) (\<lambda>offs st. return_to env st offs run_next))
     else if op = OP_RETN then
       pop st (\<lambda>f st. pop (st\<lparr>frm := f\<rparr>) (\<lambda>offs st. return_to env st offs (\<lambda>st.
         bindR (rdm st (sint (stk st))) (\<lambda>n.
           let s = stk st + n + 4 in run_next (st\<lparr>stk := s, am := (am st)\<lparr>amx_stk := s\<rparr>\<rparr>)))))
     else if op = OP_CALL then push st (cip st - code_base env + 4) (jumpabs env)
     else if op = OP_CALL_PRI then push st (cip st - code_base env) (\<lambda>st. run_next (st\<lparr>cip := code_base env + pri st\<rparr>))
     else Inl AssertFailed)"

section \<open>Jumps\<close>

definition exec_jump :: "env \<Rightarrow> cell \<Rightarrow> vm \<Rightarrow> outcome res" where
  "exec_jump env op st =
    (if op = OP_JUMP then jumpabs env st
     else if op = OP_JREL then bindR (fetch env (cip st)) (\<lambda>offs. run_next (st\<lparr>cip := cip st + offs + 4\<rparr>))
     else if op = OP_JZER then jump_if env st (pri st = 0)
     else if op = OP_JNZ then jump_if env st (pri st \<noteq> 0)
     else if op = OP_JEQ then jump_if env st (pri st = alt st)
     else if op = OP_JNEQ then jump_if env st (pri st \<noteq> alt st)
     else if op = OP_JLESS then jump_if env st (pri st < alt st)
     else if op = OP_JLEQ then jump_if env st (pri st \<le> alt st)
     else if op = OP_JGRTR then jump_if env st (alt st < pri st)
     else if op = OP_JGEQ then jump_if env st (alt st \<le> pri st)
     else if op = OP_JSLESS then jump_if env st (pri st <s alt st)
     else if op = OP_JSLEQ then jump_if env st (pri st \<le>s alt st)
     else if op = OP_JSGRTR then jump_if env st (alt st <s pri st)
     else if op = OP_JSGEQ then jump_if env st (alt st \<le>s pri st)
     else Inl AssertFailed)"

section \<open>Arithmetic\<close>

text \<open>The signed division and remainder of C, which truncate; the one that overflows is undefined.\<close>

definition c_div :: "cell \<Rightarrow> cell \<Rightarrow> cell" where "c_div a b = word_of_int (sint a sdiv sint b)"
definition c_rem :: "cell \<Rightarrow> cell \<Rightarrow> cell" where "c_rem a b = word_of_int (sint a smod sint b)"

definition div_overflow :: "cell \<Rightarrow> cell \<Rightarrow> bool" where
  "div_overflow a b \<longleftrightarrow> a = 0x80000000 \<and> b = - 1"

text \<open>Division that rounds down, with the remainder: \<open>left\<close> and \<open>right\<close> are the two registers.\<close>

definition floor_divide :: "vm \<Rightarrow> cell \<Rightarrow> cell \<Rightarrow> outcome res" where
  "floor_divide st left right =
     (if right = 0 then abort st AMX_ERR_DIVIDE
      else if div_overflow left right then Inl Undefined
      else let offs = c_rem (c_rem left right + right) right in
        if div_overflow (left - offs) right then Inl Undefined
        else run_next (st\<lparr>pri := c_div (left - offs) right, alt := offs\<rparr>))"

definition udivide :: "vm \<Rightarrow> cell \<Rightarrow> cell \<Rightarrow> outcome res" where
  "udivide st left right =
     (if right = 0 then abort st AMX_ERR_DIVIDE
      else run_next (st\<lparr>pri := left div right, alt := left mod right\<rparr>))"

text \<open>A shift of a register by a count that must be below the width.\<close>

definition shifted :: "cell \<Rightarrow> vm \<Rightarrow> outcome res" where
  "shifted count st = (if count < 32 then run_next st else Inl Undefined)"

definition exec_muldiv :: "env \<Rightarrow> cell \<Rightarrow> vm \<Rightarrow> outcome res" where
  "exec_muldiv env op st =
    (if op = OP_SHL then shifted (alt st) (st\<lparr>pri := push_bit (unat (alt st)) (pri st)\<rparr>)
     else if op = OP_SHR then shifted (alt st) (st\<lparr>pri := drop_bit (unat (alt st)) (pri st)\<rparr>)
     else if op = OP_SSHR then shifted (alt st) (st\<lparr>pri := signed_drop_bit (unat (alt st)) (pri st)\<rparr>)
     else if op = OP_SHL_C_PRI then get_param env st (\<lambda>offs st. shifted offs (st\<lparr>pri := push_bit (unat offs) (pri st)\<rparr>))
     else if op = OP_SHL_C_ALT then get_param env st (\<lambda>offs st. shifted offs (st\<lparr>alt := push_bit (unat offs) (alt st)\<rparr>))
     else if op = OP_SHR_C_PRI then get_param env st (\<lambda>offs st. shifted offs (st\<lparr>pri := drop_bit (unat offs) (pri st)\<rparr>))
     else if op = OP_SHR_C_ALT then get_param env st (\<lambda>offs st. shifted offs (st\<lparr>alt := drop_bit (unat offs) (alt st)\<rparr>))
     else if op = OP_SMUL then run_next (st\<lparr>pri := pri st * alt st\<rparr>)
     else if op = OP_SDIV then floor_divide st (pri st) (alt st)
     else if op = OP_SDIV_ALT then floor_divide st (alt st) (pri st)
     else if op = OP_UMUL then run_next (st\<lparr>pri := pri st * alt st\<rparr>)
     else if op = OP_UDIV then udivide st (pri st) (alt st)
     else if op = OP_UDIV_ALT then udivide st (alt st) (pri st)
     else Inl AssertFailed)"

definition exec_alu :: "env \<Rightarrow> cell \<Rightarrow> vm \<Rightarrow> outcome res" where
  "exec_alu env op st =
    (if op = OP_ADD then run_next (st\<lparr>pri := pri st + alt st\<rparr>)
     else if op = OP_SUB then run_next (st\<lparr>pri := pri st - alt st\<rparr>)
     else if op = OP_SUB_ALT then run_next (st\<lparr>pri := alt st - pri st\<rparr>)
     else if op = OP_AND then run_next (st\<lparr>pri := pri st AND alt st\<rparr>)
     else if op = OP_OR then run_next (st\<lparr>pri := pri st OR alt st\<rparr>)
     else if op = OP_XOR then run_next (st\<lparr>pri := pri st XOR alt st\<rparr>)
     else if op = OP_NOT then run_next (st\<lparr>pri := (if pri st = 0 then 1 else 0)\<rparr>)
     else if op = OP_NEG then run_next (st\<lparr>pri := - pri st\<rparr>)
     else if op = OP_INVERT then run_next (st\<lparr>pri := NOT (pri st)\<rparr>)
     else if op = OP_ADD_C then get_param env st (\<lambda>offs st. run_next (st\<lparr>pri := pri st + offs\<rparr>))
     else if op = OP_SMUL_C then get_param env st (\<lambda>offs st. run_next (st\<lparr>pri := pri st * offs\<rparr>))
     else if op = OP_ZERO_PRI then run_next (st\<lparr>pri := 0\<rparr>)
     else if op = OP_ZERO_ALT then run_next (st\<lparr>alt := 0\<rparr>)
     else if op = OP_ZERO then get_param env st (\<lambda>offs st. wrm st (sint offs) 0 run_next)
     else if op = OP_ZERO_S then get_param env st (\<lambda>offs st. wrm st (in_frame st offs) 0 run_next)
     else if op = OP_SIGN_PRI then
       run_next (if 0x80 \<le> pri st AND 0xFF then st\<lparr>pri := pri st OR NOT 0xFF\<rparr> else st)
     else if op = OP_SIGN_ALT then
       run_next (if 0x80 \<le> alt st AND 0xFF then st\<lparr>alt := alt st OR NOT 0xFF\<rparr> else st)
     else Inl AssertFailed)"

section \<open>Comparing and counting\<close>

definition truth :: "vm \<Rightarrow> bool \<Rightarrow> outcome res" where
  "truth st b = run_next (st\<lparr>pri := (if b then 1 else 0)\<rparr>)"

text \<open>\<open>*(cell *)(data + a) += d\<close>\<close>

definition add_at :: "vm \<Rightarrow> int \<Rightarrow> cell \<Rightarrow> outcome res" where
  "add_at st a d = bindR (rdm st a) (\<lambda>v. wrm st a (v + d) run_next)"

definition exec_compare :: "env \<Rightarrow> cell \<Rightarrow> vm \<Rightarrow> outcome res" where
  "exec_compare env op st =
    (if op = OP_EQ then truth st (pri st = alt st)
     else if op = OP_NEQ then truth st (pri st \<noteq> alt st)
     else if op = OP_LESS then truth st (pri st < alt st)
     else if op = OP_LEQ then truth st (pri st \<le> alt st)
     else if op = OP_GRTR then truth st (alt st < pri st)
     else if op = OP_GEQ then truth st (alt st \<le> pri st)
     else if op = OP_SLESS then truth st (pri st <s alt st)
     else if op = OP_SLEQ then truth st (pri st \<le>s alt st)
     else if op = OP_SGRTR then truth st (alt st <s pri st)
     else if op = OP_SGEQ then truth st (alt st \<le>s pri st)
     else if op = OP_EQ_C_PRI then get_param env st (\<lambda>offs st. truth st (pri st = offs))
     else if op = OP_EQ_C_ALT then get_param env st (\<lambda>offs st. truth st (alt st = offs))
     else Inl AssertFailed)"

definition exec_incdec :: "env \<Rightarrow> cell \<Rightarrow> vm \<Rightarrow> outcome res" where
  "exec_incdec env op st =
    (if op = OP_INC_PRI then run_next (st\<lparr>pri := pri st + 1\<rparr>)
     else if op = OP_INC_ALT then run_next (st\<lparr>alt := alt st + 1\<rparr>)
     else if op = OP_INC then get_param env st (\<lambda>offs st. add_at st (sint offs) 1)
     else if op = OP_INC_S then get_param env st (\<lambda>offs st. add_at st (in_frame st offs) 1)
     else if op = OP_INC_I then add_at st (sint (pri st)) 1
     else if op = OP_DEC_PRI then run_next (st\<lparr>pri := pri st - 1\<rparr>)
     else if op = OP_DEC_ALT then run_next (st\<lparr>alt := alt st - 1\<rparr>)
     else if op = OP_DEC then get_param env st (\<lambda>offs st. add_at st (sint offs) (- 1))
     else if op = OP_DEC_S then get_param env st (\<lambda>offs st. add_at st (in_frame st offs) (- 1))
     else if op = OP_DEC_I then add_at st (sint (pri st)) (- 1)
     else Inl AssertFailed)"

section \<open>Blocks of memory\<close>

definition verify_block :: "vm \<Rightarrow> cell \<Rightarrow> cell \<Rightarrow> (vm \<Rightarrow> outcome res) \<Rightarrow> outcome res" where
  "verify_block st a n k = verify st (bad_addr st a) (\<lambda>st. verify st (bad_end st (a + n)) k)"

text \<open>\<open>memcpy\<close> is not defined on blocks that overlap; \<open>memcmp\<close> promises only a sign.\<close>

definition overlap :: "int \<Rightarrow> int \<Rightarrow> nat \<Rightarrow> bool" where
  "overlap a b n \<longleftrightarrow> a < b + int n \<and> b < a + int n"

fun memcmp :: "byte list \<Rightarrow> byte list \<Rightarrow> cell" where
  "memcmp (a # as) (b # bs) = (if a < b then - 1 else if b < a then 1 else memcmp as bs)"
| "memcmp _ _ = 0"

fun fill_cells :: "mem \<Rightarrow> int \<Rightarrow> nat \<Rightarrow> cell \<Rightarrow> mem res" where
  "fill_cells m i 0 v = Inr m"
| "fill_cells m i (Suc n) v = bindR (wr_cell m i v) (\<lambda>m. fill_cells m (i + 4) n v)"

definition exec_block :: "env \<Rightarrow> cell \<Rightarrow> vm \<Rightarrow> outcome res" where
  "exec_block env op st =
    (if op = OP_MOVS then
       get_param env st (\<lambda>offs st.
         verify_block st (pri st) offs (\<lambda>st. verify_block st (alt st) offs (\<lambda>st.
           if overlap (sint (alt st)) (sint (pri st)) (unat offs) then Inl Undefined
           else bindR (read_bytes (amx_mem (am st)) (sint (pri st)) (unat offs)) (\<lambda>bs.
                bindR (write_bytes (amx_mem (am st)) (sint (alt st)) bs) (\<lambda>m. run_next (set_mem st m))))))
     else if op = OP_CMPS then
       get_param env st (\<lambda>offs st.
         verify_block st (pri st) offs (\<lambda>st. verify_block st (alt st) offs (\<lambda>st.
           bindR (read_bytes (amx_mem (am st)) (sint (alt st)) (unat offs)) (\<lambda>a.
           bindR (read_bytes (amx_mem (am st)) (sint (pri st)) (unat offs)) (\<lambda>b.
             run_next (st\<lparr>pri := memcmp a b\<rparr>))))))
     else if op = OP_FILL then
       get_param env st (\<lambda>offs st.
         verify_block st (alt st) offs (\<lambda>st.
           bindR (fill_cells (amx_mem (am st)) (sint (alt st)) (unat offs div 4) (pri st)) (\<lambda>m. run_next (set_mem st m))))
     else Inl AssertFailed)"

section \<open>The host\<close>

text \<open>The registers stored for the host, and the return when it asks for sleep or reports an error.\<close>

definition save_regs :: "env \<Rightarrow> vm \<Rightarrow> amx" where
  "save_regs env st = (am st)\<lparr>amx_cip := cip st - code_base env, amx_hea := hea st, amx_frm := frm st, amx_stk := stk st,
     amx_pri := pri st, amx_alt := alt st\<rparr>"

definition host_result :: "vm \<Rightarrow> int \<Rightarrow> outcome res" where
  "host_result st num =
     (if num = AMX_ERR_NONE then run_next st
      else if num = AMX_ERR_SLEEP then
        Inr (Ret num None ((am st)\<lparr>amx_pri := pri st, amx_alt := alt st, amx_reset_stk := reset_stk st,
          amx_reset_hea := reset_hea st\<rparr>))
      else abort st num)"

definition sysreq :: "env \<Rightarrow> vm \<Rightarrow> cell \<Rightarrow> outcome res" where
  "sysreq env st index =
     (let (num, result, a) = callback env (save_regs env st) index (pri st) in
      host_result (st\<lparr>pri := result, am := a\<rparr>) num)"

definition exec_host :: "env \<Rightarrow> cell \<Rightarrow> vm \<Rightarrow> outcome res" where
  "exec_host env op st =
    (if op = OP_HALT then
       get_param env st (\<lambda>offs st.
         let st = st\<lparr>am := (am st)\<lparr>amx_frm := frm st, amx_pri := pri st, amx_alt := alt st, amx_cip := cip st - code_base env\<rparr>\<rparr> in
         if sint offs = AMX_ERR_SLEEP
         then Inr (Ret (sint offs) (Some (pri st)) ((am st)\<lparr>amx_reset_stk := reset_stk st, amx_reset_hea := reset_hea st\<rparr>))
         else (case abort st (sint offs) of
                 Inr (Ret e _ a) \<Rightarrow> Inr (Ret e (Some (pri st)) a) | r \<Rightarrow> r))
     else if op = OP_BOUNDS then
       get_param env st (\<lambda>offs st. if offs < pri st then abort st AMX_ERR_BOUNDS else run_next st)
     else if op = OP_SYSREQ_PRI then sysreq env st (pri st)
     else if op = OP_SYSREQ_C then get_param env st (\<lambda>offs st. sysreq env st offs)
     else if op = OP_SYSREQ_D then
       get_param env st (\<lambda>offs st.
         let (result, a) = native env offs (save_regs env st);
             st = st\<lparr>pri := result, am := a\<rparr> in
         if amx_error a = AMX_ERR_SLEEP then Inl Undefined
         else host_result st (amx_error a))
     else Inl AssertFailed)"

text \<open>
  In the branch for sleep of \<open>SYSREQ.D\<close> the source returns the variable \<open>num\<close>, which this
  instruction does not set; the model makes this branch \<open>Undefined\<close>.
\<close>

definition exec_break :: "env \<Rightarrow> vm \<Rightarrow> outcome res" where
  "exec_break env st =
     (assertR (amx_flags (am st) AND 0x4000 = 0)
       (if debug_set (am st)
        then let (num, a) = debug env (save_regs env st) in host_result (st\<lparr>am := a\<rparr>) num
        else run_next st))"

section \<open>The other instructions\<close>

text \<open>The search through a table of cases.\<close>

fun find_case :: "env \<Rightarrow> cell \<Rightarrow> nat \<Rightarrow> cell \<Rightarrow> cell option res" where
  "find_case env cptr 0 v = Inr None"
| "find_case env cptr (Suc n) v =
     bindR (fetch env cptr) (\<lambda>c. if c \<noteq> v then find_case env (cptr + 8) n v else Inr (Some cptr))"

definition do_switch_op :: "env \<Rightarrow> vm \<Rightarrow> outcome res" where
  "do_switch_op env st =
     bindR (fetch env (cip st)) (\<lambda>table.
       let cptr = table + 4 in
       bindR (fetch env (cptr + 4)) (\<lambda>none_matched.
       bindR (fetch env cptr) (\<lambda>num.
       bindR (find_case env (cptr + 8) (nat (sint num)) (pri st)) (\<lambda>found.
         case found of
           None \<Rightarrow> run_next (st\<lparr>cip := none_matched\<rparr>)
         | Some cptr \<Rightarrow> bindR (fetch env (cptr + 4)) (\<lambda>a. run_next (st\<lparr>cip := a\<rparr>))))))"

definition exec_misc :: "env \<Rightarrow> cell \<Rightarrow> vm \<Rightarrow> outcome res" where
  "exec_misc env op st =
    (if op = OP_LINE then skipparam st 2
     else if op = OP_SYMBOL then get_param env st (\<lambda>offs st. run_next (st\<lparr>cip := cip st + offs\<rparr>))
     else if op = OP_SRANGE then skipparam st 2
     else if op = OP_SYMTAG then skipparam st 1
     else if op = OP_JUMP_PRI then run_next (st\<lparr>cip := code_base env + pri st\<rparr>)
     else if op = OP_SWITCH then do_switch_op env st
     else if op = OP_SWAP_PRI then
       bindR (rdm st (sint (stk st))) (\<lambda>offs. wrm st (sint (stk st)) (pri st) (\<lambda>st. run_next (st\<lparr>pri := offs\<rparr>)))
     else if op = OP_SWAP_ALT then
       bindR (rdm st (sint (stk st))) (\<lambda>offs. wrm st (sint (stk st)) (alt st) (\<lambda>st. run_next (st\<lparr>alt := offs\<rparr>)))
     else if op = OP_PUSHADDR then get_param env st (\<lambda>offs st. push st (frm st + offs) run_next)
     else if op = OP_NOP then run_next st
     else Inl AssertFailed)"

section \<open>Floating point\<close>

text \<open>The operands are the first two arguments on the stack.\<close>

definition float_args :: "vm \<Rightarrow> (cell \<Rightarrow> cell \<Rightarrow> outcome res) \<Rightarrow> outcome res" where
  "float_args st k = bindR (rdm st (sint (stk st) + 4)) (\<lambda>offs. bindR (rdm st (sint (stk st) + 8)) (\<lambda>offs2. k offs offs2))"

definition exec_float :: "env \<Rightarrow> cell \<Rightarrow> vm \<Rightarrow> outcome res" where
  "exec_float env op st =
    (if op = OP_FLOAT_MUL then float_args st (\<lambda>a b. run_next (st\<lparr>pri := fl_mul env a b\<rparr>))
     else if op = OP_FLOAT_ADD then float_args st (\<lambda>a b. run_next (st\<lparr>pri := fl_add env a b\<rparr>))
     else if op = OP_FLOAT_SUB then float_args st (\<lambda>a b. run_next (st\<lparr>pri := fl_sub env a b\<rparr>))
     else if op = OP_FLOAT_DIV then float_args st (\<lambda>a b. run_next (st\<lparr>pri := fl_div env a b\<rparr>))
     else if op = OP_FLOAT_TO then bindR (rdm st (sint (stk st) + 4)) (\<lambda>a. run_next (st\<lparr>pri := fl_of env a\<rparr>))
     else if op = OP_FLOAT_ROUND then
       float_args st (\<lambda>a mode. run_next (st\<lparr>pri :=
         (if mode = 0 then fl_nearest env a else if mode = 1 then fl_floor env a else fl_ceil env a)\<rparr>))
     else if op = OP_FLOAT_CMP then
       float_args st (\<lambda>a b. run_next (st\<lparr>pri := (if fl_eq env a b then 0 else if fl_gt env a b then 1 else - 1)\<rparr>))
     else Inl AssertFailed)"

section \<open>The loop\<close>

text \<open>The cases of the switch by the range of their opcodes.\<close>

definition exec_op :: "env \<Rightarrow> cell \<Rightarrow> vm \<Rightarrow> outcome res" where
  "exec_op env op st =
    (if op \<le> OP_ADDR_ALT then exec_load env op st
     else if op \<le> OP_STRB_I then exec_store env op st
     else if op \<le> OP_SCTRL then exec_index env op st
     else if op \<le> OP_HEAP then exec_stack env op st
     else if op \<le> OP_CALL_PRI then exec_call env op st
     else if op \<le> OP_JSGEQ then exec_jump env op st
     else if op \<le> OP_UDIV_ALT then exec_muldiv env op st
     else if op \<le> OP_SIGN_ALT then exec_alu env op st
     else if op \<le> OP_EQ_C_ALT then exec_compare env op st
     else if op \<le> OP_DEC_I then exec_incdec env op st
     else if op \<le> OP_FILL then exec_block env op st
     else if op \<le> OP_SYSREQ_C \<or> op = OP_SYSREQ_D then exec_host env op st
     else if op = OP_BREAK then exec_break env st
     else if op < OP_BREAK then exec_misc env op st
     else exec_float env op st)"

definition step :: "env \<Rightarrow> vm \<Rightarrow> outcome res" where
  "step env st = bindR (fetch env (cip st)) (\<lambda>op. exec_op env op (st\<lparr>cip := cip st + 4\<rparr>))"

text \<open>The loop is bounded by the number of instructions; a run that needs more does not return.\<close>

fun exec_loop :: "env \<Rightarrow> nat \<Rightarrow> vm \<Rightarrow> (int \<times> cell option \<times> amx) res" where
  "exec_loop env 0 st = Inl NoReturn"
| "exec_loop env (Suc n) st =
     bindR (step env st) (\<lambda>r. case r of Run st \<Rightarrow> exec_loop env n st | Ret e v a \<Rightarrow> Inr (e, v, a))"

definition AMX_EXEC_MAIN :: int where "AMX_EXEC_MAIN = - 1"
definition AMX_EXEC_CONT :: int where "AMX_EXEC_CONT = - 2"

text \<open>Where the execution starts, or the error for a bad index.\<close>

definition exec_entry :: "env \<Rightarrow> amx \<Rightarrow> int \<Rightarrow> vm option" where
  "exec_entry env a index =
     (let st = \<lparr>am = a, pri = 0, alt = 0, stk = amx_stk a, frm = 0, hea = amx_hea a, cip = 0, reset_stk = amx_stk a,
        reset_hea = amx_hea a\<rparr> in
      if index = AMX_EXEC_MAIN then
        if hdr_cip env <s 0 then None else Some (st\<lparr>cip := code_base env + hdr_cip env\<rparr>)
      else if index = AMX_EXEC_CONT then
        Some (st\<lparr>frm := amx_frm a, pri := amx_pri a, alt := amx_alt a, reset_stk := amx_reset_stk a,
          reset_hea := amx_reset_hea a, cip := code_base env + amx_cip a\<rparr>)
      else if index < 0 \<or> index \<ge> int (length (publics env)) then None
      else Some (st\<lparr>cip := code_base env + publics env ! nat index\<rparr>))"

definition amx_Exec :: "env \<Rightarrow> nat \<Rightarrow> amx \<Rightarrow> int \<Rightarrow> (int \<times> cell option \<times> amx) res" where
  "amx_Exec env fuel a index =
    (if \<not> callback_set a then Inr (AMX_ERR_CALLBACK, None, a)
     else if amx_flags a AND 0x100 = 0 \<and> amx_flags a AND 0x1000 = 0 then Inr (AMX_ERR_NOTFOUND, None, a)
     else if amx_flags a AND 0x8000 = 0 then Inr (AMX_ERR_INIT, None, a)
     else assertR (amx_flags a AND 0x4000 = 0)
      (case exec_entry env a index of
         None \<Rightarrow> Inr (AMX_ERR_INDEX, None, a)
       | Some st \<Rightarrow>
           let start = (\<lambda>st. chkmargin st (\<lambda>st. Inr (Run st))) in
           bindR (chkstack st (\<lambda>st. chkheap st (\<lambda>st.
             if index = AMX_EXEC_CONT then start st
             else let n = paramcount a * 4 in
               push (st\<lparr>reset_stk := reset_stk st + n\<rparr>) n (\<lambda>st.
               push (st\<lparr>am := (am st)\<lparr>paramcount := 0\<rparr>\<rparr>) 0 start))))
             (\<lambda>r. case r of Run st \<Rightarrow> exec_loop env fuel st | Ret e v a \<Rightarrow> Inr (e, v, a))))"

end
