(* ===== verification/Amxsafe.thy ===== *)
theory Amxsafe
  imports Amxexec
begin

unbundle bit_operations_syntax

text \<open>
  What every instruction of the abstract machine leaves alone, whatever the code is: the extent
  of the memory and the registers from which the stack and the heap are reset; and what the
  tested accesses to the memory protect.
\<close>

section \<open>What the host promises\<close>

text \<open>
  Natives and the debug hook may write to the memory, but they do not resize it or move its
  limits.
\<close>

definition same_layout :: "amx \<Rightarrow> amx \<Rightarrow> bool" where
  "same_layout a b \<longleftrightarrow> length (amx_mem b) = length (amx_mem a) \<and> amx_stp b = amx_stp a \<and> amx_hlw b = amx_hlw a"

definition host_ok :: "env \<Rightarrow> bool" where
  "host_ok env \<longleftrightarrow> (\<forall>a i p. same_layout a (snd (snd (callback env a i p))))
     \<and> (\<forall>a f. same_layout a (snd (native env f a))) \<and> (\<forall>a. same_layout a (snd (debug env a)))"

lemma same_layout_trans [trans]: "same_layout a b \<Longrightarrow> same_layout b c \<Longrightarrow> same_layout a c"
  by (simp add: same_layout_def)

lemma same_layout_refl [simp]: "same_layout a a"
  by (simp add: same_layout_def)

section \<open>An invariant of all instructions\<close>

definition kept :: "vm \<Rightarrow> vm \<Rightarrow> bool" where
  "kept s st \<longleftrightarrow> same_layout (am s) (am st) \<and> reset_stk st = reset_stk s \<and> reset_hea st = reset_hea s"

text \<open>The errors that leave \<open>amx_Exec\<close> without resetting the stack and the heap.\<close>

definition unwound :: "vm \<Rightarrow> int \<Rightarrow> amx \<Rightarrow> bool" where
  "unwound s e a \<longleftrightarrow> same_layout (am s) a \<and>
     (e \<in> {AMX_ERR_STACKERR, AMX_ERR_STACKLOW, AMX_ERR_HEAPLOW, AMX_ERR_SLEEP} \<or>
      (amx_stk a = reset_stk s \<and> amx_hea a = reset_hea s))"

definition keeps :: "vm \<Rightarrow> outcome res \<Rightarrow> bool" where
  "keeps s r \<longleftrightarrow> (case r of Inl e \<Rightarrow> True | Inr (Run st) \<Rightarrow> kept s st | Inr (Ret e v a) \<Rightarrow> unwound s e a)"

named_theorems keeps_rules \<open>the invariant, by the shape of an instruction\<close>

lemma kept_refl [simp]: "kept s s"
  by (simp add: kept_def)

lemma kept_regs [simp]:
  "kept s (st\<lparr>pri := v\<rparr>) = kept s st" "kept s (st\<lparr>alt := v\<rparr>) = kept s st" "kept s (st\<lparr>stk := v\<rparr>) = kept s st"
  "kept s (st\<lparr>frm := v\<rparr>) = kept s st" "kept s (st\<lparr>hea := v\<rparr>) = kept s st" "kept s (st\<lparr>cip := v\<rparr>) = kept s st"
  by (simp_all add: kept_def)

lemma kept_am: "same_layout (am st) a \<Longrightarrow> kept s st \<Longrightarrow> kept s (st\<lparr>am := a\<rparr>)"
  by (auto simp: kept_def same_layout_def)

lemma same_layout_fields [simp]:
  "same_layout a (b\<lparr>amx_stk := v\<rparr>) = same_layout a b" "same_layout a (b\<lparr>amx_hea := v\<rparr>) = same_layout a b"
  "same_layout a (b\<lparr>amx_frm := v\<rparr>) = same_layout a b" "same_layout a (b\<lparr>amx_cip := v\<rparr>) = same_layout a b"
  "same_layout a (b\<lparr>amx_pri := v\<rparr>) = same_layout a b" "same_layout a (b\<lparr>amx_alt := v\<rparr>) = same_layout a b"
  "same_layout a (b\<lparr>amx_reset_stk := v\<rparr>) = same_layout a b" "same_layout a (b\<lparr>amx_reset_hea := v\<rparr>) = same_layout a b"
  "same_layout a (b\<lparr>paramcount := v\<rparr>) = same_layout a b"
  by (simp_all add: same_layout_def)

lemma kept_set_mem: "length m = length (amx_mem (am st)) \<Longrightarrow> kept s st \<Longrightarrow> kept s (set_mem st m)"
  by (auto simp: set_mem_def kept_def same_layout_def)

lemma keeps_Inl [keeps_rules]: "keeps s (Inl e)"
  by (simp add: keeps_def)

lemma keeps_next [keeps_rules]: "kept s st \<Longrightarrow> keeps s (run_next st)"
  by (simp add: keeps_def run_next_def)

lemma keeps_skip [keeps_rules]: "kept s st \<Longrightarrow> keeps s (skipparam st n)"
  by (simp add: keeps_def skipparam_def)

lemma keeps_abort [keeps_rules]: "kept s st \<Longrightarrow> keeps s (abort st e)"
  by (simp add: keeps_def abort_def unwound_def kept_def)

lemma keeps_bind [keeps_rules]: "(\<And>v. m = Inr v \<Longrightarrow> keeps s (f v)) \<Longrightarrow> keeps s (bindR m f)"
  by (cases m) (simp_all add: keeps_def)

lemma keeps_if [keeps_rules]: "(b \<Longrightarrow> keeps s x) \<Longrightarrow> (\<not> b \<Longrightarrow> keeps s y) \<Longrightarrow> keeps s (if b then x else y)"
  by simp

lemma keeps_let [keeps_rules]: "keeps s (f x) \<Longrightarrow> keeps s (let y = x in f y)"
  by simp

lemma keeps_get_param [keeps_rules]:
  "kept s st \<Longrightarrow> (\<And>v st'. kept s st' \<Longrightarrow> keeps s (k v st')) \<Longrightarrow> keeps s (get_param env st k)"
  unfolding get_param_def by (rule keeps_bind) simp

lemma keeps_verify [keeps_rules]:
  "kept s st \<Longrightarrow> (\<And>st'. kept s st' \<Longrightarrow> keeps s (k st')) \<Longrightarrow> keeps s (verify st b k)"
  unfolding verify_def by (auto intro: keeps_rules)

lemma keeps_wrm [keeps_rules]:
  "kept s st \<Longrightarrow> (\<And>st'. kept s st' \<Longrightarrow> keeps s (k st')) \<Longrightarrow> keeps s (wrm st a v k)"
  unfolding wrm_def by (rule keeps_bind) (auto dest: length_wr intro: kept_set_mem)

lemma keeps_push [keeps_rules]:
  "kept s st \<Longrightarrow> (\<And>st'. kept s st' \<Longrightarrow> keeps s (k st')) \<Longrightarrow> keeps s (push st v k)"
  unfolding push_def by (rule keeps_wrm) simp_all

lemma keeps_pop [keeps_rules]:
  "kept s st \<Longrightarrow> (\<And>v st'. kept s st' \<Longrightarrow> keeps s (k v st')) \<Longrightarrow> keeps s (pop st k)"
  unfolding pop_def by (rule keeps_bind) simp

lemma keeps_checks [keeps_rules]:
  assumes "kept s st" "\<And>st'. kept s st' \<Longrightarrow> keeps s (k st')"
  shows "keeps s (chkmargin st k)" "keeps s (chkstack st k)" "keeps s (chkheap st k)"
  using assms by (auto simp: chkmargin_def chkstack_def chkheap_def keeps_def unwound_def kept_def)

lemma keeps_push_times [keeps_rules]: "kept s st \<Longrightarrow> keeps s (push_times n st)"
  by (induction n arbitrary: st) (auto intro: keeps_rules)

lemma length_fill_cells: "fill_cells m i n v = Inr m' \<Longrightarrow> length m' = length m"
  by (induction m i n v rule: fill_cells.induct) (auto simp: bindR_Inr_iff dest: length_wr)

lemma length_write_bytes: "write_bytes m a bs = Inr m' \<Longrightarrow> length m' = length m"
  by (auto simp: write_bytes_iff inside_def)

lemma keeps_fill [keeps_rules]:
  "kept s st \<Longrightarrow> keeps s (bindR (fill_cells (amx_mem (am st)) i n v) (\<lambda>m. run_next (set_mem st m)))"
  by (rule keeps_bind) (auto dest: length_fill_cells intro: keeps_next kept_set_mem)

lemma keeps_write [keeps_rules]:
  "kept s st \<Longrightarrow> keeps s (bindR (write_bytes (amx_mem (am st)) i bs) (\<lambda>m. run_next (set_mem st m)))"
  by (rule keeps_bind) (auto dest: length_write_bytes intro: keeps_next kept_set_mem)

lemmas keeps_helpers = load_pri_def load_alt_def index_addr_def return_to_def jumpabs_def jump_if_def floor_divide_def
  udivide_def shifted_def truth_def add_at_def verify_block_def float_args_def

lemma exec_load_keeps: "kept s st \<Longrightarrow> keeps s (exec_load env op st)"
  unfolding exec_load_def keeps_helpers by (intro keeps_rules) simp_all

lemma exec_store_keeps: "kept s st \<Longrightarrow> keeps s (exec_store env op st)"
  unfolding exec_store_def keeps_helpers by (intro keeps_rules) simp_all

lemma exec_index_keeps: "kept s st \<Longrightarrow> keeps s (exec_index env op st)"
  unfolding exec_index_def keeps_helpers by (intro keeps_rules) simp_all

lemma exec_stack_keeps: "kept s st \<Longrightarrow> keeps s (exec_stack env op st)"
  unfolding exec_stack_def keeps_helpers by (intro keeps_rules) simp_all

lemma exec_call_keeps: "kept s st \<Longrightarrow> keeps s (exec_call env op st)"
  unfolding exec_call_def keeps_helpers by (intro keeps_rules) (simp_all add: kept_def)

lemma exec_jump_keeps: "kept s st \<Longrightarrow> keeps s (exec_jump env op st)"
  unfolding exec_jump_def keeps_helpers by (intro keeps_rules) simp_all

lemma exec_muldiv_keeps: "kept s st \<Longrightarrow> keeps s (exec_muldiv env op st)"
  unfolding exec_muldiv_def keeps_helpers by (intro keeps_rules) simp_all

lemma exec_alu_keeps: "kept s st \<Longrightarrow> keeps s (exec_alu env op st)"
  unfolding exec_alu_def keeps_helpers by (intro keeps_rules) simp_all

lemma exec_compare_keeps: "kept s st \<Longrightarrow> keeps s (exec_compare env op st)"
  unfolding exec_compare_def keeps_helpers by (intro keeps_rules) simp_all

lemma exec_incdec_keeps: "kept s st \<Longrightarrow> keeps s (exec_incdec env op st)"
  unfolding exec_incdec_def keeps_helpers by (intro keeps_rules) simp_all

lemma exec_block_keeps: "kept s st \<Longrightarrow> keeps s (exec_block env op st)"
  unfolding exec_block_def keeps_helpers by (intro keeps_rules) simp_all

lemma exec_float_keeps: "kept s st \<Longrightarrow> keeps s (exec_float env op st)"
  unfolding exec_float_def keeps_helpers by (intro keeps_rules) simp_all

lemma do_switch_keeps: "kept s st \<Longrightarrow> keeps s (do_switch_op env st)"
  unfolding do_switch_op_def by (intro keeps_rules) (auto split: option.split intro!: keeps_rules)

lemma exec_misc_keeps: "kept s st \<Longrightarrow> keeps s (exec_misc env op st)"
  unfolding exec_misc_def by (intro keeps_rules do_switch_keeps) simp_all

lemma save_regs_layout [simp]: "same_layout (am st) (save_regs env st)"
  by (simp add: save_regs_def)

lemma host_result_keeps [keeps_rules]: "kept s st \<Longrightarrow> keeps s (host_result st num)"
  by (auto simp: host_result_def keeps_def unwound_def kept_def abort_def run_next_def)

lemma sysreq_keeps [keeps_rules]: "host_ok env \<Longrightarrow> kept s st \<Longrightarrow> keeps s (sysreq env st i)"
proof -
  assume h: "host_ok env" "kept s st"
  obtain num r a where c: "callback env (save_regs env st) i (pri st) = (num, r, a)" by (metis prod_cases3)
  have "same_layout (save_regs env st) a" using h(1) c unfolding host_ok_def by (metis snd_conv)
  then have "same_layout (am st) a" using same_layout_trans save_regs_layout by blast
  then have "kept s (st\<lparr>pri := r, am := a\<rparr>)" using kept_am [of "st\<lparr>pri := r\<rparr>" a s] h(2) by simp
  then show ?thesis by (simp add: sysreq_def c host_result_keeps)
qed

lemma exec_host_keeps: "host_ok env \<Longrightarrow> kept s st \<Longrightarrow> keeps s (exec_host env op st)"
proof -
  assume h: "host_ok env" "kept s st"
  have halt: "keeps s (let st = st'\<lparr>am := (am st')\<lparr>amx_frm := frm st', amx_pri := pri st', amx_alt := alt st',
        amx_cip := cip st' - code_base env\<rparr>\<rparr> in
      if sint v = 12 then Inr (Ret (sint v) (Some (pri st)) ((am st)\<lparr>amx_reset_stk := reset_stk st, amx_reset_hea := reset_hea st\<rparr>))
      else (case abort st (sint v) of Inr (Ret e _ a) \<Rightarrow> Inr (Ret e (Some (pri st)) a) | r \<Rightarrow> r))"
    if "kept s st'" for v st'
    using that by (auto simp: keeps_def unwound_def kept_def abort_def Let_def)
  have d: "keeps s (let (result, a) = native env v (save_regs env st'); st = st'\<lparr>pri := result, am := a\<rparr> in
      if amx_error a = 12 then Inl Undefined else host_result st (amx_error a))" if k: "kept s st'" for v st'
  proof -
    obtain r a where c: "native env v (save_regs env st') = (r, a)" by (metis surj_pair)
    have "same_layout (save_regs env st') a" using h(1) c unfolding host_ok_def by (metis snd_conv)
    then have "same_layout (am st') a" using same_layout_trans save_regs_layout by blast
    then have "kept s (st'\<lparr>pri := r, am := a\<rparr>)" using kept_am [of "st'\<lparr>pri := r\<rparr>" a s] k by simp
    then show ?thesis by (simp add: c host_result_keeps keeps_Inl)
  qed
  show ?thesis unfolding exec_host_def
    by (rule keeps_if keeps_get_param halt d sysreq_keeps keeps_abort keeps_next keeps_Inl h | assumption | simp)+
qed

lemma exec_break_keeps: "host_ok env \<Longrightarrow> kept s st \<Longrightarrow> keeps s (exec_break env st)"
proof -
  assume h: "host_ok env" "kept s st"
  obtain n a where c: "debug env (save_regs env st) = (n, a)" by (metis surj_pair)
  have "same_layout (save_regs env st) a" using h(1) c unfolding host_ok_def by (metis snd_conv)
  then have "same_layout (am st) a" using same_layout_trans save_regs_layout by blast
  then have "kept s (st\<lparr>am := a\<rparr>)" using kept_am h(2) by blast
  then show ?thesis using h(2)
    by (cases "amx_flags (am st) AND 0x4000 = 0") (auto simp: exec_break_def c intro: keeps_rules)
qed

lemma exec_op_keeps: "host_ok env \<Longrightarrow> kept s st \<Longrightarrow> keeps s (exec_op env op st)"
  unfolding exec_op_def
  by (intro keeps_if exec_load_keeps exec_store_keeps exec_index_keeps exec_stack_keeps exec_call_keeps exec_jump_keeps
    exec_muldiv_keeps exec_alu_keeps exec_compare_keeps exec_incdec_keeps exec_block_keeps exec_host_keeps exec_break_keeps
    exec_misc_keeps exec_float_keeps)

lemma step_keeps: "host_ok env \<Longrightarrow> kept s st \<Longrightarrow> keeps s (step env st)"
  unfolding step_def by (rule keeps_bind) (simp add: exec_op_keeps)

lemma exec_loop_keeps:
  "exec_loop env n st = Inr (e, v, a) \<Longrightarrow> host_ok env \<Longrightarrow> kept s st \<Longrightarrow> unwound s e a"
proof (induction n arbitrary: st)
  case (Suc n)
  have k: "keeps s (step env st)" using step_keeps Suc.prems(2,3) .
  obtain r where r: "step env st = Inr r" "(case r of Run st \<Rightarrow> exec_loop env n st | Ret e v a \<Rightarrow> Inr (e, v, a)) = Inr (e, v, a)"
    using Suc.prems(1) by (auto simp: bindR_Inr_iff)
  show ?case
  proof (cases r)
    case (Run st')
    then show ?thesis using Suc.IH [of st'] Suc.prems(2) r k by (simp add: keeps_def)
  next
    case (Ret e' v' a')
    then show ?thesis using r k by (simp add: keeps_def)
  qed
qed simp

section \<open>Whole executions\<close>

lemma exec_entry_fields:
  "exec_entry env a index = Some st \<Longrightarrow> am st = a \<and> stk st = amx_stk a \<and> hea st = amx_hea a \<and>
    (index \<noteq> AMX_EXEC_CONT \<longrightarrow> reset_stk st = amx_stk a \<and> reset_hea st = amx_hea a)"
  by (auto simp: exec_entry_def Let_def split: if_splits)

text \<open>
  C8: What an execution of a function leaves behind, whatever the code does, with any natives that
  keep to the layout of the memory.  The memory always keeps its size and its limits.  Either the execution did not
  start and changed nothing, or the stack pointer is the old one without the pushed parameters and
  the heap pointer is the old one, with two exceptions: the machine went to sleep, to be continued; or one of the tests
  \<open>CHKMARGIN\<close>, \<open>CHKSTACK\<close>, \<open>CHKHEAP\<close> of the stack and the heap failed, which leave the function without
  resetting them (\<open>amx_Exec_margin_leaks\<close>).
\<close>

theorem amx_Exec_unwinds:
  assumes "amx_Exec env fuel a index = Inr (e, v, b)" "host_ok env" "index \<ge> AMX_EXEC_MAIN"
  shows "same_layout a b \<and> (b = a \<or> amx_stk b = amx_stk a + paramcount a * 4 \<and> amx_hea b = amx_hea a
    \<or> e \<in> {AMX_ERR_STACKERR, AMX_ERR_STACKLOW, AMX_ERR_HEAPLOW, AMX_ERR_SLEEP})"
proof (cases "exec_entry env a index")
  case None
  then show ?thesis using assms(1) by (auto simp: amx_Exec_def assertR_Inr_iff split: if_splits)
next
  case (Some st)
  note f = exec_entry_fields [OF Some]
  have nc: "index \<noteq> AMX_EXEC_CONT" using assms(3) by (simp add: AMX_EXEC_MAIN_def AMX_EXEC_CONT_def)
  let ?s = "st\<lparr>reset_stk := reset_stk st + paramcount a * 4\<rparr>"
  let ?start = "\<lambda>st. chkmargin st (\<lambda>st. Inr (Run st))"
  let ?go = "\<lambda>st. push (st\<lparr>reset_stk := reset_stk st + paramcount a * 4\<rparr>) (paramcount a * 4)
    (\<lambda>x. push (x\<lparr>am := (am x)\<lparr>paramcount := 0\<rparr>\<rparr>) 0 ?start)"
  have k0: "keeps ?s (?start x)" if "kept ?s x" for x
    using keeps_checks(1) [OF that, of "\<lambda>st. Inr (Run st)"] by (simp add: keeps_def)
  have k1: "keeps ?s (push (x\<lparr>am := (am x)\<lparr>paramcount := 0\<rparr>\<rparr>) 0 ?start)" if "kept ?s x" for x
    using that k0 by (intro keeps_push kept_am) simp_all
  have k: "keeps ?s (?go st)" by (rule keeps_push) (simp, rule k1, simp)
  show ?thesis
  proof (cases "e \<in> {AMX_ERR_CALLBACK, AMX_ERR_NOTFOUND, AMX_ERR_INIT} \<and> b = a")
    case True
    then show ?thesis by simp
  next
    case False
    then obtain r where r: "chkstack st (\<lambda>st. chkheap st ?go) = Inr r"
        "(case r of Run st \<Rightarrow> exec_loop env fuel st | Ret e v a \<Rightarrow> Inr (e, v, a)) = Inr (e, v, b)"
      using assms(1) Some nc by (auto simp: amx_Exec_def assertR_Inr_iff bindR_Inr_iff Let_def split: if_splits)
    have "keeps ?s (Inr r) \<or> (\<exists>e v. r = Ret e v a)"
      using r(1) k f by (auto simp: chkstack_def chkheap_def split: if_splits)
    then consider "keeps ?s (Inr r)" | "b = a" using r(2) by auto
    then show ?thesis
    proof cases
      case 1
      then have "unwound ?s e b"
        using r(2) exec_loop_keeps [of env fuel _ e v b ?s] assms(2) by (cases r) (auto simp: keeps_def)
      then show ?thesis using f nc by (auto simp: unwound_def)
    qed simp
  qed
qed

text \<open>A machine ready to run the code it is given, on a host whose natives do nothing.\<close>

definition sample_env :: "cell list \<Rightarrow> env" where
  "sample_env prog = \<lparr>code = concat (map cell_le prog), code_base = 0x1000, hdr_cod = 0, hdr_dat = word_of_nat (4 * length prog),
     hdr_cip = 0, publics = [], callback = (\<lambda>a i p. (AMX_ERR_NONE, p, a)), native = (\<lambda>f a. (0, a)), debug = (\<lambda>a. (AMX_ERR_NONE, a)),
     fl_mul = (\<lambda>a b. 0), fl_add = (\<lambda>a b. 0), fl_sub = (\<lambda>a b. 0), fl_div = (\<lambda>a b. 0), fl_of = (\<lambda>a. 0),
     fl_nearest = (\<lambda>a. 0), fl_floor = (\<lambda>a. 0), fl_ceil = (\<lambda>a. 0), fl_eq = (\<lambda>a b. True), fl_gt = (\<lambda>a b. False)\<rparr>"

definition ready_machine :: amx where
  "ready_machine = sample_machine\<lparr>amx_flags := 0x9000\<rparr>"

theorem amx_Exec_unwinds_witness:
  "\<exists>b. amx_Exec (sample_env [OP_CONST_PRI, 7, OP_PUSH_PRI, OP_HALT, 0]) 5 ready_machine AMX_EXEC_MAIN = Inr (AMX_ERR_NONE, Some 7, b)
    \<and> (b = ready_machine \<or> amx_stk b = amx_stk ready_machine + paramcount ready_machine * 4)"
proof -
  let ?e = "sample_env [OP_CONST_PRI, 7, OP_PUSH_PRI, OP_HALT, 0]"
  have "case amx_Exec ?e 5 ready_machine AMX_EXEC_MAIN of Inl e \<Rightarrow> False | Inr (e, v, b) \<Rightarrow> e = AMX_ERR_NONE \<and> v = Some 7" by code_simp
  then obtain b where b: "amx_Exec ?e 5 ready_machine AMX_EXEC_MAIN = Inr (AMX_ERR_NONE, Some 7, b)"
    by (auto split: sum.splits)
  have h: "host_ok ?e" by (simp add: host_ok_def sample_env_def)
  show ?thesis using amx_Exec_unwinds [OF b h] b by auto
qed

text \<open>
  A machine with one parameter pushed and its stack pointer close to the heap: \<open>amx_Exec\<close> fails the first test of the
  margin.  The parameter is still on the stack, and as \<open>paramcount\<close> is cleared nobody knows of
  it any more; so it stays with every further call.
\<close>

definition full_machine :: amx where
  "full_machine = ready_machine\<lparr>amx_stk := amx_hea ready_machine + STKMARGIN, paramcount := 1\<rparr>"

lemma amx_Exec_margin_leaks:
  "\<exists>b. amx_Exec (sample_env [OP_HALT, 0]) 5 full_machine AMX_EXEC_MAIN = Inr (AMX_ERR_STACKERR, None, b)
    \<and> amx_stk b = amx_stk full_machine \<and> paramcount b = 0 \<and> amx_stk b \<noteq> amx_stk full_machine + paramcount full_machine * 4"
proof -
  have "case amx_Exec (sample_env [OP_HALT, 0]) 5 full_machine AMX_EXEC_MAIN of Inl e \<Rightarrow> False
    | Inr (e, v, b) \<Rightarrow> e = AMX_ERR_STACKERR \<and> v = None \<and> amx_stk b = amx_stk full_machine \<and> paramcount b = 0
        \<and> amx_stk b \<noteq> amx_stk full_machine + paramcount full_machine * 4" by code_simp
  then show ?thesis by (auto split: sum.splits)
qed

section \<open>Tested accesses\<close>

text \<open>Heap below stack below top, all at cell boundaries, and the memory ends at the top.\<close>

definition sane :: "vm \<Rightarrow> bool" where
  "sane st \<longleftrightarrow> 0 \<le> sint (hea st) \<and> sint (hea st) \<le> sint (stk st) \<and> sint (stk st) \<le> sint (amx_stp (am st))
     \<and> sint (amx_stp (am st)) = int (length (amx_mem (am st)))
     \<and> 4 dvd sint (hea st) \<and> 4 dvd sint (stk st) \<and> 4 dvd sint (amx_stp (am st))"

text \<open>An address that passes the test lies in the used parts of the memory.\<close>

lemma good_addr:
  assumes "sane st" "\<not> bad_addr st a"
  shows "0 \<le> sint a" "sint a < sint (amx_stp (am st))" "sint a < sint (hea st) \<or> sint (stk st) \<le> sint a"
proof -
  have t: "0 \<le> sint (amx_stp (am st))" using assms(1) by (auto simp: sane_def)
  then have u: "uint (amx_stp (am st)) = sint (amx_stp (am st))" by (rule uint_sint_pos)
  have l: "uint a < uint (amx_stp (am st))" using assms(2) by (simp add: bad_addr_def word_le_def)
  then have "uint a < 2 ^ 31" using u sint_bounds(2) [of "amx_stp (am st)"] by simp
  then have a: "sint a = uint a" by (rule sint_uint_small)
  then show "0 \<le> sint a" "sint a < sint (amx_stp (am st))" using l u by simp_all
  show "sint a < sint (hea st) \<or> sint (stk st) \<le> sint a"
    using assms(2) by (auto simp: bad_addr_def word_sle_eq word_sless_alt)
qed

lemma good_cell:
  assumes "sane st" "\<not> bad_addr st a" "4 dvd sint a"
  shows "sint a + 4 \<le> sint (amx_stp (am st))" "sint a + 4 \<le> sint (hea st) \<or> sint (stk st) \<le> sint a"
    "inside (amx_mem (am st)) (sint a) 4"
proof -
  note g = good_addr [OF assms(1,2)]
  have up: "x + 4 \<le> y" if "x < y" "4 dvd x" "4 dvd y" for x y :: int
    using zdvd_imp_le [of 4 "y - x"] that by (simp add: dvd_diff)
  have d: "4 dvd sint (amx_stp (am st))" using assms(1) unfolding sane_def by blast
  show e: "sint a + 4 \<le> sint (amx_stp (am st))" using up [OF g(2) assms(3) d] .
  show "sint a + 4 \<le> sint (hea st) \<or> sint (stk st) \<le> sint a" using up g(3) assms(1,3) by (auto simp: sane_def)
  show "inside (amx_mem (am st)) (sint a) 4" using e g(1) assms(1) by (simp add: inside_def sane_def)
qed

text \<open>
  C9: Memory safety of the indirect store: on a machine whose limits are cell boundaries, storing
  through an aligned address never leaves the memory; either it is refused with the error for an
  invalid access and nothing is written, or the cell has the new value, every other cell its
  old one, and no byte between the heap and the stack was touched.
\<close>

theorem stor_i_safe:
  assumes "sane st" "4 dvd sint (alt st)"
  shows "(\<exists>b. exec_op env OP_STOR_I st = Inr (Ret AMX_ERR_MEMACCESS None b) \<and> amx_mem b = amx_mem (am st))
    \<or> (\<exists>st'. exec_op env OP_STOR_I st = Inr (Run st') \<and> rdm st' (sint (alt st)) = Inr (pri st)
        \<and> (\<forall>p. p + 4 \<le> sint (alt st) \<or> sint (alt st) + 4 \<le> p \<longrightarrow> rdm st' p = rdm st p)
        \<and> (\<forall>p n. sint (hea st) \<le> p \<and> p + int n \<le> sint (stk st) \<longrightarrow>
             read_bytes (amx_mem (am st')) p n = read_bytes (amx_mem (am st)) p n))"
proof (cases "bad_addr st (alt st)")
  case True
  then show ?thesis by (simp add: exec_op_def exec_store_def verify_def abort_def)
next
  case False
  note g = good_cell [OF assms(1) False assms(2)]
  obtain m where m: "wr_cell (amx_mem (am st)) (sint (alt st)) (pri st) = Inr m" using wr_inside [OF g(3)] by blast
  have w: "write_bytes (amx_mem (am st)) (sint (alt st)) (cell_le (pri st)) = Inr m" using m by (simp add: wr_cell_def)
  have "exec_op env OP_STOR_I st = Inr (Run (set_mem st m))"
    using False m by (simp add: exec_op_def exec_store_def verify_def wrm_def run_next_def)
  moreover have "read_bytes m p n = read_bytes (amx_mem (am st)) p n"
    if "sint (hea st) \<le> p \<and> p + int n \<le> sint (stk st)" for p n
    using read_write_other [OF w, of p n] g(2) that by auto
  ultimately show ?thesis
    using rd_wr_same [OF m] rd_wr_other [OF m] by (auto simp: rdm_def set_mem_def)
qed

definition sample_vm :: vm where
  "sample_vm = \<lparr>am = sample_machine, pri = 5, alt = 4, stk = 200, frm = 0, hea = 8, cip = 0x1000, reset_stk = 200, reset_hea = 8\<rparr>"

theorem stor_i_safe_witness:
  "sane sample_vm \<and> (\<exists>st'. exec_op (sample_env []) OP_STOR_I sample_vm = Inr (Run st') \<and> rdm st' 4 = Inr 5)"
proof -
  have s: "sane sample_vm" "4 dvd sint (alt sample_vm)" by (simp_all add: sane_def sample_vm_def sample_machine_def)
  have "\<not> bad_addr sample_vm (alt sample_vm)" by (simp add: bad_addr_def sample_vm_def sample_machine_def)
  then have "\<not> (\<exists>b. exec_op (sample_env []) OP_STOR_I sample_vm = Inr (Ret AMX_ERR_MEMACCESS None b))"
    by (simp add: exec_op_def exec_store_def verify_def wrm_def run_next_def bindR_def split: sum.split)
  then have "\<exists>st'. exec_op (sample_env []) OP_STOR_I sample_vm = Inr (Run st') \<and> rdm st' (sint (alt sample_vm)) = Inr (pri sample_vm)"
    using stor_i_safe [OF s, of "sample_env []"] by blast
  then show ?thesis using s by (simp add: sample_vm_def)
qed

text \<open>
  Unaligned addresses: the test looks at the first byte only, so loading through an address
  less than a cell below the top of the stack passes the test and reads beyond the memory.
\<close>

lemma load_i_unaligned:
  "exec_op (sample_env []) OP_LOAD_I (sample_vm\<lparr>pri := 198, stk := 148\<rparr>) = Inl OutOfBounds
    \<and> \<not> bad_addr (sample_vm\<lparr>pri := 198, stk := 148\<rparr>) 198"
  by code_simp

end
