(* ===== verification/Folding.thy ===== *)
theory Folding
  imports Codegen Account Opcodes Amxsafe
begin

unbundle bit_operations_syntax

text \<open>
  Operators at compile time and at run time: \<open>calc\<close> of \<open>sc3.c\<close>, which folds constant
  expressions, against the code that \<open>sc4.c\<close> generates for the same operator, assembled with the
  table of \<open>sc6.c\<close> and executed by the abstract machine of \<open>amxmodx/amx.cpp\<close>.
\<close>

section \<open>The operators\<close>

text \<open>The table \<open>op1\<close>.\<close>

datatype oper = Os_mult | Os_div | Os_mod | Ob_add | Ob_sub | Ob_sal | Os_sar | Ou_sar | Ob_and | Ob_xor | Ob_or
  | Os_le | Os_ge | Os_lt | Os_gt | Ob_eq | Ob_ne

fun oper_emitter :: "oper \<Rightarrow> emitter" where
  "oper_emitter Os_mult = os_mult" | "oper_emitter Os_div = os_div" | "oper_emitter Os_mod = os_mod"
| "oper_emitter Ob_add = ob_add" | "oper_emitter Ob_sub = ob_sub"
| "oper_emitter Ob_sal = ob_sal" | "oper_emitter Os_sar = os_sar" | "oper_emitter Ou_sar = ou_sar"
| "oper_emitter Ob_and = ob_and" | "oper_emitter Ob_xor = ob_xor" | "oper_emitter Ob_or = ob_or"
| "oper_emitter Os_le = os_le" | "oper_emitter Os_ge = os_ge" | "oper_emitter Os_lt = os_lt" | "oper_emitter Os_gt = os_gt"
| "oper_emitter Ob_eq = ob_eq" | "oper_emitter Ob_ne = ob_ne"

definition relational :: "oper \<Rightarrow> bool" where "relational op \<longleftrightarrow> op \<in> {Os_le, Os_ge, Os_lt, Os_gt}"

definition commutative :: "oper \<Rightarrow> bool" where
  "commutative op \<longleftrightarrow> op = Ob_add \<or> op = Os_mult \<or> op = Ob_eq \<or> op = Ob_ne \<or> op = Ob_and \<or> op = Ob_xor \<or> op = Ob_or"

text \<open>Division by zero, the overflowing division and overlong shifts are undefined in C.\<close>

definition truemodulus :: "cell \<Rightarrow> cell \<Rightarrow> cell res" where
  "truemodulus a b = (if b = 0 \<or> div_overflow a b then Inl Undefined else Inr (c_rem (c_rem a b + b) b))"

definition calc_shift :: "cell \<Rightarrow> cell \<Rightarrow> bool \<Rightarrow> (cell \<times> bool) res" where
  "calc_shift n v b = (if n < 32 then Inr (v, b) else Inl Undefined)"

text \<open>The folded value and the new \<open>boolresult\<close> of chained comparisons.\<close>

definition calc :: "cell \<Rightarrow> oper \<Rightarrow> cell \<Rightarrow> bool \<Rightarrow> (cell \<times> bool) res" where
  "calc left op right b =
    (case op of
       Ob_or \<Rightarrow> Inr (left OR right, b)
     | Ob_xor \<Rightarrow> Inr (left XOR right, b)
     | Ob_and \<Rightarrow> Inr (left AND right, b)
     | Ob_eq \<Rightarrow> Inr (of_bool (left = right), b)
     | Ob_ne \<Rightarrow> Inr (of_bool (left \<noteq> right), b)
     | Os_le \<Rightarrow> Inr (right, b \<and> left \<le>s right)
     | Os_ge \<Rightarrow> Inr (right, b \<and> right \<le>s left)
     | Os_lt \<Rightarrow> Inr (right, b \<and> left <s right)
     | Os_gt \<Rightarrow> Inr (right, b \<and> right <s left)
     | Os_sar \<Rightarrow> calc_shift right (signed_drop_bit (unat right) left) b
     | Ou_sar \<Rightarrow> calc_shift right (drop_bit (unat right) left) b
     | Ob_sal \<Rightarrow> calc_shift right (push_bit (unat right) left) b
     | Ob_add \<Rightarrow> Inr (left + right, b)
     | Ob_sub \<Rightarrow> Inr (left - right, b)
     | Os_mult \<Rightarrow> Inr (left * right, b)
     | Os_div \<Rightarrow> bindR (truemodulus left right) (\<lambda>m.
         if div_overflow (left - m) right then Inl Undefined else Inr (c_div (left - m) right, b))
     | Os_mod \<Rightarrow> bindR (truemodulus left right) (\<lambda>m. Inr (m, b)))"

section \<open>The generated code\<close>

text \<open>The instructions an operator is compiled to.\<close>

fun oper_code :: "oper \<Rightarrow> string list" where
  "oper_code Os_mult = [''smul'']" | "oper_code Os_div = [''sdiv.alt'']" | "oper_code Os_mod = [''sdiv.alt'', ''move.pri'']"
| "oper_code Ob_add = [''add'']" | "oper_code Ob_sub = [''sub.alt'']"
| "oper_code Ob_sal = [''xchg'', ''shl'']" | "oper_code Os_sar = [''xchg'', ''sshr'']" | "oper_code Ou_sar = [''xchg'', ''shr'']"
| "oper_code Ob_and = [''and'']" | "oper_code Ob_xor = [''xor'']" | "oper_code Ob_or = [''or'']"
| "oper_code Os_le = [''xchg'', ''sleq'']" | "oper_code Os_ge = [''xchg'', ''sgeq'']"
| "oper_code Os_lt = [''xchg'', ''sless'']" | "oper_code Os_gt = [''xchg'', ''sgrtr'']"
| "oper_code Ob_eq = [''eq'']" | "oper_code Ob_ne = [''neq'']"

text \<open>The opcode the assembler finds for a name.\<close>

definition assembled :: "string \<Rightarrow> cell" where
  "assembled name = (case findopcode name (length name) of Inl e \<Rightarrow> 0 | Inr i \<Rightarrow> op_code (opcodelist ! i))"

text \<open>Executing instructions without parameters one after the other.\<close>

fun exec_ops :: "env \<Rightarrow> cell list \<Rightarrow> vm \<Rightarrow> outcome res" where
  "exec_ops env [] st = run_next st"
| "exec_ops env (op # ops) st = bindR (exec_op env op st) (\<lambda>r. case r of Run st \<Rightarrow> exec_ops env ops st | Ret e v a \<Rightarrow> Inr r)"

lemma oper_emitter_lines:
  "oper_emitter op = run (map (wr \<circ> ln) (oper_code op) @ [grow (length (oper_code op)) 0])"
  by (cases op) (simp_all add: os_mult_def os_div_def os_mod_def ob_add_def ob_sub_def ob_sal_def os_sar_def ou_sar_def
    ob_and_def ob_xor_def ob_or_def os_le_def os_ge_def os_lt_def os_gt_def ob_eq_def ob_ne_def numeral_2_eq_2)

lemma run_lines_emitted:
  "run (map (wr \<circ> ln) ns @ [grow k 0]) st = Inr st' \<Longrightarrow> writing st \<Longrightarrow> list_all (\<lambda>n. plain_text (ln n)) ns \<Longrightarrow>
    emitted st' = emitted st @ concat (map ln ns)"
proof (induction ns arbitrary: st)
  case Nil
  then show ?case by (auto simp: grow_def emitted_def stg_text_def split: option.split)
next
  case (Cons n ns)
  obtain st1 where st1: "wr (ln n) st = Inr st1" "run (map (wr \<circ> ln) ns @ [grow k 0]) st1 = Inr st'"
    using Cons.prems(1) by (auto simp: bindR_Inr_iff comp_def)
  have "writing st1 \<and> emitted st1 = emitted st @ ln n" using stgwrite_emitted [of st "ln n" st1] st1(1) Cons.prems by (simp add: wr_def)
  then show ?case using Cons.IH [OF st1(2)] Cons.prems(3) by simp
qed

lemma oper_code_plain: "list_all (\<lambda>n. plain_text (ln n)) (oper_code op)"
  by (cases op) (simp_all add: ln_def)

lemma assembled_values:
  "assembled ''smul'' = OP_SMUL" "assembled ''sdiv.alt'' = OP_SDIV_ALT" "assembled ''move.pri'' = OP_MOVE_PRI"
  "assembled ''add'' = OP_ADD" "assembled ''sub.alt'' = OP_SUB_ALT" "assembled ''xchg'' = OP_XCHG" "assembled ''shl'' = OP_SHL"
  "assembled ''sshr'' = OP_SSHR" "assembled ''shr'' = OP_SHR" "assembled ''and'' = OP_AND" "assembled ''xor'' = OP_XOR"
  "assembled ''or'' = OP_OR" "assembled ''sleq'' = OP_SLEQ" "assembled ''sgeq'' = OP_SGEQ" "assembled ''sless'' = OP_SLESS"
  "assembled ''sgrtr'' = OP_SGRTR" "assembled ''eq'' = OP_EQ" "assembled ''neq'' = OP_NEQ" "assembled ''push.pri'' = OP_PUSH_PRI"
  "assembled ''swap.alt'' = OP_SWAP_ALT" "assembled ''pop.alt'' = OP_POP_ALT"
  by code_simp+

section \<open>Folding and execution agree\<close>

text \<open>
  What the code of an operator must do, with the left operand in \<open>ALT\<close> and the right one in
  \<open>PRI\<close>: the value of a comparison is its truth, and it leaves the right operand in \<open>ALT\<close> for
  the next comparison of a chain; a division by zero stops the machine.
\<close>

definition expected :: "oper \<Rightarrow> vm \<Rightarrow> outcome res" where
  "expected op st =
     (if op \<in> {Os_div, Os_mod} \<and> pri st = 0 then abort st AMX_ERR_DIVIDE
      else bindR (calc (alt st) op (pri st) True) (\<lambda>(v, b).
        if relational op then run_next (st\<lparr>pri := of_bool b, alt := v\<rparr>)
        else run_next (st\<lparr>pri := v, alt :=
          (if op \<in> {Os_div, Os_mod} then c_rem (c_rem (alt st) (pri st) + pri st) (pri st)
           else if op \<in> {Ob_sal, Os_sar, Ou_sar} then pri st else alt st)\<rparr>)))"

lemma c_rem_minus_1: "c_rem a (- 1) = 0"
  by (simp add: c_rem_def signed_modulo_int_def)

text \<open>The division behind the remainder overflows only if the first division did.\<close>

lemma div_overflow_rem: "div_overflow (a - c_rem (c_rem a b + b) b) b \<Longrightarrow> div_overflow a b"
  by (auto simp: div_overflow_def c_rem_minus_1)

lemma expected_code: "exec_ops env (map assembled (oper_code op)) st = expected op st"
  using div_overflow_rem [of "alt st" "pri st"]
  by (cases op) (auto simp: expected_def assembled_values exec_op_def exec_muldiv_def exec_alu_def exec_compare_def exec_stack_def
    truth_def floor_divide_def shifted_def calc_shift_def run_next_def calc_def truemodulus_def relational_def Let_def abort_def
    and.commute or.commute xor.commute)

text \<open>
  C10: Constant folding agrees with execution, for each of the 17 binary operators: the code
  generator writes exactly the instructions listed for the operator; assembled and executed with
  the left operand in \<open>ALT\<close> and the right one in \<open>PRI\<close>, they leave in \<open>PRI\<close> the value \<open>calc\<close>
  folds the two constants to (for comparisons, their truth value), change no other part of the
  machine but \<open>ALT\<close>, and stop with an error exactly for a division by zero, for which \<open>calc\<close> has
  no defined result.
\<close>

theorem calc_agrees_with_code:
  assumes "oper_emitter op st = Inr st'" "writing st"
  shows "emitted st' = emitted st @ concat (map ln (oper_code op))
    \<and> exec_ops env (map assembled (oper_code op)) m = expected op m"
  using run_lines_emitted [OF assms(1) [unfolded oper_emitter_lines] assms(2) oper_code_plain] expected_code by blast

theorem calc_agrees_with_code_witness:
  "\<exists>st'. oper_emitter Os_mod writing_state = Inr st' \<and> emitted st' = emitted writing_state @ concat (map ln (oper_code Os_mod))
    \<and> exec_ops (sample_env []) (map assembled (oper_code Os_mod)) (sample_vm\<lparr>pri := 3, alt := - 7\<rparr>)
        = Inr (Run (sample_vm\<lparr>pri := 2, alt := 2\<rparr>))"
proof -
  have "case oper_emitter Os_mod writing_state of Inl e \<Rightarrow> False | Inr st' \<Rightarrow> True" by code_simp
  then obtain st' where st': "oper_emitter Os_mod writing_state = Inr st'" by (auto split: sum.splits)
  have w: "writing writing_state" by (simp add: writing_state_def writing_def)
  have "expected Os_mod (sample_vm\<lparr>pri := 3, alt := - 7\<rparr>) = Inr (Run (sample_vm\<lparr>pri := 2, alt := 2\<rparr>))" by code_simp
  then show ?thesis using calc_agrees_with_code [OF st' w, of "sample_env []" "sample_vm\<lparr>pri := 3, alt := - 7\<rparr>"] st' by simp
qed

section \<open>Division\<close>

lemma smod_bound: "b \<noteq> 0 \<Longrightarrow> \<bar>a smod b\<bar> < \<bar>b :: int\<bar>"
  by (simp add: signed_modulo_int_def abs_mult abs_sgn_eq)

lemma smod_twice: "b \<noteq> 0 \<Longrightarrow> (a smod b + b) smod b = a mod (b :: int)"
proof -
  assume b: "b \<noteq> 0"
  note s = smod_bound [OF b, of a]
  have "sgn (a smod b + b) = sgn b" using s b by (auto simp: sgn_if abs_if split: if_splits)
  then have "(a smod b + b) smod b = (a smod b + b) mod b" by (simp add: signed_modulo_int_eq_modulo_int)
  also have "\<dots> = a smod b mod b" by simp
  also have "\<dots> = a mod b" unfolding signed_modulo_int_eq_modulo_int [of a] by (simp add: mod_diff_right_eq [symmetric])
  finally show ?thesis .
qed

lemma sint_word_small: "- (2 ^ 31) \<le> x \<Longrightarrow> x < 2 ^ 31 \<Longrightarrow> sint (word_of_int x :: cell) = x"
  by (simp add: sint_sbintrunc' signed_take_bit_int_eq_self)

lemma power_2147483648: "(2 :: int) ^ 31 = 2147483648"
  by simp

text \<open>
  C12: Division rounds down: for operands of at most 2 to the 30 in size and a divisor that is not
  zero, folded or executed, the quotient is the largest integer that is not above the exact
  quotient, and the remainder has the sign of the divisor.
\<close>

theorem division_rounds_down:
  assumes "\<bar>sint l\<bar> \<le> 2 ^ 30" "\<bar>sint r\<bar> \<le> 2 ^ 30" "r \<noteq> 0"
  shows "\<exists>q m. calc l Os_div r b = Inr (q, b) \<and> calc l Os_mod r b = Inr (m, b)
    \<and> sint q = sint l div sint r \<and> sint m = sint l mod sint r"
proof -
  let ?l = "sint l" and ?r = "sint r"
  have r: "?r \<noteq> 0"
  proof
    assume "?r = 0"
    then have "word_of_int ?r = (0 :: cell)" by simp
    then show False using assms(3) by simp
  qed
  have small: "\<bar>?l\<bar> \<le> 1073741824" "\<bar>?r\<bar> \<le> 1073741824" using assms(1,2) by simp_all
  note num = sint_word_small [unfolded power_2147483648] sint_add_small [unfolded power_2147483648] sint_diff_small [unfolded power_2147483648]
  have d: "\<not> div_overflow x r" if "\<bar>sint x\<bar> < 2 ^ 31" for x
    using that by (auto simp: div_overflow_def)
  define m0 where "m0 = ?l smod ?r"
  have m0: "\<bar>m0\<bar> < \<bar>?r\<bar>" using smod_bound [OF r] by (simp add: m0_def)
  have s0: "sint (c_rem l r) = m0" using m0 small unfolding c_rem_def m0_def by (intro num(1)) linarith+
  have s1: "sint (c_rem l r + r) = m0 + ?r" using s0 m0 small by (subst num(2)) linarith+
  define m where "m = c_rem (c_rem l r + r) r"
  have mod_bound: "\<bar>?l mod ?r\<bar> < \<bar>?r\<bar>" using r by (metis abs_mod_less)
  have sm: "sint m = ?l mod ?r"
    unfolding m_def c_rem_def [of "c_rem l r + r"] s1 m0_def smod_twice [OF r]
    using mod_bound small by (intro num(1)) linarith+
  have s2: "sint (l - m) = ?l - ?l mod ?r" using sm mod_bound small by (subst num(3)) linarith+
  have ex: "?l - ?l mod ?r = ?r * (?l div ?r)" by (simp add: minus_mod_eq_mult_div)
  have dv: "(?r * (?l div ?r)) sdiv ?r = ?l div ?r"
    using r by (simp add: signed_divide_int_eq_divide_int)
  have "\<bar>?l div ?r\<bar> \<le> \<bar>?l\<bar>"
  proof (rule ccontr)
    assume "\<not> \<bar>?l div ?r\<bar> \<le> \<bar>?l\<bar>"
    then have "\<bar>?r\<bar> * (\<bar>?l\<bar> + 1) \<le> \<bar>?r\<bar> * \<bar>?l div ?r\<bar>" by (intro mult_left_mono) auto
    moreover have "1 * \<bar>?l\<bar> \<le> \<bar>?r\<bar> * \<bar>?l\<bar>" using r by (intro mult_right_mono) auto
    moreover have "\<bar>?r\<bar> * \<bar>?l div ?r\<bar> = \<bar>?l - ?l mod ?r\<bar>" by (simp add: ex abs_mult)
    ultimately show False using mod_bound by (simp add: distrib_left)
  qed
  then have sq: "sint (c_div (l - m) r) = ?l div ?r"
    unfolding c_div_def s2 ex dv using small by (intro num(1)) linarith+
  have "\<not> div_overflow l r" "\<not> div_overflow (l - m) r" using d [of l] d [of "l - m"] small s2 mod_bound by auto
  then have "calc l Os_div r b = Inr (c_div (l - m) r, b)" "calc l Os_mod r b = Inr (m, b)"
    using assms(3) by (simp_all add: calc_def truemodulus_def m_def)
  then show ?thesis using sq sm by blast
qed

theorem division_rounds_down_witness:
  "\<exists>q m. calc (- 7) Os_div 2 True = Inr (q, True) \<and> calc (- 7) Os_mod 2 True = Inr (m, True) \<and> sint q = - 4 \<and> sint m = 1"
  using division_rounds_down [of "- 7" 2 True] by simp

text \<open>Beyond this size the subtraction of the remainder wraps, and the quotient has the wrong sign.\<close>

lemma division_wraps: "calc 0x80000000 Os_div 3 True = Inr (715827882, True)"
  by code_simp

end
