(* ===== verification/Chain.thy ===== *)
theory Chain
  imports Folding
begin

unbundle bit_operations_syntax

text \<open>
  Chained comparisons: the code \<open>plnge_rel\<close> of \<open>sc3.c\<close> arranges around the comparisons of a
  chain such as \<open>a < b <= c\<close>, against the folding of the same chain of constants.
\<close>

section \<open>Chained comparisons\<close>

text \<open>
  \<open>plnge_rel\<close>: at compile time the results are collected in \<open>boolresult\<close> while the right operand
  becomes the left one of the next comparison.
\<close>

fun fold_chain :: "cell \<Rightarrow> (oper \<times> cell) list \<Rightarrow> bool \<Rightarrow> bool res" where
  "fold_chain l [] b = Inr b"
| "fold_chain l ((op, r) # rest) b = bindR (calc l op r b) (\<lambda>(v, b). fold_chain v rest b)"

text \<open>
  At run time: the left operand is saved, the right operand evaluated into \<open>PRI\<close>, the left one
  restored into \<open>ALT\<close>; from the second comparison on, the prefix and the suffix keep the result
  so far on the stack.
\<close>

definition then_run :: "outcome res \<Rightarrow> (vm \<Rightarrow> outcome res) \<Rightarrow> outcome res" where
  "then_run m k = bindR m (\<lambda>r. case r of Run st \<Rightarrow> k st | Ret e v a \<Rightarrow> Inr r)"

definition prefix_code :: "string list" where "prefix_code = [''push.pri'', ''move.pri'']"
definition suffix_code :: "string list" where "suffix_code = [''swap.alt'', ''and'', ''pop.alt'']"

definition exec_names :: "env \<Rightarrow> string list \<Rightarrow> vm \<Rightarrow> outcome res" where
  "exec_names env ns = exec_ops env (map assembled ns)"

fun exec_chain :: "env \<Rightarrow> bool \<Rightarrow> (oper \<times> cell) list \<Rightarrow> vm \<Rightarrow> outcome res" where
  "exec_chain env first [] st = run_next st"
| "exec_chain env first ((op, r) # rest) st =
     then_run (exec_names env ((if first then [] else prefix_code) @ [''push.pri'']) st) (\<lambda>st.
     then_run (exec_names env ([''pop.alt''] @ oper_code op @ (if first then [] else suffix_code)) (st\<lparr>pri := r\<rparr>))
       (exec_chain env False rest))"

lemma relop_affixes:
  "relop_prefix = run (map (wr \<circ> ln) prefix_code @ [grow 2 0])" "relop_suffix = run (map (wr \<circ> ln) suffix_code @ [grow 3 0])"
  by (simp_all add: relop_prefix_def relop_suffix_def prefix_code_def suffix_code_def)

text \<open>The stack has room for two more cells.\<close>

definition two_cells :: "vm \<Rightarrow> bool" where
  "two_cells st \<longleftrightarrow> 8 \<le> sint (stk st) \<and> sint (stk st) \<le> int (length (amx_mem (am st)))"

text \<open>The parts of the machine that a chain leaves alone.\<close>

definition same_above :: "vm \<Rightarrow> vm \<Rightarrow> bool" where
  "same_above st st' \<longleftrightarrow> (\<exists>m x y. length m = length (amx_mem (am st)) \<and> st' = st\<lparr>am := (am st)\<lparr>amx_mem := m\<rparr>, pri := x, alt := y\<rparr>
     \<and> (\<forall>p. sint (stk st) \<le> p \<longrightarrow> rd_cell m p = rd_cell (amx_mem (am st)) p))"

lemma stk_sub:
  assumes "two_cells st"
  shows "sint (stk st - 4) = sint (stk st) - 4" "sint (stk st - 8) = sint (stk st) - 8" "stk st - 4 - 4 = stk st - 8"
    "stk st - 8 + 4 = stk st - 4"
proof -
  have "sint (4 :: cell) = 4" "sint (8 :: cell) = 8" by simp_all
  moreover have "8 \<le> sint (stk st)" "sint (stk st) < 2 ^ 31" using assms sint_bounds by (simp_all add: two_cells_def)
  ultimately show "sint (stk st - 4) = sint (stk st) - 4" "sint (stk st - 8) = sint (stk st) - 8"
    using sint_diff_small [of "stk st" 4] sint_diff_small [of "stk st" 8] by (simp_all)
qed simp_all

lemma run_push: "inside (amx_mem (am st)) (sint (stk st - 4)) 4 \<Longrightarrow>
  \<exists>m. wr_cell (amx_mem (am st)) (sint (stk st - 4)) v = Inr m \<and> push st v = (\<lambda>k. k (set_mem (st\<lparr>stk := stk st - 4\<rparr>) m))"
  using wr_inside [of "amx_mem (am st)" "sint (stk st - 4)" v]
  by (auto simp: push_def wrm_def fun_eq_iff)

lemma exec_chain_Nil: "exec_chain env first [] = run_next"
  by (simp add: fun_eq_iff)

lemma exec_ops_append:
  "exec_ops env (as @ bs) st = then_run (exec_ops env as st) (exec_ops env bs)"
  by (induction as arbitrary: st) (auto simp: then_run_def run_next_def bindR_def split: sum.splits outcome.splits)

lemma chain_first:
  assumes "two_cells st" "relational op"
  shows "\<exists>st'. exec_chain env True [(op, r)] st = Inr (Run st') \<and> same_above st st' \<and> alt st' = r
    \<and> (\<exists>b. calc (pri st) op r True = Inr (r, b) \<and> pri st' = of_bool b)"
proof -
  note k = stk_sub [OF assms(1)]
  have ins: "inside (amx_mem (am st)) (sint (stk st - 4)) 4" using assms(1) k by (simp add: inside_def two_cells_def)
  then obtain m where m: "wr_cell (amx_mem (am st)) (sint (stk st - 4)) (pri st) = Inr m"
      "push st (pri st) = (\<lambda>k. k (set_mem (st\<lparr>stk := stk st - 4\<rparr>) m))"
    using run_push [OF ins] by blast
  note rw = rd_wr_same [OF m(1)] rd_wr_other [OF m(1)] length_wr [OF m(1)]
  have step: "exec_chain env True [(op, r)] st =
      then_run (exec_ops env (map assembled (oper_code op)) ((set_mem st m)\<lparr>pri := r, alt := pri st\<rparr>)) (exec_chain env False [])"
    by (simp add: exec_names_def assembled_values exec_op_def exec_stack_def m(2) then_run_def run_next_def pop_def rdm_def
      set_mem_def rw(1))
  let ?st = "(set_mem st m)\<lparr>pri := r, alt := pri st\<rparr>"
  obtain b where c: "calc (pri st) op r True = Inr (r, b)" using assms(2) by (auto simp: relational_def calc_def)
  then have "expected op ?st = Inr (Run (?st\<lparr>pri := of_bool b, alt := r\<rparr>))"
    using assms(2) by (auto simp: expected_def relational_def run_next_def)
  then have "exec_chain env True [(op, r)] st = Inr (Run (?st\<lparr>pri := of_bool b, alt := r\<rparr>))"
    unfolding step expected_code by (simp add: then_run_def run_next_def)
  moreover have "same_above st (?st\<lparr>pri := of_bool b, alt := r\<rparr>)"
    unfolding same_above_def using rw(2,3) k(1)
    by (intro exI [of _ m] exI [of _ "of_bool b"] exI [of _ r]) (simp add: set_mem_def)
  ultimately show ?thesis using c by (intro exI conjI) (assumption | rule c refl | simp)+
qed

lemma chain_next:
  assumes "two_cells st" "relational op"
  shows "\<exists>st'. exec_chain env False [(op, r)] st = Inr (Run st') \<and> same_above st st' \<and> alt st' = r
    \<and> (\<exists>b. calc (alt st) op r True = Inr (r, b) \<and> pri st' = of_bool b AND pri st)"
proof -
  note k = stk_sub [OF assms(1)]
  have ins: "inside (amx_mem (am st)) (sint (stk st - 4)) 4" "inside (amx_mem (am st)) (sint (stk st - 8)) 4"
    using assms(1) k by (simp_all add: inside_def two_cells_def)
  then obtain m where m: "wr_cell (amx_mem (am st)) (sint (stk st - 4)) (pri st) = Inr m"
      "push st (pri st) = (\<lambda>k. k (set_mem (st\<lparr>stk := stk st - 4\<rparr>) m))"
    using run_push by blast
  have "inside m (sint (stk st - 8)) 4" "inside m (sint (stk st - 4)) 4" using ins length_wr [OF m(1)] by (simp_all add: inside_def)
  then obtain m2 where m2: "wr_cell m (sint (stk st - 8)) (alt st) = Inr m2" using wr_inside by blast
  have "inside m2 (sint (stk st - 4)) 4" using ins length_wr [OF m(1)] length_wr [OF m2] by (simp add: inside_def)
  then obtain m3 where m3: "wr_cell m2 (sint (stk st - 4)) r = Inr m3" using wr_inside by blast
  have rd: "rd_cell m2 (sint (stk st - 8)) = Inr (alt st)" "rd_cell m2 (sint (stk st - 4)) = Inr (pri st)"
      "rd_cell m3 (sint (stk st - 4)) = Inr r"
    using rd_wr_same [OF m(1)] rd_wr_other [OF m2, of "sint (stk st - 4)"] rd_wr_same [OF m2] rd_wr_same [OF m3] k by simp_all
  have above: "rd_cell m3 p = rd_cell (amx_mem (am st)) p" if "sint (stk st) \<le> p" for p
    using rd_wr_other [OF m(1), of p] rd_wr_other [OF m2, of p] rd_wr_other [OF m3, of p] k that by simp
  obtain b where c: "calc (alt st) op r True = Inr (r, b)" using assms(2) by (auto simp: relational_def calc_def)
  have step: "exec_chain env False [(op, r)] st =
      then_run (exec_ops env (map assembled (oper_code op @ suffix_code)) (st\<lparr>am := (am st)\<lparr>amx_mem := m2\<rparr>, pri := r, stk := stk st - 4\<rparr>)) run_next"
    using k rd(1) m2
    by (simp add: exec_names_def assembled_values exec_op_def exec_stack_def m(2) then_run_def run_next_def pop_def rdm_def
      set_mem_def prefix_code_def exec_alu_def push_def wrm_def exec_chain_Nil)
  let ?s = "st\<lparr>am := (am st)\<lparr>amx_mem := m2\<rparr>, pri := r, stk := stk st - 4\<rparr>"
  have "expected op ?s = Inr (Run (?s\<lparr>pri := of_bool b, alt := r\<rparr>))"
    using assms(2) c by (auto simp: expected_def relational_def run_next_def)
  then have "exec_chain env False [(op, r)] st = Inr (Run (?s\<lparr>am := (am st)\<lparr>amx_mem := m3\<rparr>, pri := of_bool b AND pri st, alt := r, stk := stk st\<rparr>))"
    unfolding step map_append exec_ops_append expected_code using k rd(2,3) m3
    by (simp add: suffix_code_def assembled_values exec_op_def exec_misc_def exec_stack_def exec_alu_def then_run_def run_next_def
      pop_def rdm_def wrm_def set_mem_def)
  moreover have "same_above st (?s\<lparr>am := (am st)\<lparr>amx_mem := m3\<rparr>, pri := of_bool b AND pri st, alt := r, stk := stk st\<rparr>)"
    unfolding same_above_def using above length_wr [OF m(1)] length_wr [OF m2] length_wr [OF m3]
    by (intro exI [of _ m3] exI [of _ "of_bool b AND pri st"] exI [of _ r]) simp
  ultimately show ?thesis using c by (intro exI conjI) (assumption | rule c refl | simp)+
qed

lemma same_above_refl: "same_above st st"
  unfolding same_above_def by (intro exI [of _ "amx_mem (am st)"] exI [of _ "pri st"] exI [of _ "alt st"]) simp

lemma same_above_trans: "same_above st st1 \<Longrightarrow> same_above st1 st2 \<Longrightarrow> same_above st st2"
  unfolding same_above_def by (elim exE conjE) (intro exI conjI, auto)

lemma same_above_room: "same_above st st1 \<Longrightarrow> two_cells st \<Longrightarrow> two_cells st1"
  by (auto simp: same_above_def two_cells_def)

lemma exec_chain_Cons: "exec_chain env first (x # xs) st = then_run (exec_chain env first [x] st) (exec_chain env False xs)"
  by (cases x) (auto simp: then_run_def run_next_def bindR_def exec_chain_Nil split: sum.splits outcome.splits)

lemma relational_calc: "relational op \<Longrightarrow> calc l op r True = Inr (v, b) \<Longrightarrow> calc l op r b0 = Inr (v, b0 \<and> b)"
  by (auto simp: relational_def calc_def)

lemma chain_rest:
  "two_cells st \<Longrightarrow> \<forall>x \<in> set xs. relational (fst x) \<Longrightarrow> pri st = of_bool b0 \<Longrightarrow>
    \<exists>st' b. exec_chain env False xs st = Inr (Run st') \<and> same_above st st' \<and> fold_chain (alt st) xs b0 = Inr b \<and> pri st' = of_bool b"
proof (induction xs arbitrary: st b0)
  case Nil
  then show ?case using same_above_refl by (auto simp: exec_chain_Nil run_next_def)
next
  case (Cons x xs)
  obtain op r where x: "x = (op, r)" by (cases x)
  obtain st1 b1 where s: "exec_chain env False [(op, r)] st = Inr (Run st1)" "same_above st st1" "alt st1 = r"
      "calc (alt st) op r True = Inr (r, b1)" "pri st1 = of_bool b1 AND pri st"
    using chain_next [of st op env r] Cons.prems x by auto
  have p: "pri st1 = of_bool (b0 \<and> b1)" using s(5) Cons.prems(3) by simp
  have room: "two_cells st1" using same_above_room [OF s(2) Cons.prems(1)] .
  obtain st' b where r: "exec_chain env False xs st1 = Inr (Run st')" "same_above st1 st'"
      "fold_chain (alt st1) xs (b0 \<and> b1) = Inr b" "pri st' = of_bool b"
    using Cons.IH [OF room _ p] Cons.prems(2) by auto
  have "calc (alt st) op r b0 = Inr (r, b0 \<and> b1)" using relational_calc [OF _ s(4)] Cons.prems(2) x by simp
  then show ?case using s(1,3) r same_above_trans [OF s(2) r(2)] unfolding x
    by (subst exec_chain_Cons) (auto simp: then_run_def)
qed

text \<open>
  C11: Chained comparisons: for a chain \<open>x1 op x2 op x3 ...\<close> the code \<open>plnge_rel\<close> arranges around
  the comparisons, with the results so far kept on the stack by \<open>relop_prefix\<close> and
  \<open>relop_suffix\<close>, ends with 1 or 0 in \<open>PRI\<close>, exactly as the same chain of constants is folded; the
  stack pointer and every cell from there up are as before, if the stack has room for two cells.
\<close>

theorem chain_agrees_with_folding:
  assumes "two_cells st" "\<forall>x \<in> set ((op, r) # xs). relational (fst x)"
  shows "relop_prefix = run (map (wr \<circ> ln) prefix_code @ [grow 2 0]) \<and> relop_suffix = run (map (wr \<circ> ln) suffix_code @ [grow 3 0])
    \<and> (\<exists>st' b. exec_chain env True ((op, r) # xs) st = Inr (Run st') \<and> same_above st st'
      \<and> fold_chain (pri st) ((op, r) # xs) True = Inr b \<and> pri st' = of_bool b)"
proof -
  obtain st1 b1 where s: "exec_chain env True [(op, r)] st = Inr (Run st1)" "same_above st st1" "alt st1 = r"
      "calc (pri st) op r True = Inr (r, b1)" "pri st1 = of_bool b1"
    using chain_first [of st op env r] assms by auto
  have rel: "\<forall>x \<in> set xs. relational (fst x)" using assms(2) by simp
  obtain st' b where t: "exec_chain env False xs st1 = Inr (Run st')" "same_above st1 st'" "fold_chain r xs b1 = Inr b" "pri st' = of_bool b"
    using chain_rest [OF same_above_room [OF s(2) assms(1)] rel s(5)] unfolding s(3) by blast
  have "exec_chain env True ((op, r) # xs) st = Inr (Run st')" using s(1) t(1) by (subst exec_chain_Cons) (simp add: then_run_def)
  then show ?thesis using s(4) t same_above_trans [OF s(2) t(2)] relop_affixes by auto
qed

theorem chain_agrees_with_folding_witness:
  "\<exists>st'. exec_chain (sample_env []) True [(Os_lt, 5), (Os_le, 5), (Os_gt, 9)] (sample_vm\<lparr>pri := 3, stk := 16\<rparr>) = Inr (Run st') \<and> pri st' = 0"
proof -
  have f: "fold_chain 3 [(Os_lt, 5), (Os_le, 5), (Os_gt, 9)] True = Inr False" by code_simp
  have room: "two_cells (sample_vm\<lparr>pri := 3, stk := 16\<rparr>)" by code_simp
  have rel: "\<forall>x \<in> set [(Os_lt, 5 :: cell), (Os_le, 5), (Os_gt, 9)]. relational (fst x)" by (simp add: relational_def)
  show ?thesis using chain_agrees_with_folding [OF room rel, of "sample_env []"] f by auto
qed

end
