(* ===== verification/Amxload.thy ===== *)
theory Amxload
  imports Amxstr Amxexec
begin

unbundle bit_operations_syntax

text \<open>
  The loader of the abstract machine (\<open>amxmodx/amx.cpp\<close>): the header of a program, the tables of
  its public functions, native functions, public variables and tags, the registration of natives,
  the walk over the code that makes jump addresses absolute (\<open>amx_BrowseRelocate\<close>), and the
  patching of calls to floating point natives during this walk (\<open>amxmodx/optimizer.cpp\<close>).

  A program in memory is the list of its bytes, from the header to the top of the stack; pointers
  into it are offsets.  Pointer arithmetic wraps at 32 bits.
\<close>

section \<open>The header\<close>

record header =
  h_size :: cell
  h_magic :: "16 word"
  h_file_version :: int
  h_amx_version :: int
  h_flags :: "16 word"
  h_defsize :: "16 word"
  h_cod :: cell
  h_dat :: cell
  h_hea :: cell
  h_stp :: cell
  h_cip :: cell
  h_publics :: cell
  h_natives :: cell
  h_libraries :: cell
  h_pubvars :: cell
  h_tags :: cell
  h_nametable :: cell

definition rd_short :: "mem \<Rightarrow> int \<Rightarrow> 16 word res" where
  "rd_short m a = bindR (read_bytes m a 2) (\<lambda>bs. Inr (ucast (bs ! 0) OR push_bit 8 (ucast (bs ! 1))))"

definition rd_char :: "mem \<Rightarrow> int \<Rightarrow> int res" where
  "rd_char m a = bindR (read_bytes m a 1) (\<lambda>bs. Inr (sint (bs ! 0)))"

definition hdr :: "mem \<Rightarrow> header res" where
  "hdr m =
     bindR (rd_cell m 0) (\<lambda>size. bindR (rd_short m 4) (\<lambda>magic.
     bindR (rd_char m 6) (\<lambda>fv. bindR (rd_char m 7) (\<lambda>av.
     bindR (rd_short m 8) (\<lambda>fl. bindR (rd_short m 10) (\<lambda>ds.
     bindR (rd_cell m 12) (\<lambda>cod. bindR (rd_cell m 16) (\<lambda>dat.
     bindR (rd_cell m 20) (\<lambda>hea. bindR (rd_cell m 24) (\<lambda>stp. bindR (rd_cell m 28) (\<lambda>cip.
     bindR (rd_cell m 32) (\<lambda>publics. bindR (rd_cell m 36) (\<lambda>natives. bindR (rd_cell m 40) (\<lambda>libraries.
     bindR (rd_cell m 44) (\<lambda>pubvars. bindR (rd_cell m 48) (\<lambda>tags. bindR (rd_cell m 52) (\<lambda>nametable.
       Inr \<lparr>h_size = size, h_magic = magic, h_file_version = fv, h_amx_version = av, h_flags = fl,
         h_defsize = ds, h_cod = cod, h_dat = dat, h_hea = hea, h_stp = stp, h_cip = cip,
         h_publics = publics, h_natives = natives, h_libraries = libraries, h_pubvars = pubvars,
         h_tags = tags, h_nametable = nametable\<rparr>)))))))))))))))))"

definition AMX_MAGIC :: "16 word" where "AMX_MAGIC = 0xf1e0"
definition CUR_FILE_VERSION :: int where "CUR_FILE_VERSION = 8"
definition MIN_FILE_VERSION :: int where "MIN_FILE_VERSION = 6"
definition sNAMEMAX_amx :: nat where "sNAMEMAX_amx = 63"
definition INT_MAX :: cell where "INT_MAX = 0x7FFFFFFF"

abbreviation (input) AMX_ERR_FORMAT :: int where "AMX_ERR_FORMAT \<equiv> 17"
abbreviation (input) AMX_ERR_VERSION :: int where "AMX_ERR_VERSION \<equiv> 18"

section \<open>The tables\<close>

definition USENAMETABLE :: "header \<Rightarrow> bool" where "USENAMETABLE h \<longleftrightarrow> h_defsize h = 8"

definition defsize :: "header \<Rightarrow> cell" where "defsize h = scast (h_defsize h)"

text \<open>The number of entries between two offsets of the header.\<close>

definition NUMENTRIES :: "header \<Rightarrow> cell \<Rightarrow> cell \<Rightarrow> cell res" where
  "NUMENTRIES h field nextfield =
     (if defsize h = 0 \<or> div_overflow (nextfield - field) (defsize h) then Inl Undefined
      else Inr (c_div (nextfield - field) (defsize h)))"

definition GETENTRY :: "header \<Rightarrow> cell \<Rightarrow> cell \<Rightarrow> int" where
  "GETENTRY h table index = sint (table + index * defsize h)"

definition GETENTRYNAME :: "header \<Rightarrow> mem \<Rightarrow> int \<Rightarrow> int res" where
  "GETENTRYNAME h m entry =
     (if USENAMETABLE h then bindR (rd_cell m (entry + 4)) (\<lambda>ofs. Inr (sint ofs)) else Inr (entry + 4))"

text \<open>The C string at an offset, and \<open>strcpy\<close> into a buffer of a given size.\<close>

definition cstr_at :: "mem \<Rightarrow> int \<Rightarrow> string res" where
  "cstr_at m a =
     (if a < 0 then Inl OutOfBounds
      else case strchr (map char_of_byte (drop (nat a) m)) NUL of
          None \<Rightarrow> Inl OutOfBounds
        | Some n \<Rightarrow> Inr (map char_of_byte (take n (drop (nat a) m))))"

definition copy_name :: "nat \<Rightarrow> string \<Rightarrow> string res" where
  "copy_name room s = (if length s < room then Inr s else Inl OutOfBounds)"

text \<open>
  \<open>amx_Flags\<close>, \<open>amx_MemInfo\<close> and \<open>amx_NameLength\<close>; the pointer to the machine is not null.
\<close>

definition amx_Flags :: "mem \<Rightarrow> (int \<times> 16 word) res" where
  "amx_Flags m =
     bindR (hdr m) (\<lambda>h. Inr
       (if h_magic h \<noteq> AMX_MAGIC then (AMX_ERR_FORMAT, 0)
        else if h_file_version h > CUR_FILE_VERSION \<or> h_amx_version h < MIN_FILE_VERSION then (AMX_ERR_VERSION, 0)
        else (AMX_ERR_NONE, h_flags h)))"

definition amx_MemInfo :: "mem \<Rightarrow> (int \<times> (cell \<times> cell \<times> cell) option) res" where
  "amx_MemInfo m =
     bindR (hdr m) (\<lambda>h. Inr
       (if h_magic h \<noteq> AMX_MAGIC then (AMX_ERR_FORMAT, None)
        else if h_file_version h > CUR_FILE_VERSION \<or> h_amx_version h < MIN_FILE_VERSION then (AMX_ERR_VERSION, None)
        else (AMX_ERR_NONE, Some (h_dat h - h_cod h, h_hea h - h_dat h, h_stp h - h_hea h))))"

definition amx_NameLength :: "mem \<Rightarrow> (int \<times> int) res" where
  "amx_NameLength m =
     bindR (hdr m) (\<lambda>h. assertR (h_magic h = AMX_MAGIC)
       (if USENAMETABLE h then
          bindR (rd_short m (sint (h_nametable h))) (\<lambda>n.
            assertR (h_file_version h \<ge> 7) (Inr (AMX_ERR_NONE, uint n)))
        else Inr (AMX_ERR_NONE, sint (h_defsize h) - 4)))"

text \<open>
  An entry of a table: its name and its address, if the index is not too large.  A negative index
  is not refused.
\<close>

definition get_entry :: "header \<Rightarrow> mem \<Rightarrow> cell \<Rightarrow> cell \<Rightarrow> cell \<Rightarrow> nat \<Rightarrow> (int \<times> (string \<times> cell) option) res" where
  "get_entry h m field nextfield index room =
     bindR (NUMENTRIES h field nextfield) (\<lambda>n.
       if n \<le>s index then Inr (AMX_ERR_INDEX, None)
       else let func = GETENTRY h field index in
         bindR (GETENTRYNAME h m func) (\<lambda>p. bindR (cstr_at m p) (\<lambda>s. bindR (copy_name room s) (\<lambda>s.
         bindR (rd_cell m func) (\<lambda>addr. Inr (AMX_ERR_NONE, Some (s, addr)))))))"

definition get_name :: "header \<Rightarrow> mem \<Rightarrow> cell \<Rightarrow> cell \<Rightarrow> cell \<Rightarrow> nat \<Rightarrow> (int \<times> string option) res" where
  "get_name h m field nextfield index room =
     bindR (NUMENTRIES h field nextfield) (\<lambda>n.
       if n \<le>s index then Inr (AMX_ERR_INDEX, None)
       else let func = GETENTRY h field index in
         bindR (GETENTRYNAME h m func) (\<lambda>p. bindR (cstr_at m p) (\<lambda>s. bindR (copy_name room s) (\<lambda>s.
           Inr (AMX_ERR_NONE, Some s)))))"

definition amx_NumNatives :: "mem \<Rightarrow> (int \<times> cell) res" where
  "amx_NumNatives m =
     bindR (hdr m) (\<lambda>h. assertR (h_magic h = AMX_MAGIC) (assertR (h_natives h \<le>s h_libraries h)
       (bindR (NUMENTRIES h (h_natives h) (h_libraries h)) (\<lambda>n. Inr (AMX_ERR_NONE, n)))))"

definition amx_GetNative :: "mem \<Rightarrow> cell \<Rightarrow> nat \<Rightarrow> (int \<times> string option) res" where
  "amx_GetNative m index room =
     bindR (hdr m) (\<lambda>h. assertR (h_magic h = AMX_MAGIC) (assertR (h_natives h \<le>s h_libraries h)
       (get_name h m (h_natives h) (h_libraries h) index room)))"

definition amx_NumPublics :: "mem \<Rightarrow> (int \<times> cell) res" where
  "amx_NumPublics m =
     bindR (hdr m) (\<lambda>h. assertR (h_magic h = AMX_MAGIC) (assertR (h_publics h \<le>s h_natives h)
       (bindR (NUMENTRIES h (h_publics h) (h_natives h)) (\<lambda>n. Inr (AMX_ERR_NONE, n)))))"

definition amx_GetPublic :: "mem \<Rightarrow> cell \<Rightarrow> nat \<Rightarrow> (int \<times> string option) res" where
  "amx_GetPublic m index room =
     bindR (hdr m) (\<lambda>h. assertR (h_magic h = AMX_MAGIC) (assertR (h_publics h \<le>s h_natives h)
       (get_name h m (h_publics h) (h_natives h) index room)))"

definition amx_NumPubVars :: "mem \<Rightarrow> (int \<times> cell) res" where
  "amx_NumPubVars m =
     bindR (hdr m) (\<lambda>h. assertR (h_magic h = AMX_MAGIC) (assertR (h_pubvars h \<le>s h_tags h)
       (bindR (NUMENTRIES h (h_pubvars h) (h_tags h)) (\<lambda>n. Inr (AMX_ERR_NONE, n)))))"

definition amx_GetPubVar :: "mem \<Rightarrow> cell \<Rightarrow> nat \<Rightarrow> (int \<times> (string \<times> cell) option) res" where
  "amx_GetPubVar m index room =
     bindR (hdr m) (\<lambda>h. assertR (h_magic h = AMX_MAGIC) (assertR (h_pubvars h \<le>s h_tags h)
       (get_entry h m (h_pubvars h) (h_tags h) index room)))"

section \<open>Searching the tables\<close>

text \<open>
  The linear search over the natives.  The buffer for a name is not initialised; \<open>None\<close> stands for
  this, and comparing it is undefined.
\<close>

definition strcmp_buf :: "string option \<Rightarrow> string \<Rightarrow> int res" where
  "strcmp_buf b s = (case b of None \<Rightarrow> Inl Undefined | Some t \<Rightarrow> Inr (strcmp t s))"

function find_native_loop :: "mem \<Rightarrow> string \<Rightarrow> string option \<Rightarrow> int \<Rightarrow> int \<Rightarrow> (int \<times> cell) res" where
  "find_native_loop m name pname mid lst =
     (if mid \<le> lst then
        bindR (amx_GetNative m (word_of_int mid) (sNAMEMAX_amx + 1)) (\<lambda>(e, r).
        let pname = (if r = None then pname else r) in
        bindR (strcmp_buf pname name) (\<lambda>c.
          if c = 0 then Inr (AMX_ERR_NONE, word_of_int mid) else find_native_loop m name pname (mid + 1) lst))
      else Inr (AMX_ERR_NOTFOUND, INT_MAX))"
  by pat_completeness auto
termination
  by (relation "measure (\<lambda>(m, name, pname, mid, lst). nat (lst - mid + 1))") auto

declare find_native_loop.simps [simp del]

definition amx_FindNative :: "mem \<Rightarrow> string \<Rightarrow> (int \<times> cell) res" where
  "amx_FindNative m name =
     bindR (amx_NumNatives m) (\<lambda>(e, n). find_native_loop m name None 0 (sint (n - 1)))"

text \<open>The binary search over the public functions; the sum of the bounds must not overflow.\<close>

function find_public_loop :: "mem \<Rightarrow> string \<Rightarrow> string option \<Rightarrow> int \<Rightarrow> int \<Rightarrow> (int \<times> cell) res" where
  "find_public_loop m name pname first lst =
     (if first \<le> lst then
        if first + lst > sint INT_MAX then Inl Undefined
        else let mid = (first + lst) div 2 in
        bindR (amx_GetPublic m (word_of_int mid) (sNAMEMAX_amx + 1)) (\<lambda>(e, r).
        let pname = (if r = None then pname else r) in
        bindR (strcmp_buf pname name) (\<lambda>c.
          if c > 0 then find_public_loop m name pname first (mid - 1)
          else if c < 0 then find_public_loop m name pname (mid + 1) lst
          else Inr (AMX_ERR_NONE, word_of_int mid)))
      else Inr (AMX_ERR_NOTFOUND, INT_MAX))"
  by pat_completeness auto
termination
  by (relation "measure (\<lambda>(m, name, pname, first, lst). nat (lst - first + 1))") auto

declare find_public_loop.simps [simp del]

definition amx_FindPublic :: "mem \<Rightarrow> string \<Rightarrow> (int \<times> cell) res" where
  "amx_FindPublic m name =
     bindR (amx_NumPublics m) (\<lambda>(e, n). find_public_loop m name None 0 (sint (n - 1)))"

text \<open>The same search over the public variables; the result is the address.\<close>

function find_pubvar_loop :: "mem \<Rightarrow> string \<Rightarrow> (string \<times> cell) option \<Rightarrow> int \<Rightarrow> int \<Rightarrow> (int \<times> cell) res" where
  "find_pubvar_loop m varname p first lst =
     (if first \<le> lst then
        if first + lst > sint INT_MAX then Inl Undefined
        else let mid = (first + lst) div 2 in
        bindR (amx_GetPubVar m (word_of_int mid) (sNAMEMAX_amx + 1)) (\<lambda>(e, r).
        let p = (if r = None then p else r) in
        case p of None \<Rightarrow> Inl Undefined
        | Some (pname, paddr) \<Rightarrow>
          let c = strcmp pname varname in
          if c > 0 then find_pubvar_loop m varname p first (mid - 1)
          else if c < 0 then find_pubvar_loop m varname p (mid + 1) lst
          else Inr (AMX_ERR_NONE, paddr))
      else Inr (AMX_ERR_NOTFOUND, 0))"
  by pat_completeness auto
termination
  by (relation "measure (\<lambda>(m, varname, p, first, lst). nat (lst - first + 1))") auto

declare find_pubvar_loop.simps [simp del]

definition amx_FindPubVar :: "mem \<Rightarrow> string \<Rightarrow> (int \<times> cell) res" where
  "amx_FindPubVar m varname =
     bindR (amx_NumPubVars m) (\<lambda>(e, n). find_pubvar_loop m varname None 0 (sint (n - 1)))"

section \<open>Tags\<close>

definition tags_end :: "header \<Rightarrow> cell res" where
  "tags_end h =
     (let e = (if h_file_version h < 7 then h_cod h else h_nametable h) in assertR (h_tags h \<le>s e) (Inr e))"

definition amx_NumTags :: "mem \<Rightarrow> (int \<times> cell) res" where
  "amx_NumTags m =
     bindR (hdr m) (\<lambda>h. assertR (h_magic h = AMX_MAGIC)
       (if h_file_version h < 5 then Inr (AMX_ERR_VERSION, 0)
        else bindR (tags_end h) (\<lambda>e. bindR (NUMENTRIES h (h_tags h) e) (\<lambda>n. Inr (AMX_ERR_NONE, n)))))"

definition amx_GetTag :: "mem \<Rightarrow> cell \<Rightarrow> nat \<Rightarrow> (int \<times> (string \<times> cell) option) res" where
  "amx_GetTag m index room =
     bindR (hdr m) (\<lambda>h. assertR (h_magic h = AMX_MAGIC)
       (if h_file_version h < 5 then Inr (AMX_ERR_VERSION, Some ([], 0))
        else bindR (tags_end h) (\<lambda>e. get_entry h m (h_tags h) e index room)))"

text \<open>The assertion that the table is sorted, and the binary search.\<close>

function tags_sorted :: "mem \<Rightarrow> nat \<Rightarrow> cell \<Rightarrow> int \<Rightarrow> int \<Rightarrow> unit res" where
  "tags_sorted m room cur first lst =
     (if first < lst then
        bindR (amx_GetTag m (word_of_int first) room) (\<lambda>(e, r).
          case r of None \<Rightarrow> Inl Undefined
          | Some (s, mid) \<Rightarrow> assertR (cur <s mid) (tags_sorted m room mid (first + 1) lst))
      else Inr ())"
  by pat_completeness auto
termination
  by (relation "measure (\<lambda>(m, room, cur, first, lst). nat (lst - first))") auto

declare tags_sorted.simps [simp del]

function find_tag_loop :: "mem \<Rightarrow> cell \<Rightarrow> nat \<Rightarrow> (string \<times> cell) option \<Rightarrow> int \<Rightarrow> int \<Rightarrow> (int \<times> string) res" where
  "find_tag_loop m tag_id room p first lst =
     (if first \<le> lst then
        if first + lst > sint INT_MAX then Inl Undefined
        else let mid = (first + lst) div 2 in
        bindR (amx_GetTag m (word_of_int mid) room) (\<lambda>(e, r).
        let p = (if r = None then p else r) in
        case p of None \<Rightarrow> Inl Undefined
        | Some (tagname, mid_id) \<Rightarrow>
          if tag_id <s mid_id then find_tag_loop m tag_id room p first (mid - 1)
          else if mid_id <s tag_id then find_tag_loop m tag_id room p (mid + 1) lst
          else Inr (AMX_ERR_NONE, tagname))
      else Inr (AMX_ERR_NOTFOUND, []))"
  by pat_completeness auto
termination
  by (relation "measure (\<lambda>(m, tag_id, room, p, first, lst). nat (lst - first + 1))") auto

declare find_tag_loop.simps [simp del]

definition amx_FindTagId :: "mem \<Rightarrow> cell \<Rightarrow> nat \<Rightarrow> (int \<times> string) res" where
  "amx_FindTagId m tag_id room =
     bindR (amx_NumTags m) (\<lambda>(e, n).
     bindR (if 0 <s n then
              bindR (amx_GetTag m 0 room) (\<lambda>(e, r).
                case r of None \<Rightarrow> Inl Undefined | Some (s, cur) \<Rightarrow> tags_sorted m room cur 1 (sint n))
            else Inr ()) (\<lambda>_.
     find_tag_loop m tag_id room None 0 (sint (n - 1))))"

section \<open>Registering native functions\<close>

text \<open>
  A list of natives: names with the addresses of functions; the name of the last entry may be
  null.  \<open>findfunction\<close> reads entries until a null name or \<open>number\<close> of them.
\<close>

type_synonym natives = "(string option \<times> cell) list"

fun findfunction :: "string \<Rightarrow> natives \<Rightarrow> int \<Rightarrow> int \<Rightarrow> cell res" where
  "findfunction name [] number i = Inl OutOfBounds"
| "findfunction name ((n, func) # rest) number i =
     (case n of
        None \<Rightarrow> Inr 0
      | Some s \<Rightarrow>
          if i < number \<or> number = - 1 then
            (if strcmp name s = 0 then Inr func else findfunction name rest number (i + 1))
          else Inr 0)"

definition find_in_list :: "string \<Rightarrow> natives option \<Rightarrow> int \<Rightarrow> cell res" where
  "find_in_list name lst number = (case lst of None \<Rightarrow> Inr 0 | Some l \<Rightarrow> findfunction name l number 0)"

text \<open>The name of the entry at an offset; the header is read again, as the code does.\<close>

definition entry_name :: "mem \<Rightarrow> int \<Rightarrow> string res" where
  "entry_name m func = bindR (hdr m) (\<lambda>h. bindR (GETENTRYNAME h m func) (cstr_at m))"

definition next_entry :: "mem \<Rightarrow> int \<Rightarrow> int res" where
  "next_entry m func = bindR (hdr m) (\<lambda>h. Inr (func + sint (defsize h)))"

definition natives_table :: "mem \<Rightarrow> (int \<times> nat) res" where
  "natives_table m =
     bindR (hdr m) (\<lambda>h. assertR (h_magic h = AMX_MAGIC) (assertR (h_natives h \<le>s h_libraries h)
       (bindR (NUMENTRIES h (h_natives h) (h_libraries h)) (\<lambda>n. Inr (GETENTRY h (h_natives h) 0, nat (sint n))))))"

text \<open>
  The loop of \<open>amx_Register\<close> over the \<open>k\<close> entries from \<open>func\<close> on: the memory, the error and the
  name of the last function that was not found.
\<close>

fun register_loop :: "natives option \<Rightarrow> int \<Rightarrow> nat \<Rightarrow> mem \<Rightarrow> int \<Rightarrow> int \<Rightarrow> string option \<Rightarrow> (mem \<times> int \<times> string option) res" where
  "register_loop lst number 0 m func err no = Inr (m, err, no)"
| "register_loop lst number (Suc k) m func err no =
     bindR (rd_cell m func) (\<lambda>address.
     bindR (if address = 0 then
              bindR (entry_name m func) (\<lambda>name.
              bindR (find_in_list name lst number) (\<lambda>f.
                if f \<noteq> 0 then bindR (wr_cell m func f) (\<lambda>m. Inr (m, err, no))
                else Inr (m, AMX_ERR_NOTFOUND, Some name)))
            else Inr (m, err, no)) (\<lambda>(m, err, no).
     bindR (next_entry m func) (\<lambda>func. register_loop lst number k m func err no)))"

definition AMX_FLAG_NTVREG :: cell where "AMX_FLAG_NTVREG = 0x1000"
definition AMX_FLAG_BROWSE :: cell where "AMX_FLAG_BROWSE = 0x4000"
definition AMX_FLAG_RELOC :: cell where "AMX_FLAG_RELOC = 0x8000"

text \<open>The parts of the structure \<open>AMX\<close> the loader uses; the browse hook is one of \<open>optimizer.cpp\<close>.\<close>

datatype browsehook = NoHook | Setup_Optimizer | Browse_Relocate

record program =
  image :: mem
  image_addr :: cell
  pr_flags :: cell
  pr_hlw :: cell
  pr_stp :: cell
  pr_hea :: cell
  pr_stk :: cell
  pr_callback_set :: bool
  pr_data :: "mem option"
  pr_sysreq_d :: cell
  pr_hook :: browsehook
  pr_optimizer :: "cell list"
  no_function :: "string option"

definition amx_Register :: "program \<Rightarrow> natives option \<Rightarrow> int \<Rightarrow> (int \<times> program) res" where
  "amx_Register p lst number =
     bindR (natives_table (image p)) (\<lambda>(func, n).
     bindR (register_loop lst number n (image p) func AMX_ERR_NONE (no_function p)) (\<lambda>(m, err, no).
       Inr (err, p\<lparr>image := m, no_function := no,
         pr_flags := (if err = AMX_ERR_NONE then pr_flags p OR AMX_FLAG_NTVREG else pr_flags p)\<rparr>)))"

fun reregister_loop :: "natives option \<Rightarrow> int \<Rightarrow> nat \<Rightarrow> mem \<Rightarrow> int \<Rightarrow> int \<Rightarrow> (mem \<times> int) res" where
  "reregister_loop lst number 0 m func cnt = Inr (m, cnt)"
| "reregister_loop lst number (Suc k) m func cnt =
     bindR (rd_cell m func) (\<lambda>address.
     bindR (if address \<noteq> 0 then
              bindR (entry_name m func) (\<lambda>name.
              bindR (find_in_list name lst number) (\<lambda>f.
                if f \<noteq> 0 then bindR (wr_cell m func f) (\<lambda>m. Inr (m, cnt + 1)) else Inr (m, cnt)))
            else Inr (m, cnt)) (\<lambda>(m, cnt).
     bindR (next_entry m func) (\<lambda>func. reregister_loop lst number k m func cnt)))"

definition amx_Reregister :: "program \<Rightarrow> natives option \<Rightarrow> int \<Rightarrow> (int \<times> program) res" where
  "amx_Reregister p lst number =
     bindR (natives_table (image p)) (\<lambda>(func, n).
     bindR (reregister_loop lst number n (image p) func 0) (\<lambda>(m, cnt). Inr (cnt, p\<lparr>image := m\<rparr>)))"

fun register_any_loop :: "cell \<Rightarrow> nat \<Rightarrow> mem \<Rightarrow> int \<Rightarrow> mem res" where
  "register_any_loop f 0 m func = Inr m"
| "register_any_loop f (Suc k) m func =
     bindR (rd_cell m func) (\<lambda>address.
     bindR (if address = 0 then wr_cell m func f else Inr m) (\<lambda>m.
     bindR (next_entry m func) (\<lambda>func. register_any_loop f k m func)))"

definition amx_RegisterToAny :: "program \<Rightarrow> cell \<Rightarrow> (int \<times> program) res" where
  "amx_RegisterToAny p f =
     bindR (natives_table (image p)) (\<lambda>(func, n).
     bindR (register_any_loop f n (image p) func) (\<lambda>m.
       Inr (AMX_ERR_NONE, p\<lparr>image := m, pr_flags := pr_flags p OR AMX_FLAG_NTVREG\<rparr>)))"

text \<open>\<open>amx_CheckNatives\<close> asks a filter of the host for every native that is not located yet.\<close>

fun check_natives_loop :: "(int \<Rightarrow> bool) \<Rightarrow> nat \<Rightarrow> int \<Rightarrow> mem \<Rightarrow> int \<Rightarrow> string option res" where
  "check_natives_loop nf 0 i m func = Inr None"
| "check_natives_loop nf (Suc k) i m func =
     bindR (rd_cell m func) (\<lambda>address.
       if address = 0 \<and> \<not> nf i then bindR (entry_name m func) (\<lambda>name. Inr (Some name))
       else bindR (next_entry m func) (\<lambda>func. check_natives_loop nf k (i + 1) m func))"

definition amx_CheckNatives :: "program \<Rightarrow> (int \<Rightarrow> bool) \<Rightarrow> (int \<times> program) res" where
  "amx_CheckNatives p nf =
     bindR (natives_table (image p)) (\<lambda>(func, n).
     bindR (check_natives_loop nf n 0 (image p) func) (\<lambda>r.
       case r of None \<Rightarrow> Inr (1, p) | Some name \<Rightarrow> Inr (0, p\<lparr>no_function := Some name\<rparr>)))"

section \<open>Floating point natives\<close>

text \<open>
  \<open>optimizer.cpp\<close>: while the code is browsed, calls of the natives found by the second stage are
  replaced by floating point instructions.
\<close>

definition N_Total_FloatOps :: nat where "N_Total_FloatOps = 7"

definition op_trans_table :: "cell list" where
  "op_trans_table = [OP_FLOAT_MUL, OP_FLOAT_DIV, OP_FLOAT_ADD, OP_FLOAT_SUB, OP_FLOAT_TO, OP_FLOAT_ROUND, OP_FLOAT_CMP]"

fun native_index :: "cell list \<Rightarrow> cell \<Rightarrow> nat option" where
  "native_index [] n = None"
| "native_index (x # xs) n = (if x = n then Some 0 else map_option Suc (native_index xs n))"

definition OnBrowseRelocate :: "cell list \<Rightarrow> mem \<Rightarrow> cell \<Rightarrow> (mem \<times> cell) res" where
  "OnBrowseRelocate natives m ip =
     bindR (hdr m) (\<lambda>h. let codeptr = sint (h_cod h + ip) in
     bindR (rd_cell m codeptr) (\<lambda>n_offs.
     bindR (case native_index natives n_offs of
              None \<Rightarrow> Inr m
            | Some j \<Rightarrow>
                bindR (wr_cell m (codeptr - 4) (op_trans_table ! j)) (\<lambda>m. wr_cell m codeptr OP_NOP)) (\<lambda>m.
       Inr (m, ip + 4))))"

text \<open>\<open>FIND_NATIVE\<close> and the second stage; the processor support is a parameter.\<close>

definition FIND_NATIVE :: "mem \<Rightarrow> string \<Rightarrow> nat \<Rightarrow> cell list \<Rightarrow> cell list res" where
  "FIND_NATIVE m name bind natives =
     bindR (amx_FindNative m name) (\<lambda>(e, index).
       Inr (if e \<noteq> AMX_ERR_NOTFOUND then natives[bind := index] else natives))"

definition if_level :: "bool \<Rightarrow> mem \<Rightarrow> (string \<times> nat) list \<Rightarrow> cell list \<Rightarrow> cell list res" where
  "if_level b m xs natives =
     (if b then foldr (\<lambda>(name, bind) k natives. bindR (FIND_NATIVE m name bind natives) k) xs Inr natives
      else Inr natives)"

definition Setup_Optimizer_Stage2 :: "cell \<Rightarrow> bool \<Rightarrow> program \<Rightarrow> (cell \<times> program) res" where
  "Setup_Optimizer_Stage2 opt_level cpu_support p =
     (let m = image p in
      bindR (if_level (opt_level AND 1 \<noteq> 0) m [(''floatmul'', 0), (''floatdiv'', 1), (''floatadd'', 2), (''floatsub'', 3)]
               (replicate N_Total_FloatOps (- 1))) (\<lambda>natives.
      bindR (if_level (opt_level AND 4 \<noteq> 0) m [(''float'', 4), (''floatround'', 5)] natives) (\<lambda>natives.
      bindR (if_level (opt_level AND 2 \<noteq> 0 \<and> cpu_support) m [(''floatcmp'', 6)] natives) (\<lambda>natives.
        Inr (if opt_level AND 2 \<noteq> 0 \<and> \<not> cpu_support then opt_level AND NOT 2 else opt_level,
             p\<lparr>pr_hook := Browse_Relocate, pr_optimizer := natives\<rparr>)))))"

definition SetupOptimizer :: "program \<Rightarrow> program" where
  "SetupOptimizer p = p\<lparr>pr_hook := Setup_Optimizer\<rparr>"

section \<open>Relocation\<close>

text \<open>How the switch of \<open>amx_BrowseRelocate\<close> classifies an instruction.\<close>

definition one_param :: "cell list" where
  "one_param = [OP_LOAD_PRI, OP_LOAD_ALT, OP_LOAD_S_PRI, OP_LOAD_S_ALT, OP_LREF_PRI, OP_LREF_ALT, OP_LREF_S_PRI, OP_LREF_S_ALT,
     OP_LODB_I, OP_CONST_PRI, OP_CONST_ALT, OP_ADDR_PRI, OP_ADDR_ALT, OP_STOR_PRI, OP_STOR_ALT, OP_STOR_S_PRI, OP_STOR_S_ALT,
     OP_SREF_PRI, OP_SREF_ALT, OP_SREF_S_PRI, OP_SREF_S_ALT, OP_STRB_I, OP_LIDX_B, OP_IDXADDR_B, OP_ALIGN_PRI, OP_ALIGN_ALT,
     OP_LCTRL, OP_SCTRL, OP_PUSH_R, OP_PUSH_C, OP_PUSH, OP_PUSH_S, OP_STACK, OP_HEAP, OP_JREL, OP_SHL_C_PRI, OP_SHL_C_ALT,
     OP_SHR_C_PRI, OP_SHR_C_ALT, OP_ADD_C, OP_SMUL_C, OP_ZERO, OP_ZERO_S, OP_EQ_C_PRI, OP_EQ_C_ALT, OP_INC, OP_INC_S, OP_DEC,
     OP_DEC_S, OP_MOVS, OP_CMPS, OP_FILL, OP_HALT, OP_BOUNDS, OP_PUSHADDR, OP_SYSREQ_D, OP_SYMTAG]"

definition no_param :: "cell list" where
  "no_param = [OP_LOAD_I, OP_STOR_I, OP_LIDX, OP_IDXADDR, OP_MOVE_PRI, OP_MOVE_ALT, OP_XCHG, OP_PUSH_PRI, OP_PUSH_ALT, OP_POP_PRI,
     OP_POP_ALT, OP_PROC, OP_RET, OP_RETN, OP_CALL_PRI, OP_SHL, OP_SHR, OP_SSHR, OP_SMUL, OP_SDIV, OP_SDIV_ALT, OP_UMUL, OP_UDIV,
     OP_UDIV_ALT, OP_ADD, OP_SUB, OP_SUB_ALT, OP_AND, OP_OR, OP_XOR, OP_NOT, OP_NEG, OP_INVERT, OP_ZERO_PRI, OP_ZERO_ALT,
     OP_SIGN_PRI, OP_SIGN_ALT, OP_EQ, OP_NEQ, OP_LESS, OP_LEQ, OP_GRTR, OP_GEQ, OP_SLESS, OP_SLEQ, OP_SGRTR, OP_SGEQ, OP_INC_PRI,
     OP_INC_ALT, OP_INC_I, OP_DEC_PRI, OP_DEC_ALT, OP_DEC_I, OP_SYSREQ_PRI, OP_JUMP_PRI, OP_SWAP_PRI, OP_SWAP_ALT, OP_NOP, OP_BREAK,
     OP_FLOAT_MUL, OP_FLOAT_DIV, OP_FLOAT_ADD, OP_FLOAT_SUB, OP_FLOAT_TO, OP_FLOAT_ROUND, OP_FLOAT_CMP]"

definition jump_param :: "cell list" where
  "jump_param = [OP_CALL, OP_JUMP, OP_JZER, OP_JNZ, OP_JEQ, OP_JNEQ, OP_JLESS, OP_JLEQ, OP_JGRTR, OP_JGEQ, OP_JSLESS, OP_JSLEQ,
     OP_JSGRTR, OP_JSGEQ, OP_SWITCH]"

text \<open>
  \<open>RELOC_ABS(code, off)\<close> adds the address of the code to a cell of it.  \<open>cod\<close> is the offset of the
  code in the image, \<open>ca\<close> its address.
\<close>

definition RELOC_ABS :: "cell \<Rightarrow> cell \<Rightarrow> cell \<Rightarrow> mem \<Rightarrow> mem res" where
  "RELOC_ABS cod ca off m = bindR (rd_cell m (sint (cod + off))) (\<lambda>v. wr_cell m (sint (cod + off)) (v + ca))"

text \<open>The records of a case table: \<open>k\<close> of them from number \<open>i\<close> on.\<close>

fun reloc_records :: "cell \<Rightarrow> cell \<Rightarrow> cell \<Rightarrow> nat \<Rightarrow> nat \<Rightarrow> mem \<Rightarrow> mem res" where
  "reloc_records cod ca ip i 0 m = Inr m"
| "reloc_records cod ca ip i (Suc k) m =
     bindR (RELOC_ABS cod ca (ip + word_of_nat (8 * i)) m) (reloc_records cod ca ip (i + 1) k)"

text \<open>
  One turn of the loop: an error code, or the memory and the place of the next instruction.
  \<open>ndebug\<close> tells whether assertions are compiled out.
\<close>

definition browse_step :: "bool \<Rightarrow> cell list option \<Rightarrow> cell \<Rightarrow> cell \<Rightarrow> mem \<Rightarrow> cell \<Rightarrow> (int + mem \<times> cell) res" where
  "browse_step ndebug natives cod ca m ip =
     bindR (rd_cell m (sint (cod + ip))) (\<lambda>op.
     assertR (ndebug \<or> (0 < op \<and> op < 145))
       (if 256 \<le>s op then Inr (Inl AMX_ERR_INVINSTR)
        else let ip = ip + 4 in
          if op \<in> set one_param then Inr (Inr (m, ip + 4))
          else if op = OP_SYSREQ_C then
            (case natives of None \<Rightarrow> Inr (Inr (m, ip + 4))
             | Some ns \<Rightarrow> bindR (OnBrowseRelocate ns m ip) (\<lambda>r. Inr (Inr r)))
          else if op \<in> set no_param then Inr (Inr (m, ip))
          else if op \<in> set jump_param then
            bindR (RELOC_ABS cod ca ip m) (\<lambda>m. Inr (Inr (m, ip + 4)))
          else if op = OP_FILE \<or> op = OP_SYMBOL then
            bindR (rd_cell m (sint (cod + ip))) (\<lambda>num. Inr (Inr (m, ip + 4 + num)))
          else if op = OP_LINE \<or> op = OP_SRANGE then Inr (Inr (m, ip + 2 * 4))
          else if op = OP_CASETBL then
            bindR (rd_cell m (sint (cod + ip))) (\<lambda>num. let ip = ip + 4 in
            bindR (reloc_records cod ca ip 0 (nat (sint num + 1)) m) (\<lambda>m.
              Inr (Inr (m, ip + (2 * num + 1) * 4))))
          else Inr (Inl AMX_ERR_INVINSTR)))"

text \<open>
  The loop.  A size field in the code can lead it back, so it need not end: \<open>None\<close> is running out
  of fuel.
\<close>

fun browse_loop :: "nat \<Rightarrow> bool \<Rightarrow> cell list option \<Rightarrow> cell \<Rightarrow> cell \<Rightarrow> cell \<Rightarrow> mem \<Rightarrow> cell \<Rightarrow> (int \<times> mem) option res" where
  "browse_loop 0 ndebug natives cod ca csize m ip = Inr None"
| "browse_loop (Suc fuel) ndebug natives cod ca csize m ip =
     (if ip <s csize then
        bindR (browse_step ndebug natives cod ca m ip) (\<lambda>r. case r of
          Inl err \<Rightarrow> Inr (Some (err, m))
        | Inr (m, ip) \<Rightarrow> browse_loop fuel ndebug natives cod ca csize m ip)
      else Inr (Some (AMX_ERR_NONE, m)))"

text \<open>The ANSI C version; a function pointer fits in a cell.\<close>

definition amx_BrowseRelocate :: "nat \<Rightarrow> bool \<Rightarrow> program \<Rightarrow> (int \<times> program) option res" where
  "amx_BrowseRelocate fuel ndebug p =
     bindR (hdr (image p)) (\<lambda>h. assertR (h_magic h = AMX_MAGIC)
       (let p = p\<lparr>pr_flags := pr_flags p OR AMX_FLAG_BROWSE, pr_sysreq_d := OP_SYSREQ_D\<rparr>;
            natives = (if pr_hook p = NoHook then None else Some (pr_optimizer p)) in
        bindR (browse_loop fuel ndebug natives (h_cod h) (image_addr p + h_cod h) (h_dat h - h_cod h) (image p) 0) (\<lambda>r.
          Inr (map_option (\<lambda>(err, m).
            let p = p\<lparr>image := m, pr_flags := pr_flags p AND NOT AMX_FLAG_BROWSE\<rparr> in
            (err, if err = AMX_ERR_NONE then p\<lparr>pr_flags := pr_flags p OR AMX_FLAG_RELOC\<rparr> else p)) r))))"

text \<open>
  \<open>amx_Init\<close> for a machine and a program in memory.  The result of the relocation is ignored.
\<close>

definition AMX_FLAG_COMPACT :: "16 word" where "AMX_FLAG_COMPACT = 4"

definition expand_image :: "header \<Rightarrow> mem \<Rightarrow> mem res" where
  "expand_image h m =
     (let cod = sint (h_cod h) in
      if cod < 0 \<or> cod > int (length m) then Inl OutOfBounds
      else bindR (expand (drop (nat cod) m) (nat (sint (h_size h - h_cod h))) (sint (h_hea h - h_cod h)))
        (\<lambda>code. Inr (take (nat cod) m @ code)))"

definition amx_Init :: "nat \<Rightarrow> bool \<Rightarrow> cell \<Rightarrow> bool \<Rightarrow> program \<Rightarrow> (int \<times> cell \<times> program) option res" where
  "amx_Init fuel ndebug opt_level cpu_support p =
     (if pr_flags p AND AMX_FLAG_RELOC \<noteq> 0 then Inr (Some (AMX_ERR_INIT, opt_level, p))
      else bindR (hdr (image p)) (\<lambda>h.
        if h_magic h \<noteq> AMX_MAGIC then Inr (Some (AMX_ERR_FORMAT, opt_level, p))
        else if h_file_version h < MIN_FILE_VERSION \<or> h_amx_version h > CUR_FILE_VERSION
          then Inr (Some (AMX_ERR_VERSION, opt_level, p))
        else if h_defsize h \<noteq> 24 \<and> h_defsize h \<noteq> 8 then Inr (Some (AMX_ERR_FORMAT, opt_level, p))
        else bindR (if USENAMETABLE h then rd_short (image p) (sint (h_nametable h)) else Inr 0) (\<lambda>namelength.
          if unat namelength > sNAMEMAX_amx then Inr (Some (AMX_ERR_FORMAT, opt_level, p))
          else if h_stp h \<le>s 0 then Inr (Some (AMX_ERR_FORMAT, opt_level, p))
          else bindR (if h_flags h AND AMX_FLAG_COMPACT \<noteq> 0 then expand_image h (image p)
                      else assertR (h_hea h = h_size h) (Inr (image p))) (\<lambda>m.
          bindR (wr_cell m (sint (h_stp h) - 4) 0) (\<lambda>m.
          bindR (hdr m) (\<lambda>h.
          let hlw = h_hea h - h_dat h; stp = h_stp h - h_dat h - 4;
              p = p\<lparr>image := m, pr_hlw := hlw, pr_stp := stp, pr_hea := hlw, pr_stk := stp,
                    pr_callback_set := True, pr_data := None\<rparr> in
          bindR (case pr_hook p of
                   NoHook \<Rightarrow> Inr (opt_level, p)
                 | Setup_Optimizer \<Rightarrow> Setup_Optimizer_Stage2 opt_level cpu_support p
                 | Browse_Relocate \<Rightarrow> Inl NullDeref) (\<lambda>(opt_level, p).
          bindR (amx_BrowseRelocate fuel ndebug p) (\<lambda>r.
            Inr (map_option (\<lambda>(err, p). (AMX_ERR_NONE, opt_level, p)) r)))))))))"

end
