(* ===== verification/Loader.thy ===== *)
theory Loader
  imports Amxload Codesize
begin

unbundle bit_operations_syntax

text \<open>
  Theorems on the loader of the abstract machine: the search for a public function, and the walk
  of \<open>amx_BrowseRelocate\<close> over code that the assembler of \<open>sc6.c\<close> wrote.
\<close>

section \<open>The classes of instructions agree\<close>

text \<open>
  For every instruction of the assembler, the loader reckons with the parameters the assembler
  writes, and relocates exactly the ones that are addresses of code.
\<close>

definition same_class :: "opcode \<Rightarrow> bool" where
  "same_class e \<longleftrightarrow> op_segment e = InCseg \<and> op_func e \<noteq> Do_case \<longrightarrow>
    0 < op_code e \<and> op_code e < 145 \<and>
    (case op_func e of
       Parm0 \<Rightarrow> op_code e \<in> set no_param \<and> op_code e \<notin> set one_param \<or> op_code e = OP_CASETBL
     | Parm1 \<Rightarrow> op_code e \<in> set one_param \<or> op_code e = OP_SYSREQ_C
     | Do_call \<Rightarrow> op_code e \<in> set jump_param \<and> op_code e \<notin> set (one_param @ no_param)
     | Do_jump \<Rightarrow> op_code e \<in> set jump_param \<and> op_code e \<notin> set (one_param @ no_param)
     | Do_switch \<Rightarrow> op_code e \<in> set jump_param \<and> op_code e \<notin> set (one_param @ no_param)
     | _ \<Rightarrow> False)"

lemma classes_agree: "list_all same_class opcodelist"
  by code_simp

section \<open>Cells of an image\<close>

text \<open>An image with the given cells between two other parts.\<close>

definition img :: "mem \<Rightarrow> cell list \<Rightarrow> mem \<Rightarrow> mem" where
  "img pre cs post = pre @ concat (map cell_le cs) @ post"

lemma length_cells_le [simp]: "length (concat (map cell_le cs)) = 4 * length cs"
  by (induction cs) auto

lemma drop_cells_le: "drop (4 * i) (concat (map cell_le cs)) = concat (map cell_le (drop i cs))"
proof (induction cs arbitrary: i)
  case (Cons c cs)
  then show ?case by (cases i) simp_all
qed simp

lemma take_cells_le: "take (4 * i) (concat (map cell_le cs)) = concat (map cell_le (take i cs))"
proof (induction cs arbitrary: i)
  case (Cons c cs)
  then show ?case by (cases i) simp_all
qed simp

lemma rd_img: "i < length cs \<Longrightarrow> rd_cell (img pre cs post) (int (length pre + 4 * i)) = Inr (cs ! i)"
proof -
  assume i: "i < length cs"
  have "drop (length pre + 4 * i) (img pre cs post) = concat (map cell_le (drop i cs)) @ post"
    using i by (simp add: img_def drop_cells_le)
  also have "\<dots> = cell_le (cs ! i) @ concat (map cell_le (drop (Suc i) cs)) @ post"
    using i by (simp add: Cons_nth_drop_Suc [symmetric])
  finally show ?thesis using i by (simp add: rd_iff inside_def img_def nat_int_add del: of_nat_add)
qed

lemma wr_img: "i < length cs \<Longrightarrow> wr_cell (img pre cs post) (int (length pre + 4 * i)) v = Inr (img pre (cs[i := v]) post)"
proof -
  assume i: "i < length cs"
  have a: "take (length pre + 4 * i) (img pre cs post) = pre @ concat (map cell_le (take i cs))"
    using i by (simp add: img_def take_cells_le)
  have b: "drop (length pre + 4 * i + 4) (img pre cs post) = concat (map cell_le (drop (Suc i) cs)) @ post"
  proof -
    have "drop (length pre + 4 * i + 4) (img pre cs post) = drop (4 * Suc i) (concat (map cell_le cs) @ post)"
      by (simp add: img_def add.commute)
    also have "\<dots> = concat (map cell_le (drop (Suc i) cs)) @ post" using i by (simp only: drop_append drop_cells_le) simp
    finally show ?thesis .
  qed
  show ?thesis unfolding wr_iff nat_int a b using i
    by (simp add: inside_def img_def upd_conv_take_nth_drop)
qed

text \<open>The place of a cell of the code, with the offset of the code in the image.\<close>

definition fits :: "mem \<Rightarrow> cell list \<Rightarrow> bool" where
  "fits pre cs \<longleftrightarrow> length pre + 4 * length cs < 2 ^ 31"

abbreviation place :: "nat \<Rightarrow> cell" where "place i \<equiv> word_of_nat (4 * i)"

lemma sint_small_nat: "n < 2 ^ 31 \<Longrightarrow> sint (word_of_nat n :: cell) = int n"
proof -
  assume "n < 2 ^ 31"
  then have "signed_take_bit 31 (int n) = int n" by (intro signed_take_bit_int_eq_self) auto
  moreover have "(word_of_nat n :: cell) = word_of_int (int n)" by simp
  ultimately show ?thesis by (simp only: sint_sbintrunc') simp
qed

lemma sint_place: "fits pre cs \<Longrightarrow> i \<le> length cs \<Longrightarrow> sint (word_of_nat (length pre) + place i) = int (length pre + 4 * i)"
  using sint_small_nat [of "length pre + 4 * i"] by (simp add: fits_def)

lemma place_less: "fits pre cs \<Longrightarrow> i \<le> length cs \<Longrightarrow> place i <s place (length cs) \<longleftrightarrow> i < length cs"
  using sint_small_nat [of "4 * i"] sint_small_nat [of "4 * length cs"] by (simp add: fits_def word_sless_alt)

lemma place_step: "place i + 4 = place (Suc i)" "place i + 8 = place (i + 2)"
  by simp_all

lemma RELOC_img: "fits pre cs \<Longrightarrow> i < length cs \<Longrightarrow>
    RELOC_ABS (word_of_nat (length pre)) ca (place i) (img pre cs post) = Inr (img pre (cs[i := cs ! i + ca]) post)"
  unfolding RELOC_ABS_def using sint_place [of pre cs i] by (simp only: less_imp_le rd_img wr_img bindR_simps)

section \<open>One instruction\<close>

abbreviation flat :: "(cell \<times> cell) list \<Rightarrow> cell list" where "flat rs \<equiv> concat (map (\<lambda>(v, a). [v, a]) rs)"
abbreviation absolute :: "cell \<Rightarrow> (cell \<times> cell) list \<Rightarrow> (cell \<times> cell) list" where
  "absolute ca rs \<equiv> map (\<lambda>(v, a). (v, a + ca)) rs"

lemma length_flat [simp]: "length (flat rs) = 2 * length rs"
  by (induction rs) auto

lemma reloc_records_img:
  "fits pre (before @ flat (A @ B) @ rest) \<Longrightarrow>
    reloc_records (word_of_nat (length pre)) ca (place (Suc (length before))) (length A) (length B)
      (img pre (before @ flat (A @ B) @ rest) post)
    = Inr (img pre (before @ flat (A @ absolute ca B) @ rest) post)"
proof (induction B arbitrary: A)
  case (Cons x B)
  obtain v a where x: "x = (v, a)" by (cases x)
  let ?cs = "before @ flat (A @ x # B) @ rest" and ?i = "Suc (length before + 2 * length A)"
  have p: "place (Suc (length before)) + word_of_nat (8 * length A) = place ?i" by simp
  have i: "?i < length ?cs" by (simp add: x)
  have n: "?cs ! ?i = a" by (simp add: x nth_append)
  have u: "?cs[?i := a + ca] = before @ flat ((A @ [(v, a + ca)]) @ B) @ rest"
    by (simp add: x list_update_append)
  have f: "fits pre (before @ flat ((A @ [(v, a + ca)]) @ B) @ rest)" using Cons.prems by (simp add: fits_def x)
  have R: "RELOC_ABS (word_of_nat (length pre)) ca (place (Suc (length before)) + word_of_nat (8 * length A)) (img pre ?cs post)
      = Inr (img pre (before @ flat ((A @ [(v, a + ca)]) @ B) @ rest) post)"
    using RELOC_img [OF Cons.prems i, of ca post] unfolding p n u .
  have "reloc_records (word_of_nat (length pre)) ca (place (Suc (length before))) (length A + 1) (length B)
      (img pre (before @ flat ((A @ [(v, a + ca)]) @ B) @ rest) post)
      = Inr (img pre (before @ flat (A @ absolute ca (x # B)) @ rest) post)"
    using Cons.IH [OF f] by (simp add: x)
  then show ?case unfolding list.size(4) add_Suc_right add_0_right reloc_records.simps R bindR_simps by simp
qed simp

lemma class_codes:
  "list_all (\<lambda>op. 0 < op \<and> op < 145 \<and> \<not> 256 \<le>s op) (OP_SYSREQ_C # one_param)"
  "list_all (\<lambda>op. 0 < op \<and> op < 145 \<and> \<not> 256 \<le>s op \<and> op \<noteq> OP_SYSREQ_C) (no_param @ jump_param)"
  by code_simp+

text \<open>A turn of the loop at the start of an instruction.\<close>

lemma browse_plain:
  assumes "fits pre (before @ op # rest)" "op \<in> set no_param" "op \<notin> set one_param"
  shows "browse_step nd None (word_of_nat (length pre)) ca (img pre (before @ op # rest) post) (place (length before))
    = Inr (Inr (img pre (before @ op # rest) post, place (Suc (length before))))"
proof -
  have b: "0 < op \<and> op < 145 \<and> \<not> 256 \<le>s op \<and> op \<noteq> OP_SYSREQ_C"
    using assms(2) class_codes by (auto simp: list_all_iff)
  have r: "rd_cell (img pre (before @ op # rest) post) (sint (word_of_nat (length pre) + place (length before))) = Inr op"
    using rd_img [of "length before" "before @ op # rest" pre post] sint_place [OF assms(1), of "length before"] by simp
  show ?thesis unfolding browse_step_def r using b assms(2,3) by (simp add: assertR_def)
qed

lemma browse_param:
  assumes "fits pre (before @ op # p # rest)" "op \<in> set one_param \<or> op = OP_SYSREQ_C"
  shows "browse_step nd None (word_of_nat (length pre)) ca (img pre (before @ op # p # rest) post) (place (length before))
    = Inr (Inr (img pre (before @ op # p # rest) post, place (length before + 2)))"
proof -
  have b: "0 < op \<and> op < 145 \<and> \<not> 256 \<le>s op"
    using assms(2) class_codes by (auto simp: list_all_iff)
  have r: "rd_cell (img pre (before @ op # p # rest) post) (sint (word_of_nat (length pre) + place (length before))) = Inr op"
    using rd_img [of "length before" "before @ op # p # rest" pre post] sint_place [OF assms(1), of "length before"] by simp
  show ?thesis unfolding browse_step_def r using b assms(2) by (auto simp: assertR_def Let_def)
qed

lemma browse_jump:
  assumes "fits pre (before @ op # p # rest)" "op \<in> set jump_param" "op \<notin> set (one_param @ no_param)"
  shows "browse_step nd None (word_of_nat (length pre)) ca (img pre (before @ op # p # rest) post) (place (length before))
    = Inr (Inr (img pre (before @ op # (p + ca) # rest) post, place (length before + 2)))"
proof -
  have b: "0 < op \<and> op < 145 \<and> \<not> 256 \<le>s op \<and> op \<noteq> OP_SYSREQ_C"
    using assms(2) class_codes by (auto simp: list_all_iff)
  have r: "rd_cell (img pre (before @ op # p # rest) post) (sint (word_of_nat (length pre) + place (length before))) = Inr op"
    using rd_img [of "length before" "before @ op # p # rest" pre post] sint_place [OF assms(1), of "length before"] by simp
  have p: "place (length before) + 4 = place (Suc (length before))" by simp
  have R: "RELOC_ABS (word_of_nat (length pre)) ca (place (length before) + 4) (img pre (before @ op # p # rest) post)
      = Inr (img pre (before @ op # (p + ca) # rest) post)"
    using RELOC_img [OF assms(1), of "Suc (length before)" ca post] unfolding p by (simp add: nth_append list_update_append)
  show ?thesis unfolding browse_step_def r using b assms(2,3) R by (simp add: assertR_def)
qed

lemma browse_table:
  assumes f: "fits pre (before @ OP_CASETBL # flat rs @ rest)" and rs: "rs = (word_of_nat n, d) # rs'" "length rs' = n"
  shows "browse_step nd None (word_of_nat (length pre)) ca (img pre (before @ OP_CASETBL # flat rs @ rest) post) (place (length before))
    = Inr (Inr (img pre (before @ OP_CASETBL # flat (absolute ca rs) @ rest) post, place (length before + 1 + 2 * length rs)))"
proof -
  let ?cs = "before @ OP_CASETBL # flat rs @ rest"
  have r: "rd_cell (img pre ?cs post) (sint (word_of_nat (length pre) + place (length before))) = Inr OP_CASETBL"
    using rd_img [of "length before" ?cs pre post] sint_place [OF f, of "length before"] by simp
  have p: "place (length before) + 4 = place (Suc (length before))" by simp
  have n: "rd_cell (img pre ?cs post) (sint (word_of_nat (length pre) + (place (length before) + 4))) = Inr (word_of_nat n)"
    using rd_img [of "Suc (length before)" ?cs pre post] sint_place [OF f, of "Suc (length before)"] rs unfolding p by (simp add: nth_append)
  have "n < 2 ^ 31" using f rs by (simp add: fits_def)
  then have k: "nat (sint (word_of_nat n :: cell) + 1) = length rs" using sint_small_nat [of n] rs by simp
  have p: "place (length before) + 4 + 4 = place (Suc (length (before @ [OP_CASETBL])))" by simp
  have q: "place (length before) + 4 + 4 + (2 * word_of_nat n + 1) * 4 = place (length before + 1 + 2 * length rs)"
    using rs by (simp add: algebra_simps)
  have c: "OP_CASETBL \<notin> set one_param" "OP_CASETBL \<notin> set no_param" "OP_CASETBL \<notin> set jump_param"
    by (simp_all add: one_param_def no_param_def jump_param_def)
  have R: "reloc_records (word_of_nat (length pre)) ca (place (length before) + 4 + 4) 0 (length rs) (img pre ?cs post)
      = Inr (img pre (before @ OP_CASETBL # flat (absolute ca rs) @ rest) post)"
    using reloc_records_img [of pre "before @ [OP_CASETBL]" "[]" rs rest ca post] f unfolding p by simp
  show ?thesis unfolding browse_step_def r using n k R q c by (simp add: assertR_def Let_def)
qed

section \<open>Assembled code\<close>

text \<open>The entry of the instruction table a line of the code section is written with.\<close>

definition code_entry :: "string \<Rightarrow> opcode option" where
  "code_entry line =
     (case parse_line line of
        InstrLine instr params \<Rightarrow>
          (case findopcode instr (length instr) of
             Inl e \<Rightarrow> None
           | Inr i \<Rightarrow> if op_segment (opcodelist ! i) = InCseg then Some (opcodelist ! i) else None)
      | _ \<Rightarrow> None)"

definition is_case :: "string \<Rightarrow> bool" where
  "is_case l \<longleftrightarrow> (case code_entry l of None \<Rightarrow> False | Some e \<Rightarrow> op_func e = Do_case)"

definition is_casetbl :: "string \<Rightarrow> bool" where
  "is_casetbl l \<longleftrightarrow> (case code_entry l of None \<Rightarrow> False | Some e \<Rightarrow> op_func e \<noteq> Do_case \<and> op_code e = OP_CASETBL)"

text \<open>
  A program in which every case table is complete: the first record, with the number of the other
  ones and the label of the default, and then these.
\<close>

inductive tables_ok :: "asmenv \<Rightarrow> string list \<Rightarrow> bool" for env where
  no_lines: "tables_ok env []"
| plain_line: "\<not> is_case l \<Longrightarrow> \<not> is_casetbl l \<Longrightarrow> tables_ok env ls \<Longrightarrow> tables_ok env (l # ls)"
| table_lines: "is_casetbl l \<Longrightarrow> is_case c \<Longrightarrow> line_cells env True InCseg c = Inr [word_of_nat (length cs), d] \<Longrightarrow>
    list_all is_case cs \<Longrightarrow> tables_ok env ls \<Longrightarrow> tables_ok env (l # c # cs @ ls)"

text \<open>The environment in which every address of code is absolute.\<close>

definition abs_env :: "cell \<Rightarrow> asmenv \<Rightarrow> asmenv" where
  "abs_env ca env = env\<lparr>lbltab := map_option (map (\<lambda>a. a + ca)) (lbltab env),
     glb := (\<lambda>n. map_option (\<lambda>s. s\<lparr>sym_addr := sym_addr s + ca\<rparr>) (glb env n))\<rparr>"

lemma label_index_abs: "label_index (abs_env ca env) s = label_index env s"
  by (simp add: label_index_def abs_env_def)

lemma label_cell_abs: "label_cell env True i = Inr p \<Longrightarrow> label_cell (abs_env ca env) True i = Inr (p + ca)"
  by (auto simp: label_cell_def abs_env_def split: option.splits if_splits)

lemma op_cells_abs:
  assumes "op_cells env True f params op = Inr cs" "same_class e" "op_segment e = InCseg" "f = op_func e" "op = op_code e"
    "f \<noteq> Do_case" "op \<noteq> OP_CASETBL"
  shows "(cs = [op] \<and> op \<in> set no_param \<and> op \<notin> set one_param \<and> op_cells (abs_env ca env) True f params op = Inr [op])
    \<or> (\<exists>p. cs = [op, p] \<and> (op \<in> set one_param \<or> op = OP_SYSREQ_C) \<and> op_cells (abs_env ca env) True f params op = Inr [op, p])
    \<or> (\<exists>p. cs = [op, p] \<and> op \<in> set jump_param \<and> op \<notin> set (one_param @ no_param)
        \<and> op_cells (abs_env ca env) True f params op = Inr [op, p + ca])"
proof (cases f)
  case Do_call
  have g: "glb (abs_env ca env) n = map_option (\<lambda>s. s\<lparr>sym_addr := sym_addr s + ca\<rparr>) (glb env n)" for n
    by (simp add: abs_env_def)
  show ?thesis using assms Do_call label_cell_abs [of env _ _ ca]
    by (auto simp: same_class_def bindR_Inr_iff label_index_abs Let_def g split: if_splits option.splits)
qed (use assms label_cell_abs [of env _ _ ca] in
  \<open>auto simp: same_class_def bindR_Inr_iff label_index_abs split: prod.splits\<close>)

lemma line_cells_entry:
  "line_cells env True InCseg l = Inr cs \<Longrightarrow> code_entry l = None \<Longrightarrow> cs = [] \<and> line_cells (abs_env ca env) True InCseg l = Inr []"
  by (auto simp: line_cells_def code_entry_def bindR_Inr_iff split: asmline.splits if_splits)

lemma line_cells_some:
  assumes "code_entry l = Some e"
  shows "\<exists>params. (\<forall>env. line_cells env True InCseg l = op_cells env True (op_func e) params (op_code e)) \<and> op_segment e = InCseg \<and> same_class e"
proof -
  obtain instr params i where i: "parse_line l = InstrLine instr params" "findopcode instr (length instr) = Inr i"
      "op_segment (opcodelist ! i) = InCseg" "e = opcodelist ! i"
    using assms by (auto simp: code_entry_def split: asmline.splits sum.splits if_splits)
  have "same_class e" using findopcode_in [OF i(2)] classes_agree i(4) by (simp add: list_all_iff)
  then show ?thesis using i by (auto simp: line_cells_def)
qed

lemma case_cells:
  assumes "is_case l" "line_cells env True InCseg l = Inr cs"
  shows "\<exists>v p. cs = [v, p] \<and> line_cells (abs_env ca env) True InCseg l = Inr [v, p + ca]"
proof -
  obtain e where e: "code_entry l = Some e" "op_func e = Do_case" using assms(1) by (auto simp: is_case_def split: option.splits)
  obtain params where "\<forall>env. line_cells env True InCseg l = op_cells env True Do_case params (op_code e)"
    using line_cells_some [OF e(1)] e(2) by auto
  then show ?thesis using assms(2) label_cell_abs [of env _ _ ca] by (auto simp: bindR_Inr_iff label_index_abs split: prod.splits)
qed

lemma cases_cells:
  "list_all is_case cs \<Longrightarrow> file_cells env True InCseg cs = Inr cells \<Longrightarrow>
    \<exists>rs. cells = flat rs \<and> length rs = length cs \<and> file_cells (abs_env ca env) True InCseg cs = Inr (flat (absolute ca rs))"
proof (induction cs arbitrary: cells)
  case (Cons c cs)
  obtain x y where xy: "line_cells env True InCseg c = Inr x" "file_cells env True InCseg cs = Inr y" "cells = x @ y"
    using Cons.prems by (auto simp: bindR_Inr_iff)
  obtain v p where vp: "x = [v, p]" "line_cells (abs_env ca env) True InCseg c = Inr [v, p + ca]"
    using case_cells [OF _ xy(1), of ca] Cons.prems(1) by auto
  obtain rs where rs: "y = flat rs" "length rs = length cs" "file_cells (abs_env ca env) True InCseg cs = Inr (flat (absolute ca rs))"
    using Cons.IH [OF _ xy(2)] Cons.prems(1) by auto
  show ?case using xy(3) vp rs by (intro exI [of _ "(v, p) # rs"]) simp
qed simp

text \<open>
  The loop over a part of the code: it ends at the end of the part with the addresses in it made
  absolute.
\<close>

definition walks :: "cell \<Rightarrow> cell list \<Rightarrow> cell list \<Rightarrow> bool" where
  "walks ca cells cells' \<longleftrightarrow> length cells' = length cells \<and>
    (\<forall>pre before post nd fuel. fits pre (before @ cells) \<longrightarrow> length cells < fuel \<longrightarrow>
      browse_loop fuel nd None (word_of_nat (length pre)) ca (place (length (before @ cells))) (img pre (before @ cells) post) (place (length before))
      = Inr (Some (AMX_ERR_NONE, img pre (before @ cells') post)))"

lemma walks_Nil: "walks ca [] []"
  unfolding walks_def
proof (intro conjI allI impI)
  fix pre before post nd fuel assume f: "fits pre (before @ [])" "length [] < fuel"
  then obtain k where "fuel = Suc k" by (cases fuel) auto
  then show "browse_loop fuel nd None (word_of_nat (length pre)) ca (place (length (before @ []))) (img pre (before @ []) post)
      (place (length before)) = Inr (Some (AMX_ERR_NONE, img pre (before @ []) post))"
    using place_less [OF f(1), of "length before"] by simp
qed simp

lemma walks_step:
  assumes "\<And>pre before rest post nd. fits pre (before @ a @ rest) \<Longrightarrow>
      browse_step nd None (word_of_nat (length pre)) ca (img pre (before @ a @ rest) post) (place (length before))
      = Inr (Inr (img pre (before @ a' @ rest) post, place (length before + length a)))"
    and "length a' = length a" "a \<noteq> []" "walks ca b b'"
  shows "walks ca (a @ b) (a' @ b')"
  unfolding walks_def
proof (intro conjI allI impI)
  show "length (a' @ b') = length (a @ b)" using assms(2,4) by (simp add: walks_def)
  fix pre before post nd fuel assume f: "fits pre (before @ a @ b)" "length (a @ b) < fuel"
  then obtain k where k: "fuel = Suc k" "length b < k" using assms(3) by (cases fuel) (auto simp: neq_Nil_conv)
  have f': "fits pre ((before @ a') @ b)" using f(1) assms(2) by (simp add: fits_def)
  have "place (length before) <s place (length (before @ a @ b))" using place_less [OF f(1), of "length before"] assms(3) by simp
  then have "browse_loop fuel nd None (word_of_nat (length pre)) ca (place (length (before @ a @ b))) (img pre (before @ a @ b) post) (place (length before))
      = browse_loop k nd None (word_of_nat (length pre)) ca (place (length ((before @ a') @ b))) (img pre ((before @ a') @ b) post)
          (place (length (before @ a')))"
    using assms(1) [OF f(1), of nd post] assms(2) unfolding k(1) by simp
  also have "\<dots> = Inr (Some (AMX_ERR_NONE, img pre ((before @ a') @ b') post))"
    using assms(4) f' k(2) unfolding walks_def by blast
  finally show "browse_loop fuel nd None (word_of_nat (length pre)) ca (place (length (before @ a @ b))) (img pre (before @ a @ b) post)
      (place (length before)) = Inr (Some (AMX_ERR_NONE, img pre (before @ a' @ b') post))" by simp
qed

lemma walks_line:
  assumes "\<not> is_case l" "\<not> is_casetbl l" "line_cells env True InCseg l = Inr a" "walks ca b b'"
  shows "\<exists>a'. line_cells (abs_env ca env) True InCseg l = Inr a' \<and> walks ca (a @ b) (a' @ b')"
proof (cases "code_entry l")
  case None
  then show ?thesis using line_cells_entry [OF assms(3) None, of ca] assms(4) by auto
next
  case (Some e)
  obtain params where p: "\<forall>env. line_cells env True InCseg l = op_cells env True (op_func e) params (op_code e)"
      "op_segment e = InCseg" "same_class e" using line_cells_some [OF Some] by blast
  have n: "op_func e \<noteq> Do_case" "op_code e \<noteq> OP_CASETBL" using assms(1,2) Some by (auto simp: is_case_def is_casetbl_def)
  have c: "op_cells env True (op_func e) params (op_code e) = Inr a" using p(1) assms(3) by simp
  consider
      "a = [op_code e]" "op_code e \<in> set no_param" "op_code e \<notin> set one_param" "line_cells (abs_env ca env) True InCseg l = Inr [op_code e]"
    | q where "a = [op_code e, q]" "op_code e \<in> set one_param \<or> op_code e = OP_SYSREQ_C"
        "line_cells (abs_env ca env) True InCseg l = Inr [op_code e, q]"
    | q where "a = [op_code e, q]" "op_code e \<in> set jump_param" "op_code e \<notin> set (one_param @ no_param)"
        "line_cells (abs_env ca env) True InCseg l = Inr [op_code e, q + ca]"
    using op_cells_abs [OF c p(3,2) refl refl n, of ca] p(1) by metis
  then show ?thesis
  proof cases
    case 1
    have "walks ca (a @ b) ([op_code e] @ b')" unfolding 1(1)
      by (rule walks_step) (use browse_plain [of _ _ "op_code e"] 1(2,3) assms(4) in auto)
    then show ?thesis using 1(4) by blast
  next
    case (2 q)
    have "walks ca (a @ b) ([op_code e, q] @ b')" unfolding 2(1)
      by (rule walks_step) (use browse_param [of _ _ "op_code e" q] 2(2) assms(4) in auto)
    then show ?thesis using 2(3) by blast
  next
    case (3 q)
    have "walks ca (a @ b) ([op_code e, q + ca] @ b')" unfolding 3(1)
      by (rule walks_step) (use browse_jump [of _ _ "op_code e" q] 3(2,3) assms(4) in auto)
    then show ?thesis using 3(4) by blast
  qed
qed

lemma tables_walk:
  "tables_ok env ls \<Longrightarrow> file_cells env True InCseg ls = Inr cells \<Longrightarrow>
    \<exists>cells'. file_cells (abs_env ca env) True InCseg ls = Inr cells' \<and> walks ca cells cells'"
proof (induction arbitrary: cells rule: tables_ok.induct)
  case no_lines
  then show ?case using walks_Nil by simp
next
  case (plain_line l ls)
  obtain a b where ab: "line_cells env True InCseg l = Inr a" "file_cells env True InCseg ls = Inr b" "cells = a @ b"
    using plain_line.prems by (auto simp: bindR_Inr_iff)
  obtain b' where b': "file_cells (abs_env ca env) True InCseg ls = Inr b'" "walks ca b b'" using plain_line.IH [OF ab(2)] by blast
  obtain a' where "line_cells (abs_env ca env) True InCseg l = Inr a'" "walks ca (a @ b) (a' @ b')"
    using walks_line [OF plain_line.hyps(1,2) ab(1) b'(2)] by blast
  then show ?case using b'(1) ab(3) by (intro exI [of _ "a' @ b'"]) simp
next
  case (table_lines l c cs d ls)
  obtain x y z where xyz: "line_cells env True InCseg l = Inr x" "file_cells env True InCseg cs = Inr y"
      "file_cells env True InCseg ls = Inr z" "cells = x @ ([word_of_nat (length cs), d] @ y @ z)"
    using table_lines.prems table_lines.hyps(3) by (auto simp: bindR_Inr_iff file_cells_append)
  obtain z' where z': "file_cells (abs_env ca env) True InCseg ls = Inr z'" "walks ca z z'" using table_lines.IH [OF xyz(3)] by blast
  obtain rs where rs: "y = flat rs" "length rs = length cs" "file_cells (abs_env ca env) True InCseg cs = Inr (flat (absolute ca rs))"
    using cases_cells [OF table_lines.hyps(4) xyz(2)] by blast
  have c': "line_cells (abs_env ca env) True InCseg c = Inr [word_of_nat (length cs), d + ca]"
    using case_cells [OF table_lines.hyps(2,3), of ca] by auto
  obtain e where e: "code_entry l = Some e" "op_func e \<noteq> Do_case" "op_code e = OP_CASETBL"
    using table_lines.hyps(1) by (auto simp: is_casetbl_def split: option.splits)
  obtain params where p: "\<forall>env. line_cells env True InCseg l = op_cells env True (op_func e) params (op_code e)"
      "op_segment e = InCseg" "same_class e" using line_cells_some [OF e(1)] by blast
  have "OP_CASETBL \<notin> set one_param" "OP_CASETBL \<notin> set jump_param" by (simp_all add: one_param_def jump_param_def)
  then have "op_func e = Parm0" using p(2,3) e(2,3) by (cases "op_func e") (auto simp: same_class_def)
  then have l: "x = [OP_CASETBL]" "line_cells (abs_env ca env) True InCseg l = Inr [OP_CASETBL]" using p(1) xyz(1) e(3) by auto
  let ?rs = "(word_of_nat (length cs), d) # rs"
  have len: "length (concat (map ((\<lambda>(v, a). [v, a]) \<circ> (\<lambda>(v, a). (v, a + ca))) rs)) = 2 * length cs"
    using length_flat [of "absolute ca rs"] rs(2) by simp
  have "walks ca ((OP_CASETBL # flat ?rs) @ z) ((OP_CASETBL # flat (absolute ca ?rs)) @ z')"
    by (rule walks_step) (use browse_table [OF _ refl rs(2)] z'(2) in \<open>auto simp: rs(2) len\<close>)
  moreover have "cells = (OP_CASETBL # flat ?rs) @ z" using xyz(4) l(1) rs(1) by simp
  moreover have "file_cells (abs_env ca env) True InCseg (l # c # cs @ ls) = Inr ((OP_CASETBL # flat (absolute ca ?rs)) @ z')"
    using l(2) c' rs(3) z'(1) by (simp add: file_cells_append)
  ultimately show ?case by blast
qed

text \<open>
  C1: The loader relocates what the assembler wrote: when the code section that the second pass
  has written, in the plain form, lies in a program image behind the header, \<open>amx_BrowseRelocate\<close>
  recognises every instruction, ends after at most one turn per cell, reports success, and leaves
  exactly the code the assembler would have written with absolute addresses for all labels and
  functions; the rest of the image is unchanged.  Case tables must be complete, and no hook is
  installed.
\<close>

theorem loader_relocates_assembled:
  assumes asm: "second_pass env InCseg lines st = Inr st'" "at_end st" "\<not> writeerror st'" "\<not> sc_compress st" "tables_ok env lines"
    and img: "image p = bin_data (fbin st') @ post" "hdr (image p) = Inr h" "h_magic h = AMX_MAGIC" "pr_hook p = NoHook"
      "h_cod h = word_of_nat (length (bin_data (fbin st)))" "h_dat h = word_of_nat (length (bin_data (fbin st')))"
      "length (bin_data (fbin st')) < 2 ^ 31"
  shows "\<exists>cells. file_cells (abs_env (image_addr p + h_cod h) env) True InCseg lines = Inr cells
    \<and> (\<forall>fuel > length cells. amx_BrowseRelocate fuel ndebug p = Inr (Some (AMX_ERR_NONE,
          p\<lparr>image := bin_data (fbin st) @ code_bytes False cells @ post, pr_sysreq_d := OP_SYSREQ_D,
            pr_flags := (pr_flags p OR AMX_FLAG_BROWSE) AND NOT AMX_FLAG_BROWSE OR AMX_FLAG_RELOC\<rparr>)))"
proof -
  let ?pre = "bin_data (fbin st)" and ?ca = "image_addr p + h_cod h"
  obtain cells where c: "file_cells env True InCseg lines = Inr cells" "write_encoded st cells = Inr st'"
    using second_pass_cells [OF asm(1)] by blast
  have d: "bin_data (fbin st') = ?pre @ concat (map cell_le cells)"
    using write_encoded_bytes [OF c(2) asm(3,2)] asm(4) by (simp add: code_bytes_def)
  obtain cells' where w: "file_cells (abs_env ?ca env) True InCseg lines = Inr cells'" "walks ?ca cells cells'"
    using tables_walk [OF asm(5) c(1)] by blast
  have f: "fits ?pre ([] @ cells)" using img(7) unfolding d fits_def by simp
  have i: "image p = img ?pre ([] @ cells) post" using img(1) unfolding d by (simp add: img_def)
  have s: "h_dat h - h_cod h = place (length ([] @ cells))" unfolding img(5,6) d by simp
  have "amx_BrowseRelocate fuel ndebug p = Inr (Some (AMX_ERR_NONE,
      p\<lparr>image := ?pre @ code_bytes False cells' @ post, pr_sysreq_d := OP_SYSREQ_D,
        pr_flags := (pr_flags p OR AMX_FLAG_BROWSE) AND NOT AMX_FLAG_BROWSE OR AMX_FLAG_RELOC\<rparr>))"
    if "length cells' < fuel" for fuel
  proof -
    have n: "length cells < fuel" using that w(2) by (simp add: walks_def)
    have "browse_loop fuel ndebug None (word_of_nat (length ?pre)) ?ca (place (length ([] @ cells))) (img ?pre ([] @ cells) post) (place (length ([] :: cell list)))
        = Inr (Some (AMX_ERR_NONE, img ?pre ([] @ cells') post))"
      using w(2) f n unfolding walks_def by blast
    then have "browse_loop fuel ndebug None (h_cod h) ?ca (h_dat h - h_cod h) (image p) 0
        = Inr (Some (AMX_ERR_NONE, img ?pre ([] @ cells') post))"
      unfolding i [symmetric] s [symmetric] img(5) [symmetric] by simp
    then show ?thesis using img(2,3,4)
      by (simp add: amx_BrowseRelocate_def assertR_def Let_def img_def code_bytes_def)
  qed
  then show ?thesis using w(1) by blast
qed

definition sample_header :: "byte list" where
  "sample_header = cell_le 72 @ [0xe0, 0xf1, 8, 8, 0, 0, 8, 0] @ concat (map cell_le [56, 72, 72, 136, 0, 56, 56, 56, 56, 56, 56])"

definition sample_out :: asmout where
  "sample_out = \<lparr>fbin = \<lparr>bin_data = sample_header, bin_pos = 56, bin_room = 100\<rparr>, sc_compress = False, writeerror = False,
     bytes_in = 0, bytes_out = 0\<rparr>"

definition sample_program :: program where
  "sample_program = \<lparr>image = sample_header @ code_bytes False [51, 12, 134, 89] @ replicate 64 0, image_addr = 0x1000, pr_flags = 0,
     pr_hlw = 0, pr_stp = 0, pr_hea = 0, pr_stk = 0, pr_callback_set = True, pr_data = None, pr_sysreq_d = 0, pr_hook = NoHook,
     pr_optimizer = [], no_function = None\<rparr>"

theorem loader_relocates_assembled_witness:
  "\<exists>p'. amx_BrowseRelocate 5 True sample_program = Inr (Some (AMX_ERR_NONE, p')) \<and> rd_cell (image p') 60 = Inr (0x1000 + 56 + 12)"
proof -
  let ?env = "small_env\<lparr>lbltab := Some [12]\<rparr>"
  let ?second = "second_pass ?env InCseg small_lines sample_out"
  have "case ?second of Inl e \<Rightarrow> False | Inr st' \<Rightarrow> \<not> writeerror st' \<and> bin_data (fbin st') = sample_header @ code_bytes False [51, 12, 134, 89]"
    by code_simp
  then obtain st' where s: "?second = Inr st'" "\<not> writeerror st'" "bin_data (fbin st') = sample_header @ code_bytes False [51, 12, 134, 89]"
    by (auto split: sum.splits)
  have a: "at_end sample_out" by code_simp
  have n: "\<not> sc_compress sample_out" by (simp add: sample_out_def)
  have plain: "\<forall>l \<in> set small_lines. \<not> is_case l \<and> \<not> is_casetbl l" by code_simp
  have t: "tables_ok ?env small_lines" using plain unfolding small_lines_def by (auto intro!: tables_ok.intros)
  have "case hdr (image sample_program) of Inl e \<Rightarrow> False | Inr h \<Rightarrow> h_magic h = AMX_MAGIC \<and> h_cod h = 56 \<and> h_dat h = 72"
    by code_simp
  then obtain h where h: "hdr (image sample_program) = Inr h" "h_magic h = AMX_MAGIC" "h_cod h = 56" "h_dat h = 72"
    by (auto split: sum.splits)
  have l: "length sample_header = 56" by code_simp
  have i: "image sample_program = bin_data (fbin st') @ replicate 64 0" by (simp add: sample_program_def s(3))
  have len: "length (bin_data (fbin st')) = 72" using l by (simp add: s(3) length_code_bytes)
  have pre: "bin_data (fbin sample_out) = sample_header" by (simp add: sample_out_def)
  have fc: "file_cells (abs_env (image_addr sample_program + h_cod h) ?env) True InCseg small_lines = Inr [51, 0x1000 + 56 + 12, 134, 89]"
    unfolding h(3) by code_simp
  have "pr_hook sample_program = NoHook" by (simp add: sample_program_def)
  then have "amx_BrowseRelocate 5 True sample_program = Inr (Some (AMX_ERR_NONE,
      sample_program\<lparr>image := sample_header @ code_bytes False [51, 0x1000 + 56 + 12, 134, 89] @ replicate 64 0, pr_sysreq_d := OP_SYSREQ_D,
        pr_flags := (pr_flags sample_program OR AMX_FLAG_BROWSE) AND NOT AMX_FLAG_BROWSE OR AMX_FLAG_RELOC\<rparr>))"
    using loader_relocates_assembled [OF s(1) a s(2) n t i h(1,2), of True] h(3,4) l len fc unfolding pre by auto
  moreover have "rd_cell (sample_header @ code_bytes False [51, 0x1000 + 56 + 12, 134, 89] @ replicate 64 0) 60 = Inr (0x1000 + 56 + 12)"
    by code_simp
  ultimately show ?thesis by (auto simp del: replicate.simps)
qed

section \<open>The search for a public function\<close>

text \<open>The names in the table of public functions, in its order.\<close>

definition public_names :: "mem \<Rightarrow> string list \<Rightarrow> bool" where
  "public_names m ns \<longleftrightarrow> amx_NumPublics m = Inr (AMX_ERR_NONE, word_of_nat (length ns)) \<and> length ns < 2 ^ 30
    \<and> (\<forall>i < length ns. amx_GetPublic m (word_of_nat i) (sNAMEMAX_amx + 1) = Inr (AMX_ERR_NONE, Some (ns ! i)))"

definition search_result :: "string list \<Rightarrow> string \<Rightarrow> int \<times> cell \<Rightarrow> bool" where
  "search_result ns name r \<longleftrightarrow>
    (if name \<in> set ns then \<exists>k < length ns. ns ! k = name \<and> r = (AMX_ERR_NONE, word_of_nat k) else r = (AMX_ERR_NOTFOUND, INT_MAX))"

lemma names_compare:
  assumes "sorted (map CName ns)" "i < length ns" "j < length ns"
  shows "strcmp (ns ! i) (ns ! j) > 0 \<Longrightarrow> j < i" "strcmp (ns ! i) (ns ! j) < 0 \<Longrightarrow> i < j"
proof -
  have le: "strcmp (ns ! a) (ns ! b) \<le> 0" if "a \<le> b" "b < length ns" for a b
    using sorted_nth_mono [OF assms(1), of a b] that by (simp add: CName_le_iff)
  show "strcmp (ns ! i) (ns ! j) > 0 \<Longrightarrow> j < i" using le [of i j] assms by force
  show "strcmp (ns ! i) (ns ! j) < 0 \<Longrightarrow> i < j" using le [of j i] assms strcmp_anti [of "ns ! i" "ns ! j"] by force
qed

lemma find_public_loop_spec:
  assumes names: "public_names m ns" and srt: "sorted (map CName ns)"
  shows "0 \<le> first \<Longrightarrow> lst < int (length ns) \<Longrightarrow> (\<forall>k < length ns. ns ! k = name \<longrightarrow> first \<le> int k \<and> int k \<le> lst) \<Longrightarrow>
    \<exists>r. find_public_loop m name p first lst = Inr r \<and> search_result ns name r"
proof (induction "nat (lst - first + 1)" arbitrary: p first lst rule: less_induct)
  case less
  show ?case
  proof (cases "first \<le> lst")
    case False
    then have "name \<notin> set ns" using less.prems by (fastforce simp: in_set_conv_nth)
    then show ?thesis using False by (subst find_public_loop.simps) (simp add: search_result_def)
  next
    case True
    let ?mid = "(first + lst) div 2" and ?k = "nat ((first + lst) div 2)"
    have mid: "first \<le> ?mid" "?mid \<le> lst" using True by auto
    have k: "?k < length ns" "int ?k = ?mid" using mid less.prems(1,2) by auto
    have small: "\<not> first + lst > sint INT_MAX" using True less.prems names by (simp add: INT_MAX_def public_names_def)
    have w: "(word_of_int ?mid :: cell) = word_of_nat ?k" using k(2) by (metis of_int_of_nat_eq)
    have g: "amx_GetPublic m (word_of_int ?mid) (sNAMEMAX_amx + 1) = Inr (AMX_ERR_NONE, Some (ns ! ?k))"
      using names k(1) unfolding w public_names_def by blast
    have step: "find_public_loop m name p first lst =
        (if strcmp (ns ! ?k) name > 0 then find_public_loop m name (Some (ns ! ?k)) first (?mid - 1)
         else if strcmp (ns ! ?k) name < 0 then find_public_loop m name (Some (ns ! ?k)) (?mid + 1) lst
         else Inr (AMX_ERR_NONE, word_of_nat ?k))"
      using True small g w by (subst find_public_loop.simps) (simp add: Let_def strcmp_buf_def)
    note cmp = names_compare [OF srt k(1)]
    consider "strcmp (ns ! ?k) name > 0" | "strcmp (ns ! ?k) name < 0" | "ns ! ?k = name"
      using strcmp_0_iff [of "ns ! ?k" name] by linarith
    then show ?thesis
    proof cases
      case 1
      have "\<forall>j < length ns. ns ! j = name \<longrightarrow> first \<le> int j \<and> int j \<le> ?mid - 1"
        using less.prems(3) cmp(1) 1 k(2) by fastforce
      then show ?thesis using step 1 less.hyps [of "?mid - 1" first "Some (ns ! ?k)"] less.prems mid by simp
    next
      case 2
      have "\<forall>j < length ns. ns ! j = name \<longrightarrow> ?mid + 1 \<le> int j \<and> int j \<le> lst"
        using less.prems(3) cmp(2) 2 k(2) by fastforce
      then show ?thesis using step 2 less.hyps [of lst "?mid + 1" "Some (ns ! ?k)"] less.prems mid by simp
    next
      case 3
      then have "name \<in> set ns" using nth_mem [OF k(1)] by simp
      then show ?thesis using step 3 k(1) by (auto simp: search_result_def)
    qed
  qed
qed

text \<open>
  C15: The search for a public function: when the names in the table are in ascending order,
  \<open>amx_FindPublic\<close> returns the index of an entry with the name, and without such an entry
  \<open>AMX_ERR_NOTFOUND\<close> and the largest integer, on which \<open>amx_Exec\<close> fails.
\<close>

theorem amx_FindPublic_correct:
  assumes "public_names m ns" "sorted (map CName ns)"
  shows "\<exists>e i. amx_FindPublic m name = Inr (e, i)
    \<and> (name \<in> set ns \<longrightarrow> e = AMX_ERR_NONE \<and> unat i < length ns \<and> ns ! unat i = name)
    \<and> (name \<notin> set ns \<longrightarrow> e = AMX_ERR_NOTFOUND \<and> i = INT_MAX)"
proof -
  have n: "length ns < 2 ^ 30" "amx_NumPublics m = Inr (AMX_ERR_NONE, word_of_nat (length ns))"
    using assms(1) by (auto simp: public_names_def)
  have u: "unat (word_of_nat k :: cell) = k" if "k < length ns" for k using n(1) that by (simp add: unat_of_nat take_bit_nat_eq_self)
  have "sint (word_of_nat (length ns) - 1 :: cell) = int (length ns) - 1"
    using sint_diff_small [of "word_of_nat (length ns)" 1] sint_small_nat [of "length ns"] n(1) by simp
  then have "amx_FindPublic m name = find_public_loop m name None 0 (int (length ns) - 1)"
    using n(2) by (simp add: amx_FindPublic_def)
  then obtain r where "amx_FindPublic m name = Inr r" "search_result ns name r"
    using find_public_loop_spec [OF assms, of 0 "int (length ns) - 1" name None] by auto
  then show ?thesis using u by (cases r) (auto simp: search_result_def split: if_splits)
qed

text \<open>A header, three entries and the names behind them.\<close>

definition sample_table :: mem where
  "sample_table = cell_le 104 @ [0xe0, 0xf1, 8, 8, 0, 0, 8, 0] @ concat (map cell_le [104, 104, 104, 136, 0, 56, 80, 80, 80, 80, 80])
    @ concat (map cell_le [1, 80, 2, 83, 3, 86]) @ map byte_of (''ab'' @ NUL # ''cd'' @ NUL # ''ef'' @ [NUL])"

theorem amx_FindPublic_correct_witness:
  "public_names sample_table [''ab'', ''cd'', ''ef''] \<and> (\<exists>i. amx_FindPublic sample_table ''ef'' = Inr (AMX_ERR_NONE, i) \<and> unat i < 3
    \<and> [''ab'', ''cd'', ''ef''] ! unat i = ''ef'')"
proof -
  have "amx_NumPublics sample_table = Inr (AMX_ERR_NONE, 3)" by code_simp
  moreover have "amx_GetPublic sample_table 0 64 = Inr (AMX_ERR_NONE, Some ''ab'')"
    "amx_GetPublic sample_table 1 64 = Inr (AMX_ERR_NONE, Some ''cd'')" "amx_GetPublic sample_table 2 64 = Inr (AMX_ERR_NONE, Some ''ef'')"
    by code_simp+
  ultimately have p: "public_names sample_table [''ab'', ''cd'', ''ef'']"
    unfolding public_names_def sNAMEMAX_amx_def
    by (intro conjI allI impI) (auto simp: less_Suc_eq nth_Cons numeral_3_eq_3 split: nat.split)
  have "sorted (map CName [''ab'', ''cd'', ''ef''])" by (simp add: CName_le_iff)
  then show ?thesis using amx_FindPublic_correct [OF p, of "''ef''"] p by auto
qed

end
