(* ===== verification/Errors.thy ===== *)
theory Errors
  imports Lists
begin

unbundle bit_operations_syntax

text \<open>
  The messages of the compiler (\<open>sc5.c\<close>): errors, fatal errors and warnings with their counters,
  the flags that switch warnings off, the marks of the place an error belongs to, and the limits
  at which the compiler gives up.
\<close>

section \<open>The state\<close>

text \<open>
  The static variables of \<open>sc5.c\<close> and the counters it changes.  The messages that were output are
  kept in the order of their output: the number, the prefix, the file and the range of lines
  (a start of -1 for a single line); \<open>Aborted\<close> is the closing line.
\<close>

datatype message = Message int nat string int int | Aborted

record diag =
  errflag :: bool
  errfile :: int
  errstart :: int
  errline :: int
  warndisable :: "8 word list"
  lastline :: int
  errorcount :: int
  lastfile :: int
  errnum :: int
  warnnum :: int
  outf_open :: bool
  messages :: "message list"

text \<open>
  What the rest of the compiler provides: its status, the current line and file, the option that
  turns warnings into errors, the tables of file names, and whether the host stops the compiler
  after a message (\<open>pc_error\<close>).  With a name in \<open>errfname\<close> the messages go to that file, if it
  can be opened.
\<close>

record diagenv =
  status :: status
  cur_line :: int
  cur_file :: int
  sc_warnings_are_errors :: bool
  inpfname :: "string option"
  lists :: sclists
  errfname :: string
  log_opens :: bool
  pc_error :: "int \<Rightarrow> bool"

definition NUM_ERRORS :: nat where "NUM_ERRORS = 88"
definition NUM_FATALS :: nat where "NUM_FATALS = 13"
definition NUM_WARNINGS :: nat where "NUM_WARNINGS = 35"

text \<open>A message is either output or not; the function returns or leaves by \<open>longjmp\<close>.\<close>

datatype errout = Silent | Reported diag | Jumped nat diag

section \<open>Reporting\<close>

definition warn_mask :: "int \<Rightarrow> 8 word" where "warn_mask n = push_bit (nat (n mod 8)) 1"

text \<open>Whether the flag of a warning is set; the index is not compared with the size of the table.\<close>

definition disabled :: "diag \<Rightarrow> int \<Rightarrow> bool res" where
  "disabled st number =
     (let i = nat ((number - 200) div 8) in
      if i < length (warndisable st) then Inr (warndisable st ! i AND warn_mask (number - 200) \<noteq> 0) else Inl OutOfBounds)"

definition has_message :: "int \<Rightarrow> bool" where
  "has_message number =
     (if number < 100 then 1 \<le> number \<and> number \<le> int NUM_ERRORS
      else if number < 200 then number - 100 < int NUM_FATALS else number - 200 < int NUM_WARNINGS)"

text \<open>The counters and the prefix of the message: 0 error, 1 fatal error, 2 warning.\<close>

definition count_message :: "diagenv \<Rightarrow> int \<Rightarrow> diag \<Rightarrow> nat \<times> diag" where
  "count_message e number st =
     (if number < 100 then (0, st\<lparr>errflag := True, errnum := errnum st + 1\<rparr>)
      else if number < 200 then (1, st\<lparr>errnum := errnum st + 1\<rparr>)
      else if sc_warnings_are_errors e then (0, st\<lparr>errnum := errnum st + 1\<rparr>)
      else (2, st\<lparr>warnnum := warnnum st + 1\<rparr>))"

definition place_message :: "diagenv \<Rightarrow> diag \<Rightarrow> diag" where
  "place_message e st =
     (let st = (if errline st > 0 then st\<lparr>errstart := errline st\<rparr> else st\<lparr>errline := cur_line e\<rparr>) in
      if errstart st > errline st then st\<lparr>errstart := errline st\<rparr> else st)"

definition output_message :: "diagenv \<Rightarrow> int \<Rightarrow> nat \<Rightarrow> string \<Rightarrow> diag \<Rightarrow> diag" where
  "output_message e number pre filename st =
     (if errfname e = [] then
        st\<lparr>messages := messages st @ [Message number pre filename (if errstart st = errline st then - 1 else errstart st) (errline st)]\<rparr>
      else if log_opens e then
        st\<lparr>messages := messages st @ [Message number pre filename
          (if errstart st \<ge> 0 \<and> errstart st \<noteq> errline st then errstart st else - 1) (errline st)]\<rparr>
      else st)"

text \<open>The count of the errors on one line.\<close>

definition line_message :: "diagenv \<Rightarrow> int \<Rightarrow> diag \<Rightarrow> diag" where
  "line_message e number st =
     (let st = st\<lparr>errline := - 1, errfile := - 1\<rparr>;
          st = (if errstart st < 0 \<and> lastline st \<noteq> cur_line e \<or> lastline st < errstart st \<or> lastline st > cur_line e
                  \<or> cur_file e \<noteq> lastfile st then st\<lparr>errorcount := 0\<rparr> else st);
          st = st\<lparr>lastline := cur_line e, lastfile := cur_file e\<rparr> in
      if number \<ge> 200 \<and> \<not> sc_warnings_are_errors e then st else st\<lparr>errorcount := errorcount st + 1\<rparr>)"

text \<open>The function up to the call for the third message on one line.\<close>

definition report :: "diagenv \<Rightarrow> int \<Rightarrow> diag \<Rightarrow> errout res" where
  "report e number st =
     (if (errflag st \<or> status e \<noteq> statWRITE) \<and> (number < 100 \<or> number \<ge> 200) then Inr Silent
      else bindR (if number \<ge> 200 then disabled st number else Inr False) (\<lambda>off.
      if off then Inr Silent
      else if \<not> has_message number then Inl OutOfBounds
      else let (pre, st) = count_message e number st; st = place_message e st in
        case (if errfile st \<ge> 0 then get_inputfile (lists e) (errfile st) else inpfname e) of
          None \<Rightarrow> Inl AssertFailed
        | Some filename \<Rightarrow>
            let st = output_message e number pre filename st in
            if errfname e = [] \<and> pc_error e number then Inr (Jumped 3 (st\<lparr>outf_open := False\<rparr>))
            else if number \<ge> 100 \<and> number < 200 \<or> errnum st > 25 then
              Inr (Jumped 2 (st\<lparr>outf_open := False, messages := messages st @ (if errfname e = [] then [Aborted] else [])\<rparr>))
            else Inr (Reported (line_message e number st))))"

text \<open>\<open>error\<close>; the call for the third message on one line does not return (see below).\<close>

definition error :: "diagenv \<Rightarrow> int \<Rightarrow> diag \<Rightarrow> errout res" where
  "error e number st =
     bindR (report e number st) (\<lambda>r. case r of
       Reported st \<Rightarrow> if errorcount st \<ge> 3 then report e 107 st else Inr (Reported st)
     | _ \<Rightarrow> Inr r)"

section \<open>Marks and warnings\<close>

datatype errcode = sRESET | sFORCESET | sEXPRMARK | sEXPRRELEASE | sSETLINE | sSETFILE

definition errorset :: "diagenv \<Rightarrow> errcode \<Rightarrow> int \<Rightarrow> diag \<Rightarrow> diag" where
  "errorset e code line st =
     (case code of
        sRESET \<Rightarrow> st\<lparr>errflag := False\<rparr>
      | sFORCESET \<Rightarrow> st\<lparr>errflag := True\<rparr>
      | sEXPRMARK \<Rightarrow> st\<lparr>errstart := cur_line e\<rparr>
      | sEXPRRELEASE \<Rightarrow> st\<lparr>errstart := - 1, errline := - 1, errfile := - 1\<rparr>
      | sSETLINE \<Rightarrow> st\<lparr>errstart := - 1, errline := line\<rparr>
      | sSETFILE \<Rightarrow> st\<lparr>errfile := line\<rparr>)"

definition pc_enablewarning :: "int \<Rightarrow> int \<Rightarrow> diag \<Rightarrow> (bool \<times> diag) res" where
  "pc_enablewarning number enable st =
     (if number < 200 then Inr (False, st)
      else let number = number - 200 in
        if number \<ge> int NUM_WARNINGS then Inr (False, st)
        else let index = nat (number div 8); mask = warn_mask number; w = warndisable st in
          if index < length w then
            Inr (True, st\<lparr>warndisable := w[index :=
              (if enable = 0 then w ! index OR mask
               else if enable = 1 then w ! index AND NOT mask
               else if enable = 2 then w ! index XOR mask else w ! index)]\<rparr>)
          else Inl OutOfBounds)"

section \<open>Warnings can be switched separately\<close>

definition flags_ok :: "diag \<Rightarrow> bool" where "flags_ok st \<longleftrightarrow> length (warndisable st) = (NUM_WARNINGS + 7) div 8"

lemma warn_mask_bit: "0 \<le> n \<Longrightarrow> bit (warn_mask n) k \<longleftrightarrow> k = nat (n mod 8)"
proof -
  assume "0 \<le> n"
  then have "nat (n mod 8) < 8" by simp
  then show ?thesis by (auto simp: warn_mask_def bit_push_bit_iff bit_1_iff bit_exp_iff)
qed

lemma and_mask: "0 \<le> n \<Longrightarrow> w AND warn_mask n \<noteq> 0 \<longleftrightarrow> bit w (nat (n mod 8))"
  by (auto simp: bit_eq_iff [of "w AND warn_mask n"] bit_and_iff warn_mask_bit)

lemma disabled_bit: "flags_ok st \<Longrightarrow> 200 \<le> n \<Longrightarrow> n < 235 \<Longrightarrow>
    disabled st n = Inr (bit (warndisable st ! nat ((n - 200) div 8)) (nat ((n - 200) mod 8)))"
  using and_mask [of "n - 200"] by (simp add: disabled_def flags_ok_def NUM_WARNINGS_def Let_def)

lemma same_flag: "200 \<le> n \<Longrightarrow> 200 \<le> m \<Longrightarrow>
    nat ((n - 200) div 8) = nat ((m - 200) div 8) \<and> nat ((n - 200) mod 8) = nat ((m - 200) mod 8) \<longleftrightarrow> n = (m :: int)"
  by (auto simp: nat_eq_iff) presburger

text \<open>
  C17: Switching a warning off, on or over changes the flag of this warning and of no other one,
  for all 35 warnings, and a warning that is switched off leaves no message and changes nothing;
  errors cannot be switched off.
\<close>

theorem pc_enablewarning_exact:
  assumes "flags_ok st" "200 \<le> m" "m < 235" "200 \<le> n" "n < 235"
  shows "\<exists>st' d d'. pc_enablewarning n enable st = Inr (True, st') \<and> flags_ok st' \<and> disabled st m = Inr d \<and> disabled st' m = Inr d'
    \<and> d' = (if m \<noteq> n then d else if enable = 0 then True else if enable = 1 then False else if enable = 2 then \<not> d else d)
    \<and> (d' \<longrightarrow> error e m st' = Inr Silent)"
proof -
  define i where "i k = nat ((k - 200) div 8)" for k :: int
  define j where "j k = nat ((k - 200) mod 8)" for k :: int
  have len: "i k < length (warndisable st)" if "200 \<le> k" "k < 235" for k
    using that assms(1) by (simp add: i_def flags_ok_def NUM_WARNINGS_def nat_less_iff)
  have j8: "j k < 8" for k by (simp add: j_def nat_less_iff)
  have mask: "bit (warn_mask (n - 200)) k \<longleftrightarrow> k = j n" for k using assms(4) warn_mask_bit [of "n - 200" k] by (simp add: j_def)
  let ?w = "warndisable st ! i n"
  let ?v = "if enable = 0 then ?w OR warn_mask (n - 200) else if enable = 1 then ?w AND NOT (warn_mask (n - 200))
     else if enable = 2 then ?w XOR warn_mask (n - 200) else ?w"
  define st' where "st' = st\<lparr>warndisable := (warndisable st)[i n := ?v]\<rparr>"
  have ok: "flags_ok st'" using assms(1) by (simp add: flags_ok_def st'_def)
  have e: "pc_enablewarning n enable st = Inr (True, st')"
    using assms(4,5) len [OF assms(4,5)] by (simp add: pc_enablewarning_def Let_def i_def st'_def NUM_WARNINGS_def)
  have d: "disabled st m = Inr (bit (warndisable st ! i m) (j m))"
    unfolding i_def j_def by (rule disabled_bit [OF assms(1,2,3)])
  have d': "disabled st' m = Inr (bit (warndisable st' ! i m) (j m))"
    unfolding i_def j_def by (rule disabled_bit [OF ok assms(2,3)])
  have v: "bit ?v k = (if k \<noteq> j n then bit ?w k else if enable = 0 then True else if enable = 1 then False
      else if enable = 2 then \<not> bit ?w k else bit ?w k)" if "k < 8" for k
    using that by (auto simp: bit_or_iff bit_and_iff bit_xor_iff bit_not_iff mask)
  have eq: "i m = i n \<and> j m = j n \<longleftrightarrow> m = n" using same_flag [OF assms(2,4)] by (simp add: i_def j_def)
  have "bit (warndisable st' ! i m) (j m) = (if m \<noteq> n then bit (warndisable st ! i m) (j m) else if enable = 0 then True
      else if enable = 1 then False else if enable = 2 then \<not> bit (warndisable st ! i m) (j m) else bit (warndisable st ! i m) (j m))"
  proof (cases "i m = i n")
    case True
    then have "warndisable st' ! i m = ?v" using len [OF assms(4,5)] by (simp add: st'_def)
    moreover have "j m = j n \<longleftrightarrow> m = n" using eq True by blast
    ultimately show ?thesis using v [OF j8, of m] True by simp
  next
    case False
    then show ?thesis using eq by (auto simp: st'_def)
  qed
  moreover have "error e m st' = Inr Silent" if "disabled st' m = Inr True"
    using that assms(2) by (simp add: error_def report_def)
  ultimately show ?thesis using e ok d d' by (intro exI conjI) (assumption | rule refl | simp)+
qed

definition sample_diag :: diag where
  "sample_diag = \<lparr>errflag = False, errfile = - 1, errstart = - 1, errline = - 1, warndisable = replicate 5 0, lastline = 0,
     errorcount = 0, lastfile = 0, errnum = 0, warnnum = 0, outf_open = True, messages = []\<rparr>"

definition sample_diagenv :: diagenv where
  "sample_diagenv = \<lparr>status = statWRITE, cur_line = 12, cur_file = 0, sc_warnings_are_errors = False, inpfname = Some ''a.sma'',
     lists = sclists_empty, errfname = [], log_opens = False, pc_error = (\<lambda>n. False)\<rparr>"

theorem pc_enablewarning_exact_witness:
  "\<exists>st'. pc_enablewarning 213 0 sample_diag = Inr (True, st') \<and> error sample_diagenv 213 st' = Inr Silent"
proof -
  have "flags_ok sample_diag" by (simp add: flags_ok_def sample_diag_def NUM_WARNINGS_def)
  then show ?thesis using pc_enablewarning_exact [of sample_diag 213 213 0 sample_diagenv] by fastforce
qed

section \<open>The limits\<close>

lemma message_fields [simp]:
  "errnum (place_message e st) = errnum st" "errnum (output_message e n pre f st) = errnum st" "errnum (line_message e n st) = errnum st"
  "errflag (place_message e st) = errflag st" "errflag (output_message e n pre f st) = errflag st" "errflag (line_message e n st) = errflag st"
  "errorcount (place_message e st) = errorcount st" "errorcount (output_message e n pre f st) = errorcount st"
  by (simp_all add: place_message_def output_message_def line_message_def Let_def)

lemma line_count: "errorcount (line_message e n st) \<le> max 0 (errorcount st) + (if n < 200 \<or> sc_warnings_are_errors e then 1 else 0)"
  by (simp add: line_message_def Let_def)

lemma count_fields:
  "count_message e n st = (pre, st1) \<Longrightarrow> errnum st1 = errnum st + (if n < 200 \<or> sc_warnings_are_errors e then 1 else 0)
    \<and> errorcount st1 = errorcount st \<and> (n < 100 \<longrightarrow> errflag st1)"
  by (auto simp: count_message_def split: if_splits)

lemma report_Reported:
  assumes "report e n st = Inr (Reported st')"
  shows "errnum st' = errnum st + (if n < 200 \<or> sc_warnings_are_errors e then 1 else 0) \<and> errnum st' \<le> 25 \<and> (n < 100 \<or> n \<ge> 200)
    \<and> (n < 100 \<longrightarrow> errflag st') \<and> errorcount st' \<le> max 0 (errorcount st) + (if n < 200 \<or> sc_warnings_are_errors e then 1 else 0)"
proof -
  obtain pre st1 where c: "count_message e n st = (pre, st1)" by (cases "count_message e n st")
  obtain f where "st' = line_message e n (output_message e n pre f (place_message e st1))"
      "\<not> (100 \<le> n \<and> n < 200 \<or> errnum st1 > 25)"
    using assms c unfolding report_def by (auto simp: Let_def bindR_Inr_iff split: if_splits option.splits)
  then show ?thesis using count_fields [OF c] line_count [of e n "output_message e n pre f (place_message e st1)"] by auto
qed

lemma report_fatal: "100 \<le> n \<Longrightarrow> n < 200 \<Longrightarrow> report e n st = Inr r \<Longrightarrow> \<exists>c st'. r = Jumped c st'"
  by (auto simp: report_def Let_def bindR_Inr_iff split: if_splits option.splits prod.splits)

lemma report_Jumped: "report e n st = Inr (Jumped c st') \<Longrightarrow> c \<in> {2, 3} \<and> \<not> outf_open st'"
  by (auto simp: report_def Let_def bindR_Inr_iff split: if_splits option.splits prod.splits)

lemma silenced: "errflag st \<Longrightarrow> m < 100 \<or> m \<ge> 200 \<Longrightarrow> error e m st = Inr Silent"
  by (simp add: error_def report_def)

text \<open>
  C16: The limits of error reporting: as long as \<open>error\<close> returns, at most 25 errors have been
  counted in all and at most two on one line, each call counts one message, and an error that is
  reported silences all further errors and warnings until \<open>errorset(sRESET)\<close>; a fatal error never
  returns, and whenever \<open>error\<close> does not return the output file has been closed.
\<close>

theorem error_limits:
  assumes "errorcount st \<in> {0..2}" "error e n st = Inr r"
  shows "case r of
      Silent \<Rightarrow> n < 100 \<or> n \<ge> 200
    | Reported st' \<Rightarrow> (n < 100 \<or> n \<ge> 200) \<and> errnum st' \<le> 25 \<and> errorcount st' \<le> 2
        \<and> errnum st' = errnum st + (if n < 100 \<or> sc_warnings_are_errors e then 1 else 0)
        \<and> (n < 100 \<longrightarrow> (\<forall>m e'. m < 100 \<or> m \<ge> 200 \<longrightarrow> error e' m st' = Inr Silent))
    | Jumped c st' \<Rightarrow> c \<in> {2, 3} \<and> \<not> outf_open st'"
proof (cases r)
  case Silent
  obtain x where x: "report e n st = Inr x" using assms(2) by (auto simp: error_def bindR_Inr_iff)
  have "report e 107 y \<noteq> Inr Silent" for y using report_fatal [of 107 e y] by auto
  then have "report e n st = Inr Silent" using assms(2) x Silent by (cases x) (auto simp: error_def split: if_splits)
  then have "\<not> (100 \<le> n \<and> n < 200)" using report_fatal [of n e st] by fastforce
  then show ?thesis using Silent by auto
next
  case (Reported st')
  obtain x where x: "report e n st = Inr x" using assms(2) by (auto simp: error_def bindR_Inr_iff)
  have "report e 107 y \<noteq> Inr (Reported st')" for y using report_fatal [of 107 e y] by auto
  then have "report e n st = Inr (Reported st') \<and> errorcount st' < 3"
    using assms(2) x Reported by (cases x) (auto simp: error_def split: if_splits)
  then show ?thesis using Reported report_Reported [of e n st st'] silenced [of st'] by auto
next
  case (Jumped c st')
  obtain x where x: "report e n st = Inr x" using assms(2) by (auto simp: error_def bindR_Inr_iff)
  then have "x = Jumped c st' \<or> (\<exists>y. report e 107 y = Inr (Jumped c st'))"
    using assms(2) Jumped by (cases x) (auto simp: error_def split: if_splits)
  then have "c \<in> {2, 3} \<and> \<not> outf_open st'" using x report_Jumped by blast
  then show ?thesis using Jumped by simp
qed

theorem error_limits_witness:
  "\<exists>st'. error sample_diagenv 17 sample_diag = Inr (Reported st') \<and> errnum st' = 1 \<and> error sample_diagenv 203 st' = Inr Silent"
proof -
  have "case error sample_diagenv 17 sample_diag of Inr (Reported st') \<Rightarrow> True | _ \<Rightarrow> False" by code_simp
  then obtain st' where s: "error sample_diagenv 17 sample_diag = Inr (Reported st')" by (auto split: sum.splits errout.splits)
  have "errorcount sample_diag \<in> {0..2}" by (simp add: sample_diag_def)
  from error_limits [OF this s] show ?thesis using s by (auto simp: sample_diag_def)
qed

end
