(* ===== verification/Automata.thy ===== *)
theory Automata
  imports Constvals Symhash
begin

text \<open>
  State machines of the compiled program (\<open>scstate.c\<close>): the automata, their states, and the
  combinations of states that functions are defined for, each with a number of its own.
\<close>

section \<open>Automata and states\<close>

text \<open>The search also yields the largest identification number it has passed.\<close>

fun find_automaton :: "constvalue list \<Rightarrow> string \<Rightarrow> int \<Rightarrow> constvalue option \<times> int" where
  "find_automaton [] name lst = (None, lst)"
| "find_automaton (ptr # rest) name lst =
     (if strcmp name (cv_name ptr) = 0 then (Some ptr, lst)
      else find_automaton rest name (if cv_index ptr > lst then cv_index ptr else lst))"

fun find_state :: "constvalue list \<Rightarrow> string \<Rightarrow> int \<Rightarrow> int \<Rightarrow> constvalue option \<times> int" where
  "find_state [] name fsa lst = (None, lst)"
| "find_state (ptr # rest) name fsa lst =
     (if cv_index ptr = fsa then
        if strcmp name (cv_name ptr) = 0 then (Some ptr, lst)
        else find_state rest name fsa (if sint (cv_value ptr) > lst then sint (cv_value ptr) else lst)
      else find_state rest name fsa lst)"

definition state_add :: "constvalue list \<Rightarrow> string \<Rightarrow> int \<Rightarrow> bool \<Rightarrow> (constvalue \<times> constvalue list) res" where
  "state_add states name fsa ok =
     assertR (length name \<le> cv_NAMEMAX)
       (case find_state states name fsa 0 of
          (Some ptr, lst) \<Rightarrow> Inr (ptr, states)
        | (None, lst) \<Rightarrow> assertR (fsa \<le> SHRT_MAX) (append_constval states name (word_of_int (lst + 1)) (to_short fsa) ok))"

text \<open>A new automaton gets an anonymous state.\<close>

definition automaton_add ::
  "constvalue list \<Rightarrow> constvalue list \<Rightarrow> string \<Rightarrow> bool \<Rightarrow> bool \<Rightarrow> (constvalue \<times> constvalue list \<times> constvalue list) res" where
  "automaton_add automata states name ok ok2 =
     assertR (length name \<le> cv_NAMEMAX)
       (case find_automaton automata name 0 of
          (Some ptr, lst) \<Rightarrow> Inr (ptr, automata, states)
        | (None, lst) \<Rightarrow> assertR (lst + 1 \<le> SHRT_MAX)
            (bindR (append_constval automata name 0 (to_short (lst + 1)) ok) (\<lambda>(ptr, automata).
             bindR (state_add states [] (lst + 1) ok2) (\<lambda>(p, states). Inr (ptr, automata, states)))))"

definition automaton_find :: "constvalue list \<Rightarrow> string \<Rightarrow> constvalue option" where
  "automaton_find automata name = fst (find_automaton automata name 0)"

definition automaton_findid :: "constvalue list \<Rightarrow> int \<Rightarrow> constvalue option" where
  "automaton_findid automata i = find (\<lambda>p. cv_index p = i) automata"

definition state_find :: "constvalue list \<Rightarrow> string \<Rightarrow> int \<Rightarrow> constvalue option" where
  "state_find states name fsa_id = fst (find_state states name fsa_id 0)"

definition state_findid :: "constvalue list \<Rightarrow> int \<Rightarrow> constvalue option" where
  "state_findid states i = find (\<lambda>p. sint (cv_value p) = i) states"

section \<open>Lists of states\<close>

text \<open>
  \<open>state_buildlist\<close> inserts into a sorted buffer that grows by four.  The condition of the search
  is \<open>*list[idx]<stateid\<close>, with \<open>list\<close> a pointer to the pointer to the buffer: from the second
  state on it reads behind this pointer, which is undefined.
\<close>

function insertion_point :: "int list \<Rightarrow> nat \<Rightarrow> int \<Rightarrow> nat \<Rightarrow> nat res" where
  "insertion_point buf cnt stateid idx =
     (if idx < cnt then
        if idx > 0 then Inl Undefined
        else if cnt > length buf then Inl OutOfBounds
        else if buf ! 0 < stateid then insertion_point buf cnt stateid (idx + 1) else Inr idx
      else Inr idx)"
  by pat_completeness auto
termination
  by (relation "measure (\<lambda>(buf, cnt, stateid, idx). cnt - idx)") auto

declare insertion_point.simps [simp del]

definition state_buildlist :: "int list \<Rightarrow> nat \<Rightarrow> int \<Rightarrow> (nat \<Rightarrow> int) \<Rightarrow> bool \<Rightarrow> (int list \<times> nat) res" where
  "state_buildlist buf cnt stateid junk ok =
     assertR (cnt \<le> length buf)
       (if cnt = length buf \<and> \<not> ok then Inl (FatalError 103)
        else let buf = (if cnt = length buf then buf @ fresh junk 4 else buf) in
          bindR (insertion_point buf cnt stateid 0) (\<lambda>idx.
          bindR (if idx < cnt then bindR (peek buf idx (cnt - idx + 1)) (blit buf (idx + 1)) else Inr buf) (\<lambda>buf.
            Inr (buf[idx := stateid], cnt + 1))))"

text \<open>The table of the combinations, the newest one first.\<close>

record statelist =
  states :: "int list"
  fsa :: int
  listid :: int

fun state_findlist :: "statelist list \<Rightarrow> int list \<Rightarrow> int \<Rightarrow> int \<Rightarrow> statelist option \<times> int" where
  "state_findlist [] xs f lst = (None, lst)"
| "state_findlist (ptr # rest) xs f lst =
     (let lst = (if listid ptr > lst then listid ptr else lst) in
      if fsa ptr = f \<and> length (states ptr) = length xs \<and> states ptr = xs then (Some ptr, lst)
      else state_findlist rest xs f lst)"

definition state_getlist_ptr :: "statelist list \<Rightarrow> int \<Rightarrow> statelist option res" where
  "state_getlist_ptr tab i = assertR (i > 0) (Inr (find (\<lambda>p. listid p = i) tab))"

definition state_addlist :: "statelist list \<Rightarrow> int list \<Rightarrow> int \<Rightarrow> bool \<Rightarrow> (int \<times> statelist list) res" where
  "state_addlist tab xs f ok =
     assertR (xs \<noteq> [])
       (case state_findlist tab xs f 0 of
          (Some ptr, lst) \<Rightarrow> Inr (listid ptr, tab)
        | (None, lst) \<Rightarrow>
            if \<not> ok then Inl (FatalError 103)
            else Inr (lst + 1, \<lparr>states = xs, fsa = f, listid = lst + 1\<rparr> # tab))"

definition state_deletetable :: "statelist list \<Rightarrow> statelist list" where
  "state_deletetable tab = []"

definition state_getfsa :: "statelist list \<Rightarrow> int \<Rightarrow> int res" where
  "state_getfsa tab i = bindR (state_getlist_ptr tab i) (\<lambda>p. Inr (case p of None \<Rightarrow> - 1 | Some p \<Rightarrow> fsa p))"

definition state_count :: "statelist list \<Rightarrow> int \<Rightarrow> nat res" where
  "state_count tab i = bindR (state_getlist_ptr tab i) (\<lambda>p. Inr (case p of None \<Rightarrow> 0 | Some p \<Rightarrow> length (states p)))"

definition state_inlist :: "statelist list \<Rightarrow> int \<Rightarrow> int \<Rightarrow> bool res" where
  "state_inlist tab i st = bindR (state_getlist_ptr tab i) (\<lambda>p. Inr (case p of None \<Rightarrow> False | Some p \<Rightarrow> st \<in> set (states p)))"

definition state_listitem :: "statelist list \<Rightarrow> int \<Rightarrow> int \<Rightarrow> int res" where
  "state_listitem tab i index =
     bindR (state_getlist_ptr tab i) (\<lambda>p. case p of
       None \<Rightarrow> Inl AssertFailed
     | Some p \<Rightarrow> assertR (0 \<le> index \<and> index < int (length (states p))) (Inr (states p ! nat index)))"

section \<open>Conflicts\<close>

text \<open>
  \<open>state_conflict\<close>: the errors for one function, in the order they are reported: 83 when two
  definitions belong to different automata, 84 for every pair of equal states.
\<close>

definition uENTRYFUNC :: string where "uENTRYFUNC = ''entry''"

definition pair_conflicts :: "string \<Rightarrow> statelist \<Rightarrow> statelist \<Rightarrow> nat list" where
  "pair_conflicts name psrc ptgt =
     (if fsa psrc \<noteq> fsa ptgt \<and> strcmp name uENTRYFUNC \<noteq> 0 then [83] else [])
     @ concat (map (\<lambda>s. concat (map (\<lambda>t. if s = t then [84] else []) (states ptgt))) (states psrc))"

fun target_conflicts :: "statelist list \<Rightarrow> string \<Rightarrow> statelist \<Rightarrow> constvalue list \<Rightarrow> nat list res" where
  "target_conflicts tab name psrc [] = Inr []"
| "target_conflicts tab name psrc (tgt # rest) =
     bindR (if cv_index tgt = - 1 then Inr []
            else bindR (state_getlist_ptr tab (cv_index tgt)) (\<lambda>p. case p of
                None \<Rightarrow> Inl AssertFailed | Some ptgt \<Rightarrow> Inr (pair_conflicts name psrc ptgt))) (\<lambda>a.
     bindR (target_conflicts tab name psrc rest) (\<lambda>b. Inr (a @ b)))"

fun source_conflicts :: "statelist list \<Rightarrow> string \<Rightarrow> constvalue list \<Rightarrow> nat list res" where
  "source_conflicts tab name [] = Inr []"
| "source_conflicts tab name (src # rest) =
     bindR (if cv_index src = - 1 then Inr []
            else bindR (state_getlist_ptr tab (cv_index src)) (\<lambda>p. case p of
                None \<Rightarrow> Inl AssertFailed | Some psrc \<Rightarrow> target_conflicts tab name psrc rest)) (\<lambda>a.
     bindR (source_conflicts tab name rest) (\<lambda>b. Inr (a @ b)))"

fun state_conflict :: "statelist list \<Rightarrow> symbol list \<Rightarrow> (string \<times> nat list) list res" where
  "state_conflict tab [] = Inr []"
| "state_conflict tab (sy # rest) =
     (if sym_parent sy \<noteq> None \<or> sym_ident sy \<noteq> iFUNCTN then state_conflict tab rest
      else case sym_states sy of
          None \<Rightarrow> state_conflict tab rest
        | Some l \<Rightarrow> bindR (source_conflicts tab (sym_name sy) l) (\<lambda>a.
            bindR (state_conflict tab rest) (\<lambda>b. Inr ((sym_name sy, a) # b))))"

section \<open>A list is its number\<close>

definition lists_ok :: "statelist list \<Rightarrow> bool" where
  "lists_ok tab \<longleftrightarrow> distinct (map listid tab) \<and> list_all (\<lambda>p. 1 \<le> listid p \<and> states p \<noteq> []) tab
     \<and> distinct (map (\<lambda>p. (fsa p, states p)) tab)"

lemma state_findlist_spec:
  "state_findlist tab xs f lst = (r, m) \<Longrightarrow>
    (case r of
       None \<Rightarrow> (f, xs) \<notin> set (map (\<lambda>p. (fsa p, states p)) tab) \<and> lst \<le> m \<and> (\<forall>p \<in> set tab. listid p \<le> m)
     | Some p \<Rightarrow> p \<in> set tab \<and> fsa p = f \<and> states p = xs)"
proof (induction tab xs f lst rule: state_findlist.induct)
  case (2 ptr rest xs f lst)
  let ?lst = "if listid ptr > lst then listid ptr else lst"
  show ?case
  proof (cases "fsa ptr = f \<and> length (states ptr) = length xs \<and> states ptr = xs")
    case True
    then show ?thesis using "2.prems" by auto
  next
    case False
    then have "state_findlist rest xs f ?lst = (r, m)" using "2.prems" by (auto simp: Let_def)
    from "2.IH" [OF refl False this] show ?thesis using False by (auto split: option.splits if_splits)
  qed
qed simp

lemma getlist_iff: "lists_ok tab \<Longrightarrow> p \<in> set tab \<Longrightarrow> state_getlist_ptr tab (listid p) = Inr (Some p)"
proof -
  assume ok: "lists_ok tab" and p: "p \<in> set tab"
  have "find (\<lambda>q. listid q = listid p) tab = Some p"
    using ok p unfolding lists_ok_def by (induction tab) (auto simp: inj_on_def)
  moreover have "listid p > 0" using ok p by (auto simp: lists_ok_def list_all_iff)
  ultimately show ?thesis by (simp add: state_getlist_ptr_def)
qed

text \<open>What the other functions tell about a list number.\<close>

definition denotes :: "statelist list \<Rightarrow> int \<Rightarrow> int \<Rightarrow> int list \<Rightarrow> bool" where
  "denotes tab i f xs \<longleftrightarrow> state_getfsa tab i = Inr f \<and> state_count tab i = Inr (length xs)
     \<and> (\<forall>k < length xs. state_listitem tab i (int k) = Inr (xs ! k)) \<and> (\<forall>s. state_inlist tab i s = Inr (s \<in> set xs))"

lemma denotes_member: "lists_ok tab \<Longrightarrow> p \<in> set tab \<Longrightarrow> denotes tab (listid p) (fsa p) (states p)"
  by (simp add: denotes_def state_getfsa_def state_count_def state_listitem_def state_inlist_def getlist_iff)

text \<open>
  C18: The numbers of state lists: \<open>state_addlist\<close> returns a number that denotes the automaton and
  the states that were passed (as \<open>state_getfsa\<close>, \<open>state_count\<close>, \<open>state_listitem\<close> and \<open>state_inlist\<close>
  read them), every number given out before denotes what it did, and two lists have the same number
  exactly when they are the same states of the same automaton.
\<close>

theorem state_addlist_identifies:
  assumes "lists_ok tab" "xs \<noteq> []"
  shows "\<exists>i tab'. state_addlist tab xs f True = Inr (i, tab') \<and> lists_ok tab' \<and> denotes tab' i f xs
    \<and> (\<forall>p \<in> set tab. denotes tab' (listid p) (fsa p) (states p) \<and> (listid p = i \<longleftrightarrow> fsa p = f \<and> states p = xs))"
proof -
  obtain r m where r: "state_findlist tab xs f 0 = (r, m)" by (cases "state_findlist tab xs f 0")
  show ?thesis
  proof (cases r)
    case (Some p)
    then have p: "p \<in> set tab" "fsa p = f" "states p = xs" using state_findlist_spec [OF r] by auto
    have "state_addlist tab xs f True = Inr (listid p, tab)" using r Some assms(2) by (simp add: state_addlist_def assertR_def)
    moreover have "listid q = listid p \<longleftrightarrow> fsa q = f \<and> states q = xs" if "q \<in> set tab" for q
      using assms(1) p that by (auto simp: lists_ok_def distinct_map inj_on_def)
    ultimately show ?thesis using denotes_member [OF assms(1)] assms(1) p by blast
  next
    case None
    let ?p = "\<lparr>states = xs, fsa = f, listid = m + 1\<rparr>"
    have n: "(f, xs) \<notin> set (map (\<lambda>p. (fsa p, states p)) tab)" "0 \<le> m" "\<forall>p \<in> set tab. listid p \<le> m"
      using state_findlist_spec [OF r] None by auto
    have a: "state_addlist tab xs f True = Inr (m + 1, ?p # tab)" using r None assms(2) by (simp add: state_addlist_def assertR_def)
    have ok: "lists_ok (?p # tab)" using assms n by (fastforce simp: lists_ok_def)
    have "listid q \<noteq> m + 1 \<and> (fsa q, states q) \<noteq> (f, xs)" if "q \<in> set tab" for q
      using n(1,3) that by (force simp: image_iff)
    then show ?thesis using a ok denotes_member [OF ok, of ?p] denotes_member [OF ok]
      by (intro exI [of _ "m + 1"] exI [of _ "?p # tab"]) auto
  qed
qed

theorem state_addlist_identifies_witness:
  "\<exists>tab'. state_addlist [\<lparr>states = [2, 3], fsa = 1, listid = 1\<rparr>] [2] 1 True = Inr (2, tab') \<and> denotes tab' 2 1 [2] \<and> denotes tab' 1 1 [2, 3]"
proof -
  let ?tab = "[\<lparr>states = [2, 3], fsa = 1, listid = 1\<rparr>]"
  have "lists_ok ?tab" by (simp add: lists_ok_def)
  from state_addlist_identifies [OF this, of "[2]" 1] obtain i tab' where
    t: "state_addlist ?tab [2] 1 True = Inr (i, tab')" "denotes tab' i 1 [2]" "denotes tab' 1 1 [2, 3]" by auto
  moreover have "i = 2" using t(1) by (simp add: state_addlist_def assertR_def)
  ultimately show ?thesis by blast
qed

section \<open>Building a list\<close>

text \<open>
  What \<open>state_buildlist\<close> really does: only the first two states can be inserted in any order; a
  state behind the first one of a longer list is undefined, and inserting at the front overruns
  the buffer by one element when only one place is free.
\<close>

lemma state_buildlist_cases:
  assumes "length buf = size0" "cnt < size0"
  shows "state_buildlist buf cnt s junk ok =
    (if cnt = 0 then Inr (buf[0 := s], 1)
     else if s \<le> buf ! 0 then (if cnt + 2 \<le> size0 then Inr ((s # take (cnt + 1) buf) @ drop (cnt + 2) buf, cnt + 1) else Inl OutOfBounds)
     else if cnt = 1 then Inr (buf[1 := s], 2) else Inl Undefined)"
proof -
  have p: "insertion_point buf cnt s 0 =
      (if cnt = 0 then Inr 0 else if s \<le> buf ! 0 then Inr 0 else if cnt = 1 then Inr 1 else Inl Undefined)"
    using assms by (subst insertion_point.simps, subst insertion_point.simps) auto
  have m: "bindR (peek buf 0 (cnt + 1)) (blit buf 1) = (if cnt + 2 \<le> size0 then Inr (take 1 buf @ take (cnt + 1) buf @ drop (cnt + 2) buf) else Inl OutOfBounds)"
    using assms by (auto simp: peek_def blit_def)
  show ?thesis
  proof (cases "cnt = 0 \<or> s > buf ! 0")
    case True
    then show ?thesis using assms p by (auto simp: state_buildlist_def assertR_def Let_def)
  next
    case False
    then have "state_buildlist buf cnt s junk ok = bindR (bindR (peek buf 0 (cnt + 1)) (blit buf 1)) (\<lambda>buf. Inr (buf[0 := s], cnt + 1))"
      using assms p by (simp add: state_buildlist_def assertR_def Let_def)
    then show ?thesis using False assms unfolding m by (cases buf) auto
  qed
qed

end
