(* ===== verification/Datapack.thy ===== *)
theory Datapack
  imports Amxstr
begin

unbundle bit_operations_syntax

text \<open>
  Data packs of AMX Mod X (\<open>amxmodx/CDataPack.cpp\<close>): a growing buffer of typed entries with a
  position, for plugins that pass several values through one cell.  Every entry is a type byte, a
  size of four bytes and the data.

  Positions and sizes are numbers of the type \<open>size_t\<close> of 32 bits; where the code computes with them
  the wrap-around is written out.  The buffer is the list of its bytes, of the length of the
  capacity.
\<close>

section \<open>The pack\<close>

record datapack =
  m_base :: "byte list"
  m_curptr :: nat
  m_size :: nat

definition DATAPACK_INITIAL_SIZE :: nat where "DATAPACK_INITIAL_SIZE = 64"

abbreviation (input) Raw_type :: byte where "Raw_type \<equiv> 0"
abbreviation (input) Cell_type :: byte where "Cell_type \<equiv> 1"
abbreviation (input) Float_type :: byte where "Float_type \<equiv> 2"
abbreviation (input) String_type :: byte where "String_type \<equiv> 3"

definition wrap :: "nat \<Rightarrow> nat" where "wrap n = n mod 2 ^ 32"

definition Initialize :: "datapack \<Rightarrow> datapack" where
  "Initialize d = d\<lparr>m_curptr := 0, m_size := 0\<rparr>"

text \<open>The constructor; \<open>junk\<close> is what fresh memory holds, and memory is always available.\<close>

definition NewDataPack :: "(nat \<Rightarrow> byte) \<Rightarrow> datapack" where
  "NewDataPack junk = Initialize \<lparr>m_base = fresh junk DATAPACK_INITIAL_SIZE, m_curptr = 0, m_size = 0\<rparr>"

text \<open>
  The doubling of a capacity until it suffices.  A number of 32 bits is zero after 32 doublings and
  stays zero, so a loop that has not ended by then does not end (\<open>double_until_forever\<close>).
\<close>

primrec double_until :: "nat \<Rightarrow> nat \<Rightarrow> nat \<Rightarrow> nat res" where
  "double_until 0 needed capacity = Inl NoReturn"
| "double_until (Suc n) needed capacity =
     (let capacity = wrap (capacity * 2) in if needed > capacity then double_until n needed capacity else Inr capacity)"

definition CheckSize :: "(nat \<Rightarrow> byte) \<Rightarrow> nat \<Rightarrow> datapack \<Rightarrow> datapack res" where
  "CheckSize junk typesize d =
     (if wrap (m_curptr d + typesize) \<le> length (m_base d) then Inr d
      else bindR (double_until 32 (wrap (m_curptr d + typesize)) (length (m_base d))) (\<lambda>capacity.
        Inr (d\<lparr>m_base := take capacity (m_base d) @ fresh junk (capacity - length (m_base d))\<rparr>)))"

definition ResetSize :: "datapack \<Rightarrow> datapack" where
  "ResetSize d = d\<lparr>m_size := 0\<rparr>"

text \<open>Storing bytes at the position and moving it.\<close>

definition store :: "byte list \<Rightarrow> datapack \<Rightarrow> datapack res" where
  "store bs d = bindR (blit (m_base d) (m_curptr d) bs) (\<lambda>m. Inr (d\<lparr>m_base := m, m_curptr := m_curptr d + length bs\<rparr>))"

definition add_size :: "nat \<Rightarrow> datapack \<Rightarrow> datapack" where
  "add_size n d = d\<lparr>m_size := wrap (m_size d + n)\<rparr>"

definition CreateMemory :: "(nat \<Rightarrow> byte) \<Rightarrow> nat \<Rightarrow> datapack \<Rightarrow> (nat \<times> datapack) res" where
  "CreateMemory junk nbytes d =
     bindR (CheckSize junk (wrap (1 + 4 + nbytes)) d) (\<lambda>d. let pos = m_curptr d in
      bindR (store [Raw_type] d) (\<lambda>d. bindR (store (cell_le (word_of_nat nbytes)) d) (\<lambda>d.
        Inr (pos, add_size (1 + 4 + nbytes) (d\<lparr>m_curptr := m_curptr d + nbytes\<rparr>)))))"

definition PackCell :: "(nat \<Rightarrow> byte) \<Rightarrow> cell \<Rightarrow> datapack \<Rightarrow> datapack res" where
  "PackCell junk c d =
     bindR (CheckSize junk (1 + 4 + 4) d) (\<lambda>d.
      bindR (store [Cell_type] d) (\<lambda>d. bindR (store (cell_le 4) d) (\<lambda>d. bindR (store (cell_le c) d) (\<lambda>d.
        Inr (add_size (1 + 4 + 4) d)))))"

definition PackFloat :: "(nat \<Rightarrow> byte) \<Rightarrow> 32 word \<Rightarrow> datapack \<Rightarrow> datapack res" where
  "PackFloat junk v d =
     bindR (CheckSize junk (1 + 4 + 4) d) (\<lambda>d.
      bindR (store [Float_type] d) (\<lambda>d. bindR (store (cell_le 4) d) (\<lambda>d. bindR (store (cell_le v) d) (\<lambda>d.
        Inr (add_size (1 + 4 + 4) d)))))"

definition PackString :: "(nat \<Rightarrow> byte) \<Rightarrow> string \<Rightarrow> datapack \<Rightarrow> datapack res" where
  "PackString junk str d =
     (let len = length str; maxsize = 1 + 4 + len + 1 in
      bindR (CheckSize junk maxsize d) (\<lambda>d. bindR (store [String_type] d) (\<lambda>d. bindR (store (cell_le (word_of_nat len)) d) (\<lambda>d.
      bindR (store (map byte_of str @ [0]) d) (\<lambda>d. Inr (add_size maxsize d))))))"

definition Reset :: "datapack \<Rightarrow> datapack" where "Reset d = d\<lparr>m_curptr := 0\<rparr>"

definition GetPosition :: "datapack \<Rightarrow> nat" where "GetPosition d = m_curptr d"

text \<open>For a size of zero, \<open>m_size-1\<close> is the largest number.\<close>

definition SetPosition :: "nat \<Rightarrow> datapack \<Rightarrow> bool \<times> datapack" where
  "SetPosition pos d = (if pos > wrap (m_size d + 2 ^ 32 - 1) then (False, d) else (True, d\<lparr>m_curptr := pos\<rparr>))"

definition IsReadable :: "nat \<Rightarrow> datapack \<Rightarrow> bool" where
  "IsReadable nbytes d \<longleftrightarrow> \<not> wrap (nbytes + m_curptr d) > m_size d"

text \<open>The type byte and the size at the position.\<close>

definition type_at :: "datapack \<Rightarrow> byte res" where
  "type_at d = bindR (peek (m_base d) (m_curptr d) 1) (\<lambda>bs. Inr (bs ! 0))"

definition size_at :: "datapack \<Rightarrow> nat res" where
  "size_at d = bindR (peek (m_base d) (m_curptr d + 1) 4) (\<lambda>bs. Inr (unat (cell_of bs)))"

definition can_read_word :: "byte \<Rightarrow> datapack \<Rightarrow> bool res" where
  "can_read_word ty d =
     (if \<not> IsReadable (1 + 4 + 4) d then Inr False
      else bindR (type_at d) (\<lambda>t. if t \<noteq> ty then Inr False
        else bindR (size_at d) (\<lambda>n. Inr (n = 4))))"

definition CanReadCell :: "datapack \<Rightarrow> bool res" where "CanReadCell d = can_read_word Cell_type d"
definition CanReadFloat :: "datapack \<Rightarrow> bool res" where "CanReadFloat d = can_read_word Float_type d"

definition ReadCell :: "datapack \<Rightarrow> (cell \<times> datapack) res" where
  "ReadCell d =
     bindR (CanReadCell d) (\<lambda>b. if \<not> b then Inr (0, d)
       else bindR (peek (m_base d) (m_curptr d + 1 + 4) 4) (\<lambda>bs. Inr (cell_of bs, d\<lparr>m_curptr := m_curptr d + 1 + 4 + 4\<rparr>)))"

definition ReadFloat :: "datapack \<Rightarrow> (32 word \<times> datapack) res" where
  "ReadFloat d =
     bindR (CanReadFloat d) (\<lambda>b. if \<not> b then Inr (0, d)
       else bindR (peek (m_base d) (m_curptr d + 1 + 4) 4) (\<lambda>bs. Inr (cell_of bs, d\<lparr>m_curptr := m_curptr d + 1 + 4 + 4\<rparr>)))"

text \<open>The length of a C string in the buffer; \<open>strlen\<close> runs before the size is tested.\<close>

definition strlen_at :: "datapack \<Rightarrow> nat \<Rightarrow> nat res" where
  "strlen_at d a = (case strchr (map char_of_byte (drop a (m_base d))) NUL of None \<Rightarrow> Inl OutOfBounds | Some n \<Rightarrow> Inr n)"

definition CanReadString :: "datapack \<Rightarrow> nat option res" where
  "CanReadString d =
     (if \<not> IsReadable (1 + 4) d then Inr None
      else bindR (type_at d) (\<lambda>t. if t \<noteq> String_type then Inr None
        else bindR (size_at d) (\<lambda>real_len. bindR (strlen_at d (m_curptr d + 1 + 4)) (\<lambda>n.
          Inr (if n \<noteq> real_len \<or> \<not> IsReadable (1 + 4 + real_len + 1) d then None else Some real_len)))))"

definition ReadString :: "datapack \<Rightarrow> (string option \<times> datapack) res" where
  "ReadString d =
     bindR (CanReadString d) (\<lambda>r. case r of
       None \<Rightarrow> Inr (None, d)
     | Some real_len \<Rightarrow> bindR (peek (m_base d) (m_curptr d + 1 + 4) real_len) (\<lambda>bs.
         Inr (Some (map char_of_byte bs), d\<lparr>m_curptr := m_curptr d + 1 + 4 + (real_len + 1)\<rparr>)))"

definition CanReadMemory :: "datapack \<Rightarrow> nat option res" where
  "CanReadMemory d =
     (if \<not> IsReadable (1 + 4) d then Inr None
      else bindR (type_at d) (\<lambda>t. if t \<noteq> Raw_type then Inr None
        else bindR (size_at d) (\<lambda>bytecount.
          Inr (if \<not> IsReadable (1 + 4 + bytecount) d then None else Some bytecount))))"

text \<open>The address and the size of the block.\<close>

definition ReadMemory :: "datapack \<Rightarrow> ((nat \<times> nat) option \<times> datapack) res" where
  "ReadMemory d =
     bindR (CanReadMemory d) (\<lambda>r. case r of
       None \<Rightarrow> Inr (None, d)
     | Some bytecount \<Rightarrow> Inr (Some (m_curptr d + 1 + 4, bytecount), d\<lparr>m_curptr := m_curptr d + 1 + 4 + bytecount\<rparr>))"

section \<open>Values come back\<close>

datatype entry = ICell cell | IFloat "32 word" | IString string

fun pack :: "(nat \<Rightarrow> byte) \<Rightarrow> entry \<Rightarrow> datapack \<Rightarrow> datapack res" where
  "pack junk (ICell c) d = PackCell junk c d"
| "pack junk (IFloat v) d = PackFloat junk v d"
| "pack junk (IString s) d = PackString junk s d"

fun pack_all :: "(nat \<Rightarrow> byte) \<Rightarrow> entry list \<Rightarrow> datapack \<Rightarrow> datapack res" where
  "pack_all junk [] d = Inr d"
| "pack_all junk (x # xs) d = bindR (pack junk x d) (pack_all junk xs)"

text \<open>Reading an entry of the type of a given one.\<close>

fun unpack :: "entry \<Rightarrow> datapack \<Rightarrow> (entry option \<times> datapack) res" where
  "unpack (ICell _) d = bindR (ReadCell d) (\<lambda>(c, d). Inr (Some (ICell c), d))"
| "unpack (IFloat _) d = bindR (ReadFloat d) (\<lambda>(v, d). Inr (Some (IFloat v), d))"
| "unpack (IString _) d = bindR (ReadString d) (\<lambda>(s, d). Inr (map_option IString s, d))"

fun unpack_all :: "entry list \<Rightarrow> datapack \<Rightarrow> (entry option list \<times> datapack) res" where
  "unpack_all [] d = Inr ([], d)"
| "unpack_all (x # xs) d = bindR (unpack x d) (\<lambda>(r, d). bindR (unpack_all xs d) (\<lambda>(rs, d). Inr (r # rs, d)))"

text \<open>The bytes of an entry.\<close>

fun entry_bytes :: "entry \<Rightarrow> byte list" where
  "entry_bytes (ICell c) = Cell_type # cell_le 4 @ cell_le c"
| "entry_bytes (IFloat v) = Float_type # cell_le 4 @ cell_le v"
| "entry_bytes (IString s) = String_type # cell_le (word_of_nat (length s)) @ map byte_of s @ [0]"

definition good :: "entry \<Rightarrow> bool" where
  "good x \<longleftrightarrow> (case x of IString s \<Rightarrow> NUL \<notin> set s | _ \<Rightarrow> True)"

text \<open>A pack that was filled from the start: its position is its size, and its bytes are known.\<close>

definition holds :: "byte list \<Rightarrow> datapack \<Rightarrow> bool" where
  "holds bs d \<longleftrightarrow> m_size d = length bs \<and> take (length bs) (m_base d) = bs \<and> length bs \<le> length (m_base d) \<and> 0 < length (m_base d)"

lemma wrap_small: "n < 2 ^ 32 \<Longrightarrow> wrap n = n"
  by (simp add: wrap_def)

lemma double_until_enough:
  "0 < n \<Longrightarrow> 0 < cap \<Longrightarrow> cap < 2 ^ 31 \<Longrightarrow> needed \<le> 2 ^ 31 \<Longrightarrow> needed \<le> cap * 2 ^ n \<Longrightarrow>
    \<exists>c. double_until n needed cap = Inr c \<and> needed \<le> c \<and> cap \<le> c \<and> (c = 2 * cap \<or> c < 2 * needed)"
proof (induction n arbitrary: cap)
  case (Suc n)
  have w: "wrap (cap * 2) = 2 * cap" using Suc.prems(3) by (simp add: wrap_small)
  show ?case
  proof (cases "needed > 2 * cap")
    case True
    then have "0 < n" using Suc.prems(5) by (cases n) auto
    moreover have "2 * cap < 2 ^ 31" "needed \<le> 2 * cap * 2 ^ n" using True Suc.prems(4,5) by simp_all
    ultimately obtain c where "double_until n needed (2 * cap) = Inr c" "needed \<le> c" "2 * cap \<le> c"
        "c = 2 * (2 * cap) \<or> c < 2 * needed"
      using Suc.IH [of "2 * cap"] Suc.prems(2,4) by auto
    then show ?thesis using True w by auto
  qed (use w in simp)
qed simp

text \<open>The bound on the doublings is not one of the model: without it the loop goes on for ever.\<close>

lemma double_until_not: "double_until n needed cap = Inl NoReturn \<Longrightarrow> 0 < k \<Longrightarrow> k \<le> n \<Longrightarrow> needed > wrap (cap * 2 ^ k)"
proof (induction n arbitrary: cap k)
  case (Suc n)
  then have h: "needed > wrap (cap * 2)" "double_until n needed (wrap (cap * 2)) = Inl NoReturn"
    by (simp_all add: Let_def split: if_splits)
  show ?case
  proof (cases "k = 1")
    case False
    then obtain j where j: "k = Suc j" "0 < j" "j \<le> n" using Suc.prems by (cases k) auto
    have "wrap (wrap (cap * 2) * 2 ^ j) = wrap (cap * 2 ^ k)" unfolding j(1) wrap_def by (simp add: mod_simps mult.assoc)
    then show ?thesis using Suc.IH [OF h(2) j(2,3)] by simp
  qed (use h(1) in simp)
qed simp

lemma double_until_forever:
  assumes "double_until 32 needed cap = Inl NoReturn" "0 < k"
  shows "needed > wrap (cap * 2 ^ k)"
proof (cases "k \<le> 32")
  case False
  then obtain j where "k = 32 + j" using nat_le_iff_add [of 32 k] by auto
  then have "cap * 2 ^ k = cap * 2 ^ j * 2 ^ 32" by (simp add: power_add)
  then have "wrap (cap * 2 ^ k) = 0" by (simp only: wrap_def mod_mult_self2_is_0)
  moreover have "needed > wrap (cap * 2 ^ 1)" using double_until_not [OF assms(1), of 1] by simp
  ultimately show ?thesis by simp
qed (use double_until_not [OF assms(1)] assms(2) in simp)

lemma CheckSize_props:
  assumes "m_curptr d + n \<le> 2 ^ 31" "0 < length (m_base d)"
  shows "\<exists>r. CheckSize junk n d = Inr (d\<lparr>m_base := m_base d @ r\<rparr>) \<and> m_curptr d + n \<le> length (m_base d @ r)"
proof (cases "m_curptr d + n \<le> length (m_base d)")
  case True
  then show ?thesis using assms(1) by (intro exI [of _ "[]"]) (simp add: CheckSize_def wrap_small)
next
  case False
  moreover have "m_curptr d + n \<le> length (m_base d) * 2 ^ 32"
  proof -
    have e: "(2 :: nat) ^ 32 = 4294967296" "(2 :: nat) ^ 31 = 2147483648" by simp_all
    have "(4294967296 :: nat) \<le> length (m_base d) * 4294967296" using assms(2) by (cases "m_base d") simp_all
    then show ?thesis using assms(1) unfolding e by linarith
  qed
  moreover have "length (m_base d) < 2 ^ 31" using False assms(1) by linarith
  ultimately obtain c where c: "double_until 32 (m_curptr d + n) (length (m_base d)) = Inr c" "m_curptr d + n \<le> c" "length (m_base d) \<le> c"
    using double_until_enough [of 32 "length (m_base d)" "m_curptr d + n"] assms by auto
  then show ?thesis using False assms(1)
    by (intro exI [of _ "fresh junk (c - length (m_base d))"]) (simp add: CheckSize_def wrap_small)
qed

lemma store_at:
  assumes "m_curptr d + length bs \<le> length (m_base d)"
  shows "store bs d = Inr (d\<lparr>m_base := take (m_curptr d) (m_base d) @ bs @ drop (m_curptr d + length bs) (m_base d),
    m_curptr := m_curptr d + length bs\<rparr>)"
  using assms by (simp add: store_def blit_def)

text \<open>Storing three pieces one after the other is storing all of them.\<close>

lemma store_three:
  assumes "m_curptr d + length (a @ b @ c) \<le> length (m_base d)"
  shows "bindR (store a d) (\<lambda>d. bindR (store b d) (\<lambda>d. bindR (store c d) k)) = bindR (store (a @ b @ c) d) k"
  using assms by (simp add: store_at drop_append add.assoc add.commute add.left_commute)

lemma pack_shape:
  "pack junk x d = (let e = entry_bytes x in bindR (CheckSize junk (length e) d) (\<lambda>d.
     bindR (store [hd e] d) (\<lambda>d. bindR (store (take 4 (tl e)) d) (\<lambda>d. bindR (store (drop 5 e) d) (\<lambda>d. Inr (add_size (length e) d))))))"
  by (cases x) (simp_all add: PackCell_def PackFloat_def PackString_def Let_def)

lemma entry_split: "entry_bytes x = [hd (entry_bytes x)] @ take 4 (tl (entry_bytes x)) @ drop 5 (entry_bytes x)"
  by (cases x) simp_all

lemma pack_entry_bytes:
  assumes "holds bs d" "m_curptr d = length bs" "length bs + length (entry_bytes x) \<le> 2 ^ 31"
  shows "\<exists>d'. pack junk x d = Inr d' \<and> holds (bs @ entry_bytes x) d' \<and> m_curptr d' = length (bs @ entry_bytes x)"
proof -
  let ?e = "entry_bytes x"
  have lt: "m_curptr d + length ?e \<le> 2 ^ 31" "0 < length (m_base d)" using assms by (simp_all add: holds_def)
  obtain r where r: "CheckSize junk (length ?e) d = Inr (d\<lparr>m_base := m_base d @ r\<rparr>)" "m_curptr d + length ?e \<le> length (m_base d @ r)"
    using CheckSize_props [OF lt] by blast
  let ?d = "d\<lparr>m_base := m_base d @ r\<rparr>"
  have room: "m_curptr ?d + length ([hd ?e] @ take 4 (tl ?e) @ drop 5 ?e) \<le> length (m_base ?d)"
    unfolding entry_split [symmetric] using r(2) by simp
  have "pack junk x d = bindR (store ?e ?d) (\<lambda>d. Inr (add_size (length ?e) d))"
    unfolding pack_shape Let_def r(1) bindR_simps store_three [OF room] entry_split [symmetric] ..
  also have "\<dots> = Inr (add_size (length ?e) (?d\<lparr>m_base := take (length bs) (m_base ?d) @ ?e @ drop (length bs + length ?e) (m_base ?d),
      m_curptr := length bs + length ?e\<rparr>))"
    using r(2) assms(2) by (simp add: store_at)
  finally show ?thesis using assms r(2) lt by (auto simp: holds_def add_size_def wrap_small)
qed

lemma pack_all_bytes:
  "holds bs d \<Longrightarrow> m_curptr d = length bs \<Longrightarrow> length bs + length (concat (map entry_bytes xs)) \<le> 2 ^ 31 \<Longrightarrow>
    \<exists>d'. pack_all junk xs d = Inr d' \<and> holds (bs @ concat (map entry_bytes xs)) d'"
proof (induction xs arbitrary: bs d)
  case (Cons x xs)
  obtain d1 where d1: "pack junk x d = Inr d1" "holds (bs @ entry_bytes x) d1" "m_curptr d1 = length (bs @ entry_bytes x)"
    using pack_entry_bytes [OF Cons.prems(1,2), of x junk] Cons.prems(3) by auto
  have "length (bs @ entry_bytes x) + length (concat (map entry_bytes xs)) \<le> 2 ^ 31" using Cons.prems(3) by simp
  then show ?case using Cons.IH [OF d1(2,3)] d1(1) by simp
qed simp

text \<open>Reading at the start of an entry.\<close>

definition at_entry :: "entry \<Rightarrow> datapack \<Rightarrow> bool" where
  "at_entry x d \<longleftrightarrow> (\<exists>r. drop (m_curptr d) (m_base d) = entry_bytes x @ r) \<and> m_curptr d + length (entry_bytes x) \<le> m_size d \<and> m_size d < 2 ^ 32"

lemma readable: "at_entry x d \<Longrightarrow> n \<le> length (entry_bytes x) \<Longrightarrow> IsReadable n d"
  by (simp add: at_entry_def IsReadable_def wrap_small add.commute)

lemma peek_entry:
  assumes "at_entry x d" "k + n \<le> length (entry_bytes x)"
  shows "peek (m_base d) (m_curptr d + k) n = Inr (take n (drop k (entry_bytes x)))"
proof -
  obtain r where r: "drop (m_curptr d) (m_base d) = entry_bytes x @ r" using assms(1) by (auto simp: at_entry_def)
  have "length (drop (m_curptr d) (m_base d)) \<ge> k + n" unfolding r using assms(2) by simp
  moreover have "0 < length (drop (m_curptr d) (m_base d))" unfolding r by (cases x) simp_all
  ultimately have "m_curptr d + k + n \<le> length (m_base d)" by simp
  moreover have "drop (m_curptr d + k) (m_base d) = drop k (entry_bytes x @ r)" unfolding r [symmetric] by (simp add: add.commute)
  ultimately show ?thesis using assms(2) by (simp add: peek_def)
qed

lemma entry_string_length: "good (IString s) \<Longrightarrow> at_entry (IString s) d \<Longrightarrow> strlen_at d (m_curptr d + 1 + 4) = Inr (length s)"
proof -
  assume g: "good (IString s)" and a: "at_entry (IString s) d"
  obtain r where r: "drop (m_curptr d) (m_base d) = entry_bytes (IString s) @ r" using a by (auto simp: at_entry_def)
  have "drop (m_curptr d + 1 + 4) (m_base d) = drop 5 (entry_bytes (IString s) @ r)" unfolding r [symmetric] by (simp add: add.commute)
  also have "\<dots> = map byte_of s @ 0 # r" by simp
  finally have d: "map char_of_byte (drop (m_curptr d + 1 + 4) (m_base d)) = s @ NUL # map char_of_byte r" by (simp add: comp_def)
  have "strchr (s @ NUL # map char_of_byte r) NUL = Some (length s)"
    by (rule strchr_first) (use g in \<open>auto simp: good_def nth_append dest: nth_mem\<close>)
  then show ?thesis unfolding strlen_at_def d by simp
qed

lemma unpack_entry:
  assumes "good x" "at_entry x d"
  shows "unpack x d = Inr (Some x, d\<lparr>m_curptr := m_curptr d + length (entry_bytes x)\<rparr>)"
proof -
  note p = peek_entry [OF assms(2)]
  have four: "unat (4 :: cell) = 4" by code_simp
  have ty: "type_at d = Inr (hd (entry_bytes x))" using p [of 0 1] by (cases x) (simp_all add: type_at_def)
  show ?thesis
  proof (cases x)
    case (IString s)
    have len: "length s < 2 ^ 32" using assms(2) unfolding IString by (simp add: at_entry_def)
    have n: "size_at d = Inr (length s)" using p [of 1 4] len unfolding IString
      by (simp add: size_at_def unat_of_nat take_bit_nat_eq_self)
    have r: "IsReadable (1 + 4) d" "IsReadable (1 + 4 + length s + 1) d" using readable [OF assms(2)] unfolding IString by simp_all
    have c: "CanReadString d = Inr (Some (length s))"
      using ty n r entry_string_length [of s d] assms unfolding IString by (simp add: CanReadString_def)
    show ?thesis using c p [of 5 "length s"] unfolding IString by (simp add: ReadString_def comp_def add.commute)
  next
    case (ICell c)
    have n: "size_at d = Inr 4" using p [of 1 4] four unfolding ICell by (simp add: size_at_def)
    show ?thesis using ty n p [of 5 4] readable [OF assms(2), of "1 + 4 + 4"] unfolding ICell
      by (simp add: ReadCell_def CanReadCell_def can_read_word_def add.commute)
  next
    case (IFloat v)
    have n: "size_at d = Inr 4" using p [of 1 4] four unfolding IFloat by (simp add: size_at_def)
    show ?thesis using ty n p [of 5 4] readable [OF assms(2), of "1 + 4 + 4"] unfolding IFloat
      by (simp add: ReadFloat_def CanReadFloat_def can_read_word_def add.commute)
  qed
qed

lemma unpack_all_entries:
  "list_all good xs \<Longrightarrow> drop (m_curptr d) (m_base d) = concat (map entry_bytes xs) @ r \<Longrightarrow>
    m_curptr d + length (concat (map entry_bytes xs)) = m_size d \<Longrightarrow> m_size d < 2 ^ 32 \<Longrightarrow>
    unpack_all xs d = Inr (map Some xs, d\<lparr>m_curptr := m_size d\<rparr>)"
proof (induction xs arbitrary: d)
  case (Cons x xs)
  let ?d = "d\<lparr>m_curptr := m_curptr d + length (entry_bytes x)\<rparr>"
  have a: "at_entry x d" using Cons.prems(2-4) by (simp add: at_entry_def)
  have "drop (m_curptr ?d) (m_base ?d) = drop (length (entry_bytes x)) (drop (m_curptr d) (m_base d))" by (simp add: add.commute)
  then have "drop (m_curptr ?d) (m_base ?d) = concat (map entry_bytes xs) @ r" unfolding Cons.prems(2) by simp
  then have "unpack_all xs ?d = Inr (map Some xs, ?d\<lparr>m_curptr := m_size ?d\<rparr>)"
    using Cons.prems by (intro Cons.IH) simp_all
  then show ?case using unpack_entry [OF _ a] Cons.prems(1) by simp
qed simp

text \<open>
  C35: Values come back from a data pack: cells, floats and strings packed into a new pack are, after
  \<open>Reset\<close>, read back in their order with their types, however often the buffer has to grow (up to 2 GB), and the
  pack is then at its end; no access leaves the buffer.
\<close>

theorem datapack_roundtrip:
  assumes "list_all good xs" "length (concat (map entry_bytes xs)) \<le> 2 ^ 31"
  shows "\<exists>d. pack_all junk xs (NewDataPack junk') = Inr d
    \<and> unpack_all xs (Reset d) = Inr (map Some xs, d\<lparr>m_curptr := m_size d\<rparr>) \<and> \<not> IsReadable 1 (d\<lparr>m_curptr := m_size d\<rparr>)"
proof -
  have h: "holds [] (NewDataPack junk')" "m_curptr (NewDataPack junk') = length ([] :: byte list)"
    by (simp_all add: holds_def NewDataPack_def Initialize_def DATAPACK_INITIAL_SIZE_def)
  obtain d where d: "pack_all junk xs (NewDataPack junk') = Inr d" "holds (concat (map entry_bytes xs)) d"
    using pack_all_bytes [OF h, of xs junk] assms(2) by auto
  let ?e = "concat (map entry_bytes xs)"
  have "m_base d = ?e @ drop (length ?e) (m_base d)" using d(2) unfolding holds_def by (metis append_take_drop_id)
  then have "unpack_all xs (Reset d) = Inr (map Some xs, (Reset d)\<lparr>m_curptr := m_size (Reset d)\<rparr>)"
    using assms d(2) by (intro unpack_all_entries) (simp_all add: Reset_def holds_def)
  moreover have "(Reset d)\<lparr>m_curptr := m_size (Reset d)\<rparr> = d\<lparr>m_curptr := m_size d\<rparr>" by (simp add: Reset_def)
  moreover have "m_size d + 1 < 2 ^ 32" using d(2) assms(2) by (auto simp: holds_def)
  ultimately show ?thesis using d(1) by (auto simp: IsReadable_def wrap_def)
qed

theorem datapack_roundtrip_witness:
  "\<exists>d. pack_all (\<lambda>_. 0) [ICell 7, IString ''abc'', IFloat 0x3F800000] (NewDataPack (\<lambda>_. 1)) = Inr d
    \<and> unpack_all [ICell 7, IString ''abc'', IFloat 0x3F800000] (Reset d)
        = Inr ([Some (ICell 7), Some (IString ''abc''), Some (IFloat 0x3F800000)], d\<lparr>m_curptr := m_size d\<rparr>)"
  using datapack_roundtrip [of "[ICell 7, IString ''abc'', IFloat 0x3F800000]" "\<lambda>_. 0" "\<lambda>_. 1"] by (auto simp: good_def)

section \<open>Sizes that are too large\<close>

text \<open>
  \<open>Reset\<close> moves the position and keeps the size, to which every following write adds: with seven
  cells, a reset and one more cell the size is 72 while the buffer has 64 bytes; a position behind
  the buffer is accepted, counts as readable, and reading there leaves the buffer.  For an empty
  pack every position is accepted.
\<close>

lemma datapack_size_exceeds:
  assumes "holds bs d" "9 \<le> length (m_base d)" "length (m_base d) < length bs + 9" "length bs + 9 < 2 ^ 32"
  shows "\<exists>d' d''. PackCell junk c (Reset d) = Inr d' \<and> SetPosition (length (m_base d')) d' = (True, d'')
    \<and> IsReadable 1 d'' \<and> type_at d'' = Inl OutOfBounds"
proof -
  have k: "CheckSize junk 9 (Reset d) = Inr (Reset d)" using assms(2) by (simp add: CheckSize_def Reset_def wrap_small)
  have room: "m_curptr (Reset d) + length ([Cell_type] @ cell_le 4 @ cell_le c) \<le> length (m_base (Reset d))"
    using assms(2) by (simp add: Reset_def)
  have "PackCell junk c (Reset d) = bindR (store ([Cell_type] @ cell_le 4 @ cell_le c) (Reset d)) (\<lambda>d. Inr (add_size 9 d))"
    using k store_three [OF room] by (simp add: PackCell_def)
  then obtain d' where d': "PackCell junk c (Reset d) = Inr d'" "length (m_base d') = length (m_base d)" "m_size d' = length bs + 9"
    using assms(1,2,4) by (simp add: store_at Reset_def add_size_def wrap_small holds_def)
  have w: "wrap (m_size d' + 2 ^ 32 - 1) = length bs + 8"
  proof -
    have "m_size d' + 2 ^ 32 - 1 = length bs + 8 + 2 ^ 32" using d'(3) by simp
    then show ?thesis using assms(4) unfolding wrap_def by (simp only: mod_add_self2) simp
  qed
  have "IsReadable 1 (d'\<lparr>m_curptr := length (m_base d')\<rparr>)" using assms(3,4) d'(2,3) by (simp add: IsReadable_def wrap_small)
  moreover have "type_at (d'\<lparr>m_curptr := length (m_base d')\<rparr>) = Inl OutOfBounds" by (simp add: type_at_def peek_def)
  ultimately show ?thesis using d' w assms(3) by (simp add: SetPosition_def)
qed

lemma empty_pack_any_position: "fst (SetPosition pos (NewDataPack junk)) = (pos \<le> 2 ^ 32 - 1)"
  by (auto simp: SetPosition_def NewDataPack_def Initialize_def wrap_def)

end
