(* ===== verification/Amxutf.thy ===== *)
theory Amxutf
  imports Amxstr
begin

unbundle bit_operations_syntax

text \<open>
  Strings of AMX Mod X in the memory of a plugin (\<open>amxmodx/string.cpp\<close>, \<open>util.cpp\<close>): one byte per
  cell, UTF-8 encoded, ended by a zero cell.

  The templates are written for a type of characters; a source is the list of its characters, of
  any width, and a read behind its end is a fault.  \<open>get_amxaddr\<close> adds the address to the start of
  the data section without a test; here the memory is the data section (theory \<open>Amx\<close>), and an access outside
  of it is a fault.
\<close>

section \<open>Reading and comparing\<close>

text \<open>The number of cells before the zero cell.\<close>

function amxstring_len :: "mem \<Rightarrow> int \<Rightarrow> nat res" where
  "amxstring_len m a = bindR (rd_cell m a) (\<lambda>c. if c = 0 then Inr 0 else bindR (amxstring_len m (a + 4)) (\<lambda>n. Inr (n + 1)))"
  by pat_completeness auto
termination
  by (relation "measure (\<lambda>(m, a). nat (int (length m) - a))") (auto simp: rd_iff inside_def)

declare amxstring_len.simps [simp del]

fun get_amxstring_r :: "mem \<Rightarrow> int \<Rightarrow> nat \<Rightarrow> byte list res" where
  "get_amxstring_r m a 0 = Inr []"
| "get_amxstring_r m a (Suc maxlen) =
     bindR (rd_cell m a) (\<lambda>c. if c = 0 then Inr [] else bindR (get_amxstring_r m (a + 4) maxlen) (\<lambda>s. Inr (ucast c # s)))"

definition MAX_BUFFER_LENGTH :: nat where "MAX_BUFFER_LENGTH = 16384"

definition get_amxstring :: "mem \<Rightarrow> cell \<Rightarrow> byte list res" where
  "get_amxstring m amx_addr = get_amxstring_r m (sint amx_addr) (MAX_BUFFER_LENGTH - 1)"

text \<open>Two arrays of cells; a read behind the end of one is a fault.\<close>

fun fastcellcmp :: "cell list \<Rightarrow> cell list \<Rightarrow> nat \<Rightarrow> bool res" where
  "fastcellcmp a b 0 = Inr True"
| "fastcellcmp (x # a) (y # b) (Suc len) = (if x \<noteq> y then Inr False else fastcellcmp a b len)"
| "fastcellcmp _ _ (Suc len) = Inl OutOfBounds"

section \<open>Copying\<close>

text \<open>What \<open>strncopy\<close> writes: the low bytes of the characters, and a zero.\<close>

fun strncopy_loop :: "'a::len word list \<Rightarrow> nat \<Rightarrow> 'b::len word list res" where
  "strncopy_loop [] count = Inl OutOfBounds"
| "strncopy_loop (s # src) count =
     (if s \<noteq> 0 \<and> count - 1 \<noteq> 0 then bindR (strncopy_loop src (count - 1)) (\<lambda>d. Inr (ucast (ucast s :: byte) # d))
      else Inr [0])"

text \<open>The written part of the destination and the result.\<close>

definition strncopy :: "'a::len word list \<Rightarrow> nat \<Rightarrow> (nat \<times> 'b::len word list) res" where
  "strncopy src count =
     (if count = 0 then Inr (0, []) else bindR (strncopy_loop src count) (\<lambda>d. Inr (length d - 1, d)))"

text \<open>
  The number of bytes to take away at the end of a string for a last character that is cut:
  \<open>count\<close> walks back over the bytes that continue a character to the one that starts it.
\<close>

function check_back :: "mem \<Rightarrow> int \<Rightarrow> nat \<Rightarrow> (cell \<times> nat) res" where
  "check_back m c n =
     bindR (rd_cell m c) (\<lambda>x. if x AND 0xC0 = 0x80 then check_back m (c - 4) (n + 1) else Inr (x, n))"
  by pat_completeness auto
termination
  by (relation "measure (\<lambda>(m, c, n). nat (c + 4))") (auto simp: rd_iff inside_def)

declare check_back.simps [simp del]

definition lead_bytes :: "cell \<Rightarrow> nat" where
  "lead_bytes c =
     (if c AND 0xF0 = 0xC0 \<or> c AND 0xF0 = 0xD0 then 2
      else if c AND 0xF0 = 0xE0 then 3
      else if c AND 0xF0 = 0xF0 then 4
      else 0)"

definition UTIL_CheckValidChar :: "mem \<Rightarrow> int \<Rightarrow> nat res" where
  "UTIL_CheckValidChar m c = bindR (check_back m c 1) (\<lambda>(x, n). Inr (if lead_bytes x \<noteq> n then n else 0))"

fun copy_low :: "mem \<Rightarrow> int \<Rightarrow> 'a::len word list \<Rightarrow> nat \<Rightarrow> mem res" where
  "copy_low m dest source 0 = Inr m"
| "copy_low m dest [] (Suc maxlen) = Inl OutOfBounds"
| "copy_low m dest (s # source) (Suc maxlen) =
     (if s = 0 then Inr m
      else bindR (wr_cell m dest (ucast (ucast s :: byte))) (\<lambda>m. copy_low m (dest + 4) source maxlen))"

text \<open>
  \<open>len\<close> is a number of the type \<open>size_t\<close> that is used as an index: taking more from it than it has
  gives an index before the start, so it is an integer here.
\<close>

definition cut_length :: "mem \<Rightarrow> int \<Rightarrow> nat \<Rightarrow> int res" where
  "cut_length m start len =
     bindR (rd_cell m (start + 4 * (int len - 1))) (\<lambda>x.
       if x AND 0x80 \<noteq> 0 then bindR (UTIL_CheckValidChar m (start + 4 * (int len - 1))) (\<lambda>n. Inr (int len - int n))
       else Inr (int len))"

definition set_amxstring_utf8 :: "mem \<Rightarrow> cell \<Rightarrow> 'a::len word list \<Rightarrow> nat \<Rightarrow> nat \<Rightarrow> (cell \<times> mem) res" where
  "set_amxstring_utf8 m amx_addr source sourcelen maxlen =
     (let needtocheck = sourcelen > maxlen; len = min sourcelen maxlen; start = sint amx_addr in
      bindR (copy_low m start source len) (\<lambda>m.
      bindR (if needtocheck then cut_length m start len else Inr (int len)) (\<lambda>len.
      bindR (wr_cell m (start + 4 * len) 0) (\<lambda>m. Inr (word_of_int len, m)))))"

section \<open>Text in UTF-8\<close>

definition cont_byte :: "byte \<Rightarrow> bool" where "cont_byte b \<longleftrightarrow> b AND 0xC0 = 0x80"

text \<open>The length of the character that a byte starts.\<close>

definition char_bytes :: "byte \<Rightarrow> nat" where
  "char_bytes b = (if b < 0x80 then 1 else if b < 0xE0 then 2 else if b < 0xF0 then 3 else 4)"

definition utf8_char :: "byte list \<Rightarrow> bool" where
  "utf8_char bs \<longleftrightarrow> bs \<noteq> [] \<and> hd bs \<noteq> 0 \<and> \<not> cont_byte (hd bs) \<and> list_all cont_byte (tl bs) \<and> length bs = char_bytes (hd bs)"

text \<open>The bytes of the longest sequence of whole characters that fits.\<close>

fun whole_chars :: "byte list list \<Rightarrow> nat \<Rightarrow> byte list" where
  "whole_chars [] n = []"
| "whole_chars (c # cs) n = (if length c \<le> n then c @ whole_chars cs (n - length c) else [])"

text \<open>A string of bytes in memory.\<close>

definition cells_at :: "mem \<Rightarrow> int \<Rightarrow> byte list \<Rightarrow> bool" where
  "cells_at m a bs \<longleftrightarrow> (\<forall>i < length bs. rd_cell m (a + 4 * int i) = Inr (ucast (bs ! i)))"

lemma every_byte: "list_all (\<lambda>n. P (word_of_nat n :: byte)) [0..<256] \<Longrightarrow> P b"
proof -
  assume "list_all (\<lambda>n. P (word_of_nat n :: byte)) [0..<256]"
  moreover have "unat b \<in> set [0..<256]" using unsigned_less [of b, where 'a = nat] by simp
  ultimately have "P (word_of_nat (unat b))" unfolding list_all_iff by blast
  then show ?thesis by simp
qed

text \<open>What the masks say of a byte, by trying all of them.\<close>

lemma byte_masks:
  "((ucast b :: cell) AND 0xC0 = 0x80) = cont_byte b"
  "(ucast b :: cell) AND 0x80 = 0 \<longleftrightarrow> b < 0x80"
  "\<not> cont_byte b \<Longrightarrow> 0x80 \<le> b \<Longrightarrow> lead_bytes (ucast b) = char_bytes b"
  "cont_byte b \<Longrightarrow> 0x80 \<le> b"
proof -
  let ?P = "\<lambda>b. ((ucast b :: cell) AND 0xC0 = 0x80) = cont_byte b \<and> ((ucast b :: cell) AND 0x80 = 0 \<longleftrightarrow> b < 0x80)
    \<and> (\<not> cont_byte b \<longrightarrow> 0x80 \<le> b \<longrightarrow> lead_bytes (ucast b) = char_bytes b) \<and> (cont_byte b \<longrightarrow> 0x80 \<le> b)"
  have "list_all (\<lambda>n. ?P (word_of_nat n :: byte)) [0..<256]" by code_simp
  then have "?P b" by (rule every_byte)
  then show "((ucast b :: cell) AND 0xC0 = 0x80) = cont_byte b" "(ucast b :: cell) AND 0x80 = 0 \<longleftrightarrow> b < 0x80"
    "\<not> cont_byte b \<Longrightarrow> 0x80 \<le> b \<Longrightarrow> lead_bytes (ucast b) = char_bytes b" "cont_byte b \<Longrightarrow> 0x80 \<le> b" by blast+
qed

lemma byte_back: "8 \<le> LENGTH('a) \<Longrightarrow> ucast (ucast b :: 'a::len word) = (b :: byte)"
  by (rule bit_word_eqI) (auto simp: bit_ucast_iff)

lemma byte_zero: "8 \<le> LENGTH('a) \<Longrightarrow> (ucast b :: 'a::len word) = 0 \<longleftrightarrow> b = (0 :: byte)"
  using byte_back [of b, where 'a = 'a] by (metis unsigned_0)

subsection \<open>Copying\<close>

definition unchanged_outside :: "mem \<Rightarrow> mem \<Rightarrow> int \<Rightarrow> nat \<Rightarrow> bool" where
  "unchanged_outside m m' a n \<longleftrightarrow> length m' = length m \<and> (\<forall>b. b + 4 \<le> a \<or> a + 4 * int n \<le> b \<longrightarrow> rd_cell m' b = rd_cell m b)"

lemma unchanged_trans: "unchanged_outside m m1 a n \<Longrightarrow> unchanged_outside m1 m2 a n \<Longrightarrow> unchanged_outside m m2 a n"
  by (auto simp: unchanged_outside_def)

lemma unchanged_wr: "wr_cell m (a + 4 * int i) v = Inr m' \<Longrightarrow> i < n \<Longrightarrow> unchanged_outside m m' a n"
  using rd_wr_other [of m "a + 4 * int i" v m'] by (auto simp: unchanged_outside_def length_wr)

lemma copy_low_bytes:
  assumes "8 \<le> LENGTH('a::len)"
  shows "n \<le> length bs \<Longrightarrow> 0 \<notin> set bs \<Longrightarrow> inside m a (4 * n) \<Longrightarrow>
    \<exists>m'. copy_low m a (map ucast bs @ [0 :: 'a word]) n = Inr m' \<and> cells_at m' a (take n bs) \<and> unchanged_outside m m' a n"
proof (induction n arbitrary: m a bs)
  case 0
  then show ?case by (cases bs) (simp_all add: cells_at_def unchanged_outside_def)
next
  case (Suc n)
  obtain b r where bs: "bs = b # r" using Suc.prems(1) by (cases bs) auto
  have "inside m a 4" using Suc.prems(3) by (auto simp: inside_def)
  then obtain m1 where m1: "wr_cell m a (ucast b) = Inr m1" "length m1 = length m" using wr_inside by blast
  have "inside m1 (a + 4) (4 * n)" using Suc.prems(3) m1(2) by (auto simp: inside_def)
  then obtain m' where m': "copy_low m1 (a + 4) (map ucast r @ [0 :: 'a word]) n = Inr m'" "cells_at m' (a + 4) (take n r)"
      "unchanged_outside m1 m' (a + 4) n"
    using Suc.IH [of r m1 "a + 4"] Suc.prems(1,2) unfolding bs by auto
  have "copy_low m a (map ucast bs @ [0 :: 'a word]) (Suc n) = Inr m'"
    using m1 m'(1) Suc.prems(2) assms unfolding bs by (simp add: byte_back byte_zero)
  moreover have "cells_at m' a (take (Suc n) bs)" unfolding cells_at_def bs
  proof (intro allI impI)
    fix i assume i: "i < length (take (Suc n) (b # r))"
    show "rd_cell m' (a + 4 * int i) = Inr (ucast (take (Suc n) (b # r) ! i))"
    proof (cases i)
      case 0
      then show ?thesis using m'(3) rd_wr_same [OF m1(1)] by (simp add: unchanged_outside_def)
    next
      case (Suc j)
      then have "rd_cell m' (a + 4 + 4 * int j) = Inr (ucast (take n r ! j))" using i m'(2) by (simp add: cells_at_def)
      then show ?thesis unfolding Suc by (simp add: algebra_simps)
    qed
  qed
  moreover have "unchanged_outside m m' a (Suc n)"
    using m'(3) m1(2) rd_wr_other [OF m1(1)] by (auto simp: unchanged_outside_def)
  ultimately show ?case by blast
qed

subsection \<open>The last character\<close>

lemma check_back_char:
  "list_all cont_byte ks \<Longrightarrow> \<not> cont_byte b \<Longrightarrow> cells_at m a (p @ b # ks) \<Longrightarrow>
    check_back m (a + 4 * int (length p + length ks)) n = Inr (ucast b, n + length ks)"
proof (induction ks arbitrary: n rule: rev_induct)
  case Nil
  have "rd_cell m (a + 4 * int (length p)) = Inr (ucast b)" using Nil(3) by (auto simp: cells_at_def dest: spec [of _ "length p"])
  then show ?case using Nil(2) by (subst check_back.simps) (simp add: byte_masks)
next
  case (snoc k ks)
  have at: "rd_cell m (a + 4 * int i) = Inr (ucast ((p @ b # ks @ [k]) ! i))" if "i < length p + length ks + 2" for i
    using snoc.prems(3) that by (simp add: cells_at_def)
  have "(p @ b # ks @ [k]) ! (length p + (length ks + 1)) = k" by (subst nth_append_length_plus) (simp add: nth_append)
  then have k: "rd_cell m (a + 4 * int (length p + length (ks @ [k]))) = Inr (ucast k)" using at [of "length p + (length ks + 1)"] by simp
  have "cells_at m a (p @ b # ks)" unfolding cells_at_def
  proof (intro allI impI)
    fix i assume "i < length (p @ b # ks)"
    then show "rd_cell m (a + 4 * int i) = Inr (ucast ((p @ b # ks) ! i))"
      using at [of i] nth_append [of "p @ b # ks" "[k]" i] by simp
  qed
  then have "check_back m (a + 4 * int (length p + length ks)) (n + 1) = Inr (ucast b, n + 1 + length ks)"
    using snoc.IH snoc.prems(1,2) by simp
  moreover have "a + 4 * int (length p + length (ks @ [k])) - 4 = a + 4 * int (length p + length ks)" by simp
  ultimately show ?case using snoc.prems(1) k by (subst check_back.simps) (simp add: byte_masks)
qed

text \<open>The bytes up to a limit end with a part of a character, and the whole characters end before it.\<close>

lemma whole_chars_0: "list_all utf8_char cs \<Longrightarrow> whole_chars cs 0 = []"
  by (cases cs) (auto simp: utf8_char_def char_bytes_def)

lemma whole_chars_all: "length (concat cs) \<le> n \<Longrightarrow> whole_chars cs n = concat cs"
  by (induction cs arbitrary: n) auto

lemma cut_at:
  "list_all utf8_char cs \<Longrightarrow> 0 < n \<Longrightarrow> n \<le> length (concat cs) \<Longrightarrow>
    \<exists>p c k. utf8_char c \<and> 0 < k \<and> k \<le> length c \<and> take n (concat cs) = p @ take k c
      \<and> whole_chars cs n = (if k = length c then p @ c else p)"
proof (induction cs arbitrary: n)
  case (Cons c cs)
  show ?case
  proof (cases "n \<le> length c")
    case True
    have "utf8_char c \<and> 0 < n \<and> n \<le> length c \<and> take n (concat (c # cs)) = [] @ take n c
      \<and> whole_chars (c # cs) n = (if n = length c then [] @ c else [])"
      using True Cons.prems whole_chars_0 [of cs] by auto
    then show ?thesis by blast
  next
    case False
    then have "0 < n - length c" "n - length c \<le> length (concat cs)" "list_all utf8_char cs" using Cons.prems by simp_all
    then obtain p d k where d: "utf8_char d" "0 < k" "k \<le> length d" "take (n - length c) (concat cs) = p @ take k d"
        "whole_chars cs (n - length c) = (if k = length d then p @ d else p)"
      using Cons.IH [of "n - length c"] by blast
    then have "take n (concat (c # cs)) = (c @ p) @ take k d \<and> whole_chars (c # cs) n = (if k = length d then (c @ p) @ d else c @ p)"
      using False by simp
    then show ?thesis using d(1-3) by blast
  qed
qed simp

lemma cut_tail:
  assumes "utf8_char c" "0 < k" "k \<le> length c" "cells_at m a (p @ take k c)"
  shows "\<exists>x. rd_cell m (a + 4 * (int (length p + k) - 1)) = Inr x \<and>
    (if x AND 0x80 \<noteq> 0 then UTIL_CheckValidChar m (a + 4 * (int (length p + k) - 1)) = Inr (if k = length c then 0 else k)
     else k = length c)"
proof -
  obtain b ks where c: "c = b # ks" "\<not> cont_byte b" "list_all cont_byte ks" "Suc (length ks) = char_bytes b"
    using assms(1) by (cases c) (auto simp: utf8_char_def)
  obtain j where k: "k = Suc j" using assms(2) by (cases k) auto
  let ?l = "a + 4 * (int (length p + k) - 1)"
  have part: "take k c = b # take j ks" "j \<le> length ks" using assms(3) unfolding k c(1) by simp_all
  have l: "?l = a + 4 * int (length p + length (take j ks))" using part(2) unfolding k by simp
  have "rd_cell m (a + 4 * int (length p + j)) = Inr (ucast ((p @ b # take j ks) ! (length p + j)))"
    using assms(4) part(2) unfolding part(1) cells_at_def by (auto simp: algebra_simps dest: spec [of _ "length p + j"])
  then have x: "rd_cell m ?l = Inr (ucast ((b # take j ks) ! j))" using part(2) unfolding l nth_append_length_plus by simp
  show ?thesis
  proof (cases "b < 0x80")
    case True
    then have "ks = []" using c(4) by (simp add: char_bytes_def)
    then have "k = length c" "(b # take j ks) ! j = b" using part(2) unfolding k c(1) by simp_all
    then show ?thesis using x True by (simp add: byte_masks)
  next
    case False
    have "list_all cont_byte (take j ks)" using c(3) by (auto simp: list_all_iff dest: in_set_takeD)
    then have "check_back m ?l 1 = Inr (ucast b, 1 + length (take j ks))"
      unfolding l by (rule check_back_char) (use c(2) assms(4) part(1) in simp_all)
    moreover have "lead_bytes (ucast b) = length c" using byte_masks(3) [of b] c False by simp
    ultimately have "UTIL_CheckValidChar m ?l = Inr (if k = length c then 0 else k)"
      using part(2) unfolding UTIL_CheckValidChar_def k by simp
    moreover have "0x80 \<le> (b # take j ks) ! j"
      using False c(3) part(2) by (cases j) (auto simp: list_all_length intro!: byte_masks(4))
    then have "(ucast ((b # take j ks) ! j) :: cell) AND 0x80 \<noteq> 0" unfolding byte_masks(2) by simp
    ultimately show ?thesis using x by simp
  qed
qed

lemma no_zero_byte: "list_all utf8_char cs \<Longrightarrow> 0 \<notin> set (concat cs)"
proof -
  have z: "0 \<notin> set c" if "utf8_char c" for c
    using that byte_masks(4) [of 0] by (cases c) (auto simp: utf8_char_def list_all_iff)
  assume "list_all utf8_char cs"
  then show ?thesis using z by (auto simp: list_all_iff)
qed

lemma cells_at_append: "cells_at m a (p @ q) \<Longrightarrow> cells_at m a p"
  by (auto simp: cells_at_def nth_append)

lemma cells_at_end:
  assumes "cells_at m a w" "wr_cell m (a + 4 * int (length w)) 0 = Inr m'"
  shows "cells_at m' a (w @ [0])"
  unfolding cells_at_def
proof (intro allI impI)
  fix i assume i: "i < length (w @ [0 :: byte])"
  show "rd_cell m' (a + 4 * int i) = Inr (ucast ((w @ [0]) ! i))"
  proof (cases "i = length w")
    case True
    then show ?thesis using rd_wr_same [OF assms(2)] by simp
  next
    case False
    then have "i < length w" using i by simp
    then show ?thesis using rd_wr_other [OF assms(2), of "a + 4 * int i"] assms(1) by (simp add: cells_at_def nth_append)
  qed
qed

text \<open>
  C36: Text in UTF-8 is never cut in the middle of a character: \<open>set_amxstring_utf8\<close> stores the
  longest sequence of whole characters that fits in \<open>maxlen\<close> bytes, one byte per cell, ends it with
  a zero cell, returns its length, and changes no other cell.
\<close>

theorem set_amxstring_utf8_whole_characters:
  assumes "8 \<le> LENGTH('a::len)" "list_all utf8_char cs" "0 < maxlen"
    "inside m (sint addr) (4 * (min (length (concat cs)) maxlen + 1))"
  shows "\<exists>m'. set_amxstring_utf8 m addr (map ucast (concat cs) @ [0 :: 'a word]) (length (concat cs)) maxlen
        = Inr (word_of_nat (length (whole_chars cs maxlen)), m')
    \<and> cells_at m' (sint addr) (whole_chars cs maxlen @ [0])
    \<and> unchanged_outside m m' (sint addr) (min (length (concat cs)) maxlen + 1)"
proof -
  let ?bs = "concat cs" and ?a = "sint addr" and ?w = "whole_chars cs maxlen"
  let ?len = "min (length ?bs) maxlen"
  have room: "inside m ?a (4 * ?len)" using assms(4) by (auto simp: inside_def)
  obtain m1 where m1: "copy_low m ?a (map ucast ?bs @ [0 :: 'a word]) ?len = Inr m1" "cells_at m1 ?a (take ?len ?bs)"
      "unchanged_outside m m1 ?a ?len"
    using copy_low_bytes [OF assms(1) _ no_zero_byte [OF assms(2)] room] by auto
  have len1: "length m1 = length m" using m1(3) by (simp add: unchanged_outside_def)
  have w: "length ?w \<le> ?len \<and> cells_at m1 ?a ?w \<and>
    (if length ?bs > maxlen then cut_length m1 ?a ?len else Inr (int ?len)) = Inr (int (length ?w))"
  proof (cases "length ?bs > maxlen")
    case True
    then obtain p c k where c: "utf8_char c" "0 < k" "k \<le> length c" "take maxlen ?bs = p @ take k c"
        "?w = (if k = length c then p @ c else p)"
      using cut_at [OF assms(2,3)] by auto
    have n: "maxlen = length p + k" using arg_cong [OF c(4), of length] True c(3) by simp
    have at: "cells_at m1 ?a (p @ take k c)" using m1(2) True c(4) by simp
    have "cells_at m1 ?a p" using at by (rule cells_at_append)
    then show ?thesis using cut_tail [OF c(1-3) at] True at c(3,5) n unfolding cut_length_def by (cases "k = length c") auto
  qed (use m1(2) whole_chars_all [of cs maxlen] in simp)
  have "inside m1 (?a + 4 * int (length ?w)) 4" using assms(4) w len1 by (auto simp: inside_def)
  then obtain m2 where m2: "wr_cell m1 (?a + 4 * int (length ?w)) 0 = Inr m2" using wr_inside by blast
  have "set_amxstring_utf8 m addr (map ucast ?bs @ [0 :: 'a word]) (length ?bs) maxlen = Inr (word_of_nat (length ?w), m2)"
    unfolding set_amxstring_utf8_def Let_def m1(1) bindR_simps using w m2 by simp
  moreover have "cells_at m2 ?a (?w @ [0])" using cells_at_end m2 w by blast
  moreover have "unchanged_outside m m2 ?a (?len + 1)"
  proof (rule unchanged_trans)
    show "unchanged_outside m m1 ?a (?len + 1)" using m1(3) by (auto simp: unchanged_outside_def)
    show "unchanged_outside m1 m2 ?a (?len + 1)" using unchanged_wr [OF m2, of "?len + 1"] w by simp
  qed
  ultimately show ?thesis by blast
qed

theorem set_amxstring_utf8_whole_characters_witness:
  "\<exists>m'. set_amxstring_utf8 (replicate 32 0xFF) 4 (map ucast (concat [[0x41 :: byte], [0xC3, 0xA9], [0xE2, 0x82, 0xAC]]) @ [0 :: cell])
        (length (concat [[0x41 :: byte], [0xC3, 0xA9], [0xE2, 0x82, 0xAC]])) 5
        = Inr (word_of_nat (length (whole_chars [[0x41], [0xC3, 0xA9], [0xE2, 0x82, 0xAC]] 5)), m')
    \<and> cells_at m' 4 (whole_chars [[0x41], [0xC3, 0xA9], [0xE2, 0x82, 0xAC]] 5 @ [0])
    \<and> whole_chars [[0x41], [0xC3, 0xA9], [0xE2, 0x82, 0xAC :: byte]] 5 = [0x41, 0xC3, 0xA9]"
proof -
  have "list_all utf8_char [[0x41], [0xC3, 0xA9], [0xE2, 0x82, 0xAC]]" by code_simp
  then show ?thesis
    using set_amxstring_utf8_whole_characters [of "[[0x41], [0xC3, 0xA9], [0xE2, 0x82, 0xAC]]" 5 "replicate 32 0xFF" 4, where 'a = 32]
    by (auto simp: inside_def)
qed

end
