(* ===== verification/Cellarray.thy ===== *)
theory Cellarray
  imports Amxutf Datapack
begin

unbundle bit_operations_syntax

text \<open>
  Dynamic arrays of AMX Mod X (\<open>amxmodx/datastructs.h\<close>, \<open>datastructs.cpp\<close>) and the table of handles
  under which plugins know them (\<open>natives_handles.h\<close>).  An array is a growing block of cells that holds items of
  \<open>m_BlockSize\<close> cells each.

  Sizes are numbers of the type \<open>size_t\<close> of 32 bits with the wrap-around written out; the data are the list of the
  cells of the block, and an index outside of it is a fault (also one that the multiplication by the
  size of a cell would bring back into the block).  Whether \<open>malloc\<close> and \<open>realloc\<close> give memory, and what
  fresh memory holds, are parameters.
\<close>

section \<open>The array\<close>

record cellarray =
  m_Data :: "cell list option"
  m_BlockSize :: nat
  m_AllocSize :: nat
  m_BaseSize :: nat
  m_Size :: nat

record allocator =
  gives :: "nat \<Rightarrow> bool"
  fills :: "nat \<Rightarrow> cell"

definition CellArray :: "nat \<Rightarrow> nat \<Rightarrow> cellarray" where
  "CellArray blocksize basesize =
     \<lparr>m_Data = None, m_BlockSize = blocksize, m_AllocSize = 0, m_BaseSize = (if basesize > 0 then basesize else 8), m_Size = 0\<rparr>"

text \<open>\<open>sizeof(cell) * m_BlockSize * n\<close>.\<close>

definition block_bytes :: "cellarray \<Rightarrow> nat \<Rightarrow> nat" where
  "block_bytes v n = wrap (wrap (4 * m_BlockSize v) * n)"

text \<open>The new block keeps as much of the old one as fits.\<close>

definition reallocate :: "allocator \<Rightarrow> nat \<Rightarrow> cell list option \<Rightarrow> cell list option" where
  "reallocate e n old =
     (if gives e n then
        let kept = (case old of None \<Rightarrow> [] | Some d \<Rightarrow> take (n div 4) d) in Some (kept @ fresh (fills e) (n div 4 - length kept))
      else None)"

definition GrowIfNeeded :: "allocator \<Rightarrow> nat \<Rightarrow> cellarray \<Rightarrow> (bool \<times> cellarray) res" where
  "GrowIfNeeded e count v =
     (if wrap (m_Size v + count) \<le> m_AllocSize v then Inr (True, v)
      else
        let needed = wrap (m_Size v + count);
            alloc = (if m_AllocSize v = 0 then m_BaseSize v else m_AllocSize v)
        in bindR (if needed > alloc then double_until 32 needed alloc else Inr alloc) (\<lambda>alloc.
          let data = reallocate e (block_bytes v alloc) (m_Data v)
          in Inr (data \<noteq> None, v\<lparr>m_AllocSize := alloc, m_Data := data\<rparr>)))"

text \<open>An address is the index of a cell of the block.\<close>

definition array_at :: "cellarray \<Rightarrow> nat \<Rightarrow> nat" where "array_at v b = wrap (b * m_BlockSize v)"

text \<open>Reading, writing and moving cells of the block.\<close>

definition get_cells :: "cellarray \<Rightarrow> nat \<Rightarrow> nat \<Rightarrow> cell list res" where
  "get_cells v p n = bindR (derefR (m_Data v)) (\<lambda>d. peek d p n)"

definition put_cells :: "cellarray \<Rightarrow> nat \<Rightarrow> cell list \<Rightarrow> cellarray res" where
  "put_cells v p cs = bindR (derefR (m_Data v)) (\<lambda>d. bindR (blit d p cs) (\<lambda>d. Inr (v\<lparr>m_Data := Some d\<rparr>)))"

definition move_cells :: "cellarray \<Rightarrow> nat \<Rightarrow> nat \<Rightarrow> nat \<Rightarrow> cellarray res" where
  "move_cells v dst src n = bindR (get_cells v src n) (put_cells v dst)"

definition array_push :: "allocator \<Rightarrow> cellarray \<Rightarrow> (nat option \<times> cellarray) res" where
  "array_push e v =
     bindR (GrowIfNeeded e 1 v) (\<lambda>(ok, v). if \<not> ok then Inr (None, v)
       else Inr (Some (wrap (m_Size v * m_BlockSize v)), v\<lparr>m_Size := wrap (m_Size v + 1)\<rparr>))"

definition array_clear :: "cellarray \<Rightarrow> cellarray" where "array_clear v = v\<lparr>m_Size := 0\<rparr>"

text \<open>Swapping an item with itself copies a block onto itself with \<open>memcpy\<close>, which is taken to leave it alone.\<close>

definition array_swap :: "allocator \<Rightarrow> nat \<Rightarrow> nat \<Rightarrow> cellarray \<Rightarrow> (bool \<times> cellarray) res" where
  "array_swap e item1 item2 v =
     bindR (GrowIfNeeded e 1 v) (\<lambda>(ok, v). if \<not> ok then Inr (False, v)
       else let temp = wrap (m_Size v * m_BlockSize v); n = block_bytes v 1 div 4 in
         bindR (move_cells v temp (array_at v item1) n) (\<lambda>v.
         bindR (move_cells v (array_at v item1) (array_at v item2) n) (\<lambda>v.
         bindR (move_cells v (array_at v item2) temp n) (\<lambda>v. Inr (True, v)))))"

definition array_remove :: "nat \<Rightarrow> cellarray \<Rightarrow> cellarray res" where
  "array_remove index v =
     (if index = wrap (m_Size v + 2 ^ 32 - 1) then Inr (v\<lparr>m_Size := wrap (m_Size v + 2 ^ 32 - 1)\<rparr>)
      else let remaining_indexes = wrap (m_Size v + 2 * 2 ^ 32 - 1 - index) in
        bindR (move_cells v (array_at v index) (array_at v (wrap (index + 1))) (block_bytes v remaining_indexes div 4)) (\<lambda>v.
          Inr (v\<lparr>m_Size := wrap (m_Size v + 2 ^ 32 - 1)\<rparr>)))"

definition array_insert_at :: "allocator \<Rightarrow> nat \<Rightarrow> cellarray \<Rightarrow> (nat option \<times> cellarray) res" where
  "array_insert_at e index v =
     bindR (GrowIfNeeded e 1 v) (\<lambda>(ok, v). if \<not> ok then Inr (None, v)
       else bindR (move_cells v (array_at v (wrap (index + 1))) (array_at v index)
             (block_bytes v (wrap (m_Size v + 2 ^ 32 - index)) div 4)) (\<lambda>v.
         Inr (Some (array_at v index), v\<lparr>m_Size := wrap (m_Size v + 1)\<rparr>)))"

definition array_resize :: "allocator \<Rightarrow> nat \<Rightarrow> cellarray \<Rightarrow> (bool \<times> cellarray) res" where
  "array_resize e count v =
     (if count \<le> m_Size v then Inr (True, v\<lparr>m_Size := count\<rparr>)
      else bindR (GrowIfNeeded e (count - m_Size v) v) (\<lambda>(ok, v).
        if \<not> ok then Inr (False, v) else Inr (True, v\<lparr>m_Size := count\<rparr>)))"

text \<open>A null pointer is copied from only if no cell is.\<close>

definition array_clone :: "allocator \<Rightarrow> cellarray \<Rightarrow> cellarray option res" where
  "array_clone e v =
     (let new = (CellArray (m_BlockSize v) 0)\<lparr>m_AllocSize := m_AllocSize v, m_Size := m_Size v\<rparr>;
          n = block_bytes v (m_Size v) div 4
      in case reallocate e (block_bytes v (m_AllocSize v)) None of
           None \<Rightarrow> Inr None
         | Some d \<Rightarrow>
             if n = 0 then Inr (Some (new\<lparr>m_Data := Some d\<rparr>))
             else bindR (get_cells v 0 n) (\<lambda>cs. bindR (put_cells (new\<lparr>m_Data := Some d\<rparr>) 0 cs) (\<lambda>a. Inr (Some a))))"

section \<open>An array is a list of items\<close>

text \<open>
  \<open>zs\<close> are items at the start of the data; \<open>array_items v xs\<close> says that they are all the items.  The
  bytes of the block are counted without wrap-around.
\<close>

definition data_of :: "cellarray \<Rightarrow> cell list" where
  "data_of v = (case m_Data v of None \<Rightarrow> [] | Some d \<Rightarrow> d)"

definition sound :: "cellarray \<Rightarrow> bool" where
  "sound v \<longleftrightarrow> 0 < m_BlockSize v \<and> 0 < m_BaseSize v \<and> 4 * m_BlockSize v * m_AllocSize v < 2 ^ 32
    \<and> length (data_of v) = m_AllocSize v * m_BlockSize v \<and> (m_Data v = None \<longrightarrow> m_AllocSize v = 0)"

definition blocks :: "cellarray \<Rightarrow> cell list list \<Rightarrow> bool" where
  "blocks v zs \<longleftrightarrow> sound v \<and> list_all (\<lambda>z. length z = m_BlockSize v) zs \<and> (\<exists>r. data_of v = concat zs @ r)"

definition array_items :: "cellarray \<Rightarrow> cell list list \<Rightarrow> bool" where
  "array_items v xs \<longleftrightarrow> blocks v xs \<and> m_Size v = length xs"

lemma length_concat_items: "list_all (\<lambda>z. length z = k) zs \<Longrightarrow> length (concat zs) = length zs * k"
  by (induction zs) auto

lemma blocks_length:
  assumes "blocks v zs"
  shows "length zs \<le> m_AllocSize v"
proof -
  obtain r where r: "data_of v = concat zs @ r" using assms by (auto simp: blocks_def)
  have "length zs * m_BlockSize v + length r = m_AllocSize v * m_BlockSize v"
    using assms length_concat_items [of "m_BlockSize v" zs] arg_cong [OF r, of length] by (simp add: blocks_def sound_def)
  then have "length zs * m_BlockSize v \<le> m_AllocSize v * m_BlockSize v" by linarith
  then show ?thesis using assms by (simp add: blocks_def sound_def)
qed

lemma blocks_prefix: "blocks v (zs @ ys) \<Longrightarrow> blocks v zs"
  by (auto simp: blocks_def)

lemma blocks_take: "blocks v zs \<Longrightarrow> blocks v (take n zs)"
  using blocks_prefix [of v "take n zs" "drop n zs"] by simp

lemma blocks_data: "blocks v zs \<Longrightarrow> zs \<noteq> [] \<Longrightarrow> m_Data v = Some (data_of v)"
  using blocks_length [of v zs] by (cases "m_Data v") (auto simp: data_of_def blocks_def sound_def)

text \<open>More items than are used are there as far as the block goes.\<close>

lemma blocks_more:
  assumes "blocks v zs" "length zs + n \<le> m_AllocSize v"
  shows "\<exists>ys. length ys = n \<and> blocks v (zs @ ys)"
  using assms(2)
proof (induction n)
  case (Suc n)
  then obtain ys where ys: "length ys = n" "blocks v (zs @ ys)" by auto
  obtain r where r: "data_of v = concat (zs @ ys) @ r" using ys(2) by (auto simp: blocks_def)
  have "length (concat (zs @ ys)) = (length zs + n) * m_BlockSize v"
    using ys length_concat_items [of "m_BlockSize v" "zs @ ys"] by (simp add: blocks_def)
  moreover have "(length zs + n + 1) * m_BlockSize v \<le> m_AllocSize v * m_BlockSize v" using Suc.prems by (intro mult_le_mono1) simp
  ultimately have "m_BlockSize v \<le> length r" using r ys(2) by (auto simp: blocks_def sound_def algebra_simps)
  then have "blocks v (zs @ (ys @ [take (m_BlockSize v) r]))"
    using ys(2) r by (auto simp: blocks_def intro!: exI [of _ "drop (m_BlockSize v) r"])
  then show ?case using ys(1) by (intro exI [of _ "ys @ [take (m_BlockSize v) r]"]) simp
qed (use assms(1) in \<open>auto intro: exI [of _ "[]"]\<close>)

subsection \<open>Addresses and sizes\<close>

lemma small_index:
  assumes "sound v" "i \<le> m_AllocSize v"
  shows "array_at v i = i * m_BlockSize v" "wrap (i * m_BlockSize v) = i * m_BlockSize v"
    "block_bytes v i div 4 = i * m_BlockSize v" "i < 2 ^ 30" "wrap (i + 1) = i + 1"
proof -
  have m: "i * m_BlockSize v \<le> m_AllocSize v * m_BlockSize v" using assms(2) by simp
  have b: "4 * (m_AllocSize v * m_BlockSize v) < 2 ^ 32" using assms(1) by (simp add: sound_def algebra_simps)
  have i: "4 * (i * m_BlockSize v) < 2 ^ 32" using m b by linarith
  show w: "wrap (i * m_BlockSize v) = i * m_BlockSize v" using i by (simp add: wrap_small)
  then show "array_at v i = i * m_BlockSize v" by (simp add: array_at_def)
  have "i * 1 \<le> i * m_BlockSize v" using assms(1) by (intro mult_le_mono2) (simp add: sound_def)
  then have "4 * i < 2 ^ 32" using i by linarith
  then show small: "i < 2 ^ 30" by simp
  then show "wrap (i + 1) = i + 1" by (simp add: wrap_small)
  have "wrap (wrap (4 * m_BlockSize v) * i) = wrap (4 * (i * m_BlockSize v))" by (simp add: wrap_def mod_simps algebra_simps)
  also have "\<dots> = 4 * (i * m_BlockSize v)" using i by (simp add: wrap_small)
  finally show "block_bytes v i div 4 = i * m_BlockSize v" by (simp add: block_bytes_def)
qed

lemma blit_parts: "length b = length cs \<Longrightarrow> blit (a @ b @ c) (length a) cs = Inr (a @ cs @ c)"
  by (simp add: blit_def)

lemma peek_parts: "peek (a @ b @ c) (length a) (length b) = Inr b"
  by (simp add: peek_def)

lemma sound_update: "sound v \<Longrightarrow> m_Data v \<noteq> None \<Longrightarrow> length d = length (data_of v) \<Longrightarrow> sound (v\<lparr>m_Data := Some d\<rparr>)"
  by (simp add: sound_def data_of_def)

subsection \<open>Reading and writing an item\<close>

lemma blocks_split:
  assumes "blocks v zs" "i < length zs"
  obtains r where "data_of v = concat (take i zs) @ zs ! i @ concat (drop (Suc i) zs) @ r" "length (concat (take i zs)) = i * m_BlockSize v"
    "length (zs ! i) = m_BlockSize v"
proof -
  obtain r where r: "data_of v = concat zs @ r" using assms(1) by (auto simp: blocks_def)
  have "concat zs = concat (take i zs) @ zs ! i @ concat (drop (Suc i) zs)"
    by (subst id_take_nth_drop [OF assms(2)]) simp
  moreover have "length (concat (take i zs)) = i * m_BlockSize v"
    using assms blocks_take [OF assms(1), of i] length_concat_items [of "m_BlockSize v" "take i zs"] by (simp add: blocks_def)
  moreover have "length (zs ! i) = m_BlockSize v" using assms by (simp add: blocks_def list_all_length)
  ultimately show thesis using that r by simp
qed

lemma get_item:
  assumes "blocks v zs" "i < length zs"
  shows "get_cells v (i * m_BlockSize v) (m_BlockSize v) = Inr (zs ! i)"
proof -
  obtain r where r: "data_of v = concat (take i zs) @ zs ! i @ concat (drop (Suc i) zs) @ r" "length (concat (take i zs)) = i * m_BlockSize v"
    "length (zs ! i) = m_BlockSize v" using blocks_split [OF assms] .
  have "m_Data v = Some (data_of v)" using assms(2) by (intro blocks_data [OF assms(1)]) auto
  then show ?thesis using peek_parts [of "concat (take i zs)" "zs ! i"] r by (simp add: get_cells_def)
qed

lemma put_item:
  assumes "blocks v zs" "i < length zs" "length cs \<le> m_BlockSize v"
  shows "\<exists>d. put_cells v (i * m_BlockSize v) cs = Inr (v\<lparr>m_Data := Some d\<rparr>)
    \<and> blocks (v\<lparr>m_Data := Some d\<rparr>) (zs[i := cs @ drop (length cs) (zs ! i)])"
proof -
  obtain r where r: "data_of v = concat (take i zs) @ zs ! i @ concat (drop (Suc i) zs) @ r" "length (concat (take i zs)) = i * m_BlockSize v"
    "length (zs ! i) = m_BlockSize v" using blocks_split [OF assms(1,2)] .
  let ?y = "cs @ drop (length cs) (zs ! i)" and ?a = "concat (take i zs)" and ?c = "concat (drop (Suc i) zs) @ r"
  have some: "m_Data v = Some (data_of v)" using assms(2) by (intro blocks_data [OF assms(1)]) auto
  have "data_of v = ?a @ take (length cs) (zs ! i) @ (drop (length cs) (zs ! i) @ ?c)"
    unfolding r(1) by (metis append.assoc append_take_drop_id)
  then have "blit (data_of v) (length ?a) cs = Inr (?a @ cs @ (drop (length cs) (zs ! i) @ ?c))"
    using blit_parts [of "take (length cs) (zs ! i)" cs ?a] r(3) assms(3) by simp
  then have "put_cells v (i * m_BlockSize v) cs = Inr (v\<lparr>m_Data := Some (?a @ ?y @ ?c)\<rparr>)"
    using some r(2) by (simp add: put_cells_def)
  moreover have "concat (zs[i := ?y]) = ?a @ ?y @ concat (drop (Suc i) zs)" by (simp add: upd_conv_take_nth_drop [OF assms(2)])
  moreover have "list_all (\<lambda>z. length z = m_BlockSize v) (zs[i := ?y])"
    using assms r(3) by (auto simp: blocks_def list_all_length nth_list_update)
  moreover have "sound (v\<lparr>m_Data := Some (?a @ ?y @ ?c)\<rparr>)"
  proof (rule sound_update)
    show "length (?a @ ?y @ ?c) = length (data_of v)" unfolding r(1) using r(3) assms(3) by simp
  qed (use assms(1) some in \<open>simp_all add: blocks_def\<close>)
  ultimately show ?thesis by (auto simp: blocks_def data_of_def)
qed

text \<open>Copying an item over another one.\<close>

lemma move_item:
  assumes "blocks v zs" "i < length zs" "j < length zs"
  shows "\<exists>d. move_cells v (i * m_BlockSize v) (j * m_BlockSize v) (m_BlockSize v) = Inr (v\<lparr>m_Data := Some d\<rparr>)
    \<and> blocks (v\<lparr>m_Data := Some d\<rparr>) (zs[i := zs ! j])"
proof -
  have "length (zs ! j) = m_BlockSize v" "length (zs ! i) = m_BlockSize v" using assms by (simp_all add: blocks_def list_all_length)
  then show ?thesis using put_item [OF assms(1,2), of "zs ! j"] get_item [OF assms(1,3)] by (simp add: move_cells_def)
qed

subsection \<open>Growing\<close>

text \<open>Arrays of at most \<open>N\<close> items that the memory has room for, whatever capacity the doubling arrives at.\<close>

definition roomy :: "allocator \<Rightarrow> nat \<Rightarrow> cellarray \<Rightarrow> bool" where
  "roomy e N v \<longleftrightarrow> 4 * m_BlockSize v * max (m_BaseSize v) (2 * N) < 2 ^ 32 \<and> m_AllocSize v \<le> max (m_BaseSize v) (2 * N)
    \<and> (\<forall>n < 2 ^ 32. gives e n)"

text \<open>Only the data and the capacity may differ.\<close>

definition same_array :: "cellarray \<Rightarrow> cellarray \<Rightarrow> bool" where
  "same_array v v' \<longleftrightarrow> m_BlockSize v' = m_BlockSize v \<and> m_BaseSize v' = m_BaseSize v \<and> m_Size v' = m_Size v"

lemma roomy_bound: "roomy e N v \<Longrightarrow> sound v \<Longrightarrow> max (m_BaseSize v) (2 * N) < 2 ^ 30"
proof -
  assume a: "roomy e N v" "sound v"
  have "max (m_BaseSize v) (2 * N) * 1 \<le> max (m_BaseSize v) (2 * N) * m_BlockSize v"
    using a(2) by (intro mult_le_mono2) (simp add: sound_def)
  moreover have "4 * (max (m_BaseSize v) (2 * N) * m_BlockSize v) < 2 ^ 32" using a(1) by (simp add: roomy_def algebra_simps)
  ultimately have "4 * max (m_BaseSize v) (2 * N) < 2 ^ 32" by linarith
  then show ?thesis by simp
qed

lemma grow_alloc:
  assumes "needed \<le> N" "alloc < needed \<or> alloc = B" "0 < alloc" "alloc \<le> max B (2 * N)" "max B (2 * N) < 2 ^ 30"
  shows "\<exists>c. (if needed > alloc then double_until 32 needed alloc else Inr alloc) = Inr c \<and> needed \<le> c \<and> alloc \<le> c \<and> c \<le> max B (2 * N)"
proof (cases "needed > alloc")
  case True
  have e: "(2 :: nat) ^ 32 = 4294967296" "(2 :: nat) ^ 31 = 2147483648" "(2 :: nat) ^ 30 = 1073741824" by simp_all
  have n: "needed \<le> 2 ^ 31" "alloc < 2 ^ 31" using assms True unfolding e by linarith+
  have "(1 :: nat) * 4294967296 \<le> alloc * 4294967296" using assms(3) by (intro mult_le_mono1) simp
  then have "needed \<le> alloc * 2 ^ 32" using n(1) unfolding e by linarith
  then obtain c where "double_until 32 needed alloc = Inr c" "needed \<le> c" "alloc \<le> c" "c = 2 * alloc \<or> c < 2 * needed"
    using double_until_enough [of 32 alloc needed] n assms(3) by auto
  then show ?thesis using True assms(1) by auto
qed (use assms in auto)

lemma grow_items:
  assumes "blocks v zs" "roomy e N v" "m_Size v + count \<le> N" "0 < m_Size v + count"
  shows "\<exists>v'. GrowIfNeeded e count v = Inr (True, v') \<and> blocks v' zs \<and> roomy e N v' \<and> same_array v v'
    \<and> m_Size v + count \<le> m_AllocSize v'"
proof -
  have snd: "sound v" using assms(1) by (simp add: blocks_def)
  note bound = roomy_bound [OF assms(2) snd]
  have e: "(2 :: nat) ^ 32 = 4294967296" "(2 :: nat) ^ 30 = 1073741824" by simp_all
  have w: "wrap (m_Size v + count) = m_Size v + count" using assms(3) bound unfolding e by (intro wrap_small) (unfold e, linarith)
  show ?thesis
  proof (cases "m_Size v + count \<le> m_AllocSize v")
    case True
    then show ?thesis using assms w by (auto simp: GrowIfNeeded_def same_array_def)
  next
    case False
    define alloc where "alloc = (if m_AllocSize v = 0 then m_BaseSize v else m_AllocSize v)"
    have "alloc < m_Size v + count \<or> alloc = m_BaseSize v" "0 < alloc" "alloc \<le> max (m_BaseSize v) (2 * N)"
      using False snd assms(2) by (auto simp: alloc_def sound_def roomy_def)
    then obtain c where c: "(if m_Size v + count > alloc then double_until 32 (m_Size v + count) alloc else Inr alloc) = Inr c"
        "m_Size v + count \<le> c" "alloc \<le> c" "c \<le> max (m_BaseSize v) (2 * N)"
      using grow_alloc [OF assms(3) _ _ _ bound] by blast
    have "4 * m_BlockSize v * c \<le> 4 * m_BlockSize v * max (m_BaseSize v) (2 * N)" using c(4) by (intro mult_le_mono2)
    then have bytes: "4 * m_BlockSize v * c < 2 ^ 32" using assms(2) unfolding roomy_def by linarith
    have bb: "block_bytes v c = 4 * (m_BlockSize v * c)"
    proof -
      have "wrap (wrap (4 * m_BlockSize v) * c) = wrap (4 * m_BlockSize v * c)" by (simp add: wrap_def mod_simps)
      then show ?thesis using bytes by (simp add: block_bytes_def wrap_small)
    qed
    have keep: "length (data_of v) \<le> m_BlockSize v * c"
    proof -
      have "m_AllocSize v \<le> c" using c(3) by (simp add: alloc_def split: if_splits)
      then have "m_AllocSize v * m_BlockSize v \<le> c * m_BlockSize v" by (rule mult_le_mono1)
      then show ?thesis using snd by (simp add: sound_def mult.commute)
    qed
    define d where "d = data_of v @ fresh (fills e) (m_BlockSize v * c - length (data_of v))"
    have "gives e (block_bytes v c)" using assms(2) bytes unfolding bb roomy_def by (simp add: algebra_simps)
    then have re: "reallocate e (block_bytes v c) (m_Data v) = Some d"
      using keep by (cases "m_Data v") (simp_all add: reallocate_def bb d_def data_of_def)
    let ?v = "v\<lparr>m_AllocSize := c, m_Data := Some d\<rparr>"
    have "GrowIfNeeded e count v = Inr (True, ?v)"
      unfolding GrowIfNeeded_def Let_def alloc_def [symmetric] w c(1) bindR_simps re using False by simp
    moreover have "sound ?v" using snd bytes keep by (simp add: sound_def data_of_def d_def mult.commute)
    then have "blocks ?v zs" using assms(1) by (auto simp: blocks_def data_of_def d_def)
    moreover have "roomy e N ?v" using assms(2) c(4) by (simp add: roomy_def)
    ultimately show ?thesis using c(2) by (auto simp: same_array_def)
  qed
qed

subsection \<open>The operations\<close>

lemma blocks_size [simp]: "blocks (v\<lparr>m_Size := n\<rparr>) zs = blocks v zs"
  by (simp add: blocks_def sound_def data_of_def)

lemma roomy_updates [simp]: "roomy e N (v\<lparr>m_Size := n\<rparr>) = roomy e N v" "roomy e N (v\<lparr>m_Data := d\<rparr>) = roomy e N v"
  by (simp_all add: roomy_def)

lemma one_more:
  assumes "array_items v xs" "roomy e N v" "length xs + 1 \<le> N"
  shows "\<exists>v' y. GrowIfNeeded e 1 v = Inr (True, v') \<and> blocks v' (xs @ [y]) \<and> roomy e N v' \<and> same_array v v'"
proof -
  obtain v' where v': "GrowIfNeeded e 1 v = Inr (True, v')" "blocks v' xs" "roomy e N v'" "same_array v v'" "length xs + 1 \<le> m_AllocSize v'"
    using grow_items [of v xs e N 1] assms by (auto simp: array_items_def)
  obtain ys where "length ys = 1" "blocks v' (xs @ ys)" using blocks_more [OF v'(2,5)] by blast
  then show ?thesis using v' by (auto simp: length_Suc_conv)
qed

lemma push_items:
  assumes "array_items v xs" "roomy e N v" "length xs + 1 \<le> N"
  shows "\<exists>v' y. array_push e v = Inr (Some (length xs * m_BlockSize v), v') \<and> array_items v' (xs @ [y]) \<and> roomy e N v'
    \<and> m_BlockSize v' = m_BlockSize v"
proof -
  obtain v1 y where v1: "GrowIfNeeded e 1 v = Inr (True, v1)" "blocks v1 (xs @ [y])" "roomy e N v1" "same_array v v1"
    using one_more [OF assms] by blast
  have "sound v1" "length xs + 1 \<le> m_AllocSize v1" using v1(2) blocks_length [OF v1(2)] by (simp_all add: blocks_def)
  note i = small_index [OF this(1), of "length xs"] this
  have "array_push e v = Inr (Some (length xs * m_BlockSize v), v1\<lparr>m_Size := length xs + 1\<rparr>)"
    using v1(1,4) i assms(1) by (simp add: array_push_def same_array_def array_items_def)
  then show ?thesis using v1 by (auto simp: array_items_def same_array_def)
qed

lemma swap_items:
  assumes "array_items v xs" "roomy e N v" "length xs + 1 \<le> N" "i < length xs" "j < length xs"
  shows "\<exists>v'. array_swap e i j v = Inr (True, v') \<and> array_items v' (xs[i := xs ! j, j := xs ! i]) \<and> roomy e N v'
    \<and> m_BlockSize v' = m_BlockSize v"
proof -
  let ?n = "length xs"
  obtain v1 y where v1: "GrowIfNeeded e 1 v = Inr (True, v1)" "blocks v1 (xs @ [y])" "roomy e N v1" "same_array v v1"
    using one_more [OF assms(1-3)] by blast
  have "sound v1" "?n + 1 \<le> m_AllocSize v1" using v1(2) blocks_length [OF v1(2)] by (simp_all add: blocks_def)
  then have at: "k \<le> ?n \<Longrightarrow> array_at v1 k = k * m_BlockSize v1" "k \<le> ?n \<Longrightarrow> wrap (k * m_BlockSize v1) = k * m_BlockSize v1"
      "block_bytes v1 1 div 4 = m_BlockSize v1" for k
    using small_index [of v1 k] small_index(3) [of v1 1] by auto
  obtain d1 where d1: "move_cells v1 (?n * m_BlockSize v1) (i * m_BlockSize v1) (m_BlockSize v1) = Inr (v1\<lparr>m_Data := Some d1\<rparr>)"
      "blocks (v1\<lparr>m_Data := Some d1\<rparr>) (xs @ [xs ! i])"
    using move_item [OF v1(2), of ?n i] assms(4) by (auto simp: nth_append list_update_append)
  obtain d2 where d2: "move_cells (v1\<lparr>m_Data := Some d1\<rparr>) (i * m_BlockSize v1) (j * m_BlockSize v1) (m_BlockSize v1)
        = Inr (v1\<lparr>m_Data := Some d2\<rparr>)" "blocks (v1\<lparr>m_Data := Some d2\<rparr>) (xs[i := xs ! j] @ [xs ! i])"
    using move_item [OF d1(2), of i j] assms(4,5) by (auto simp: nth_append list_update_append)
  obtain d3 where d3: "move_cells (v1\<lparr>m_Data := Some d2\<rparr>) (j * m_BlockSize v1) (?n * m_BlockSize v1) (m_BlockSize v1)
        = Inr (v1\<lparr>m_Data := Some d3\<rparr>)" "blocks (v1\<lparr>m_Data := Some d3\<rparr>) (xs[i := xs ! j, j := xs ! i] @ [xs ! i])"
    using move_item [OF d2(2), of j ?n] assms(4,5) by (auto simp: nth_append list_update_append)
  have sz: "m_Size v1 = ?n" using v1(4) assms(1) by (simp add: same_array_def array_items_def)
  have "array_at (v1\<lparr>m_Data := d\<rparr>) k = array_at v1 k" for d k by (simp add: array_at_def)
  then have "array_swap e i j v = Inr (True, v1\<lparr>m_Data := Some d3\<rparr>)"
    using v1(1) at assms(4,5) d1(1) d2(1) d3(1) by (simp add: array_swap_def Let_def sz)
  then show ?thesis using d3(2) v1 sz blocks_prefix by (auto simp: array_items_def same_array_def)
qed

text \<open>Reading and writing a part of the data, and what the data are afterwards.\<close>

lemma get_parts: "m_Data v \<noteq> None \<Longrightarrow> data_of v = a @ b @ c \<Longrightarrow> get_cells v (length a) (length b) = Inr b"
  using peek_parts [of a b c] by (auto simp: get_cells_def data_of_def)

lemma put_parts:
  "m_Data v \<noteq> None \<Longrightarrow> data_of v = a @ b @ c \<Longrightarrow> length b = length cs \<Longrightarrow>
    put_cells v (length a) cs = Inr (v\<lparr>m_Data := Some (a @ cs @ c)\<rparr>)"
  using blit_parts [of b cs a c] by (auto simp: put_cells_def data_of_def)

lemma blocks_rebuild:
  assumes "blocks v zs" "m_Data v \<noteq> None" "length (concat ys @ r) = length (data_of v)" "list_all (\<lambda>z. length z = m_BlockSize v) ys"
  shows "blocks (v\<lparr>m_Data := Some (concat ys @ r)\<rparr>) ys"
  using assms by (auto simp: blocks_def sound_def data_of_def)

lemma insert_data:
  assumes "blocks v (xs @ [y])" "i \<le> length xs"
  shows "\<exists>d p. move_cells v ((i + 1) * m_BlockSize v) (i * m_BlockSize v) ((length xs - i) * m_BlockSize v) = Inr (v\<lparr>m_Data := Some d\<rparr>)
    \<and> blocks (v\<lparr>m_Data := Some d\<rparr>) (take i xs @ p # drop i xs)"
proof -
  let ?bs = "m_BlockSize v" and ?a = "concat (take i xs)" and ?b = "concat (drop i xs)"
  have some: "m_Data v \<noteq> None" using blocks_data [OF assms(1)] by simp
  have sizes: "list_all (\<lambda>z. length z = ?bs) (xs @ [y])" using assms(1) by (simp add: blocks_def)
  have la: "length ?a = i * ?bs" using length_concat_items [of ?bs "take i xs"] sizes assms(2) by (auto simp: list_all_iff dest: in_set_takeD)
  have lb: "length ?b = (length xs - i) * ?bs" using length_concat_items [of ?bs "drop i xs"] sizes by (auto simp: list_all_iff dest: in_set_dropD)
  obtain r where r: "data_of v = concat (xs @ [y]) @ r" using assms(1) by (auto simp: blocks_def)
  have split: "concat xs = ?a @ ?b" by (metis append_take_drop_id concat_append)
  define p where "p = take ?bs (?b @ y)"
  define q where "q = drop ?bs (?b @ y)"
  have pq: "?b @ y = p @ q" "length p = ?bs" "length q = length ?b"
    using sizes by (simp_all only: p_def q_def append_take_drop_id length_take length_drop) auto
  have get: "get_cells v (i * ?bs) (length ?b) = Inr ?b" unfolding la [symmetric]
    by (rule get_parts [OF some, of _ _ "y @ r"]) (simp add: r split)
  have "data_of v = (?a @ p) @ q @ r" unfolding r using split pq(1) by simp
  then have "put_cells v (length (?a @ p)) ?b = Inr (v\<lparr>m_Data := Some ((?a @ p) @ ?b @ r)\<rparr>)"
    using put_parts [OF some] pq(3) by blast
  then have put: "put_cells v ((i + 1) * ?bs) ?b = Inr (v\<lparr>m_Data := Some (concat (take i xs @ p # drop i xs) @ r)\<rparr>)"
    by (simp add: la pq(2) add.commute)
  have "blocks (v\<lparr>m_Data := Some (concat (take i xs @ p # drop i xs) @ r)\<rparr>) (take i xs @ p # drop i xs)"
  proof (rule blocks_rebuild [OF assms(1) some])
    show "length (concat (take i xs @ p # drop i xs) @ r) = length (data_of v)" unfolding r using split pq sizes by simp
    show "list_all (\<lambda>z. length z = ?bs) (take i xs @ p # drop i xs)"
      using sizes pq(2) by (auto simp: list_all_iff dest: in_set_takeD in_set_dropD)
  qed
  then show ?thesis using get put unfolding move_cells_def lb [symmetric] by auto
qed

lemma remove_data:
  assumes "blocks v xs" "i < length xs"
  shows "\<exists>d. move_cells v (i * m_BlockSize v) ((i + 1) * m_BlockSize v) ((length xs - 1 - i) * m_BlockSize v) = Inr (v\<lparr>m_Data := Some d\<rparr>)
    \<and> blocks (v\<lparr>m_Data := Some d\<rparr>) (take i xs @ drop (Suc i) xs)"
proof -
  let ?bs = "m_BlockSize v" and ?a = "concat (take i xs)" and ?b = "concat (drop (Suc i) xs)"
  have sizes: "list_all (\<lambda>z. length z = ?bs) xs" using assms(1) by (simp add: blocks_def)
  have some: "m_Data v \<noteq> None" using blocks_data [OF assms(1)] assms(2) by (cases xs) simp_all
  obtain r where r: "data_of v = ?a @ xs ! i @ ?b @ r" "length ?a = i * ?bs" "length (xs ! i) = ?bs" using blocks_split [OF assms] .
  have lb: "length ?b = (length xs - 1 - i) * ?bs"
    using length_concat_items [of ?bs "drop (Suc i) xs"] sizes by (auto simp: list_all_iff dest: in_set_dropD)
  define p where "p = take (length ?b) (xs ! i @ ?b)"
  define q where "q = drop (length ?b) (xs ! i @ ?b)"
  have pq: "xs ! i @ ?b = p @ q" "length p = length ?b" "length q = ?bs"
    using r(3) by (simp_all only: p_def q_def append_take_drop_id length_take length_drop) auto
  have "data_of v = (?a @ xs ! i) @ ?b @ r" using r(1) by simp
  then have "get_cells v (length (?a @ xs ! i)) (length ?b) = Inr ?b" by (rule get_parts [OF some])
  then have get: "get_cells v ((i + 1) * ?bs) (length ?b) = Inr ?b" by (simp add: r(2,3) add.commute)
  have "data_of v = ?a @ p @ (q @ r)" using r(1) pq(1) by (metis append.assoc)
  then have "put_cells v (length ?a) ?b = Inr (v\<lparr>m_Data := Some (?a @ ?b @ (q @ r))\<rparr>)" using put_parts [OF some] pq(2) by blast
  then have put: "put_cells v (i * ?bs) ?b = Inr (v\<lparr>m_Data := Some (concat (take i xs @ drop (Suc i) xs) @ (q @ r))\<rparr>)" by (simp add: r(2))
  have "blocks (v\<lparr>m_Data := Some (concat (take i xs @ drop (Suc i) xs) @ (q @ r))\<rparr>) (take i xs @ drop (Suc i) xs)"
  proof (rule blocks_rebuild [OF assms(1) some])
    show "length (concat (take i xs @ drop (Suc i) xs) @ (q @ r)) = length (data_of v)" unfolding r(1) using pq(3) r(3) by simp
    show "list_all (\<lambda>z. length z = ?bs) (take i xs @ drop (Suc i) xs)"
      using sizes by (auto simp: list_all_iff dest: in_set_takeD in_set_dropD)
  qed
  then show ?thesis using get put unfolding move_cells_def lb [symmetric] by auto
qed

text \<open>Differences of sizes, computed by adding the modulus.\<close>

lemma wrap_diff: "k \<le> n \<Longrightarrow> n < 2 ^ 32 \<Longrightarrow> wrap (n + c * 2 ^ 32 - k) = n - k"
proof -
  assume a: "k \<le> n" "n < 2 ^ 32"
  then have "n + c * 2 ^ 32 - k = (n - k) + c * 2 ^ 32" by simp
  then have "wrap (n + c * 2 ^ 32 - k) = (n - k) mod 2 ^ 32" unfolding wrap_def by (simp only: mod_mult_self1)
  then show ?thesis using a by simp
qed

lemma insert_items:
  assumes "array_items v xs" "roomy e N v" "length xs + 1 \<le> N" "i \<le> length xs"
  shows "\<exists>v' y. array_insert_at e i v = Inr (Some (i * m_BlockSize v), v') \<and> array_items v' (take i xs @ y # drop i xs)
    \<and> roomy e N v' \<and> m_BlockSize v' = m_BlockSize v"
proof -
  let ?n = "length xs"
  obtain v1 y where v1: "GrowIfNeeded e 1 v = Inr (True, v1)" "blocks v1 (xs @ [y])" "roomy e N v1" "same_array v v1"
    using one_more [OF assms(1-3)] by blast
  let ?bs = "m_BlockSize v1"
  have snd: "sound v1" "?n + 1 \<le> m_AllocSize v1" using v1(2) blocks_length [OF v1(2)] by (simp_all add: blocks_def)
  obtain d p where d: "move_cells v1 ((i + 1) * ?bs) (i * ?bs) ((?n - i) * ?bs) = Inr (v1\<lparr>m_Data := Some d\<rparr>)"
      "blocks (v1\<lparr>m_Data := Some d\<rparr>) (take i xs @ p # drop i xs)"
    using insert_data [OF v1(2) assms(4)] by blast
  have sz: "m_Size v1 = ?n" using v1(4) assms(1) by (simp add: same_array_def array_items_def)
  have at: "array_at v1 i = i * ?bs" "array_at v1 (i + 1) = (i + 1) * ?bs" "wrap (i + 1) = i + 1" "wrap (?n + 1) = ?n + 1" "?n < 2 ^ 30"
    using small_index(1,5) [OF snd(1), of i] small_index(1) [OF snd(1), of "i + 1"] small_index(4,5) [OF snd(1), of ?n] snd(2) assms(4)
    by auto
  have w: "wrap (?n + 2 ^ 32 - i) = ?n - i" using wrap_diff [of i ?n 1] assms(4) at(5) by simp
  have n: "block_bytes v1 (?n - i) div 4 = (?n - i) * ?bs" using small_index(3) [OF snd(1), of "?n - i"] snd(2) by simp
  have "array_at (v1\<lparr>m_Data := Some d\<rparr>) i = i * ?bs" using at(1) by (simp add: array_at_def)
  then have "array_insert_at e i v = Inr (Some (i * ?bs), v1\<lparr>m_Data := Some d, m_Size := ?n + 1\<rparr>)"
    unfolding array_insert_at_def v1(1) bindR_simps using at w n d(1) by (simp add: sz)
  then show ?thesis using d(2) v1(3,4) assms(4)
    by (intro exI [of _ "v1\<lparr>m_Data := Some d, m_Size := ?n + 1\<rparr>"] exI [of _ p]) (simp add: array_items_def same_array_def)
qed

lemma remove_items:
  assumes "array_items v xs" "roomy e N v" "i < length xs"
  shows "\<exists>v'. array_remove i v = Inr v' \<and> array_items v' (take i xs @ drop (Suc i) xs) \<and> roomy e N v' \<and> m_BlockSize v' = m_BlockSize v"
proof -
  let ?n = "length xs" and ?bs = "m_BlockSize v"
  have bl: "blocks v xs" "m_Size v = ?n" using assms(1) by (simp_all add: array_items_def)
  have snd: "sound v" "?n \<le> m_AllocSize v" using bl blocks_length by (auto simp: blocks_def)
  have small: "?n < 2 ^ 30" using small_index(4) [OF snd] .
  have w: "wrap (?n + 2 ^ 32 - 1) = ?n - 1" "wrap (?n + 2 * 2 ^ 32 - 1 - i) = ?n - 1 - i"
    using wrap_diff [of 1 ?n 1] wrap_diff [of "1 + i" ?n 2] small assms(3) by simp_all
  show ?thesis
  proof (cases "i = ?n - 1")
    case True
    then have "take i xs @ drop (Suc i) xs = take (?n - 1) xs" using assms(3) by simp
    moreover have "array_remove i v = Inr (v\<lparr>m_Size := ?n - 1\<rparr>)" using True w(1) bl(2) by (simp add: array_remove_def)
    ultimately show ?thesis using blocks_take [OF bl(1), of "?n - 1"] assms(2) by (simp add: array_items_def)
  next
    case False
    obtain d where d: "move_cells v (i * ?bs) ((i + 1) * ?bs) ((?n - 1 - i) * ?bs) = Inr (v\<lparr>m_Data := Some d\<rparr>)"
        "blocks (v\<lparr>m_Data := Some d\<rparr>) (take i xs @ drop (Suc i) xs)"
      using remove_data [OF bl(1) assms(3)] by blast
    have at: "array_at v i = i * ?bs" "array_at v (i + 1) = (i + 1) * ?bs" "wrap (i + 1) = i + 1"
      using small_index(1,5) [OF snd(1), of i] small_index(1) [OF snd(1), of "i + 1"] snd(2) assms(3) by auto
    have n: "block_bytes v (?n - 1 - i) div 4 = (?n - 1 - i) * ?bs" using small_index(3) [OF snd(1), of "?n - 1 - i"] snd(2) by simp
    have "array_remove i v = Inr (v\<lparr>m_Data := Some d, m_Size := ?n - 1\<rparr>)"
      unfolding array_remove_def bl(2) Let_def w at n d(1) using False w(1) by (simp add: bl(2))
    then show ?thesis using d(2) assms(2,3)
      by (intro exI [of _ "v\<lparr>m_Data := Some d, m_Size := ?n - 1\<rparr>"]) (auto simp: array_items_def)
  qed
qed

lemma resize_items:
  assumes "array_items v xs" "roomy e N v" "n \<le> N"
  shows "\<exists>v' ys. array_resize e n v = Inr (True, v') \<and> array_items v' (take n xs @ ys) \<and> length (take n xs @ ys) = n \<and> roomy e N v'
    \<and> m_BlockSize v' = m_BlockSize v"
proof (cases "n \<le> length xs")
  case True
  then show ?thesis using assms blocks_take [of v xs n]
    by (intro exI [of _ "v\<lparr>m_Size := n\<rparr>"] exI [of _ "[]"]) (auto simp: array_items_def array_resize_def)
next
  case False
  have bl: "blocks v xs" "m_Size v = length xs" using assms(1) by (simp_all add: array_items_def)
  obtain v' where v': "GrowIfNeeded e (n - length xs) v = Inr (True, v')" "blocks v' xs" "roomy e N v'" "same_array v v'" "n \<le> m_AllocSize v'"
    using grow_items [OF bl(1) assms(2), of "n - length xs"] assms(3) bl(2) False by auto
  obtain ys where ys: "length ys = n - length xs" "blocks v' (xs @ ys)" using blocks_more [OF v'(2), of "n - length xs"] v'(5) False by auto
  have "array_resize e n v = Inr (True, v'\<lparr>m_Size := n\<rparr>)" using False v'(1) bl(2) by (simp add: array_resize_def)
  then show ?thesis using False ys v' by (intro exI [of _ "v'\<lparr>m_Size := n\<rparr>"] exI [of _ ys]) (auto simp: array_items_def same_array_def)
qed

section \<open>Sequences of operations\<close>

text \<open>
  The calls of the natives, each with the cells it writes into the item; the result is false when
  there was no memory.
\<close>

datatype array_op = Push "cell list" | Insert nat "cell list" | Write nat "cell list" | Remove nat | Swap nat nat | Resize nat | Clear

definition write_at :: "nat option \<times> cellarray \<Rightarrow> cell list \<Rightarrow> (bool \<times> cellarray) res" where
  "write_at pv cs = (case fst pv of None \<Rightarrow> Inr (False, snd pv) | Some p \<Rightarrow> bindR (put_cells (snd pv) p cs) (\<lambda>v. Inr (True, v)))"

fun apply_op :: "allocator \<Rightarrow> array_op \<Rightarrow> cellarray \<Rightarrow> (bool \<times> cellarray) res" where
  "apply_op e (Push cs) v = bindR (array_push e v) (\<lambda>pv. write_at pv cs)"
| "apply_op e (Insert i cs) v = bindR (array_insert_at e i v) (\<lambda>pv. write_at pv cs)"
| "apply_op e (Write i cs) v = write_at (Some (array_at v i), v) cs"
| "apply_op e (Remove i) v = bindR (array_remove i v) (\<lambda>v. Inr (True, v))"
| "apply_op e (Swap i j) v = array_swap e i j v"
| "apply_op e (Resize n) v = array_resize e n v"
| "apply_op e Clear v = Inr (True, array_clear v)"

text \<open>What they do to the list of the items; cells that nothing has written are arbitrary.\<close>

inductive items_step :: "nat \<Rightarrow> array_op \<Rightarrow> cell list list \<Rightarrow> cell list list \<Rightarrow> bool" for bs where
  step_push: "length cs + length js = bs \<Longrightarrow> items_step bs (Push cs) xs (xs @ [cs @ js])"
| step_insert: "length cs + length js = bs \<Longrightarrow> i \<le> length xs \<Longrightarrow> items_step bs (Insert i cs) xs (take i xs @ (cs @ js) # drop i xs)"
| step_write: "i < length xs \<Longrightarrow> items_step bs (Write i cs) xs (xs[i := cs @ drop (length cs) (xs ! i)])"
| step_remove: "i < length xs \<Longrightarrow> items_step bs (Remove i) xs (take i xs @ drop (Suc i) xs)"
| step_swap: "i < length xs \<Longrightarrow> j < length xs \<Longrightarrow> items_step bs (Swap i j) xs (xs[i := xs ! j, j := xs ! i])"
| step_resize: "length (take n xs @ ys) = n \<Longrightarrow> list_all (\<lambda>y. length y = bs) ys \<Longrightarrow> items_step bs (Resize n) xs (take n xs @ ys)"
| step_clear: "items_step bs Clear xs []"

inductive_simps items_step_simps:
  "items_step bs (Push cs) xs ys" "items_step bs (Insert i cs) xs ys" "items_step bs (Write i cs) xs ys"
  "items_step bs (Remove i) xs ys" "items_step bs (Swap i j) xs ys" "items_step bs (Resize n) xs ys" "items_step bs Clear xs ys"

text \<open>The number of items after an operation, and the calls that are allowed for at most \<open>N\<close> items.\<close>

fun items_after :: "array_op \<Rightarrow> nat \<Rightarrow> nat" where
  "items_after (Push _) n = n + 1"
| "items_after (Insert _ _) n = n + 1"
| "items_after (Remove _) n = n - 1"
| "items_after (Resize k) n = k"
| "items_after Clear n = 0"
| "items_after _ n = n"

fun op_allowed :: "nat \<Rightarrow> nat \<Rightarrow> array_op \<Rightarrow> nat \<Rightarrow> bool" where
  "op_allowed bs N (Push cs) n \<longleftrightarrow> length cs \<le> bs \<and> n + 1 \<le> N"
| "op_allowed bs N (Insert i cs) n \<longleftrightarrow> length cs \<le> bs \<and> i \<le> n \<and> n + 1 \<le> N"
| "op_allowed bs N (Write i cs) n \<longleftrightarrow> length cs \<le> bs \<and> i < n"
| "op_allowed bs N (Remove i) n \<longleftrightarrow> i < n"
| "op_allowed bs N (Swap i j) n \<longleftrightarrow> i < n \<and> j < n \<and> n + 1 \<le> N"
| "op_allowed bs N (Resize k) n \<longleftrightarrow> k \<le> N"
| "op_allowed bs N Clear n \<longleftrightarrow> True"

fun run_ops :: "('op \<Rightarrow> 'c \<Rightarrow> (bool \<times> 'c) res) \<Rightarrow> 'op list \<Rightarrow> 'c \<Rightarrow> (bool \<times> 'c) res" where
  "run_ops f [] c = Inr (True, c)"
| "run_ops f (op # ops) c = bindR (f op c) (\<lambda>(ok, c). if ok then run_ops f ops c else Inr (False, c))"

fun ops_allowed :: "('op \<Rightarrow> nat \<Rightarrow> bool) \<Rightarrow> ('op \<Rightarrow> nat \<Rightarrow> nat) \<Rightarrow> 'op list \<Rightarrow> nat \<Rightarrow> bool" where
  "ops_allowed ok after [] n \<longleftrightarrow> True"
| "ops_allowed ok after (op # ops) n \<longleftrightarrow> ok op n \<and> ops_allowed ok after ops (after op n)"

inductive spec_run :: "('op \<Rightarrow> 'a \<Rightarrow> 'a \<Rightarrow> bool) \<Rightarrow> 'op list \<Rightarrow> 'a \<Rightarrow> 'a \<Rightarrow> bool" for step where
  nil: "spec_run step [] a a"
| cons: "step op a b \<Longrightarrow> spec_run step ops b c \<Longrightarrow> spec_run step (op # ops) a c"

text \<open>
  A container and what it stands for: every allowed operation succeeds, does what the
  specification says and keeps the relation.  Then so does every sequence.
\<close>

locale container =
  fixes exec :: "'op \<Rightarrow> 'c \<Rightarrow> (bool \<times> 'c) res"
    and stands :: "'c \<Rightarrow> 'a \<Rightarrow> bool"
    and spec :: "'op \<Rightarrow> 'a \<Rightarrow> 'a \<Rightarrow> bool"
    and count :: "'a \<Rightarrow> nat"
    and allowed :: "'op \<Rightarrow> nat \<Rightarrow> bool"
    and after :: "'op \<Rightarrow> nat \<Rightarrow> nat"
  assumes simulates: "stands c a \<Longrightarrow> allowed op (count a) \<Longrightarrow>
      \<exists>c' a'. exec op c = Inr (True, c') \<and> stands c' a' \<and> spec op a a'"
    and counts: "spec op a a' \<Longrightarrow> allowed op (count a) \<Longrightarrow> count a' = after op (count a)"
begin

lemma simulates_run:
  "stands c a \<Longrightarrow> ops_allowed allowed after ops (count a) \<Longrightarrow>
    \<exists>c' a'. run_ops exec ops c = Inr (True, c') \<and> stands c' a' \<and> spec_run spec ops a a'"
proof (induction ops arbitrary: c a)
  case (Cons op ops)
  then obtain c1 a1 where c1: "exec op c = Inr (True, c1)" "stands c1 a1" "spec op a a1" using simulates by fastforce
  then obtain c' a' where "run_ops exec ops c1 = Inr (True, c')" "stands c' a'" "spec_run spec ops a1 a'"
    using Cons counts by fastforce
  then show ?case using c1 by (auto intro: spec_run.cons)
qed (auto intro: spec_run.nil)

end

definition stands_for :: "allocator \<Rightarrow> nat \<Rightarrow> nat \<Rightarrow> cellarray \<Rightarrow> cell list list \<Rightarrow> bool" where
  "stands_for e N bs v xs \<longleftrightarrow> array_items v xs \<and> roomy e N v \<and> m_BlockSize v = bs"

lemma item_size: "array_items v xs \<Longrightarrow> i < length xs \<Longrightarrow> length (xs ! i) = m_BlockSize v"
  by (simp add: array_items_def blocks_def list_all_length)

lemma write_item:
  assumes "array_items v xs" "i < length xs" "length cs \<le> m_BlockSize v" "roomy e N v"
  shows "\<exists>v'. write_at (Some (i * m_BlockSize v), v) cs = Inr (True, v') \<and>
    stands_for e N (m_BlockSize v) v' (xs[i := cs @ drop (length cs) (xs ! i)])"
  using put_item [of v xs i cs] assms by (auto simp: array_items_def write_at_def stands_for_def)

lemma push_write:
  assumes "stands_for e N bs v xs" "length cs \<le> bs" "length xs + 1 \<le> N"
  shows "\<exists>v' js. apply_op e (Push cs) v = Inr (True, v') \<and> stands_for e N bs v' (xs @ [cs @ js]) \<and> length cs + length js = bs"
proof -
  obtain v1 y where v1: "array_push e v = Inr (Some (length xs * bs), v1)" "array_items v1 (xs @ [y])" "roomy e N v1" "m_BlockSize v1 = bs"
    using push_items [of v xs e N] assms by (auto simp: stands_for_def)
  have "length y = bs" using item_size [OF v1(2), of "length xs"] v1(4) by simp
  moreover obtain v' where "write_at (Some (length xs * bs), v1) cs = Inr (True, v')"
      "stands_for e N bs v' ((xs @ [y])[length xs := cs @ drop (length cs) y])"
    using write_item [OF v1(2), of "length xs" cs e N] v1(3,4) assms(2) by auto
  ultimately show ?thesis using v1(1) assms(2) by (intro exI [of _ v'] exI [of _ "drop (length cs) y"]) simp
qed

lemma insert_write:
  assumes "stands_for e N bs v xs" "length cs \<le> bs" "length xs + 1 \<le> N" "i \<le> length xs"
  shows "\<exists>v' js. apply_op e (Insert i cs) v = Inr (True, v') \<and> stands_for e N bs v' (take i xs @ (cs @ js) # drop i xs)
    \<and> length cs + length js = bs"
proof -
  obtain v1 y where v1: "array_insert_at e i v = Inr (Some (i * bs), v1)" "array_items v1 (take i xs @ y # drop i xs)" "roomy e N v1"
      "m_BlockSize v1 = bs"
    using insert_items [of v xs e N i] assms by (auto simp: stands_for_def)
  have i: "(take i xs @ y # drop i xs) ! i = y" "(take i xs @ y # drop i xs)[i := z] = take i xs @ z # drop i xs" for z
    using assms(4) by (simp_all add: nth_append list_update_append)
  have "length y = bs" using item_size [OF v1(2), of i] v1(4) assms(4) i(1) by simp
  moreover obtain v' where "write_at (Some (i * bs), v1) cs = Inr (True, v')"
      "stands_for e N bs v' (take i xs @ (cs @ drop (length cs) y) # drop i xs)"
    using write_item [OF v1(2), of i cs e N] v1(3,4) assms(2,4) i by auto
  ultimately show ?thesis using v1(1) assms(2) by (intro exI [of _ v'] exI [of _ "drop (length cs) y"]) simp
qed

lemma op_simulates:
  assumes "stands_for e N bs v xs" "op_allowed bs N op (length xs)"
  shows "\<exists>v' xs'. apply_op e op v = Inr (True, v') \<and> stands_for e N bs v' xs' \<and> items_step bs op xs xs'"
proof -
  have a: "array_items v xs" "roomy e N v" "m_BlockSize v = bs" using assms(1) by (simp_all add: stands_for_def)
  show ?thesis
  proof (cases op)
    case (Push cs)
    then show ?thesis using push_write [OF assms(1), of cs] assms(2) by (fastforce simp: items_step_simps)
  next
    case (Insert i cs)
    then show ?thesis using insert_write [OF assms(1), of cs i] assms(2) by (fastforce simp: items_step_simps)
  next
    case (Write i cs)
    have b: "blocks v xs" using a(1) by (simp add: array_items_def)
    have "i \<le> m_AllocSize v" using blocks_length [OF b] assms(2) Write by simp
    then have "array_at v i = i * bs" using small_index(1) [of v i] b a(3) by (simp add: blocks_def)
    then show ?thesis using write_item [OF a(1), of i cs e N] a(2,3) assms(2) Write by (auto simp: items_step_simps)
  next
    case (Remove i)
    then show ?thesis using remove_items [OF a(1,2), of i] assms(2) a(3) by (fastforce simp: items_step_simps stands_for_def)
  next
    case (Swap i j)
    then show ?thesis using swap_items [OF a(1,2), of i j] assms(2) a(3) by (fastforce simp: items_step_simps stands_for_def)
  next
    case (Resize n)
    obtain v' ys where r: "array_resize e n v = Inr (True, v')" "array_items v' (take n xs @ ys)" "length (take n xs @ ys) = n"
        "roomy e N v'" "m_BlockSize v' = bs"
      using resize_items [OF a(1,2), of n] assms(2) a(3) Resize by auto
    have "list_all (\<lambda>y. length y = bs) ys" using r(2,5) by (simp add: array_items_def blocks_def)
    then show ?thesis using r Resize by (auto simp: items_step_simps stands_for_def)
  next
    case Clear
    then show ?thesis using a blocks_take [of v xs 0] by (auto simp: items_step_simps stands_for_def array_clear_def array_items_def)
  qed
qed

interpretation arrays: container "apply_op e" "stands_for e N bs" "items_step bs" length "op_allowed bs N" items_after
  for e N bs
proof
  show "\<exists>c' a'. apply_op e op c = Inr (True, c') \<and> stands_for e N bs c' a' \<and> items_step bs op a a'"
    if "stands_for e N bs c a" "op_allowed bs N op (length a)" for c a op
    using op_simulates [OF that] by blast
  show "length a' = items_after op (length a)" if "items_step bs op a a'" "op_allowed bs N op (length a)" for op a a'
    using that by (cases op) (auto simp: items_step_simps)
qed

text \<open>
  C37: A dynamic array is a list of items: whatever sequence of pushing, inserting, writing, removing,
  swapping, resizing and clearing is run on a new array, with all the doublings of its block, every
  operation succeeds without an access outside of the block, and the array holds the items that
  the sequence gives on a plain list.  The indices have to be in range and the memory has to be there for at
  most \<open>N\<close> items.
\<close>

theorem cellarray_refines_list:
  assumes "0 < bs" "4 * bs * max (if base > 0 then base else 8) (2 * N) < 2 ^ 32" "\<forall>n < 2 ^ 32. gives e n"
    "ops_allowed (op_allowed bs N) items_after ops 0"
  shows "\<exists>v xs. run_ops (apply_op e) ops (CellArray bs base) = Inr (True, v) \<and> spec_run (items_step bs) ops [] xs
    \<and> m_Size v = length xs \<and> (\<forall>i < length xs. get_cells v (array_at v i) bs = Inr (xs ! i))"
proof -
  have "stands_for e N bs (CellArray bs base) []"
    using assms by (simp add: stands_for_def array_items_def blocks_def sound_def roomy_def data_of_def CellArray_def)
  then obtain v xs where v: "run_ops (apply_op e) ops (CellArray bs base) = Inr (True, v)" "stands_for e N bs v xs"
      "spec_run (items_step bs) ops [] xs"
    using arrays.simulates_run [of e N bs "CellArray bs base" "[]" ops] assms(4) by auto
  have b: "blocks v xs" "m_Size v = length xs" "m_BlockSize v = bs" using v(2) by (simp_all add: stands_for_def array_items_def)
  have "get_cells v (array_at v i) bs = Inr (xs ! i)" if "i < length xs" for i
    using get_item [OF b(1) that] small_index(1) [of v i] blocks_length [OF b(1)] b(1,3) that by (simp add: blocks_def)
  then show ?thesis using v(1,3) b(2) by blast
qed

theorem cellarray_refines_list_witness:
  "\<exists>v xs. run_ops (apply_op \<lparr>gives = \<lambda>_. True, fills = \<lambda>_. 7\<rparr>) [Push [1, 2], Insert 0 [3, 4], Swap 0 1, Remove 0, Resize 3] (CellArray 2 1) = Inr (True, v)
    \<and> spec_run (items_step 2) [Push [1, 2], Insert 0 [3, 4], Swap 0 1, Remove 0, Resize 3] [] xs
    \<and> m_Size v = length xs \<and> (\<forall>i < length xs. get_cells v (array_at v i) 2 = Inr (xs ! i))"
  by (rule cellarray_refines_list [where N = 10]) simp_all

section \<open>Where it is not\<close>

text \<open>
  A size that no doubling reaches: the loop of \<open>GrowIfNeeded\<close> doubles the capacity to zero and goes
  on for ever.  \<open>ArrayResize\<close> passes a negative size on as such a number.
\<close>

lemma double_until_numeral:
  "double_until (numeral k) needed capacity =
    (if needed > wrap (capacity * 2) then double_until (pred_numeral k) needed (wrap (capacity * 2)) else Inr (wrap (capacity * 2)))"
  by (simp add: numeral_eq_Suc Let_def)

lemma resize_forever: "array_resize e (2 ^ 32 - 1) (CellArray bs 0) = Inl NoReturn"
proof -
  have "double_until 32 (2 ^ 32 - 1) 8 = Inl NoReturn" by (simp add: double_until_numeral wrap_def)
  then show ?thesis by (simp add: array_resize_def GrowIfNeeded_def CellArray_def wrap_def)
qed

text \<open>
  When \<open>realloc\<close> fails the old block is lost and the larger capacity stays noted: the next item is taken for
  stored, and writing it goes through a null pointer.
\<close>

lemma failed_growth_forgotten:
  assumes "GrowIfNeeded e 1 v = Inr (False, v')" "m_Size v + 1 < 2 ^ 32"
  shows "\<exists>p v''. array_push e' v' = Inr (Some p, v'') \<and> put_cells v'' p cs = Inl NullDeref"
proof -
  have w: "wrap (m_Size v + 1) = m_Size v + 1" using assms(2) by (simp add: wrap_small)
  obtain alloc where a: "v' = v\<lparr>m_AllocSize := alloc, m_Data := None\<rparr>" "m_Size v + 1 \<le> alloc"
  proof -
    define c where "c = (if m_AllocSize v = 0 then m_BaseSize v else m_AllocSize v)"
    have n: "\<not> wrap (m_Size v + 1) \<le> m_AllocSize v" using assms(1) by (auto simp: GrowIfNeeded_def)
    then obtain d where d: "(if m_Size v + 1 > c then double_until 32 (m_Size v + 1) c else Inr c) = Inr d"
        "v' = v\<lparr>m_AllocSize := d, m_Data := None\<rparr>"
      using assms(1) unfolding GrowIfNeeded_def Let_def w c_def [symmetric] by (auto simp: bindR_Inr_iff split: if_splits)
    have "needed \<le> d" if "double_until n needed cap = Inr d" for n needed cap
      using that by (induction n arbitrary: cap) (auto simp: Let_def split: if_splits)
    then have "m_Size v + 1 \<le> d" using d(1) by (auto split: if_splits)
    then show thesis using that d(2) by blast
  qed
  then show ?thesis using w by (simp add: array_push_def GrowIfNeeded_def put_cells_def)
qed

end
