(* ===== verification/Arraynatives.thy ===== *)
theory Arraynatives
  imports Cellarray
begin

unbundle bit_operations_syntax

text \<open>
  The natives for dynamic arrays (\<open>amxmodx/datastructs.cpp\<close>) and the handles plugins use
  (\<open>NativeHandle\<close> of \<open>natives_handles.h\<close>).

  A native gets its parameters as an array whose first cell is the number of their bytes.  What
  it reads and changes is a record: the memory of the plugin, the arrays by handle, and the
  errors it logs, which have the arguments of their texts.  Sorting calls back into the plugin and is not modelled.
\<close>

section \<open>Handles\<close>

text \<open>A table of objects; destroyed ones leave a hole that is used again.  Handles start at one.\<close>

definition handle_lookup :: "'a option list \<Rightarrow> nat \<Rightarrow> 'a option" where
  "handle_lookup hs handle =
     (let handle = wrap (handle + 2 ^ 32 - 1) in if handle \<ge> length hs then None else hs ! handle)"

fun first_hole :: "'a option list \<Rightarrow> nat \<Rightarrow> nat option" where
  "first_hole [] i = None"
| "first_hole (x # hs) i = (if x = None then Some i else first_hole hs (i + 1))"

definition handle_create :: "'a option list \<Rightarrow> 'a \<Rightarrow> nat \<times> 'a option list" where
  "handle_create hs x =
     (case first_hole hs 0 of Some i \<Rightarrow> (i + 1, hs[i := Some x]) | None \<Rightarrow> (length hs + 1, hs @ [Some x]))"

definition handle_destroy :: "'a option list \<Rightarrow> nat \<Rightarrow> bool \<times> 'a option list" where
  "handle_destroy hs handle =
     (let handle = wrap (handle + 2 ^ 32 - 1) in
      if handle \<ge> length hs then (False, hs)
      else if hs ! handle = None then (False, hs)
      else (True, hs[handle := None]))"

section \<open>The natives\<close>

datatype message =
    InvalidArraySize cell | InvalidHandle cell | CannotResize cell | CloneFailed | GrowFailed
  | InvalidIndex nat nat | InvalidBlock nat nat | InvalidByte nat nat | InvalidItem nat nat

record host =
  plugin :: mem
  arrays :: "cellarray option list"
  logs :: "message list"

definition LogError :: "message \<Rightarrow> host \<Rightarrow> host" where
  "LogError m h = h\<lparr>logs := logs h @ [m]\<rparr>"

definition param :: "cell list \<Rightarrow> nat \<Rightarrow> cell res" where
  "param ps i = (if i < length ps then Inr (ps ! i) else Inl OutOfBounds)"

text \<open>\<open>*params / sizeof(cell)\<close>.\<close>

definition num_params :: "cell list \<Rightarrow> nat res" where
  "num_params ps = bindR (param ps 0) (\<lambda>n. Inr (unat n div 4))"

text \<open>The array a native works on, and putting it back.\<close>

definition with_array :: "cell list \<Rightarrow> cell \<Rightarrow> host \<Rightarrow> (nat \<Rightarrow> cellarray \<Rightarrow> (cell \<times> host) res) \<Rightarrow> (cell \<times> host) res" where
  "with_array ps fail h k =
     bindR (param ps 1) (\<lambda>w. case handle_lookup (arrays h) (unat w) of
         None \<Rightarrow> Inr (fail, LogError (InvalidHandle w) h)
       | Some v \<Rightarrow> k (unat w) v)"

definition put_array :: "nat \<Rightarrow> cellarray \<Rightarrow> host \<Rightarrow> host" where
  "put_array w v h = h\<lparr>arrays := (arrays h)[w - 1 := Some v]\<rparr>"

text \<open>The test of the second parameter.\<close>

definition with_item :: "cell list \<Rightarrow> host \<Rightarrow> (nat \<Rightarrow> cellarray \<Rightarrow> nat \<Rightarrow> (cell \<times> host) res) \<Rightarrow> (cell \<times> host) res" where
  "with_item ps h k =
     with_array ps 0 h (\<lambda>w v. bindR (param ps 2) (\<lambda>i.
       if unat i \<ge> m_Size v then Inr (0, LogError (InvalidIndex (unat i) (m_Size v)) h) else k w v (unat i)))"

definition ArrayCreate :: "cell list \<Rightarrow> host \<Rightarrow> (cell \<times> host) res" where
  "ArrayCreate ps h =
     bindR (param ps 1) (\<lambda>cellsize. bindR (param ps 2) (\<lambda>reserved.
       if cellsize \<le>s 0 then Inr (- 1, LogError (InvalidArraySize cellsize) h)
       else let reserved = (if reserved <s 0 then 0 else reserved);
                (w, hs) = handle_create (arrays h) (CellArray (unat cellsize) (unat reserved))
            in Inr (word_of_nat w, h\<lparr>arrays := hs\<rparr>)))"

definition ArrayClear :: "cell list \<Rightarrow> host \<Rightarrow> (cell \<times> host) res" where
  "ArrayClear ps h = with_array ps 0 h (\<lambda>w v. Inr (1, put_array w (array_clear v) h))"

definition ArraySize :: "cell list \<Rightarrow> host \<Rightarrow> (cell \<times> host) res" where
  "ArraySize ps h = with_array ps 0 h (\<lambda>w v. Inr (word_of_nat (m_Size v), h))"

definition ArrayResize :: "allocator \<Rightarrow> cell list \<Rightarrow> host \<Rightarrow> (cell \<times> host) res" where
  "ArrayResize e ps h =
     with_array ps 0 h (\<lambda>w v. bindR (param ps 2) (\<lambda>n. bindR (array_resize e (unat n) v) (\<lambda>(ok, v).
       let h = put_array w v h in if \<not> ok then Inr (0, LogError (CannotResize n) h) else Inr (1, h))))"

definition ArrayClone :: "allocator \<Rightarrow> cell list \<Rightarrow> host \<Rightarrow> (cell \<times> host) res" where
  "ArrayClone e ps h =
     with_array ps 0 h (\<lambda>w v. bindR (array_clone e v) (\<lambda>r. case r of
         None \<Rightarrow> Inr (0, LogError CloneFailed h)
       | Some a \<Rightarrow> let (w', hs) = handle_create (arrays h) a in Inr (word_of_nat w', h\<lparr>arrays := hs\<rparr>)))"

subsection \<open>Cells of the plugin\<close>

text \<open>All cells of the plugin from an address on, and writing some.\<close>

definition cells_from :: "mem \<Rightarrow> cell \<Rightarrow> cell list" where
  "cells_from m addr =
     (let a = sint addr in
      if a < 0 then [] else map (\<lambda>i. cell_of (take 4 (drop (nat a + 4 * i) m))) [0..<(length m - nat a) div 4])"

fun write_cells :: "mem \<Rightarrow> int \<Rightarrow> cell list \<Rightarrow> mem res" where
  "write_cells m a [] = Inr m"
| "write_cells m a (c # cs) = bindR (wr_cell m a c) (\<lambda>m. write_cells m (a + 4) cs)"

text \<open>The optional number of cells: -1 and numbers beyond the size of an item stand for the whole item.\<close>

definition cells_wanted :: "cell list \<Rightarrow> nat \<Rightarrow> cellarray \<Rightarrow> nat res" where
  "cells_wanted ps i v =
     bindR (num_params ps) (\<lambda>n. if n = i
       then bindR (param ps i) (\<lambda>k. Inr (if k \<noteq> - 1 \<and> unat k \<le> m_BlockSize v then unat k else m_BlockSize v))
       else Inr (m_BlockSize v))"

definition ArrayGetArray :: "cell list \<Rightarrow> host \<Rightarrow> (cell \<times> host) res" where
  "ArrayGetArray ps h =
     with_item ps h (\<lambda>w v idx. bindR (cells_wanted ps 4 v) (\<lambda>indexes. bindR (param ps 3) (\<lambda>addr.
       bindR (get_cells v (array_at v idx) (wrap (4 * indexes) div 4)) (\<lambda>cs.
       bindR (write_cells (plugin h) (sint addr) cs) (\<lambda>m. Inr (word_of_nat indexes, h\<lparr>plugin := m\<rparr>))))))"

definition ArraySetArray :: "cell list \<Rightarrow> host \<Rightarrow> (cell \<times> host) res" where
  "ArraySetArray ps h =
     with_item ps h (\<lambda>w v idx. bindR (cells_wanted ps 4 v) (\<lambda>indexes. bindR (param ps 3) (\<lambda>addr.
       bindR (peek (cells_from (plugin h) addr) 0 (wrap (4 * indexes) div 4)) (\<lambda>cs.
       bindR (put_cells v (array_at v idx) cs) (\<lambda>v. Inr (word_of_nat indexes, put_array w v h))))))"

text \<open>One byte of a cell, read with its sign and replaced.\<close>

definition get_byte :: "cell \<Rightarrow> nat \<Rightarrow> cell" where
  "get_byte c k = scast (ucast (drop_bit (8 * k) c) :: byte)"

definition set_byte :: "cell \<Rightarrow> nat \<Rightarrow> cell \<Rightarrow> cell" where
  "set_byte c k b = (c AND NOT (push_bit (8 * k) 0xFF)) OR push_bit (8 * k) (b AND 0xFF)"

definition ArrayGetCell :: "cell list \<Rightarrow> host \<Rightarrow> (cell \<times> host) res" where
  "ArrayGetCell ps h =
     with_item ps h (\<lambda>w v idx. let blk = array_at v idx in
       bindR (num_params ps) (\<lambda>n.
       if n \<le> 2 then bindR (get_cells v blk 1) (\<lambda>cs. Inr (cs ! 0, h))
       else bindR (param ps 3) (\<lambda>b. bindR (param ps 4) (\<lambda>asChar. let idx = unat b in
         if asChar = 0 then
           if idx \<ge> m_BlockSize v then Inr (0, LogError (InvalidBlock idx (m_BlockSize v)) h)
           else bindR (get_cells v (blk + idx) 1) (\<lambda>cs. Inr (cs ! 0, h))
         else
           if idx \<ge> wrap (m_BlockSize v * 4) then Inr (0, LogError (InvalidByte idx (wrap (m_BlockSize v * 4))) h)
           else bindR (get_cells v (blk + idx div 4) 1) (\<lambda>cs. Inr (get_byte (cs ! 0) (idx mod 4), h))))))"

definition ArraySetCell :: "cell list \<Rightarrow> host \<Rightarrow> (cell \<times> host) res" where
  "ArraySetCell ps h =
     with_item ps h (\<lambda>w v idx. let blk = array_at v idx in
       bindR (param ps 4) (\<lambda>b. bindR (num_params ps) (\<lambda>n. bindR (param ps 3) (\<lambda>c.
       if n \<le> 3 then bindR (put_cells v blk [c]) (\<lambda>v. Inr (1, put_array w v h))
       else bindR (param ps 5) (\<lambda>asChar. let idx = unat b in
         if asChar = 0 then
           if idx \<ge> m_BlockSize v then Inr (0, LogError (InvalidBlock idx (m_BlockSize v)) h)
           else bindR (put_cells v (blk + idx) [c]) (\<lambda>v. Inr (1, put_array w v h))
         else
           if idx \<ge> wrap (m_BlockSize v * 4) then Inr (0, LogError (InvalidByte idx (wrap (m_BlockSize v * 4))) h)
           else bindR (get_cells v (blk + idx div 4) 1) (\<lambda>cs.
             bindR (put_cells v (blk + idx div 4) [set_byte (cs ! 0) (idx mod 4) c]) (\<lambda>v. Inr (1, put_array w v h))))))))"

subsection \<open>Strings\<close>

text \<open>The cells of the block from an address on; \<open>amxstring_len\<close> in a block.\<close>

definition block_from :: "cellarray \<Rightarrow> nat \<Rightarrow> cell list res" where
  "block_from v p = bindR (derefR (m_Data v)) (\<lambda>d. Inr (drop p d))"

definition string_len :: "cell list \<Rightarrow> nat res" where
  "string_len cs = (if 0 \<in> set cs then Inr (length (takeWhile (\<lambda>c. c \<noteq> 0) cs)) else Inl OutOfBounds)"

definition ArrayGetString :: "cell list \<Rightarrow> host \<Rightarrow> (cell \<times> host) res" where
  "ArrayGetString ps h =
     with_item ps h (\<lambda>w v idx. bindR (block_from v (array_at v idx)) (\<lambda>blk. bindR (string_len blk) (\<lambda>n.
       bindR (param ps 3) (\<lambda>addr. bindR (param ps 4) (\<lambda>size.
       bindR (set_amxstring_utf8 (plugin h) addr blk n (unat size)) (\<lambda>(r, m). Inr (r, h\<lparr>plugin := m\<rparr>)))))))"

text \<open>\<open>strncopy(blk, str, ke::Min((size_t)len + 1, vec->blocksize()))\<close>.\<close>

definition string_cells :: "mem \<Rightarrow> cell \<Rightarrow> nat \<Rightarrow> (nat \<times> cell list) res" where
  "string_cells m addr blocksize =
     bindR (get_amxstring m addr) (\<lambda>str. strncopy (str @ [0]) (min (length str + 1) blocksize))"

definition ArraySetString :: "cell list \<Rightarrow> host \<Rightarrow> (cell \<times> host) res" where
  "ArraySetString ps h =
     with_item ps h (\<lambda>w v idx. bindR (param ps 3) (\<lambda>addr.
       bindR (string_cells (plugin h) addr (m_BlockSize v)) (\<lambda>(r, cs).
       bindR (put_cells v (array_at v idx) cs) (\<lambda>v. Inr (word_of_nat r, put_array w v h)))))"

subsection \<open>New items\<close>

text \<open>Pushing an item and writing cells at its start.\<close>

definition push_with :: "allocator \<Rightarrow> nat \<Rightarrow> cellarray \<Rightarrow> (cellarray \<Rightarrow> cell list res) \<Rightarrow> host \<Rightarrow> (cell \<times> host) res" where
  "push_with e w v src h =
     bindR (array_push e v) (\<lambda>(p, v). case p of
         None \<Rightarrow> Inr (0, LogError GrowFailed (put_array w v h))
       | Some blk \<Rightarrow> bindR (src v) (\<lambda>cs. bindR (put_cells v blk cs) (\<lambda>v.
           Inr (word_of_nat (m_Size v) - 1, put_array w v h))))"

definition ArrayPushArray :: "allocator \<Rightarrow> cell list \<Rightarrow> host \<Rightarrow> (cell \<times> host) res" where
  "ArrayPushArray e ps h =
     with_array ps 0 h (\<lambda>w v. push_with e w v (\<lambda>v. bindR (param ps 2) (\<lambda>addr. bindR (cells_wanted ps 3 v) (\<lambda>indexes.
       peek (cells_from (plugin h) addr) 0 (wrap (4 * indexes) div 4)))) h)"

definition ArrayPushCell :: "allocator \<Rightarrow> cell list \<Rightarrow> host \<Rightarrow> (cell \<times> host) res" where
  "ArrayPushCell e ps h = with_array ps 0 h (\<lambda>w v. push_with e w v (\<lambda>v. bindR (param ps 2) (\<lambda>c. Inr [c])) h)"

definition ArrayPushString :: "allocator \<Rightarrow> cell list \<Rightarrow> host \<Rightarrow> (cell \<times> host) res" where
  "ArrayPushString e ps h =
     with_array ps 0 h (\<lambda>w v. push_with e w v (\<lambda>v. bindR (param ps 2) (\<lambda>addr.
       bindR (strncopy (cells_from (plugin h) addr) (m_BlockSize v)) (\<lambda>(_, cs). Inr cs))) h)"

text \<open>
  The index of the new item, and inserting it; the result of \<open>insert_at\<close> is written through without a
  test.
\<close>

definition with_place :: "bool \<Rightarrow> cell list \<Rightarrow> host \<Rightarrow> (nat \<Rightarrow> cellarray \<Rightarrow> nat \<Rightarrow> (cell \<times> host) res) \<Rightarrow> (cell \<times> host) res" where
  "with_place after ps h k =
     with_array ps 0 h (\<lambda>w v. bindR (param ps 2) (\<lambda>i. let idx = unat (if after then i + 1 else i) in
       if (if after then idx > m_Size v else idx \<ge> m_Size v) then Inr (0, LogError (InvalidItem idx (m_Size v)) h) else k w v idx))"

definition insert_with :: "allocator \<Rightarrow> nat \<Rightarrow> cellarray \<Rightarrow> nat \<Rightarrow> cell list \<Rightarrow> cell \<Rightarrow> host \<Rightarrow> (cell \<times> host) res" where
  "insert_with e w v idx cs r h =
     bindR (array_insert_at e idx v) (\<lambda>(p, v). case p of
         None \<Rightarrow> Inl NullDeref
       | Some blk \<Rightarrow> bindR (put_cells v blk cs) (\<lambda>v. Inr (r, put_array w v h)))"

definition ArrayInsertArray :: "bool \<Rightarrow> allocator \<Rightarrow> cell list \<Rightarrow> host \<Rightarrow> (cell \<times> host) res" where
  "ArrayInsertArray after e ps h =
     with_place after ps h (\<lambda>w v idx. bindR (param ps 3) (\<lambda>addr.
       bindR (peek (cells_from (plugin h) addr) 0 (wrap (4 * m_BlockSize v) div 4)) (\<lambda>cs. insert_with e w v idx cs 1 h)))"

definition ArrayInsertCell :: "bool \<Rightarrow> allocator \<Rightarrow> cell list \<Rightarrow> host \<Rightarrow> (cell \<times> host) res" where
  "ArrayInsertCell after e ps h =
     with_place after ps h (\<lambda>w v idx. bindR (param ps 3) (\<lambda>c. insert_with e w v idx [c] 1 h))"

definition ArrayInsertString :: "bool \<Rightarrow> allocator \<Rightarrow> cell list \<Rightarrow> host \<Rightarrow> (cell \<times> host) res" where
  "ArrayInsertString after e ps h =
     with_place after ps h (\<lambda>w v idx. bindR (param ps 3) (\<lambda>addr.
       bindR (string_cells (plugin h) addr (m_BlockSize v)) (\<lambda>(r, cs). insert_with e w v idx cs (word_of_nat r) h)))"

text \<open>The six natives.\<close>

definition ArrayInsertArrayAfter :: "allocator \<Rightarrow> cell list \<Rightarrow> host \<Rightarrow> (cell \<times> host) res" where
  "ArrayInsertArrayAfter = ArrayInsertArray True"

definition ArrayInsertArrayBefore :: "allocator \<Rightarrow> cell list \<Rightarrow> host \<Rightarrow> (cell \<times> host) res" where
  "ArrayInsertArrayBefore = ArrayInsertArray False"

definition ArrayInsertCellAfter :: "allocator \<Rightarrow> cell list \<Rightarrow> host \<Rightarrow> (cell \<times> host) res" where
  "ArrayInsertCellAfter = ArrayInsertCell True"

definition ArrayInsertCellBefore :: "allocator \<Rightarrow> cell list \<Rightarrow> host \<Rightarrow> (cell \<times> host) res" where
  "ArrayInsertCellBefore = ArrayInsertCell False"

definition ArrayInsertStringAfter :: "allocator \<Rightarrow> cell list \<Rightarrow> host \<Rightarrow> (cell \<times> host) res" where
  "ArrayInsertStringAfter = ArrayInsertString True"

definition ArrayInsertStringBefore :: "allocator \<Rightarrow> cell list \<Rightarrow> host \<Rightarrow> (cell \<times> host) res" where
  "ArrayInsertStringBefore = ArrayInsertString False"

subsection \<open>Moving, deleting and finding items\<close>

definition ArraySwap :: "allocator \<Rightarrow> cell list \<Rightarrow> host \<Rightarrow> (cell \<times> host) res" where
  "ArraySwap e ps h =
     with_item ps h (\<lambda>w v idx1. bindR (param ps 3) (\<lambda>j.
       if unat j \<ge> m_Size v then Inr (0, LogError (InvalidIndex (unat j) (m_Size v)) h)
       else bindR (array_swap e idx1 (unat j) v) (\<lambda>(_, v). Inr (1, put_array w v h))))"

definition ArrayDeleteItem :: "cell list \<Rightarrow> host \<Rightarrow> (cell \<times> host) res" where
  "ArrayDeleteItem ps h = with_item ps h (\<lambda>w v idx. bindR (array_remove idx v) (\<lambda>v. Inr (1, put_array w v h)))"

definition ArrayDestroy :: "cell list \<Rightarrow> host \<Rightarrow> (cell \<times> host) res" where
  "ArrayDestroy ps h =
     bindR (param ps 1) (\<lambda>addr. bindR (rd_cell (plugin h) (sint addr)) (\<lambda>w.
       case handle_lookup (arrays h) (unat w) of None \<Rightarrow> Inr (0, h)
       | Some _ \<Rightarrow> let (ok, hs) = handle_destroy (arrays h) (unat w); h = h\<lparr>arrays := hs\<rparr> in
           if ok then bindR (wr_cell (plugin h) (sint addr) 0) (\<lambda>m. Inr (1, h\<lparr>plugin := m\<rparr>)) else Inr (1, h)))"

fun find_item :: "(nat \<Rightarrow> bool res) \<Rightarrow> nat \<Rightarrow> nat \<Rightarrow> cell res" where
  "find_item test i 0 = Inr (- 1)"
| "find_item test i (Suc n) = bindR (test i) (\<lambda>b. if b then Inr (word_of_nat i) else find_item test (i + 1) n)"

definition ArrayFindString :: "cell list \<Rightarrow> host \<Rightarrow> (cell \<times> host) res" where
  "ArrayFindString ps h =
     with_array ps (- 1) h (\<lambda>w v. bindR (param ps 2) (\<lambda>addr. let a = cells_from (plugin h) addr in
       bindR (string_len a) (\<lambda>n. let len = min (max 1 n) (m_BlockSize v) in
       bindR (find_item (\<lambda>i. bindR (block_from v (array_at v i)) (\<lambda>b. fastcellcmp a b len)) 0 (m_Size v)) (\<lambda>r. Inr (r, h)))))"

definition ArrayFindValue :: "cell list \<Rightarrow> host \<Rightarrow> (cell \<times> host) res" where
  "ArrayFindValue ps h =
     with_array ps (- 1) h (\<lambda>w v. bindR (param ps 2) (\<lambda>c.
       bindR (find_item (\<lambda>i. bindR (get_cells v (array_at v i) 1) (\<lambda>cs. Inr (c = cs ! 0))) 0 (m_Size v)) (\<lambda>r. Inr (r, h))))"

section \<open>Handles are a map\<close>

lemma handle_lookup_eq:
  assumes "length hs < 2 ^ 32 - 1" "w < 2 ^ 32"
  shows "handle_lookup hs w = (if w = 0 \<or> length hs < w then None else hs ! (w - 1))"
proof (cases "w = 0")
  case True
  then show ?thesis using assms(1) by (simp add: handle_lookup_def wrap_def)
next
  case False
  then have "wrap (w + 2 ^ 32 - 1) = w - 1" using wrap_diff [of 1 w 1] assms(2) by simp
  then show ?thesis using False by (auto simp: handle_lookup_def Let_def)
qed

lemma first_hole_Some: "first_hole hs i = Some j \<Longrightarrow> i \<le> j \<and> j - i < length hs \<and> hs ! (j - i) = None"
proof (induction hs arbitrary: i)
  case (Cons x hs)
  show ?case
  proof (cases "x = None")
    case False
    then have "i + 1 \<le> j \<and> j - (i + 1) < length hs \<and> hs ! (j - (i + 1)) = None" using Cons.prems False by (intro Cons.IH) (simp split: if_splits)
    then show ?thesis by (auto simp: nth_Cons' Suc_diff_Suc)
  qed (use Cons.prems in simp)
qed simp

text \<open>What a new handle is, and what the table holds under the other ones.\<close>

lemma handle_create_cases:
  assumes "handle_create hs x = (w, hs')"
  shows "0 < w \<and> w \<le> length hs \<and> hs ! (w - 1) = None \<and> hs' = hs[w - 1 := Some x] \<or> w = length hs + 1 \<and> hs' = hs @ [Some x]"
  using assms first_hole_Some [of hs 0] by (auto simp: handle_create_def split: option.splits)

text \<open>
  C38: The handles of the natives are a map: a new object gets a handle that was not in use and is never zero, and is
  found under it; every other handle keeps its object.  Destroying succeeds exactly for a
  handle in use, which then has no object, and again leaves all others alone.
\<close>

theorem handles_are_a_map:
  assumes "length hs < 2 ^ 32 - 2" "handle_create hs x = (w, hs')" "u < 2 ^ 32" "handle_destroy hs u = (ok, hs'')"
  shows "0 < w \<and> handle_lookup hs w = None \<and> handle_lookup hs' w = Some x
      \<and> (\<forall>t < 2 ^ 32. t \<noteq> w \<longrightarrow> handle_lookup hs' t = handle_lookup hs t)
    \<and> ok = (handle_lookup hs u \<noteq> None) \<and> handle_lookup hs'' u = None
      \<and> (\<forall>t < 2 ^ 32. t \<noteq> u \<longrightarrow> handle_lookup hs'' t = handle_lookup hs t)"
proof -
  note eq = handle_lookup_eq
  have "0 < w \<and> handle_lookup hs w = None \<and> handle_lookup hs' w = Some x
      \<and> (\<forall>t < 2 ^ 32. t \<noteq> w \<longrightarrow> handle_lookup hs' t = handle_lookup hs t)"
    using handle_create_cases [OF assms(2)] assms(1) by (auto simp: eq nth_append nth_list_update)
  moreover have "ok = (handle_lookup hs u \<noteq> None) \<and> handle_lookup hs'' u = None
      \<and> (\<forall>t < 2 ^ 32. t \<noteq> u \<longrightarrow> handle_lookup hs'' t = handle_lookup hs t)"
  proof (cases "u = 0")
    case True
    then have "wrap (u + 2 ^ 32 - 1) \<ge> length hs" using assms(1) by (simp add: wrap_def)
    then show ?thesis using assms True by (auto simp: handle_destroy_def eq)
  next
    case False
    then have "wrap (u + 2 ^ 32 - 1) = u - 1" using wrap_diff [of 1 u 1] assms(3) by simp
    then show ?thesis using assms False by (auto simp: handle_destroy_def Let_def eq nth_list_update split: if_splits)
  qed
  ultimately show ?thesis by blast
qed

theorem handles_are_a_map_witness:
  "handle_create [Some 5, None, Some (6 :: nat)] 7 = (2, [Some 5, Some 7, Some 6])
    \<and> handle_destroy [Some 5, None, Some (6 :: nat)] 3 = (True, [Some 5, None, None])
    \<and> handle_lookup [Some 5, Some 7, Some (6 :: nat)] 2 = Some 7"
proof -
  have c: "handle_create [Some 5, None, Some (6 :: nat)] 7 = (2, [Some 5, Some 7, Some 6])" by (simp add: handle_create_def)
  moreover have d: "handle_destroy [Some 5, None, Some (6 :: nat)] 3 = (True, [Some 5, None, None])"
    by (simp add: handle_destroy_def wrap_def)
  ultimately show ?thesis using handles_are_a_map [OF _ c _ d] by simp
qed

section \<open>Cells of items\<close>

lemma item_cells:
  assumes "array_items v xs" "i < length xs" "b < m_BlockSize v"
  shows "get_cells v (array_at v i + b) 1 = Inr [xs ! i ! b]"
    "\<exists>d. put_cells v (array_at v i + b) [c] = Inr (v\<lparr>m_Data := Some d\<rparr>) \<and> array_items (v\<lparr>m_Data := Some d\<rparr>) (xs[i := (xs ! i)[b := c]])"
proof -
  have bl: "blocks v xs" "m_Size v = length xs" using assms(1) by (simp_all add: array_items_def)
  let ?a = "concat (take i xs)" and ?x = "xs ! i"
  obtain r where r: "data_of v = ?a @ ?x @ concat (drop (Suc i) xs) @ r" "length ?a = i * m_BlockSize v" "length ?x = m_BlockSize v"
    using blocks_split [OF bl(1) assms(2)] .
  have some: "m_Data v \<noteq> None" using blocks_data [OF bl(1)] assms(2) by (cases xs) simp_all
  have "i \<le> m_AllocSize v" using blocks_length [OF bl(1)] assms(2) by simp
  then have at: "array_at v i = i * m_BlockSize v" using small_index(1) [of v i] bl(1) by (simp add: blocks_def)
  let ?p = "?a @ take b ?x" and ?q = "drop (Suc b) ?x @ concat (drop (Suc i) xs) @ r"
  have x: "?x = take b ?x @ [?x ! b] @ drop (Suc b) ?x" using id_take_nth_drop [of b ?x] assms(3) r(3) by simp
  have d: "data_of v = ?p @ [?x ! b] @ ?q" unfolding r(1) by (subst x) simp
  have p: "length ?p = array_at v i + b" using at r(2,3) assms(3) by simp
  show "get_cells v (array_at v i + b) 1 = Inr [?x ! b]" using get_parts [OF some d] unfolding p by simp
  let ?ys = "xs[i := ?x[b := c]]"
  have new: "concat ?ys @ r = ?p @ [c] @ ?q"
    using assms(2,3) r(3) by (simp add: upd_conv_take_nth_drop)
  have "put_cells v (array_at v i + b) [c] = Inr (v\<lparr>m_Data := Some (concat ?ys @ r)\<rparr>)"
    using put_parts [OF some d, of "[c]"] unfolding p new by simp
  moreover have "blocks (v\<lparr>m_Data := Some (concat ?ys @ r)\<rparr>) ?ys"
  proof (rule blocks_rebuild [OF bl(1) some])
    show "length (concat ?ys @ r) = length (data_of v)" unfolding new d by simp
    show "list_all (\<lambda>z. length z = m_BlockSize v) ?ys" using bl(1) r(3) by (auto simp: blocks_def list_all_iff dest: set_update_subset_insert [THEN subsetD])
  qed
  ultimately show "\<exists>d. put_cells v (array_at v i + b) [c] = Inr (v\<lparr>m_Data := Some d\<rparr>) \<and> array_items (v\<lparr>m_Data := Some d\<rparr>) ?ys"
    using bl(2) by (auto simp: array_items_def)
qed

definition cell_error :: "cellarray \<Rightarrow> cell \<Rightarrow> cell \<Rightarrow> message option" where
  "cell_error v i b =
     (if unat i \<ge> m_Size v then Some (InvalidIndex (unat i) (m_Size v))
      else if unat b \<ge> m_BlockSize v then Some (InvalidBlock (unat b) (m_BlockSize v)) else None)"

text \<open>
  C39: The natives that read and write a cell of an item stay inside the array for all parameters: an
  index or a block out of range is logged and nothing changes; otherwise the read gives
  the cell, and the write changes exactly this cell of this array, under no other handle, and nothing
  else of the plugin.
\<close>

theorem array_cell_access:
  assumes "length (arrays h) < 2 ^ 32 - 1" "handle_lookup (arrays h) (unat w) = Some v" "array_items v xs"
  shows "(case cell_error v i b of
      Some m \<Rightarrow> ArrayGetCell [16, w, i, b, 0] h = Inr (0, LogError m h) \<and> ArraySetCell [20, w, i, c, b, 0] h = Inr (0, LogError m h)
    | None \<Rightarrow> ArrayGetCell [16, w, i, b, 0] h = Inr (xs ! unat i ! unat b, h) \<and>
        (\<exists>h' v'. ArraySetCell [20, w, i, c, b, 0] h = Inr (1, h') \<and> plugin h' = plugin h \<and> logs h' = logs h
          \<and> handle_lookup (arrays h') (unat w) = Some v' \<and> array_items v' (xs[unat i := (xs ! unat i)[unat b := c]])
          \<and> (\<forall>u < 2 ^ 32. u \<noteq> unat w \<longrightarrow> handle_lookup (arrays h') u = handle_lookup (arrays h) u)))"
proof -
  have ps: "param (a # ps) 0 = Inr a" "param (a # ps) (numeral k) = param ps (pred_numeral k)" "param (a # ps) (Suc n) = param ps n"
    for a ps k n by (simp_all add: param_def numeral_eq_Suc)
  have n: "unat (16 :: cell) div 4 = 4" "unat (20 :: cell) div 4 = 5" by code_simp+
  have sz: "m_Size v = length xs" using assms(3) by (simp add: array_items_def)
  have w: "unat w < 2 ^ 32" using unsigned_less [of w, where 'a = nat] by simp
  have pos: "0 < unat w" "unat w \<le> length (arrays h)" using assms(2) unfolding handle_lookup_eq [OF assms(1) w] by (auto split: if_splits)
  have put: "handle_lookup (arrays (put_array (unat w) v' h)) u = (if u = unat w then Some v' else handle_lookup (arrays h) u)"
    if "u < 2 ^ 32" for u v'
    using pos assms(1) that by (auto simp: put_array_def handle_lookup_eq nth_list_update)
  show ?thesis
  proof (cases "unat i < length xs \<and> unat b < m_BlockSize v")
    case False
    then show ?thesis using assms(2) n
      by (auto simp: cell_error_def sz ArrayGetCell_def ArraySetCell_def with_item_def with_array_def ps num_params_def Let_def)
  next
    case True
    obtain d where d: "put_cells v (array_at v (unat i) + unat b) [c] = Inr (v\<lparr>m_Data := Some d\<rparr>)"
        "array_items (v\<lparr>m_Data := Some d\<rparr>) (xs[unat i := (xs ! unat i)[unat b := c]])"
      using item_cells(2) [OF assms(3), of "unat i" "unat b" c] True by blast
    have "ArraySetCell [20, w, i, c, b, 0] h = Inr (1, put_array (unat w) (v\<lparr>m_Data := Some d\<rparr>) h)"
      using True assms(2) n d(1) by (simp add: sz ArraySetCell_def with_item_def with_array_def ps num_params_def Let_def)
    moreover have "ArrayGetCell [16, w, i, b, 0] h = Inr (xs ! unat i ! unat b, h)"
      using True assms(2) n item_cells(1) [OF assms(3), of "unat i" "unat b"]
      by (simp add: sz ArrayGetCell_def with_item_def with_array_def ps num_params_def Let_def)
    moreover have "cell_error v i b = None" using True by (simp add: cell_error_def sz)
    ultimately show ?thesis using d(2) put w
      by (auto simp: put_array_def intro!: exI [of _ "put_array (unat w) (v\<lparr>m_Data := Some d\<rparr>) h"])
  qed
qed

theorem array_cell_access_witness:
  "\<exists>h' v'. ArraySetCell [20, 1, 1, 9, 0, 0] \<lparr>plugin = [], arrays = [Some \<lparr>m_Data = Some [1, 2, 3, 4], m_BlockSize = 2, m_AllocSize = 2, m_BaseSize = 8, m_Size = 2\<rparr>], logs = []\<rparr> = Inr (1, h')
    \<and> handle_lookup (arrays h') 1 = Some v' \<and> array_items v' [[1, 2], [9, 4]]"
proof -
  let ?v = "\<lparr>m_Data = Some [1, 2, 3, 4], m_BlockSize = 2, m_AllocSize = 2, m_BaseSize = 8, m_Size = 2\<rparr>"
  have "array_items ?v [[1, 2], [3, 4]]" by (simp add: array_items_def blocks_def sound_def data_of_def)
  moreover have "cell_error ?v 1 0 = None" by (simp add: cell_error_def)
  moreover have "handle_lookup [Some ?v] 1 = Some ?v" by (simp add: handle_lookup_def wrap_def)
  ultimately show ?thesis
    using array_cell_access [of "\<lparr>plugin = [], arrays = [Some ?v], logs = []\<rparr>" 1 ?v "[[1, 2], [3, 4]]" 1 0 9] by auto
qed

end
