(* ===== verification/Spec2Isabelle.thy ===== *)
theory Spec2Isabelle
  imports Memfile Lists Constvals Opnames Symhash Numbers Binfile Opcodes Asm Codesize Peephole Peepsize Staging Symbols Codegen Account Optimizer Reorder Expression Amxstr Amxsafe Folding Chain Amxload Loader Errors Automata Datapack Amxutf Cellarray Arraynatives
begin

text \<open>
  A verification library for the Pawn tool chain of the repository: the compiler
  \<open>src/amx/compiler/libpc300\<close>, the abstract machine \<open>src/amx/amxmodx/amx.cpp\<close> that runs its output, and
  the data types the host AMX Mod X offers to the programs.

  \<^bold>\<open>How the parts fit together.\<close>  The parser calls the code generator (\<open>sc4.c\<close>), whose
  functions write assembler text and add the size of every instruction to \<open>code_idx\<close>, the source of all label
  positions.  Inside an expression the text goes to the staging buffer (\<open>sc7.c\<close>), which puts the arguments of calls in
  order and runs the peephole optimizer over it, correcting \<open>code_idx\<close> by what the table of sequences notes as
  saved.  The text ends in an in-memory file (\<open>memfile.c\<close>, \<open>scmemfil.c\<close>), the assembler (\<open>sc6.c\<close>) reads it
  twice, once for the addresses of the labels and once to write cells, which the output file
  (\<open>libpawnc.c\<close>) stores, in compact form if asked for.  The loader (\<open>amx_Init\<close>) expands and
  relocates them, and \<open>amx_Exec\<close> executes them on a memory with a heap and a stack.

  \<^bold>\<open>Theories and sources.\<close>
    \<^item> \<open>Prelude\<close>: outcomes (a fault is a value), C strings, blocks of memory, and the lemmas they share.
    \<^item> \<open>Memfile\<close>: \<open>memfile.c\<close>, \<open>scmemfil.c\<close>.  \<open>Lists\<close>: \<open>sclist.c\<close>.  \<open>Constvals\<close>, \<open>Opnames\<close>: the lists of
      constants, the tags and the names of operators of \<open>sc1.c\<close>.  \<open>Symhash\<close>: \<open>sp_symhash.c\<close>.  \<open>Symbols\<close>: referrers and usage of
      symbols in \<open>sc2.c\<close>.  \<open>Automata\<close>: \<open>scstate.c\<close>.  \<open>Errors\<close>: \<open>sc5.c\<close>.
    \<^item> \<open>Numbers\<close>: literals of \<open>sc2.c\<close>, \<open>itoh\<close>, \<open>hex2long\<close>.  \<open>Opcodes\<close>, \<open>Asm\<close>: the instructions, the handlers and the two passes of
      \<open>sc6.c\<close>.  \<open>Binfile\<close>: the output file and the compact encoding, with the expansion in \<open>amx.cpp\<close>.
    \<^item> \<open>Codegen\<close>: \<open>sc4.c\<close>.  \<open>Peephole\<close>: \<open>sc7-in.scp\<close> and the matching of \<open>sc7.c\<close>.  \<open>Staging\<close>: the staging buffer of \<open>sc7.c\<close>.
      \<open>Folding\<close>, \<open>Chain\<close>: \<open>calc\<close> and the chained comparisons of \<open>sc3.c\<close>.
    \<^item> \<open>Amx\<close>, \<open>Amxstr\<close>, \<open>Amxload\<close>, \<open>Amxexec\<close>: \<open>amx.cpp\<close> with its interface to the host, strings, loader and
      interpreter, and \<open>optimizer.cpp\<close>.
    \<^item> \<open>Amxutf\<close>: strings of plugins in \<open>string.cpp\<close> and \<open>util.cpp\<close>.  \<open>Datapack\<close>: \<open>CDataPack.cpp\<close>.  \<open>Cellarray\<close>, \<open>Arraynatives\<close>:
      \<open>datastructs.h\<close>, \<open>datastructs.cpp\<close>, \<open>natives_handles.h\<close>.
    \<^item> Theorems on several of them: \<open>Codesize\<close>, \<open>Peepsize\<close>, \<open>Account\<close>, \<open>Optimizer\<close>, \<open>Reorder\<close>, \<open>Expression\<close> (the
      account of the code size from the generator to the assembler), \<open>Loader\<close> (assembled code and its
      relocation), \<open>Amxsafe\<close> (what every instruction leaves alone).

  \<^bold>\<open>What the lemmas show.\<close>  Definitions carry the names of the functions and types of the source; a
  name in use gets a suffix or the name of its class.
    \<^item> \<^emph>\<open>The size account.\<close>  Every emitter of \<open>sc4.c\<close> adds to \<open>code_idx\<close> what the first pass of the assembler counts for its text
      (\<open>generator_keeps_count\<close>); every sequence of the optimizer saves what the table notes and shortens the text, so its loops
      end, with nothing left to match (\<open>sequence_table_sound\<close>, \<open>optimizer_fixed_point\<close>); the staging buffer only permutes the text (\<open>stgout_reorders\<close>).
      Together an expression keeps \<open>code_idx\<close> exact (\<open>expression_keeps_count\<close>), the addresses of the labels are the
      offsets of the bytes written (\<open>label_placement\<close>), and the loader makes them absolute
      (\<open>loader_relocates_assembled\<close>).
    \<^item> \<^emph>\<open>Meaning.\<close>  A constant the compiler folds is what the emitted, assembled and executed instructions compute
      (\<open>calc_agrees_with_code\<close>, \<open>chain_agrees_with_folding\<close>).
    \<^item> \<^emph>\<open>Tables.\<close>  Each table of the compiler has an invariant that its operations keep and a lookup after update;
      \<open>string_table\<close>, \<open>fifo\<close>, \<open>symbol_set\<close>, \<open>text_file\<close>, \<open>segment_output\<close> and \<open>container\<close> are the interfaces, each
      interpreted on the model of the code.
    \<^item> \<^emph>\<open>Machine.\<close>  An execution keeps the layout of the memory whatever the code does, and resets the stack and the heap when it
      ends or aborts (\<open>amx_Exec_unwinds\<close>); the exceptions are sleeping and the tests \<open>CHKMARGIN\<close>, \<open>CHKSTACK\<close> and \<open>CHKHEAP\<close>, which
      return without resetting them (\<open>amx_Exec_margin_leaks\<close>).  An indirect store changes one cell or is refused (\<open>stor_i_safe\<close>).
      Compact code is expanded in place without overflowing the ring of waiting cells (\<open>compact_code_roundtrip\<close>).
    \<^item> \<^emph>\<open>Host.\<close>  Arrays refine lists, handles are a map, data packs return what was packed, and text in UTF-8
      is cut between characters.
    \<^item> Where the code does not do what it means to, a lemma says so: \<open>resize_changes_winner\<close>, \<open>mfdump_result_wrong\<close>, \<open>division_wraps\<close>,
      \<open>load_i_unaligned\<close>, \<open>amx_Allot_wraps\<close>, \<open>datapack_size_exceeds\<close>, \<open>resize_forever\<close>, \<open>failed_growth_forgotten\<close> and others.

  \<^bold>\<open>Conventions and bounds.\<close>  The build is the default one of the repository: cells, \<open>int\<close>, \<open>long\<close> and
  \<open>size_t\<close> of 32 bits, little endian, \<open>char\<close> signed where its value is used.  Machine integers are words, or
  numbers with the wrap-around written out.  A failed \<open>assert\<close>, a fatal error of the compiler, an access outside of a block,
  a null dereference and a loop that does not end are faults (\<open>Prelude\<close>).  What fresh memory holds, and
  where the theories say so whether there is any, are parameters.
  Loops that end are recursive functions with a proof of termination.  Fuel is used three times:
  \<open>exec_loop\<close>, since the code of a program may run for ever, so that statements on \<open>amx_Exec\<close> are on
  the executions that return; \<open>browse_loop\<close>, since the code may send it backwards, and
  more fuel than the program has cells is enough for assembled code, which the theorem includes; and
  \<open>double_until\<close>, with 32 steps, after which a number of 32 bits can only be zero (\<open>double_until_forever\<close>).
  The natives, the debug hook and the floating point unit of the machine and the host's answer to
  an error of the compiler are functions passed to the definitions.

  \<^bold>\<open>Not modelled.\<close>  In the compiler: the driver and the declarations and statements of \<open>sc1.c\<close>, the lexer
  and preprocessor of \<open>sc2.c\<close>, and the levels of the expression parser in \<open>sc3.c\<close>, which work on about
  a hundred global variables and on input files; the header tables and debug information of \<open>sc6.c\<close>; code pages (\<open>sci18n.c\<close>); the
  file system side of \<open>libpawnc.c\<close>; the prefix of installation paths (\<open>prefix.c\<close>); rational literals, which need floating
  point.  In the machine: \<open>amx_Clone\<close>, \<open>amx_Cleanup\<close>, the UTF-8 functions that \<open>AMX_ANSIONLY\<close> switches
  off, and the assembler versions and the JIT compiler, which are not C.  In AMX Mod X: events, menus, commands, tasks,
  forwards and the natives over the game engine, whose behaviour is in the engine and the plugins; sorting of arrays, which
  calls plugins back.  The modules, the game SDK (\<open>src/hlsdk\<close>) and the third-party libraries are outside of the tool
  chain.
\<close>

end
